(* ===== verification/Prelude.thy ===== *)
theory Prelude
  imports Main "HOL-Library.Word" "HOL-Library.Multiset" "HOL-Library.List_Lexorder"
    "HOL-Library.Product_Lexorder" "HOL-Library.Char_ord"
begin

text \<open>
  What every component shares: the raw id types of \<open>core/src/lib.rs\<close>, Rust's
  \<open>Ordering\<close> and the laws a comparison function owes its callers (the locale
  \<open>total_cmp\<close>), the standard library's slice operations the code calls
  (\<open>sort_unstable_by\<close>, \<open>dedup\<close>, \<open>binary_search_by\<close>, \<open>partition_point\<close>) and generic
  facts on lists. The lexicographic order on lists is Rust's order on slices, the one on
  products Rust's order on tuples.
\<close>

named_theorems wf_intros "introduction rules for the well-formedness invariants"
named_theorems len_simps "lengths of the arrays the operations return"

declare Let_def [simp]

subsection \<open>Raw ids\<close>

type_synonym node_id = "64 word"
type_synonym category = "32 word"
type_synonym cell_kind = "32 word"
type_synonym byte = "8 word"

text \<open>The bytes of a Rust string: a character of a HOL string is one UTF-8 byte.\<close>

definition as_bytes :: "string \<Rightarrow> byte list" where
  "as_bytes s = map of_char s"

lemma of_char_byte_inject: "(of_char a :: byte) = of_char b \<longleftrightarrow> a = b"
proof
  assume eq: "(of_char a :: byte) = of_char b"
  have "unat (of_char c :: byte) = (of_char c :: nat)" for c :: char
  proof -
    have "(of_char c :: byte) = of_nat (of_char c)"
      using of_nat_of_char [of c] by (rule sym)
    moreover have "(of_char c :: nat) < 2 ^ LENGTH(8)"
      using nat_of_char_less_256 [of c] by simp
    ultimately show ?thesis by (simp add: unat_of_nat)
  qed
  then have "(of_char a :: nat) = of_char b" using eq by metis
  then show "a = b" by simp
qed simp

lemma as_bytes_inject [simp]: "as_bytes a = as_bytes b \<longleftrightarrow> a = b"
  by (simp add: as_bytes_def inj_map_eq_map inj_def of_char_byte_inject)

subsection \<open>Orderings and comparison functions\<close>

datatype ordering = Less | Equal | Greater

fun then_with :: "ordering \<Rightarrow> ordering \<Rightarrow> ordering" where
  "then_with Equal o2 = o2"
| "then_with o1 _ = o1"

fun flip_ordering :: "ordering \<Rightarrow> ordering" where
  "flip_ordering Less = Greater"
| "flip_ordering Equal = Equal"
| "flip_ordering Greater = Less"

definition cmp_of :: "'a::linorder \<Rightarrow> 'a \<Rightarrow> ordering" where
  "cmp_of a b = (if a < b then Less else if a = b then Equal else Greater)"

lemma cmp_of_simps [simp]:
  "cmp_of a b = Less \<longleftrightarrow> a < b"
  "cmp_of a b = Equal \<longleftrightarrow> a = b"
  "cmp_of a b = Greater \<longleftrightarrow> b < a"
  by (auto simp: cmp_of_def)

lemma then_with_eq:
  "then_with a b = Less \<longleftrightarrow> a = Less \<or> (a = Equal \<and> b = Less)"
  "then_with a b = Equal \<longleftrightarrow> a = Equal \<and> b = Equal"
  "then_with a b = Greater \<longleftrightarrow> a = Greater \<or> (a = Equal \<and> b = Greater)"
  by (cases a; simp)+

text \<open>The contract of a comparison function that is a total order on its values.\<close>

locale total_cmp =
  fixes cmp :: "'a \<Rightarrow> 'a \<Rightarrow> ordering"
  assumes cmp_Equal: "cmp a b = Equal \<longleftrightarrow> a = b"
    and cmp_flip: "cmp b a = flip_ordering (cmp a b)"
    and cmp_trans: "cmp a b = Less \<Longrightarrow> cmp b c = Less \<Longrightarrow> cmp a c = Less"
begin

definition cle :: "'a \<Rightarrow> 'a \<Rightarrow> bool" where
  "cle a b \<longleftrightarrow> cmp a b \<noteq> Greater"

lemma cle_refl: "cle a a"
  using cmp_Equal [of a a] by (simp add: cle_def)

lemma cle_antisym: "cle a b \<Longrightarrow> cle b a \<Longrightarrow> a = b"
  using cmp_flip [of a b] cmp_Equal [of a b]
  by (cases "cmp a b"; cases "cmp b a") (auto simp: cle_def)

lemma cle_trans: "cle a b \<Longrightarrow> cle b c \<Longrightarrow> cle a c"
  by (metis cle_def cmp_Equal cmp_trans ordering.exhaust)

lemma cle_linear: "cle a b \<or> cle b a"
  using cmp_flip [of a b] by (cases "cmp a b") (auto simp: cle_def)

lemma sorted_unique:
  assumes "sorted_wrt cle xs" and "sorted_wrt cle ys" and "mset xs = mset ys"
  shows "xs = ys"
  using assms
proof (induction xs arbitrary: ys)
  case Nil
  then show ?case by simp
next
  case (Cons x xs)
  then obtain y ys' where ys: "ys = y # ys'" by (cases ys) auto
  have "x \<in> set ys" using Cons.prems(3) by (metis list.set_intros(1) set_mset_mset)
  then have yx: "cle y x" using Cons.prems(2) ys by (auto simp: cle_refl)
  have "y \<in> set (x # xs)" using Cons.prems(3) ys by (metis list.set_intros(1) set_mset_mset)
  then have "cle x y" using Cons.prems(1) by (auto simp: cle_refl)
  with yx have "x = y" by (rule cle_antisym [symmetric])
  with Cons ys show ?case by simp
qed

end

text \<open>
  \<open>slice::sort_unstable_by\<close> under a comparison function. An unstable sort may return any
  sorted permutation; under a total order there is one (\<open>sorted_unique\<close>), so an insertion
  sort models it.
\<close>

fun insort_cmp :: "('a \<Rightarrow> 'a \<Rightarrow> ordering) \<Rightarrow> 'a \<Rightarrow> 'a list \<Rightarrow> 'a list" where
  "insort_cmp cmp x [] = [x]"
| "insort_cmp cmp x (y # ys) =
     (if cmp x y = Greater then y # insort_cmp cmp x ys else x # y # ys)"

definition sort_cmp :: "('a \<Rightarrow> 'a \<Rightarrow> ordering) \<Rightarrow> 'a list \<Rightarrow> 'a list" where
  "sort_cmp cmp xs = foldr (insort_cmp cmp) xs []"

lemma mset_insort_cmp [simp]: "mset (insort_cmp cmp x xs) = add_mset x (mset xs)"
  by (induction xs) auto

lemma mset_sort_cmp [simp]: "mset (sort_cmp cmp xs) = mset xs"
  by (induction xs) (auto simp: sort_cmp_def)

context total_cmp
begin

lemma sorted_insort_cmp: "sorted_wrt cle xs \<Longrightarrow> sorted_wrt cle (insort_cmp cmp x xs)"
proof (induction xs)
  case Nil
  then show ?case by simp
next
  case (Cons y ys)
  have set: "set (insort_cmp cmp x ys) = insert x (set ys)"
    by (metis mset_insort_cmp set_mset_add_mset_insert set_mset_mset)
  show ?case
  proof (cases "cmp x y = Greater")
    case True
    then have "cle y x" using cle_linear [of x y] by (auto simp: cle_def)
    with True Cons set show ?thesis by auto
  next
    case False
    then have xy: "cle x y" by (simp add: cle_def)
    then have "\<forall>z \<in> set ys. cle x z" using Cons.prems by (auto intro: cle_trans)
    with False xy Cons.prems show ?thesis by simp
  qed
qed

lemma sorted_sort_cmp: "sorted_wrt cle (sort_cmp cmp xs)"
  by (induction xs) (simp_all add: sort_cmp_def sorted_insort_cmp)

lemma sort_cmp_perm: "mset xs = mset ys \<Longrightarrow> sort_cmp cmp xs = sort_cmp cmp ys"
  by (rule sorted_unique) (simp_all add: sorted_sort_cmp)

lemma sort_cmp_sorted: "sorted_wrt cle xs \<Longrightarrow> sort_cmp cmp xs = xs"
  by (rule sorted_unique) (simp_all add: sorted_sort_cmp)

end

interpretation raw: total_cmp "cmp_of :: 'a::linorder \<Rightarrow> 'a \<Rightarrow> ordering"
proof (unfold_locales, goal_cases)
  case (1 a b)
  show ?case by simp
next
  case (2 b a)
  show ?case by (cases rule: linorder_cases [of a b]) (auto simp: cmp_of_def)
next
  case (3 a b c)
  then show ?case by auto
qed

subsection \<open>Slice operations of the standard library\<close>

text \<open>
  \<open>binary_search_by f\<close>: \<open>Inr i\<close> (Rust's \<open>Ok\<close>) for a position where \<open>f\<close> says \<open>Equal\<close>,
  else \<open>Inl i\<close> (\<open>Err\<close>), the position where such an element would go.
  \<open>partition_point\<close> is the standard library's own use of it.
\<close>

function bsearch :: "('a \<Rightarrow> ordering) \<Rightarrow> 'a list \<Rightarrow> nat \<Rightarrow> nat \<Rightarrow> nat + nat" where
  "bsearch f xs lo hi =
     (if lo < hi then
        let mid = lo + (hi - lo) div 2 in
        (case f (xs ! mid) of
           Less \<Rightarrow> bsearch f xs (Suc mid) hi
         | Equal \<Rightarrow> Inr mid
         | Greater \<Rightarrow> bsearch f xs lo mid)
      else Inl lo)"
  by pat_completeness auto
termination
  by (relation "measure (\<lambda>(f, xs, lo, hi). hi - lo)") auto

declare bsearch.simps [simp del]

definition binary_search_by :: "('a \<Rightarrow> ordering) \<Rightarrow> 'a list \<Rightarrow> nat + nat" where
  "binary_search_by f xs = bsearch f xs 0 (length xs)"

definition is_ok :: "'e + 'a \<Rightarrow> bool" where
  "is_ok r = (case r of Inl _ \<Rightarrow> False | Inr _ \<Rightarrow> True)"

lemma is_ok_simps [simp]: "is_ok (Inr a)" "\<not> is_ok (Inl e)"
  by (simp_all add: is_ok_def)

definition partition_point :: "('a \<Rightarrow> bool) \<Rightarrow> 'a list \<Rightarrow> nat" where
  "partition_point p xs =
     (case binary_search_by (\<lambda>x. if p x then Less else Greater) xs of Inl i \<Rightarrow> i | Inr i \<Rightarrow> i)"

text \<open>
  The contract: \<open>f\<close> is \<open>Less\<close> on a prefix, then \<open>Equal\<close>, then \<open>Greater\<close> on the rest.
\<close>

definition search_order :: "('a \<Rightarrow> ordering) \<Rightarrow> 'a list \<Rightarrow> bool" where
  "search_order f xs \<longleftrightarrow>
     (\<forall>i j. i \<le> j \<longrightarrow> j < length xs \<longrightarrow>
        (f (xs ! j) = Less \<longrightarrow> f (xs ! i) = Less) \<and>
        (f (xs ! i) = Greater \<longrightarrow> f (xs ! j) = Greater))"

lemma bsearch_sound:
  assumes "search_order f xs" and "hi \<le> length xs" and "lo \<le> hi"
    and "\<And>i. i < lo \<Longrightarrow> f (xs ! i) = Less"
    and "\<And>i. hi \<le> i \<Longrightarrow> i < length xs \<Longrightarrow> f (xs ! i) = Greater"
  shows "case bsearch f xs lo hi of
      Inr i \<Rightarrow> i < length xs \<and> f (xs ! i) = Equal
    | Inl i \<Rightarrow> i \<le> length xs \<and> (\<forall>j < i. f (xs ! j) = Less) \<and>
        (\<forall>j. i \<le> j \<and> j < length xs \<longrightarrow> f (xs ! j) = Greater)"
  using assms
proof (induction f xs lo hi rule: bsearch.induct)
  case (1 f xs lo hi)
  show ?case
  proof (cases "lo < hi")
    case False
    then show ?thesis using "1.prems" by (subst bsearch.simps) auto
  next
    case True
    define mid where "mid = lo + (hi - lo) div 2"
    have mid: "lo \<le> mid" "mid < hi" using True by (auto simp: mid_def)
    show ?thesis
    proof (cases "f (xs ! mid)")
      case Less
      have "bsearch f xs lo hi = bsearch f xs (Suc mid) hi"
        using True Less by (simp add: bsearch.simps [of f xs lo hi] mid_def)
      moreover have "f (xs ! i) = Less" if "i < Suc mid" for i
        using "1.prems"(1,2) Less mid that unfolding search_order_def
        by (metis less_Suc_eq_le order_less_le_trans)
      ultimately show ?thesis
        using "1.IH"(1)[OF True mid_def Less "1.prems"(1,2) _ _ "1.prems"(5)] mid by simp
    next
      case Equal
      then show ?thesis using True mid "1.prems"(2)
        by (simp add: bsearch.simps [of f xs lo hi] flip: mid_def)
    next
      case Greater
      have "bsearch f xs lo hi = bsearch f xs lo mid"
        using True Greater by (simp add: bsearch.simps [of f xs lo hi] mid_def)
      moreover have "f (xs ! i) = Greater" if "mid \<le> i" "i < length xs" for i
        using "1.prems"(1) Greater mid that unfolding search_order_def by blast
      ultimately show ?thesis
        using "1.IH"(2)[OF True mid_def Greater "1.prems"(1) _ _ "1.prems"(4)] mid "1.prems"(2)
        by simp
    qed
  qed
qed

lemma binary_search_by_sound:
  assumes "search_order f xs"
  shows "case binary_search_by f xs of
      Inr i \<Rightarrow> i < length xs \<and> f (xs ! i) = Equal
    | Inl i \<Rightarrow> i \<le> length xs \<and> (\<forall>j < i. f (xs ! j) = Less) \<and>
        (\<forall>j. i \<le> j \<and> j < length xs \<longrightarrow> f (xs ! j) = Greater)"
  unfolding binary_search_by_def by (rule bsearch_sound) (use assms in auto)

lemma search_order_key:
  assumes "sorted (map key xs)"
  shows "search_order (\<lambda>x. cmp_of (key x) k) xs"
  unfolding search_order_def using sorted_nth_mono [OF assms] by (fastforce simp: nth_map)

lemma binary_search_key:
  assumes "sorted (map key xs)"
  shows "is_ok (binary_search_by (\<lambda>x. cmp_of (key x) k) xs) \<longleftrightarrow> k \<in> key ` set xs"
    and "binary_search_by (\<lambda>x. cmp_of (key x) k) xs = Inr i \<Longrightarrow> i < length xs \<and> key (xs ! i) = k"
proof -
  note sound = binary_search_by_sound [OF search_order_key [OF assms, of k]]
  show "is_ok (binary_search_by (\<lambda>x. cmp_of (key x) k) xs) \<longleftrightarrow> k \<in> key ` set xs"
  proof (cases "binary_search_by (\<lambda>x. cmp_of (key x) k) xs")
    case (Inl p)
    have "key (xs ! j) \<noteq> k" if "j < length xs" for j
      using sound Inl that by (cases "j < p") (auto simp: not_less)
    then show ?thesis using Inl by (force simp: in_set_conv_nth)
  next
    case (Inr p)
    then show ?thesis using sound by auto
  qed
  show "binary_search_by (\<lambda>x. cmp_of (key x) k) xs = Inr i \<Longrightarrow> i < length xs \<and> key (xs ! i) = k"
    using sound by auto
qed

lemma partition_point_spec:
  assumes "\<And>i j. i \<le> j \<Longrightarrow> j < length xs \<Longrightarrow> p (xs ! j) \<Longrightarrow> p (xs ! i)"
  shows "partition_point p xs \<le> length xs"
    and "i < partition_point p xs \<Longrightarrow> p (xs ! i)"
    and "partition_point p xs \<le> i \<Longrightarrow> i < length xs \<Longrightarrow> \<not> p (xs ! i)"
proof -
  have "search_order (\<lambda>x. if p x then Less else Greater) xs"
    using assms by (auto simp: search_order_def)
  note sound = binary_search_by_sound [OF this]
  show "partition_point p xs \<le> length xs"
    "i < partition_point p xs \<Longrightarrow> p (xs ! i)"
    "partition_point p xs \<le> i \<Longrightarrow> i < length xs \<Longrightarrow> \<not> p (xs ! i)"
    using sound by (auto simp: partition_point_def split: sum.splits if_splits)
qed

subsection \<open>Lists\<close>

text \<open>\<open>&xs[from..to]\<close>.\<close>

definition slice :: "'a list \<Rightarrow> nat \<Rightarrow> nat \<Rightarrow> 'a list" where
  "slice xs from to = take (to - from) (drop from xs)"

text \<open>
  A flag vector's entry. Rust panics at a position past the end; here it reads as set, which
  keeps the loops that scan such vectors total. The invariants of the indexes
  (\<open>indexed_graph\<close>) keep every position the loops read in range.
\<close>

definition is_set :: "bool list \<Rightarrow> nat \<Rightarrow> bool" where
  "is_set v i \<longleftrightarrow> (i < length v \<longrightarrow> v ! i)"

text \<open>The list with each value kept at its first occurrence.\<close>

definition first_occ :: "'a list \<Rightarrow> 'a list" where
  "first_occ xs = rev (remdups (rev xs))"

lemma set_first_occ [simp]: "set (first_occ xs) = set xs"
  by (simp add: first_occ_def)

lemma distinct_first_occ [simp]: "distinct (first_occ xs)"
  by (simp add: first_occ_def)

lemma first_occ_Nil [simp]: "first_occ [] = []"
  by (simp add: first_occ_def)

lemma first_occ_snoc: "first_occ (xs @ [x]) = (if x \<in> set xs then first_occ xs else first_occ xs @ [x])"
  by (simp add: first_occ_def)

text \<open>\<open>sort_unstable\<close> then \<open>dedup\<close>: the distinct values in ascending order.\<close>

lemma distinct_dedup: "sorted xs \<Longrightarrow> distinct (remdups_adj xs)"
proof (induction xs rule: remdups_adj.induct)
  case (3 x y xs)
  then show ?case by (cases "x = y") auto
qed simp_all

lemma sort_dedup: "remdups_adj (sort xs) = sorted_list_of_set (set xs)"
  by (rule sorted_distinct_set_unique) (simp_all add: distinct_dedup)

text \<open>A loop whose body may not return: the fold stops at the first \<open>None\<close>.\<close>

fun fold_opt :: "('a \<Rightarrow> 's \<Rightarrow> 's option) \<Rightarrow> 'a list \<Rightarrow> 's \<Rightarrow> 's option" where
  "fold_opt f [] s = Some s"
| "fold_opt f (x # xs) s = (case f x s of None \<Rightarrow> None | Some s \<Rightarrow> fold_opt f xs s)"

lemma fold_opt_append:
  "fold_opt f (xs @ ys) s = (case fold_opt f xs s of None \<Rightarrow> None | Some s \<Rightarrow> fold_opt f ys s)"
  by (induction xs arbitrary: s) (simp_all split: option.splits)

end
