(* ===== verification/CoreGraph.thy ===== *)
theory CoreGraph
  imports Prelude
begin

text \<open>
  The graph records of \<open>core/src/lib.rs\<close>: confidences, cells, nodes and edges, the key an
  edge is compared by across builds, and the canonical total order edges are written in.
  The order is an instance of \<open>total_cmp\<close>, so a canonical sort does not depend on its
  input order.
\<close>

subsection \<open>Records\<close>

datatype confidence = Strong | Medium | Weak

datatype cell_payload =
    Text string
  | Json string
  | Bytes "byte list"

datatype cell = Cell (ckind: cell_kind) (cpayload: cell_payload)

record node =
  nid :: node_id
  nrepo :: "64 word"
  nconfidence :: confidence
  ncells :: "cell list"

record edge =
  efrom :: node_id
  eto :: node_id
  ecategory :: category
  econfidence :: confidence
  ecells :: "cell list"

subsection \<open>Operations on edges\<close>

definition edge_new :: "node_id \<Rightarrow> node_id \<Rightarrow> category \<Rightarrow> confidence \<Rightarrow> edge" where
  "edge_new from to cat conf =
     \<lparr>efrom = from, eto = to, ecategory = cat, econfidence = conf, ecells = []\<rparr>"

definition with_cell :: "edge \<Rightarrow> cell \<Rightarrow> edge" where
  "with_cell e c = e\<lparr>ecells := ecells e @ [c]\<rparr>"

definition edge_cell :: "edge \<Rightarrow> cell_kind \<Rightarrow> cell option" where
  "edge_cell e k = find (\<lambda>c. ckind c = k) (ecells e)"

definition edge_tuple :: "edge \<Rightarrow> node_id \<times> node_id \<times> category" where
  "edge_tuple e = (efrom e, eto e, ecategory e)"

subsection \<open>The canonical edge order\<close>

fun confidence_rank :: "confidence \<Rightarrow> nat" where
  "confidence_rank Strong = 0"
| "confidence_rank Medium = 1"
| "confidence_rank Weak = 2"

fun payload_order_key :: "cell_payload \<Rightarrow> nat \<times> byte list" where
  "payload_order_key (Text s) = (0, as_bytes s)"
| "payload_order_key (Json s) = (1, as_bytes s)"
| "payload_order_key (Bytes b) = (2, b)"

definition cell_cmp :: "cell \<Rightarrow> cell \<Rightarrow> ordering" where
  "cell_cmp a b =
     then_with (cmp_of (ckind a) (ckind b))
       (cmp_of (payload_order_key (cpayload a)) (payload_order_key (cpayload b)))"

text \<open>The loop of \<open>canonical_edge_cmp\<close> over the two cell iterators.\<close>

fun cells_cmp :: "cell list \<Rightarrow> cell list \<Rightarrow> ordering" where
  "cells_cmp [] [] = Equal"
| "cells_cmp [] (y # ys) = Less"
| "cells_cmp (x # xs) [] = Greater"
| "cells_cmp (x # xs) (y # ys) =
     (case cell_cmp x y of Equal \<Rightarrow> cells_cmp xs ys | other \<Rightarrow> other)"

definition canonical_edge_cmp :: "edge \<Rightarrow> edge \<Rightarrow> ordering" where
  "canonical_edge_cmp a b =
     then_with (cmp_of (efrom a) (efrom b))
      (then_with (cmp_of (eto a) (eto b))
       (then_with (cmp_of (ecategory a) (ecategory b))
        (then_with (cmp_of (confidence_rank (econfidence a)) (confidence_rank (econfidence b)))
          (cells_cmp (ecells a) (ecells b)))))"

lemma confidence_rank_inject [simp]: "confidence_rank a = confidence_rank b \<longleftrightarrow> a = b"
  by (cases a; cases b) auto

lemma payload_order_key_inject [simp]: "payload_order_key a = payload_order_key b \<longleftrightarrow> a = b"
  by (cases a; cases b) auto

text \<open>Comparing by a key whose equality is that of the values is a total order.\<close>

definition cell_key :: "cell \<Rightarrow> cell_kind \<times> nat \<times> byte list" where
  "cell_key c = (ckind c, payload_order_key (cpayload c))"

lemma cell_cmp_key: "cell_cmp a b = cmp_of (cell_key a) (cell_key b)"
  by (auto simp: cell_cmp_def cell_key_def cmp_of_def less_prod_def')

lemma cell_key_inject [simp]: "cell_key a = cell_key b \<longleftrightarrow> a = b"
  by (cases a; cases b) (auto simp: cell_key_def)

lemma cells_cmp_key: "cells_cmp xs ys = cmp_of (map cell_key xs) (map cell_key ys)"
proof (induction xs ys rule: cells_cmp.induct)
  case (4 x xs y ys)
  then show ?case
    by (auto simp: cell_cmp_key cmp_of_def inj_map_eq_map inj_def split: ordering.splits)
qed (auto simp: cmp_of_def)

definition edge_key ::
  "edge \<Rightarrow> node_id \<times> node_id \<times> category \<times> nat \<times> (cell_kind \<times> nat \<times> byte list) list" where
  "edge_key e = (efrom e, eto e, ecategory e, confidence_rank (econfidence e),
     map cell_key (ecells e))"

lemma canonical_edge_cmp_key: "canonical_edge_cmp a b = cmp_of (edge_key a) (edge_key b)"
  by (simp add: canonical_edge_cmp_def edge_key_def cells_cmp_key cmp_of_def less_prod_def')

lemma edge_key_inject [simp]: "edge_key (a :: edge) = edge_key b \<longleftrightarrow> a = b"
proof
  assume "edge_key a = edge_key b"
  then have "efrom a = efrom b" "eto a = eto b" "ecategory a = ecategory b"
    "econfidence a = econfidence b" "ecells a = ecells b"
    by (auto simp: edge_key_def inj_map_eq_map inj_def)
  then show "a = b" by simp
qed simp

interpretation canonical: total_cmp canonical_edge_cmp
proof (unfold_locales, goal_cases)
  case (1 a b)
  show ?case by (simp add: canonical_edge_cmp_key)
next
  case (2 b a)
  show ?case unfolding canonical_edge_cmp_key by (rule raw.cmp_flip)
next
  case (3 a b c)
  then show ?case unfolding canonical_edge_cmp_key by (rule raw.cmp_trans)
qed

subsection \<open>Properties\<close>

text \<open>
  C10: sorting edges with \<open>canonical_edge_cmp\<close> gives one list whatever order the edges came
  in, it is the same multiset of edges, and it is in canonical order.
\<close>

theorem canonical_sort_order_independent:
  "mset (sort_cmp canonical_edge_cmp xs) = mset xs \<and>
   sorted_wrt (\<lambda>a b. canonical_edge_cmp a b \<noteq> Greater) (sort_cmp canonical_edge_cmp xs) \<and>
   (sort_cmp canonical_edge_cmp xs = sort_cmp canonical_edge_cmp ys \<longleftrightarrow> mset xs = mset ys)"
proof (intro conjI)
  show "sorted_wrt (\<lambda>a b. canonical_edge_cmp a b \<noteq> Greater) (sort_cmp canonical_edge_cmp xs)"
    using canonical.sorted_sort_cmp [of xs] by (simp add: canonical.cle_def [abs_def])
  show "sort_cmp canonical_edge_cmp xs = sort_cmp canonical_edge_cmp ys \<longleftrightarrow> mset xs = mset ys"
    by (metis canonical.sort_cmp_perm mset_sort_cmp)
qed simp

end
