(* ===== verification/Adjacency.thy ===== *)
theory Adjacency
  imports CoreGraph
begin

text \<open>
  The index of \<open>activation/src/algo/mod.rs\<close>: a graph source, the set of categories a walk
  keeps, and the CSR adjacency built from them in one pass over the nodes and one over the
  edges. The locale \<open>indexed_graph\<close> is what the walks rely on; the theory ends with its
  interpretation on the built index.

  Dense indices are \<open>nat\<close>: they are \<open>u32\<close> in the code, and \<open>build\<close> refuses (with the empty
  index) more than \<open>u32::MAX\<close> nodes or kept edges, so no \<open>as u32\<close> there truncates.
\<close>

subsection \<open>Graph sources and category sets\<close>

record graph_source =
  g_nodes :: "node_id list"
  g_edges :: "edge list"

record category_set =
  cs_sorted :: "category list"
  cs_all :: bool

definition category_set_all :: category_set where
  "category_set_all = \<lparr>cs_sorted = [], cs_all = True\<rparr>"

definition category_set_of :: "category list \<Rightarrow> category_set" where
  "category_set_of c = \<lparr>cs_sorted = remdups_adj (sort c), cs_all = False\<rparr>"

definition cs_contains :: "category_set \<Rightarrow> category \<Rightarrow> bool" where
  "cs_contains s c \<longleftrightarrow> cs_all s \<or> is_ok (binary_search_by (\<lambda>x. cmp_of x c) (cs_sorted s))"

lemma cs_contains_all [simp]: "cs_contains category_set_all c"
  by (simp add: cs_contains_def category_set_all_def)

lemma cs_contains_of [simp]: "cs_contains (category_set_of cs) c \<longleftrightarrow> c \<in> set cs"
  using binary_search_key(1) [of "\<lambda>x. x" "remdups_adj (sort cs)" c]
  by (simp add: cs_contains_def category_set_of_def sorted_remdups_adj)

datatype walk = Forward | Backward | Both

subsection \<open>Incidences and the index\<close>

record inc =
  i_edge :: nat
  i_other :: nat
  i_category :: category

record adjacency =
  a_ids :: "node_id list"
  a_index :: "node_id \<rightharpoonup> nat"
  a_out_start :: "nat list"
  a_out :: "inc list"
  a_in_start :: "nat list"
  a_inn :: "inc list"
  a_kept :: nat

type_synonym kept_edge = "nat \<times> nat \<times> category"

text \<open>
  The counting sort \<open>csr\<close>: count each row, sum the counts into row starts, then place every
  incidence at its row's cursor.
\<close>

definition csr_count :: "nat list \<Rightarrow> nat list \<Rightarrow> nat list" where
  "csr_count rows start = fold (\<lambda>r s. s[Suc r := Suc (s ! Suc r)]) rows start"

definition csr_prefix :: "nat \<Rightarrow> nat list \<Rightarrow> nat list" where
  "csr_prefix n start = fold (\<lambda>i s. s[Suc i := s ! Suc i + s ! i]) [0..<n] start"

fun csr_place :: "nat \<times> 'i \<Rightarrow> nat list \<times> 'i list \<Rightarrow> nat list \<times> 'i list" where
  "csr_place (row, x) (cursor, list) =
     (cursor[row := Suc (cursor ! row)], list[cursor ! row := x])"

definition csr :: "nat \<Rightarrow> kept_edge list \<Rightarrow> (kept_edge \<Rightarrow> nat \<Rightarrow> nat \<times> inc) \<Rightarrow> nat list \<times> inc list" where
  "csr n kept key =
     (let keyed = map (\<lambda>(k, e). key e k) (enumerate 0 kept);
          start = csr_prefix n (csr_count (map fst keyed) (replicate (Suc n) 0));
          blank = \<lparr>i_edge = 0, i_other = 0, i_category = 0\<rparr>;
          (cursor, list) = fold csr_place keyed (start, replicate (length kept) blank)
      in (start, list))"

subsection \<open>Building the index\<close>

definition intern ::
  "nat \<Rightarrow> node_id \<Rightarrow> node_id list \<times> (node_id \<rightharpoonup> nat) \<Rightarrow>
   (nat \<times> node_id list \<times> (node_id \<rightharpoonup> nat)) option" where
  "intern cap i st = (case st of (ids, index) \<Rightarrow>
     (case index i of
        Some ix \<Rightarrow> Some (ix, ids, index)
      | None \<Rightarrow>
          if cap \<le> length ids then None
          else Some (length ids, ids @ [i], index(i \<mapsto> length ids))))"

fun intern_nodes ::
  "nat \<Rightarrow> node_id list \<Rightarrow> node_id list \<times> (node_id \<rightharpoonup> nat) \<Rightarrow>
   (node_id list \<times> (node_id \<rightharpoonup> nat)) option" where
  "intern_nodes cap [] st = Some st"
| "intern_nodes cap (i # is) st =
     (case intern cap i st of
        None \<Rightarrow> None
      | Some (ix, st') \<Rightarrow> intern_nodes cap is st')"

fun keep_edges ::
  "nat \<Rightarrow> category_set \<Rightarrow> edge list \<Rightarrow> node_id list \<times> (node_id \<rightharpoonup> nat) \<Rightarrow> kept_edge list \<Rightarrow>
   ((node_id list \<times> (node_id \<rightharpoonup> nat)) \<times> kept_edge list) option" where
  "keep_edges cap keep [] st kept = Some (st, kept)"
| "keep_edges cap keep (e # es) st kept =
     (if \<not> cs_contains keep (ecategory e) then keep_edges cap keep es st kept
      else if cap \<le> length kept then None
      else (case intern cap (efrom e) st of
          None \<Rightarrow> None
        | Some (from, st1) \<Rightarrow>
            (case intern cap (eto e) st1 of
               None \<Rightarrow> None
             | Some (to, st2) \<Rightarrow> keep_edges cap keep es st2 (kept @ [(from, to, ecategory e)]))))"

definition over_limit :: adjacency where
  "over_limit = \<lparr>a_ids = [], a_index = Map.empty, a_out_start = [0], a_out = [],
     a_in_start = [0], a_inn = [], a_kept = 0\<rparr>"

fun out_key :: "kept_edge \<Rightarrow> nat \<Rightarrow> nat \<times> inc" where
  "out_key (from, to, c) k = (from, \<lparr>i_edge = k, i_other = to, i_category = c\<rparr>)"

fun in_key :: "kept_edge \<Rightarrow> nat \<Rightarrow> nat \<times> inc" where
  "in_key (from, to, c) k = (to, \<lparr>i_edge = k, i_other = from, i_category = c\<rparr>)"

definition build_capped :: "graph_source \<Rightarrow> category_set \<Rightarrow> nat \<Rightarrow> adjacency" where
  "build_capped g keep cap =
     (case intern_nodes cap (g_nodes g) ([], Map.empty) of
        None \<Rightarrow> over_limit
      | Some st \<Rightarrow>
          (case keep_edges cap keep (g_edges g) st [] of
             None \<Rightarrow> over_limit
           | Some ((ids, index), kept) \<Rightarrow>
               let n = length ids;
                   (out_start, out) = csr n kept out_key;
                   (in_start, inn) = csr n kept in_key
               in \<lparr>a_ids = ids, a_index = index, a_out_start = out_start, a_out = out,
                   a_in_start = in_start, a_inn = inn, a_kept = length kept\<rparr>))"

definition u32_max :: nat where
  "u32_max = 2 ^ 32 - 1"

definition build :: "graph_source \<Rightarrow> category_set \<Rightarrow> adjacency" where
  "build g keep = build_capped g keep u32_max"

definition adj_len :: "adjacency \<Rightarrow> nat" where
  "adj_len a = length (a_ids a)"

definition adj_id :: "adjacency \<Rightarrow> nat \<Rightarrow> node_id" where
  "adj_id a ix = a_ids a ! ix"

definition index_of :: "adjacency \<Rightarrow> node_id \<Rightarrow> nat option" where
  "index_of a i = a_index a i"

definition outgoing :: "adjacency \<Rightarrow> nat \<Rightarrow> inc list" where
  "outgoing a ix = slice (a_out a) (a_out_start a ! ix) (a_out_start a ! Suc ix)"

definition incoming :: "adjacency \<Rightarrow> nat \<Rightarrow> inc list" where
  "incoming a ix = slice (a_inn a) (a_in_start a ! ix) (a_in_start a ! Suc ix)"

subsection \<open>The counting sort is a stable grouping by row\<close>

definition rows_below :: "nat list \<Rightarrow> nat \<Rightarrow> nat" where
  "rows_below rows i = length (filter (\<lambda>r. r < i) rows)"

lemma rows_below_Suc: "rows_below rows (Suc i) = rows_below rows i + count_list rows i"
  by (induction rows) (auto simp: rows_below_def)

lemma rows_below_mono: "i \<le> j \<Longrightarrow> rows_below rows i \<le> rows_below rows j"
  by (induction rows) (auto simp: rows_below_def)

lemma rows_below_le: "rows_below rows i \<le> length rows"
  by (simp add: rows_below_def)

lemma csr_count_length [len_simps]: "length (csr_count rows s) = length s"
  by (induction rows arbitrary: s) (auto simp: csr_count_def)

lemma csr_count_nth:
  "\<forall>r \<in> set rows. Suc r < length s \<Longrightarrow> i < length s \<Longrightarrow>
   csr_count rows s ! i = s ! i + (case i of 0 \<Rightarrow> 0 | Suc j \<Rightarrow> count_list rows j)"
proof (induction rows arbitrary: s)
  case Nil
  then show ?case by (simp add: csr_count_def split: nat.split)
next
  case (Cons r rows)
  let ?s = "s[Suc r := Suc (s ! Suc r)]"
  have "csr_count (r # rows) s ! i = csr_count rows ?s ! i"
    by (simp add: csr_count_def)
  also have "\<dots> = ?s ! i + (case i of 0 \<Rightarrow> 0 | Suc j \<Rightarrow> count_list rows j)"
    by (rule Cons.IH) (use Cons.prems in auto)
  finally show ?case
    using Cons.prems by (auto simp: nth_list_update split: nat.split)
qed

lemma csr_prefix_Suc:
  "csr_prefix (Suc n) s = (csr_prefix n s)[Suc n := csr_prefix n s ! Suc n + csr_prefix n s ! n]"
  by (simp add: csr_prefix_def)

lemma csr_prefix_length [len_simps]: "length (csr_prefix n s) = length s"
  by (induction n) (auto simp: csr_prefix_Suc, simp add: csr_prefix_def)

lemma csr_prefix_nth:
  "n < length s \<Longrightarrow> i < length s \<Longrightarrow>
   csr_prefix n s ! i = (if i \<le> n then sum_list (take (Suc i) s) else s ! i)"
proof (induction n arbitrary: i)
  case 0
  then show ?case by (auto simp: csr_prefix_def take_Suc_conv_app_nth)
next
  case (Suc n)
  then show ?case
    by (auto simp: csr_prefix_Suc nth_list_update len_simps take_Suc_conv_app_nth le_Suc_eq)
qed

lemma sum_take_counts:
  "\<forall>r \<in> set rows. r < n \<Longrightarrow> i \<le> n \<Longrightarrow>
   sum_list (take (Suc i) (csr_count rows (replicate (Suc n) 0))) = rows_below rows i"
proof (induction i)
  case 0
  then have "csr_count rows (replicate (Suc n) 0) ! 0 = 0"
    by (subst csr_count_nth) auto
  then show ?case
    by (simp add: take_Suc_conv_app_nth len_simps rows_below_def)
next
  case (Suc i)
  have "csr_count rows (replicate (Suc n) 0) ! Suc i = count_list rows i"
    using Suc.prems by (subst csr_count_nth) (auto simp del: replicate_Suc)
  then show ?case
    using Suc by (simp add: take_Suc_conv_app_nth [of "Suc i"] len_simps rows_below_Suc)
qed

lemma csr_start_nth:
  assumes "\<forall>r \<in> set rows. r < n" and "i \<le> n"
  shows "csr_prefix n (csr_count rows (replicate (Suc n) 0)) ! i = rows_below rows i"
  using assms sum_take_counts [OF assms] by (subst csr_prefix_nth) (auto simp: len_simps)

definition row_of :: "(nat \<times> 'i) list \<Rightarrow> nat \<Rightarrow> 'i list" where
  "row_of keyed r = map snd (filter (\<lambda>p. fst p = r) keyed)"

lemma length_row_of: "length (row_of keyed r) = count_list (map fst keyed) r"
  by (induction keyed) (auto simp: row_of_def)

lemma row_of_snoc: "row_of (ps @ [(q, x)]) r = row_of ps r @ (if q = r then [x] else [])"
  by (simp add: row_of_def)

lemma rows_below_gap:
  assumes "r < r'" and "k < count_list rows r"
  shows "rows_below rows r + k < rows_below rows r'"
  using rows_below_mono [of "Suc r" r' rows] assms by (simp add: rows_below_Suc)

lemma rows_slots_distinct:
  assumes "k < count_list rows r" and "k' < count_list rows r'"
    and "rows_below rows r + k = rows_below rows r' + k'"
  shows "r = r' \<and> k = k'"
  using assms rows_below_gap [of r r' k rows] rows_below_gap [of r' r k' rows]
  by (cases r r' rule: linorder_cases) auto

lemma count_list_prefix: "count_list (xs @ y # ys) y > count_list xs y"
  by simp

lemma csr_fill:
  assumes "\<forall>p \<in> set keyed. fst p < n" and "length start = Suc n"
    and "\<forall>i \<le> n. start ! i = rows_below (map fst keyed) i"
    and "length blanks = length keyed" and "keyed = ps @ qs"
  shows "case fold csr_place ps (start, blanks) of (cursor, list) \<Rightarrow>
      length cursor = Suc n \<and> length list = length keyed \<and>
      (\<forall>r < n. cursor ! r = rows_below (map fst keyed) r + length (row_of ps r)) \<and>
      (\<forall>r < n. \<forall>k < length (row_of ps r).
         list ! (rows_below (map fst keyed) r + k) = row_of ps r ! k)"
  using assms(5)
proof (induction ps arbitrary: qs rule: rev_induct)
  case Nil
  then show ?case using assms by (simp add: row_of_def)
next
  case (snoc p ps)
  obtain q x where p: "p = (q, x)" by (cases p)
  let ?S = "rows_below (map fst keyed)"
  obtain cursor list where st: "fold csr_place ps (start, blanks) = (cursor, list)"
    by (cases "fold csr_place ps (start, blanks)")
  have IH: "length cursor = Suc n" "length list = length keyed"
    "\<And>r. r < n \<Longrightarrow> cursor ! r = ?S r + length (row_of ps r)"
    "\<And>r k. r < n \<Longrightarrow> k < length (row_of ps r) \<Longrightarrow> list ! (?S r + k) = row_of ps r ! k"
    using snoc.IH [of "p # qs"] snoc.prems st by auto
  have q: "q < n" using assms(1) snoc.prems p by auto
  have room: "count_list (map fst ps) r + (if q = r then 1 else 0) \<le> count_list (map fst keyed) r" for r
    using snoc.prems p by auto
  have qroom: "length (row_of ps q) < count_list (map fst keyed) q"
    using room [of q] by (simp add: length_row_of)
  have slot: "?S q + length (row_of ps q) < length keyed"
    using rows_below_gap [OF lessI qroom] rows_below_le [of "map fst keyed" "Suc q"] by simp
  have keep: "list[?S q + length (row_of ps q) := x] ! (?S r + k) = row_of (ps @ [(q, x)]) r ! k"
    if r: "r < n" and k: "k < length (row_of (ps @ [(q, x)]) r)" for r k
  proof (cases "r = q \<and> k = length (row_of ps q)")
    case True
    then show ?thesis using slot IH(2) by (simp add: row_of_snoc nth_append)
  next
    case False
    then have k': "k < length (row_of ps r)"
      using k by (auto simp: row_of_snoc split: if_splits)
    then have "k < count_list (map fst keyed) r"
      using room [of r] by (simp add: length_row_of)
    then have "?S r + k \<noteq> ?S q + length (row_of ps q)"
      using rows_slots_distinct [OF _ qroom] False by blast
    then show ?thesis using IH(4) [OF r k'] k' by (simp add: row_of_snoc nth_append)
  qed
  show ?case
    using st p q IH keep by (simp add: row_of_snoc nth_list_update)
qed

text \<open>Every row of the CSR list is the row's entries, in the order they were kept.\<close>

lemma placed_rows:
  assumes rows: "\<forall>p \<in> set keyed. fst p < n"
    and start: "start = csr_prefix n (csr_count (map fst keyed) (replicate (Suc n) 0))"
    and blanks: "length blanks = length keyed" and r: "r < n"
  shows "slice (snd (fold csr_place keyed (start, blanks))) (start ! r) (start ! Suc r) = row_of keyed r"
proof -
  let ?S = "rows_below (map fst keyed)"
  have S: "\<forall>i \<le> n. start ! i = ?S i"
    using rows csr_start_nth [of "map fst keyed" n] by (simp add: start)
  obtain cursor xs where f: "fold csr_place keyed (start, blanks) = (cursor, xs)"
    by (cases "fold csr_place keyed (start, blanks)")
  have "length start = Suc n" by (simp add: start len_simps)
  then have inv: "length xs = length keyed"
    "\<And>k. k < length (row_of keyed r) \<Longrightarrow> xs ! (?S r + k) = row_of keyed r ! k"
    using csr_fill [OF rows _ S blanks, of keyed "[]"] f r by auto
  have "?S (Suc r) = ?S r + length (row_of keyed r)"
    by (simp add: rows_below_Suc length_row_of)
  moreover have "?S (Suc r) \<le> length xs"
    using rows_below_le [of "map fst keyed" "Suc r"] inv(1) by simp
  ultimately have "slice xs (?S r) (?S (Suc r)) = row_of keyed r"
    using inv(2) by (intro nth_equalityI) (auto simp: slice_def)
  then show ?thesis using S r f by simp
qed

lemma csr_rows:
  assumes "csr n kept key = (start, list)"
    and "\<And>e k. e \<in> set kept \<Longrightarrow> fst (key e k) < n" and "r < n"
  shows "slice list (start ! r) (start ! Suc r) =
    row_of (map (\<lambda>(k, e). key e k) (enumerate 0 kept)) r"
proof -
  define keyed where "keyed = map (\<lambda>(k, e). key e k) (enumerate 0 kept)"
  define blanks :: "inc list" where
    "blanks = replicate (length kept) \<lparr>i_edge = 0, i_other = 0, i_category = 0\<rparr>"
  have rows: "\<forall>p \<in> set keyed. fst p < n"
    using assms(2) by (auto simp: keyed_def in_set_enumerate_eq) (metis nth_mem)
  have start: "start = csr_prefix n (csr_count (map fst keyed) (replicate (Suc n) 0))"
    and list: "list = snd (fold csr_place keyed (start, blanks))"
    using assms(1) by (auto simp: csr_def keyed_def blanks_def simp del: replicate_Suc split: prod.splits)
  have "length blanks = length keyed" by (simp add: blanks_def keyed_def)
  from placed_rows [OF rows start this assms(3)] show ?thesis
    by (simp only: list keyed_def)
qed

subsection \<open>Interning\<close>

text \<open>The map holds exactly the positions of the distinct ids.\<close>

definition interned :: "node_id list \<times> (node_id \<rightharpoonup> nat) \<Rightarrow> bool" where
  "interned st \<longleftrightarrow> (case st of (ids, index) \<Rightarrow>
     distinct ids \<and> (\<forall>i ix. index i = Some ix \<longleftrightarrow> ix < length ids \<and> ids ! ix = i))"

lemma interned_empty [wf_intros]: "interned ([], Map.empty)"
  by (simp add: interned_def)

lemma interned_mem: "interned (ids, index) \<Longrightarrow> i \<in> set ids \<longleftrightarrow> index i \<noteq> None"
  by (auto simp: interned_def in_set_conv_nth)

lemma intern_Some:
  assumes "interned st" and "intern cap i st = Some (ix, st')"
  shows "interned st'" and "fst st' = first_occ (fst st @ [i])" and "ix < length (fst st')"
    and "fst st' ! ix = i" and "\<exists>tl. fst st' = fst st @ tl"
proof -
  obtain ids index where st: "st = (ids, index)" by (cases st)
  have d: "first_occ ids = ids" if "distinct ids" for ids :: "node_id list"
    using that by (simp add: first_occ_def distinct_remdups_id)
  have distinct: "distinct ids" using assms(1) by (simp add: interned_def st)
  note mem = interned_mem [OF assms(1) [unfolded st], of i]
  have "interned st' \<and> fst st' = first_occ (fst st @ [i]) \<and> ix < length (fst st') \<and>
      fst st' ! ix = i \<and> (\<exists>tl. fst st' = fst st @ tl)"
  proof (cases "index i")
    case None
    then have "st' = (ids @ [i], index(i \<mapsto> length ids))" "ix = length ids"
      using assms(2) by (auto simp: intern_def st split: if_splits)
    moreover have "interned (ids @ [i], index(i \<mapsto> length ids))"
      using assms(1) None mem by (auto simp: interned_def st nth_append less_Suc_eq split: if_splits)
    ultimately show ?thesis using None mem distinct by (simp add: st first_occ_snoc d)
  next
    case (Some jx)
    then have "st' = st" "ix = jx" using assms(2) by (auto simp: intern_def st)
    then show ?thesis using assms(1) Some mem distinct
      by (auto simp: interned_def st first_occ_snoc d)
  qed
  then show "interned st'" "fst st' = first_occ (fst st @ [i])" "ix < length (fst st')"
    "fst st' ! ix = i" "\<exists>tl. fst st' = fst st @ tl" by auto
qed

lemma first_occ_append_first_occ [simp]: "first_occ (first_occ xs @ ys) = first_occ (xs @ ys)"
  by (induction ys rule: rev_induct) (auto simp: first_occ_snoc simp flip: append_assoc,
      simp add: first_occ_def distinct_remdups_id)

lemma intern_None:
  assumes "interned st"
  shows "intern cap i st = None \<longleftrightarrow> i \<notin> set (fst st) \<and> cap \<le> length (fst st)"
  using assms interned_mem [of "fst st" "snd st" i]
  by (cases st) (auto simp: intern_def split: option.splits)

lemma length_first_occ: "length (first_occ xs) = card (set xs)"
  by (simp add: first_occ_def length_remdups_card_conv)

definition kept_of :: "category_set \<Rightarrow> edge list \<Rightarrow> edge list" where
  "kept_of keep es = filter (\<lambda>e. cs_contains keep (ecategory e)) es"

definition endpoints :: "edge list \<Rightarrow> node_id list" where
  "endpoints es = concat (map (\<lambda>e. [efrom e, eto e]) es)"

lemma kept_endpoints_simps [simp]:
  "kept_of keep [] = []"
  "kept_of keep (e # es) = (if cs_contains keep (ecategory e) then e # kept_of keep es else kept_of keep es)"
  "endpoints [] = []" "endpoints (e # es) = efrom e # eto e # endpoints es"
  by (simp_all add: kept_of_def endpoints_def)

lemma intern_nodes_spec:
  assumes "interned st"
  shows "intern_nodes cap is st = Some st' \<Longrightarrow> interned st' \<and> fst st' = first_occ (fst st @ is)"
    and "length (fst st) \<le> cap \<Longrightarrow>
      intern_nodes cap is st = None \<longleftrightarrow> cap < card (set (fst st @ is))"
proof -
  have ids: "first_occ (fst st) = fst st" and card: "card (set (fst st)) = length (fst st)"
    if "interned st" for st
    using that by (auto simp: interned_def first_occ_def distinct_remdups_id distinct_card)
  show "intern_nodes cap is st = Some st' \<Longrightarrow> interned st' \<and> fst st' = first_occ (fst st @ is)"
    using assms
  proof (induction "is" arbitrary: st)
    case Nil
    then show ?case by (simp add: ids)
  next
    case (Cons i "is")
    from Cons.prems(1) obtain ix st1 where st1: "intern cap i st = Some (ix, st1)"
      and rest: "intern_nodes cap is st1 = Some st'"
      by (auto split: option.splits)
    from Cons.IH [OF rest] intern_Some(1,2) [OF Cons.prems(2) st1] show ?case
      by simp
  qed
  show "length (fst st) \<le> cap \<Longrightarrow>
      intern_nodes cap is st = None \<longleftrightarrow> cap < card (set (fst st @ is))"
    using assms
  proof (induction "is" arbitrary: st)
    case Nil
    then show ?case by (simp add: card)
  next
    case (Cons i "is")
    show ?case
    proof (cases "intern cap i st")
      case None
      then have "i \<notin> set (fst st)" "cap \<le> card (set (fst st))"
        using intern_None [OF Cons.prems(2)] by (simp_all add: card [OF Cons.prems(2)])
      moreover from this have "Suc (card (set (fst st))) \<le> card (set (fst st @ i # is))"
        using card_mono [of "set (fst st @ i # is)" "insert i (set (fst st))"] by auto
      ultimately show ?thesis using None by simp
    next
      case (Some r)
      obtain ix st1 where r: "r = (ix, st1)" by (cases r)
      note st1 = intern_Some(1,2) [OF Cons.prems(2) Some [unfolded r]]
      have "length (fst st1) \<le> cap"
        using Some r Cons.prems(1) by (auto simp: intern_def split: prod.splits option.splits if_splits)
      then show ?thesis using Cons.IH [OF _ st1(1)] Some r st1(2) by (simp add: Un_assoc)
    qed
  qed
qed

definition denotes :: "node_id list \<Rightarrow> kept_edge \<Rightarrow> edge \<Rightarrow> bool" where
  "denotes ids k e = (case k of (f, t, c) \<Rightarrow>
     f < length ids \<and> ids ! f = efrom e \<and> t < length ids \<and> ids ! t = eto e \<and> c = ecategory e)"

lemma denotes_append: "denotes ids k e \<Longrightarrow> denotes (ids @ zs) k e"
  by (auto simp: denotes_def nth_append)

lemma keep_edges_grows: "interned st \<Longrightarrow> keep_edges cap keep es st kept = Some (st', kept') \<Longrightarrow>
  \<exists>tl. fst st' = fst st @ tl"
proof (induction es arbitrary: st kept)
  case (Cons e es)
  show ?case
  proof (cases "cs_contains keep (ecategory e)")
    case True
    then obtain f st1 t st2 where i: "intern cap (efrom e) st = Some (f, st1)"
      "intern cap (eto e) st1 = Some (t, st2)"
      and rest: "keep_edges cap keep es st2 (kept @ [(f, t, ecategory e)]) = Some (st', kept')"
      using Cons.prems(2) by (auto split: if_splits option.splits)
    note st1 = intern_Some [OF Cons.prems(1) i(1)]
    note st2 = intern_Some [OF st1(1) i(2)]
    from Cons.IH [OF st2(1) rest] st1(5) st2(5) show ?thesis by auto
  qed (use Cons in simp)
qed simp

lemma keep_edges_spec:
  assumes "interned st" and "keep_edges cap keep es st kept = Some (st', kept')"
  shows "interned st' \<and> fst st' = first_occ (fst st @ endpoints (kept_of keep es)) \<and>
    (\<exists>ks. kept' = kept @ ks \<and> list_all2 (denotes (fst st')) ks (kept_of keep es))"
  using assms
proof (induction es arbitrary: st kept)
  case Nil
  then show ?case by (auto simp: interned_def first_occ_def distinct_remdups_id)
next
  case (Cons e es)
  show ?case
  proof (cases "cs_contains keep (ecategory e)")
    case True
    then obtain f st1 t st2 where i: "intern cap (efrom e) st = Some (f, st1)"
      "intern cap (eto e) st1 = Some (t, st2)"
      and rest: "keep_edges cap keep es st2 (kept @ [(f, t, ecategory e)]) = Some (st', kept')"
      using Cons.prems(2) by (auto split: if_splits option.splits)
    note st1 = intern_Some [OF Cons.prems(1) i(1)]
    note st2 = intern_Some [OF st1(1) i(2)]
    obtain t1 where t1: "fst st2 = fst st1 @ t1" using st2(5) by auto
    obtain t2 where t2: "fst st' = fst st2 @ t2" using keep_edges_grows [OF st2(1) rest] by auto
    have "denotes (fst st2) (f, t, ecategory e) e"
      using st1(3,4) st2(3,4) t1 by (auto simp: denotes_def nth_append)
    then have "denotes (fst st') (f, t, ecategory e) e"
      unfolding t2 by (rule denotes_append)
    then show ?thesis
      using Cons.IH [OF st2(1) rest] True st1(2) st2(2) by auto
  next
    case False
    then have "keep_edges cap keep es st kept = Some (st', kept')" using Cons.prems(2) by simp
    from Cons.IH [OF Cons.prems(1) this] False show ?thesis by auto
  qed
qed

lemma intern_None_card:
  assumes "interned st" and "intern cap i st = None" and "insert i (set (fst st)) \<subseteq> set xs"
  shows "cap < card (set xs)"
proof -
  have "i \<notin> set (fst st)" "cap \<le> length (fst st)" "length (fst st) = card (set (fst st))"
    using assms(1,2) intern_None by (auto simp: interned_def distinct_card split: prod.splits)
  then have "cap < card (insert i (set (fst st)))" by simp
  also have "\<dots> \<le> card (set xs)" by (rule card_mono) (use assms(3) in auto)
  finally show ?thesis .
qed

lemma intern_le:
  "intern cap i st = Some (ix, st') \<Longrightarrow> length (fst st) \<le> cap \<Longrightarrow> length (fst st') \<le> cap"
  by (auto simp: intern_def split: prod.splits option.splits if_splits)

lemma keep_edges_None:
  assumes "interned st" and "length (fst st) \<le> cap" and "length kept \<le> cap"
  shows "keep_edges cap keep es st kept = None \<longleftrightarrow>
    cap < length kept + length (kept_of keep es) \<or> cap < card (set (fst st @ endpoints (kept_of keep es)))"
  using assms
proof (induction es arbitrary: st kept)
  case Nil
  then show ?case by (auto simp: interned_def distinct_card split: prod.splits)
next
  case (Cons e es)
  let ?xs = "fst st @ endpoints (kept_of keep (e # es))"
  show ?case
  proof (cases "cs_contains keep (ecategory e) \<and> length kept < cap")
    case False
    then show ?thesis using Cons by auto
  next
    case True
    show ?thesis
    proof (cases "intern cap (efrom e) st")
      case None
      then show ?thesis using True intern_None_card [OF Cons.prems(1), of cap "efrom e" ?xs] by auto
    next
      case (Some r)
      then obtain f st1 where 1: "intern cap (efrom e) st = Some (f, st1)" by (cases r) auto
      note st1 = intern_Some(1,2) [OF Cons.prems(1) 1] and le1 = intern_le [OF 1 Cons.prems(2)]
      show ?thesis
      proof (cases "intern cap (eto e) st1")
        case None
        then show ?thesis using True 1 st1 intern_None_card [OF st1(1), of cap "eto e" ?xs] by auto
      next
        case (Some r')
        then obtain t st2 where 2: "intern cap (eto e) st1 = Some (t, st2)" by (cases r') auto
        note st2 = intern_Some(1,2) [OF st1(1) 2]
        have "set (fst st2 @ endpoints (kept_of keep es)) = set ?xs"
          using True st1(2) st2(2) by auto
        then show ?thesis
          using Cons.IH [OF st2(1) intern_le [OF 2 le1], of "kept @ [(f, t, ecategory e)]"] True 1 2
          by simp
      qed
    qed
  qed
qed

subsection \<open>The built index\<close>

definition build_fits :: "graph_source \<Rightarrow> category_set \<Rightarrow> nat \<Rightarrow> bool" where
  "build_fits g keep cap \<longleftrightarrow>
     length (kept_of keep (g_edges g)) \<le> cap \<and>
     card (set (g_nodes g @ endpoints (kept_of keep (g_edges g)))) \<le> cap"

lemma build_capped_over: "\<not> build_fits g keep cap \<Longrightarrow> build_capped g keep cap = over_limit"
proof (cases "intern_nodes cap (g_nodes g) ([], Map.empty)")
  case (Some st)
  assume over: "\<not> build_fits g keep cap"
  note st = intern_nodes_spec(1) [OF interned_empty Some]
  have "card (set (g_nodes g)) \<le> cap"
    using intern_nodes_spec(2) [OF interned_empty, of cap "g_nodes g"] Some by auto
  then have "length (fst st) \<le> cap" using st by (simp add: length_first_occ)
  then have "keep_edges cap keep (g_edges g) st [] = None"
    using keep_edges_None [of st cap "[]" keep "g_edges g"] st over by (auto simp: build_fits_def)
  then show ?thesis using Some by (simp add: build_capped_def)
qed (simp add: build_capped_def)

lemma build_capped_fits:
  assumes "build_fits g keep cap"
  obtains ids index ks where
    "ids = first_occ (g_nodes g @ endpoints (kept_of keep (g_edges g)))" and
    "interned (ids, index)" and "list_all2 (denotes ids) ks (kept_of keep (g_edges g))" and
    "build_capped g keep cap =
       \<lparr>a_ids = ids, a_index = index,
        a_out_start = fst (csr (length ids) ks out_key), a_out = snd (csr (length ids) ks out_key),
        a_in_start = fst (csr (length ids) ks in_key), a_inn = snd (csr (length ids) ks in_key),
        a_kept = length ks\<rparr>"
proof -
  have "card (set (g_nodes g)) \<le> card (set (g_nodes g @ endpoints (kept_of keep (g_edges g))))"
    by (rule card_mono) auto
  then have "intern_nodes cap (g_nodes g) ([], Map.empty) \<noteq> None"
    using intern_nodes_spec(2) [OF interned_empty, of cap "g_nodes g"] assms
    by (auto simp: build_fits_def)
  then obtain st where i: "intern_nodes cap (g_nodes g) ([], Map.empty) = Some st" by auto
  note st = intern_nodes_spec(1) [OF interned_empty i]
  have "length (fst st) \<le> cap"
    using intern_nodes_spec(2) [OF interned_empty, of cap "g_nodes g"] i st
    by (simp add: length_first_occ)
  then have "keep_edges cap keep (g_edges g) st [] \<noteq> None"
    using keep_edges_None [of st cap "[]" keep "g_edges g"] st assms by (auto simp: build_fits_def)
  then obtain ids index ks where k: "keep_edges cap keep (g_edges g) st [] = Some ((ids, index), ks)"
    by (cases "keep_edges cap keep (g_edges g) st []") auto
  have "interned (ids, index)" "ids = first_occ (fst st @ endpoints (kept_of keep (g_edges g)))"
    "list_all2 (denotes ids) ks (kept_of keep (g_edges g))"
    using keep_edges_spec [OF _ k] st by auto
  moreover have "build_capped g keep cap =
       \<lparr>a_ids = ids, a_index = index,
        a_out_start = fst (csr (length ids) ks out_key), a_out = snd (csr (length ids) ks out_key),
        a_in_start = fst (csr (length ids) ks in_key), a_inn = snd (csr (length ids) ks in_key),
        a_kept = length ks\<rparr>"
    by (simp only: build_capped_def i k option.case prod.case case_prod_beta Let_def fst_conv snd_conv)
  ultimately show ?thesis using st that by simp
qed

lemma enumerate_upt: "enumerate 0 xs = map (\<lambda>k. (k, xs ! k)) [0..<length xs]"
  by (rule nth_equalityI) (auto simp: nth_enumerate_eq)

lemma row_of_enumerate:
  "row_of (map (\<lambda>(k, e). key e k) (enumerate 0 ks)) r =
   map (\<lambda>k. snd (key (ks ! k) k)) (filter (\<lambda>k. fst (key (ks ! k) k) = r) [0..<length ks])"
  by (simp add: row_of_def enumerate_upt filter_map o_def)

lemma denotes_range:
  assumes "list_all2 (denotes ids) ks es" and "e \<in> set ks"
  shows "fst e < length ids \<and> fst (snd e) < length ids"
proof -
  obtain k where "k < length ks" "ks ! k = e" using assms(2) by (auto simp: in_set_conv_nth)
  then have "denotes ids e (es ! k)" using list_all2_nthD [OF assms(1)] by blast
  then show ?thesis by (auto simp: denotes_def split: prod.splits)
qed

lemma csr_out_in:
  assumes "\<And>e. e \<in> set ks \<Longrightarrow> fst e < n \<and> fst (snd e) < n" and "r < n"
  shows "slice (snd (csr n ks out_key)) (fst (csr n ks out_key) ! r) (fst (csr n ks out_key) ! Suc r) =
      map (\<lambda>k. \<lparr>i_edge = k, i_other = fst (snd (ks ! k)), i_category = snd (snd (ks ! k))\<rparr>)
        (filter (\<lambda>k. fst (ks ! k) = r) [0..<length ks])" (is ?out)
    and "slice (snd (csr n ks in_key)) (fst (csr n ks in_key) ! r) (fst (csr n ks in_key) ! Suc r) =
      map (\<lambda>k. \<lparr>i_edge = k, i_other = fst (ks ! k), i_category = snd (snd (ks ! k))\<rparr>)
        (filter (\<lambda>k. fst (snd (ks ! k)) = r) [0..<length ks])" (is ?in)
proof -
  have out: "out_key e k = (fst e, \<lparr>i_edge = k, i_other = fst (snd e), i_category = snd (snd e)\<rparr>)" for e k
    by (cases e) simp
  have inn: "in_key e k = (fst (snd e), \<lparr>i_edge = k, i_other = fst e, i_category = snd (snd e)\<rparr>)" for e k
    by (cases e) simp
  show ?out
    using csr_rows [of n ks out_key "fst (csr n ks out_key)" "snd (csr n ks out_key)" r] assms
    by (simp add: out row_of_enumerate)
  show ?in
    using csr_rows [of n ks in_key "fst (csr n ks in_key)" "snd (csr n ks in_key)" r] assms
    by (simp add: inn row_of_enumerate)
qed

text \<open>What the walks of \<open>algo\<close> rely on, whatever the graph the index was built from.\<close>

locale indexed_graph =
  fixes adj :: adjacency
  assumes ids_distinct: "distinct (a_ids adj)"
    and index_iff: "index_of adj i = Some ix \<longleftrightarrow> ix < adj_len adj \<and> adj_id adj ix = i"
    and out_range: "u < adj_len adj \<Longrightarrow> x \<in> set (outgoing adj u) \<Longrightarrow>
      i_other x < adj_len adj \<and> i_edge x < a_kept adj"
    and in_range: "v < adj_len adj \<Longrightarrow> x \<in> set (incoming adj v) \<Longrightarrow>
      i_other x < adj_len adj \<and> i_edge x < a_kept adj"
    and out_in: "u < adj_len adj \<Longrightarrow> v < adj_len adj \<Longrightarrow>
      \<lparr>i_edge = k, i_other = v, i_category = c\<rparr> \<in> set (outgoing adj u) \<longleftrightarrow>
      \<lparr>i_edge = k, i_other = u, i_category = c\<rparr> \<in> set (incoming adj v)"
    and out_sorted: "u < adj_len adj \<Longrightarrow> sorted_wrt (<) (map i_edge (outgoing adj u))"
    and in_sorted: "v < adj_len adj \<Longrightarrow> sorted_wrt (<) (map i_edge (incoming adj v))"

lemma indexed_graph_build: "indexed_graph (build_capped g keep cap)"
proof (cases "build_fits g keep cap")
  case False
  then show ?thesis
    by (simp add: build_capped_over)
      (unfold_locales, simp_all add: over_limit_def adj_len_def index_of_def)
next
  case True
  then obtain ids index ks where b:
    "ids = first_occ (g_nodes g @ endpoints (kept_of keep (g_edges g)))"
    "interned (ids, index)" "list_all2 (denotes ids) ks (kept_of keep (g_edges g))"
    "build_capped g keep cap =
       \<lparr>a_ids = ids, a_index = index,
        a_out_start = fst (csr (length ids) ks out_key), a_out = snd (csr (length ids) ks out_key),
        a_in_start = fst (csr (length ids) ks in_key), a_inn = snd (csr (length ids) ks in_key),
        a_kept = length ks\<rparr>"
    by (rule build_capped_fits)
  note range = denotes_range [OF b(3)]
  let ?a = "build_capped g keep cap"
  have out: "outgoing ?a r = map (\<lambda>k. \<lparr>i_edge = k, i_other = fst (snd (ks ! k)),
      i_category = snd (snd (ks ! k))\<rparr>) (filter (\<lambda>k. fst (ks ! k) = r) [0..<length ks])"
    and inn: "incoming ?a r = map (\<lambda>k. \<lparr>i_edge = k, i_other = fst (ks ! k),
      i_category = snd (snd (ks ! k))\<rparr>) (filter (\<lambda>k. fst (snd (ks ! k)) = r) [0..<length ks])"
    if "r < length ids" for r
    using csr_out_in [OF range that] by (simp_all add: b(4) outgoing_def incoming_def)
  have sort: "sorted_wrt (<) (filter P [0..<length ks])" for P
    by (simp add: sorted_wrt_filter)
  have len: "adj_len ?a = length ids" and kept: "a_kept ?a = length ks"
    by (simp_all add: b(4) adj_len_def)
  show ?thesis
  proof
    show "distinct (a_ids ?a)" using b(2) by (simp add: b(4) interned_def)
    show "index_of ?a i = Some ix \<longleftrightarrow> ix < adj_len ?a \<and> adj_id ?a ix = i" for i ix
      using b(2) by (simp add: b(4) interned_def index_of_def adj_id_def adj_len_def)
  next
    fix u x assume u: "u < adj_len ?a"
    show "x \<in> set (outgoing ?a u) \<Longrightarrow> i_other x < adj_len ?a \<and> i_edge x < a_kept ?a"
      using u range [OF nth_mem] by (auto simp: len kept out)
    show "x \<in> set (incoming ?a u) \<Longrightarrow> i_other x < adj_len ?a \<and> i_edge x < a_kept ?a"
      using u range [OF nth_mem] by (auto simp: len kept inn)
    show "sorted_wrt (<) (map i_edge (outgoing ?a u))"
      using u sort by (simp add: len out o_def)
    show "sorted_wrt (<) (map i_edge (incoming ?a u))"
      using u sort by (simp add: len inn o_def)
  next
    fix u v k c assume "u < adj_len ?a" and "v < adj_len ?a"
    then show "\<lparr>i_edge = k, i_other = v, i_category = c\<rparr> \<in> set (outgoing ?a u) \<longleftrightarrow>
        \<lparr>i_edge = k, i_other = u, i_category = c\<rparr> \<in> set (incoming ?a v)"
      by (auto simp: len out inn)
  qed
qed

interpretation built: indexed_graph "build_capped g keep cap" for g keep cap
  by (rule indexed_graph_build)

lemma adj_len_built_le: "adj_len (build_capped g keep cap) \<le> cap"
proof (cases "build_fits g keep cap")
  case True
  then show ?thesis
    by (rule build_capped_fits) (use True in \<open>simp add: adj_len_def build_fits_def length_first_occ\<close>)
qed (simp add: build_capped_over over_limit_def adj_len_def)

lemma build_scan:
  assumes "build_fits g keep cap" and "a = build_capped g keep cap"
    and "es = kept_of keep (g_edges g)"
  shows "a_ids a = first_occ (g_nodes g @ endpoints es)"
    and "a_kept a = length es"
    and "u < adj_len a \<Longrightarrow>
      map (\<lambda>x. (i_edge x, adj_id a (i_other x), i_category x)) (outgoing a u) =
      map (\<lambda>(k, e). (k, eto e, ecategory e))
        (filter (\<lambda>(k, e). efrom e = adj_id a u) (enumerate 0 es))"
    and "u < adj_len a \<Longrightarrow>
      map (\<lambda>x. (i_edge x, adj_id a (i_other x), i_category x)) (incoming a u) =
      map (\<lambda>(k, e). (k, efrom e, ecategory e))
        (filter (\<lambda>(k, e). eto e = adj_id a u) (enumerate 0 es))"
proof -
  obtain ids index ks where b:
    "ids = first_occ (g_nodes g @ endpoints es)"
    "interned (ids, index)" "list_all2 (denotes ids) ks es"
    "a = \<lparr>a_ids = ids, a_index = index,
        a_out_start = fst (csr (length ids) ks out_key), a_out = snd (csr (length ids) ks out_key),
        a_in_start = fst (csr (length ids) ks in_key), a_inn = snd (csr (length ids) ks in_key),
        a_kept = length ks\<rparr>"
    using build_capped_fits [OF assms(1)] assms(2,3) by metis
  have len: "length ks = length es" using b(3) by (rule list_all2_lengthD)
  show "a_ids a = first_occ (g_nodes g @ endpoints es)" "a_kept a = length es"
    using b(1) len by (simp_all add: b(4))
  assume "u < adj_len a"
  then have u: "u < length ids" by (simp add: b(4) adj_len_def)
  have d: "denotes ids (ks ! k) (es ! k)" if "k < length ks" for k
    using b(3) that by (rule list_all2_nthD)
  have dist: "distinct ids" using b(2) by (simp add: interned_def)
  have row: "fst (ks ! k) = u \<longleftrightarrow> efrom (es ! k) = ids ! u"
    "fst (snd (ks ! k)) = u \<longleftrightarrow> eto (es ! k) = ids ! u"
    "ids ! fst (ks ! k) = efrom (es ! k)" "ids ! fst (snd (ks ! k)) = eto (es ! k)"
    "snd (snd (ks ! k)) = ecategory (es ! k)" if "k < length ks" for k
    using d [OF that] dist u by (auto simp: denotes_def nth_eq_iff_index_eq split: prod.splits)
  have out: "outgoing a u = map (\<lambda>k. \<lparr>i_edge = k, i_other = fst (snd (ks ! k)),
      i_category = snd (snd (ks ! k))\<rparr>) (filter (\<lambda>k. fst (ks ! k) = u) [0..<length ks])"
    and inn: "incoming a u = map (\<lambda>k. \<lparr>i_edge = k, i_other = fst (ks ! k),
      i_category = snd (snd (ks ! k))\<rparr>) (filter (\<lambda>k. fst (snd (ks ! k)) = u) [0..<length ks])"
    using csr_out_in [OF denotes_range [OF b(3)] u] by (simp_all add: b(4) outgoing_def incoming_def)
  have ids: "adj_id a i = ids ! i" for i by (simp add: b(4) adj_id_def)
  show "map (\<lambda>x. (i_edge x, adj_id a (i_other x), i_category x)) (outgoing a u) =
      map (\<lambda>(k, e). (k, eto e, ecategory e))
        (filter (\<lambda>(k, e). efrom e = adj_id a u) (enumerate 0 es))"
    unfolding out ids enumerate_upt filter_map map_map len
    by (rule map_cong [OF filter_cong]) (auto simp: row len)
  show "map (\<lambda>x. (i_edge x, adj_id a (i_other x), i_category x)) (incoming a u) =
      map (\<lambda>(k, e). (k, efrom e, ecategory e))
        (filter (\<lambda>(k, e). eto e = adj_id a u) (enumerate 0 es))"
    unfolding inn ids enumerate_upt filter_map map_map len
    by (rule map_cong [OF filter_cong]) (auto simp: row len)
qed

subsection \<open>Properties\<close>

text \<open>
  C11: the CSR index is the edge scan it replaced. When the graph is within the limit, the ids
  are the node ids then the dangling endpoints, each at its first occurrence, and a node's
  outgoing (incoming) incidences are the kept edges leaving (entering) it, in global edge
  order, with the position, the other end and the category of each.
\<close>

theorem build_is_edge_scan:
  assumes "build_fits g keep cap" and "a = build_capped g keep cap"
    and "es = kept_of keep (g_edges g)"
  shows "a_ids a = first_occ (g_nodes g @ endpoints es) \<and> a_kept a = length es \<and>
    (\<forall>u < adj_len a.
      map (\<lambda>x. (i_edge x, adj_id a (i_other x), i_category x)) (outgoing a u) =
      map (\<lambda>(k, e). (k, eto e, ecategory e))
        (filter (\<lambda>(k, e). efrom e = adj_id a u) (enumerate 0 es)) \<and>
      map (\<lambda>x. (i_edge x, adj_id a (i_other x), i_category x)) (incoming a u) =
      map (\<lambda>(k, e). (k, efrom e, ecategory e))
        (filter (\<lambda>(k, e). eto e = adj_id a u) (enumerate 0 es)))"
  using build_scan [OF assms] by blast

theorem build_is_edge_scan_witness:
  "build_fits \<lparr>g_nodes = [1, 2], g_edges = [edge_new 1 7 3 Strong]\<rparr> category_set_all u32_max \<and>
   a_ids (build_capped \<lparr>g_nodes = [1, 2], g_edges = [edge_new 1 7 3 Strong]\<rparr>
     category_set_all u32_max) = [1, 2, 7]"
proof -
  let ?g = "\<lparr>g_nodes = [1, 2], g_edges = [edge_new 1 7 3 Strong]\<rparr>"
  have fits: "build_fits ?g category_set_all u32_max"
    by (simp add: build_fits_def edge_new_def u32_max_def card_insert_if)
  then show ?thesis
    using build_is_edge_scan [OF fits refl refl] by (simp add: edge_new_def first_occ_def)
qed

end
