(* ===== verification/Reach.thy ===== *)
theory Reach
  imports Adjacency
begin

text \<open>
  The walks of \<open>activation/src/algo/reach.rs\<close>: the queue walk \<open>bfs\<close>, the levelled
  layer-by-layer walk \<open>bfs_levels\<close>, \<open>reachable\<close> and \<open>reachable_by\<close>. A reference notion of
  layers of a relation (\<open>layer\<close>, \<open>first_hop\<close>) says which node is reached at which depth;
  the walks are shown to compute it over any \<open>indexed_graph\<close>.
\<close>

definition usize_max :: nat where
  "usize_max = 2 ^ 64 - 1"

subsection \<open>Incidences in edge order\<close>

text \<open>The merge loop of \<open>Walk::Both\<close>, over what is left of the out-list and the in-list.\<close>

fun merge_incs :: "inc list \<Rightarrow> inc list \<Rightarrow> inc list" where
  "merge_incs [] [] = []"
| "merge_incs (x # outs) [] = x # merge_incs outs []"
| "merge_incs [] (y # ins) = y # merge_incs [] ins"
| "merge_incs (x # outs) (y # ins) =
     (if i_edge x \<le> i_edge y then
        (if i_edge x = i_edge y then x # merge_incs outs ins
         else x # merge_incs outs (y # ins))
      else y # merge_incs (x # outs) ins)"

fun each_incidence :: "adjacency \<Rightarrow> nat \<Rightarrow> walk \<Rightarrow> inc list" where
  "each_incidence adj u Forward = outgoing adj u"
| "each_incidence adj u Backward = incoming adj u"
| "each_incidence adj u Both = merge_incs (outgoing adj u) (incoming adj u)"

subsection \<open>The queue walk\<close>

record reached =
  r_id :: node_id
  r_depth :: nat
  r_via :: category
  r_parent :: node_id

record bfs_result =
  b_reached :: "reached list"
  b_scanned :: nat

type_synonym queue = "(nat \<times> nat) list"

fun bfs_seed :: "adjacency \<Rightarrow> node_id \<Rightarrow> bool list \<times> queue \<Rightarrow> bool list \<times> queue" where
  "bfs_seed adj s (visited, queue) =
     (case index_of adj s of
        None \<Rightarrow> (visited, queue)
      | Some ix \<Rightarrow>
          if \<not> is_set visited ix then (visited[ix := True], queue @ [(ix, 0)])
          else (visited, queue))"

fun bfs_step ::
  "adjacency \<Rightarrow> nat \<Rightarrow> nat \<Rightarrow> inc \<Rightarrow> bool list \<times> queue \<times> bfs_result \<Rightarrow>
   bool list \<times> queue \<times> bfs_result" where
  "bfs_step adj u depth x (visited, queue, out) =
     (let out = out\<lparr>b_scanned := Suc (b_scanned out)\<rparr>; next = i_other x
      in if \<not> is_set visited next then
           (visited[next := True], queue @ [(i_other x, Suc depth)],
            out\<lparr>b_reached := b_reached out @
              [\<lparr>r_id = adj_id adj (i_other x), r_depth = Suc depth, r_via = i_category x,
                r_parent = adj_id adj u\<rparr>]\<rparr>)
         else (visited, queue, out))"

definition unset :: "bool list \<Rightarrow> nat" where
  "unset v = length (filter Not v)"

lemma unset_update: "\<not> is_set v i \<Longrightarrow> Suc (unset (v[i := True])) = unset v"
proof (induction v arbitrary: i)
  case (Cons b v)
  then show ?case by (cases i) (auto simp: unset_def is_set_def)
qed (simp add: is_set_def)

lemma bfs_fold_measure:
  "2 * unset (fst (fold (bfs_step adj u depth) xs st)) +
     length (fst (snd (fold (bfs_step adj u depth) xs st))) \<le>
   2 * unset (fst st) + length (fst (snd st))"
proof (induction xs arbitrary: st)
  case (Cons x xs)
  obtain visited queue out where st: "st = (visited, queue, out)" by (cases st)
  show ?case
  proof (cases "is_set visited (i_other x)")
    case True
    then show ?thesis using Cons [of "(visited, queue, out\<lparr>b_scanned := Suc (b_scanned out)\<rparr>)"]
      by (simp add: st)
  next
    case False
    show ?thesis
      using Cons [of "bfs_step adj u depth x st"] unset_update [OF False] False by (simp add: st)
  qed
qed simp

function bfs_loop ::
  "adjacency \<Rightarrow> walk \<Rightarrow> nat \<Rightarrow> bool list \<Rightarrow> queue \<Rightarrow> bfs_result \<Rightarrow> bfs_result" where
  "bfs_loop adj walk max_depth visited [] out = out"
| "bfs_loop adj walk max_depth visited ((u, depth) # queue) out =
     (if max_depth \<le> depth then bfs_loop adj walk max_depth visited queue out
      else (case fold (bfs_step adj u depth) (each_incidence adj u walk) (visited, queue, out) of
          (visited', queue', out') \<Rightarrow> bfs_loop adj walk max_depth visited' queue' out'))"
  by pat_completeness auto
termination
proof (relation "measure (\<lambda>(adj, walk, max_depth, visited, queue, out). 2 * unset visited + length queue)",
    goal_cases)
  case (3 adj walk max_depth visited u depth queue out v y q out')
  then show ?case
    using bfs_fold_measure [of adj u depth "each_incidence adj u walk" "(visited, queue, out)"]
    by (simp add: case_prod_beta)
qed auto

definition bfs :: "adjacency \<Rightarrow> node_id list \<Rightarrow> walk \<Rightarrow> nat \<Rightarrow> bfs_result" where
  "bfs adj seeds walk max_depth =
     (case fold (bfs_seed adj) seeds (replicate (adj_len adj) False, []) of
        (visited, queue) \<Rightarrow>
          bfs_loop adj walk max_depth visited queue \<lparr>b_reached = [], b_scanned = 0\<rparr>)"

subsection \<open>The levelled walk\<close>

record level_reached =
  l_id :: node_id
  l_level :: nat
  l_depth :: nat
  l_via :: category
  l_parent :: node_id
  l_kept_edge :: nat

record level_bfs =
  lb_reached :: "level_reached list"
  lb_seeds :: "(node_id \<times> nat) list"
  lb_scanned :: nat

record level_walk =
  lw_walk :: walk
  lw_levels :: nat
  lw_max_depth :: nat
  lw_within :: "bool list option"
  lw_parent_rank :: "nat list option"
  lw_plus :: bool

definition level_walk_new :: "walk \<Rightarrow> nat \<Rightarrow> level_walk" where
  "level_walk_new walk levels =
     \<lparr>lw_walk = walk, lw_levels = levels, lw_max_depth = usize_max, lw_within = None,
      lw_parent_rank = None, lw_plus = False\<rparr>"

definition level_bfs_empty :: level_bfs where
  "level_bfs_empty = \<lparr>lb_reached = [], lb_seeds = [], lb_scanned = 0\<rparr>"

definition inside :: "level_walk \<Rightarrow> nat \<Rightarrow> bool" where
  "inside how ix \<longleftrightarrow> (case lw_within how of None \<Rightarrow> True | Some m \<Rightarrow> m ! ix)"

text \<open>
  The started seeds, each once at its lowest level in first-occurrence order. A slot's
  \<open>usize::MAX\<close> marker (not started) is \<open>None\<close>.
\<close>

fun level_start ::
  "adjacency \<Rightarrow> level_walk \<Rightarrow> (node_id \<times> nat) list \<Rightarrow> nat option list \<Rightarrow> (nat \<times> nat) list \<Rightarrow>
   (nat \<times> nat) list" where
  "level_start adj how [] slot start = start"
| "level_start adj how ((i, level) # seeds) slot start =
     (case index_of adj i of
        None \<Rightarrow> level_start adj how seeds slot start
      | Some ix \<Rightarrow>
          if \<not> inside how ix then level_start adj how seeds slot start
          else (case slot ! ix of
              None \<Rightarrow> level_start adj how seeds (slot[ix := Some (length start)]) (start @ [(ix, level)])
            | Some at \<Rightarrow> level_start adj how seeds slot
                (start[at := (fst (start ! at), min (snd (start ! at)) level)])))"

type_synonym lstate = "bool list \<times> nat list \<times> bool list \<times> level_reached list \<times> nat"

text \<open>One incidence: \<open>(visited, next, reported, reached, scanned)\<close>.\<close>

fun level_step ::
  "adjacency \<Rightarrow> level_walk \<Rightarrow> nat list \<Rightarrow> nat \<Rightarrow> nat \<Rightarrow> nat \<times> inc \<Rightarrow> lstate \<Rightarrow> lstate" where
  "level_step adj how edge_level level depth (u, x) (visited, next, reported, reached, scanned) =
     (let to = i_other x
      in if edge_level ! i_edge x > level \<or> is_set visited to \<or> \<not> inside how (i_other x)
         then (visited, next, reported, reached, Suc scanned)
         else if \<not> is_set reported to
         then (visited[to := True], next @ [i_other x], reported[to := True],
           reached @ [\<lparr>l_id = adj_id adj (i_other x), l_level = level, l_depth = Suc depth,
             l_via = i_category x, l_parent = adj_id adj u, l_kept_edge = i_edge x\<rparr>], Suc scanned)
         else (visited[to := True], next @ [i_other x], reported, reached, Suc scanned))"

definition rank_frontier :: "level_walk \<Rightarrow> nat list \<Rightarrow> nat list" where
  "rank_frontier how frontier =
     (case lw_parent_rank how of
        None \<Rightarrow> frontier
      | Some rank \<Rightarrow> sort_key (\<lambda>ix. (rank ! ix, ix)) frontier)"

definition layer_incs :: "adjacency \<Rightarrow> walk \<Rightarrow> nat list \<Rightarrow> (nat \<times> inc) list" where
  "layer_incs adj walk frontier =
     concat (map (\<lambda>u. map (Pair u) (each_incidence adj u walk)) frontier)"

definition level_expand ::
  "adjacency \<Rightarrow> level_walk \<Rightarrow> nat list \<Rightarrow> nat \<Rightarrow> nat \<Rightarrow> nat list \<Rightarrow> lstate \<Rightarrow> lstate" where
  "level_expand adj how edge_level level depth frontier st =
     fold (level_step adj how edge_level level depth)
       (layer_incs adj (lw_walk how) (rank_frontier how frontier)) st"

lemma level_fold_measure:
  "unset (fst (fold (level_step adj how el level depth) xs st)) +
     length (fst (snd (fold (level_step adj how el level depth) xs st))) =
   unset (fst st) + length (fst (snd st))"
proof (induction xs arbitrary: st)
  case (Cons p xs)
  obtain u x where p: "p = (u, x)" by (cases p)
  obtain visited "next" reported reached scanned
    where st: "st = (visited, next, reported, reached, scanned)" by (cases st)
  have "unset (fst (level_step adj how el level depth p st)) +
      length (fst (snd (level_step adj how el level depth p st))) =
      unset (fst st) + length (fst (snd st))"
  proof (cases "is_set visited (i_other x)")
    case True
    then show ?thesis by (simp add: p st)
  next
    case False
    then show ?thesis using unset_update [OF False] by (simp add: p st)
  qed
  then show ?case using Cons [of "level_step adj how el level depth p st"] by simp
qed simp

function level_loop ::
  "adjacency \<Rightarrow> level_walk \<Rightarrow> nat list \<Rightarrow> nat \<Rightarrow> nat \<Rightarrow> bool list \<Rightarrow> nat list \<Rightarrow> bool list \<Rightarrow>
   level_reached list \<Rightarrow> nat \<Rightarrow> bool list \<times> level_reached list \<times> nat" where
  "level_loop adj how edge_level level depth visited frontier reported reached scanned =
     (if frontier \<noteq> [] \<and> depth < lw_max_depth how then
        (case level_expand adj how edge_level level depth frontier
            (visited, [], reported, reached, scanned) of
           (visited', next, reported', reached', scanned') \<Rightarrow>
             level_loop adj how edge_level level (Suc depth) visited' next reported' reached' scanned')
      else (reported, reached, scanned))"
  by pat_completeness auto
termination
proof (relation "measures [\<lambda>(adj, how, el, level, depth, visited, frontier, st). unset visited,
    \<lambda>(adj, how, el, level, depth, visited, frontier, st). length frontier]", goal_cases)
  case 1
  show ?case by simp
next
  case (2 adj how el level depth visited frontier reported reached scanned v y n z r w q c)
  then have "fold (level_step adj how el level depth)
      (layer_incs adj (lw_walk how) (rank_frontier how frontier))
      (visited, [], reported, reached, scanned) = (v, n, r, q, c)"
    by (simp add: level_expand_def)
  then have "unset v + length n = unset visited"
    using level_fold_measure [of adj how el level depth
        "layer_incs adj (lw_walk how) (rank_frontier how frontier)"
        "(visited, [], reported, reached, scanned)"] by simp
  with 2(1) show ?case by (cases n) auto
qed

declare level_loop.simps [simp del]

definition pass_init :: "level_walk \<Rightarrow> (nat \<times> nat) list \<Rightarrow> nat \<Rightarrow> nat \<Rightarrow> bool list \<times> nat list" where
  "pass_init how start n level =
     fold (\<lambda>(ix, seed_level) (visited, frontier).
         if seed_level \<le> level then (visited[ix := \<not> lw_plus how], frontier @ [ix])
         else (visited, frontier))
       start (replicate n False, [])"

definition level_pass ::
  "adjacency \<Rightarrow> level_walk \<Rightarrow> nat list \<Rightarrow> (nat \<times> nat) list \<Rightarrow> nat \<Rightarrow>
   bool list \<times> level_reached list \<times> nat \<Rightarrow> bool list \<times> level_reached list \<times> nat" where
  "level_pass adj how edge_level start level st = (case st of (reported, reached, scanned) \<Rightarrow>
     (case pass_init how start (adj_len adj) level of (visited, frontier) \<Rightarrow>
        level_loop adj how edge_level level 0 visited frontier reported reached scanned))"

definition wrong_length :: "'a list option \<Rightarrow> nat \<Rightarrow> bool" where
  "wrong_length v n = (case v of None \<Rightarrow> False | Some xs \<Rightarrow> length xs \<noteq> n)"

definition bfs_levels ::
  "adjacency \<Rightarrow> (node_id \<times> nat) list \<Rightarrow> nat list \<Rightarrow> level_walk \<Rightarrow> level_bfs" where
  "bfs_levels adj seeds edge_level how =
     (if length edge_level \<noteq> a_kept adj then level_bfs_empty
      else if wrong_length (lw_within how) (adj_len adj) then level_bfs_empty
      else if wrong_length (lw_parent_rank how) (adj_len adj) then level_bfs_empty
      else
        let n = adj_len adj;
            start = filter (\<lambda>(ix, level). level < lw_levels how)
              (level_start adj how seeds (replicate n None) []);
            (reported, reached, scanned) =
              fold (level_pass adj how edge_level start) [0..<lw_levels how]
                (replicate n False, [], 0)
        in \<lparr>lb_reached = reached, lb_seeds = map (\<lambda>(ix, level). (adj_id adj ix, level)) start,
            lb_scanned = scanned\<rparr>)"

subsection \<open>Closures\<close>

definition reachable :: "adjacency \<Rightarrow> node_id list \<Rightarrow> walk \<Rightarrow> node_id set" where
  "reachable adj seeds walk =
     set seeds \<union> set (map r_id (b_reached (bfs adj seeds walk usize_max)))"

type_synonym rb_state = "bool list \<times> bool list \<times> nat \<times> queue"

fun rb_step :: "bool list \<Rightarrow> nat \<Rightarrow> inc \<Rightarrow> rb_state \<Rightarrow> rb_state" where
  "rb_step target depth x (visited, hit, hits, queue) =
     (let next = i_other x
      in if \<not> is_set visited next then
           (visited[next := True],
            if target ! next then hit[next := True] else hit,
            if target ! next then Suc hits else hits,
            queue @ [(i_other x, Suc depth)])
         else (visited, hit, hits, queue))"

lemma rb_fold_measure:
  "2 * unset (fst (fold (rb_step target depth) xs st)) +
     length (snd (snd (snd (fold (rb_step target depth) xs st)))) \<le>
   2 * unset (fst st) + length (snd (snd (snd st)))"
proof (induction xs arbitrary: st)
  case (Cons x xs)
  obtain visited hit hits queue where st: "st = (visited, hit, hits, queue)" by (cases st)
  show ?case
  proof (cases "is_set visited (i_other x)")
    case True
    then show ?thesis using Cons [of st] by (simp add: st)
  next
    case False
    show ?thesis
      using Cons [of "rb_step target depth x st"] unset_update [OF False] False by (simp add: st)
  qed
qed simp

function rb_loop ::
  "adjacency \<Rightarrow> bool list \<Rightarrow> nat \<Rightarrow> nat \<Rightarrow> bool list \<Rightarrow> bool list \<Rightarrow> nat \<Rightarrow> queue \<Rightarrow> bool list" where
  "rb_loop adj target wanted max_depth visited hit hits [] = hit"
| "rb_loop adj target wanted max_depth visited hit hits ((u, depth) # queue) =
     (if hits = wanted then hit
      else if max_depth \<le> depth then rb_loop adj target wanted max_depth visited hit hits queue
      else (case fold (rb_step target depth) (incoming adj u) (visited, hit, hits, queue) of
          (visited', hit', hits', queue') \<Rightarrow>
            rb_loop adj target wanted max_depth visited' hit' hits' queue'))"
  by pat_completeness auto
termination
proof (relation "measure (\<lambda>(adj, target, wanted, max_depth, visited, hit, hits, queue).
    2 * unset visited + length queue)", goal_cases)
  case (3 adj target wanted max_depth visited hit hits u depth queue v y h z k q)
  then have "fold (rb_step target depth) (incoming adj u) (visited, hit, hits, queue) = (v, h, k, q)"
    by simp
  then show ?case
    using rb_fold_measure [of target depth "incoming adj u" "(visited, hit, hits, queue)"] by simp
qed auto

definition reachable_by :: "adjacency \<Rightarrow> node_id \<Rightarrow> node_id list \<Rightarrow> nat \<Rightarrow> node_id list" where
  "reachable_by adj sink sources max_depth =
     (if sources = [] then []
      else
        let wanted = card (set sources);
            n = adj_len adj;
            target = fold (\<lambda>s t. case index_of adj s of None \<Rightarrow> t | Some ix \<Rightarrow> t[ix := True])
              sources (replicate n False);
            (visited, queue) = (case index_of adj sink of
                None \<Rightarrow> (replicate n False, [])
              | Some ix \<Rightarrow> ((replicate n False)[ix := True], [(ix, 0)]));
            hit = rb_loop adj target wanted max_depth visited (replicate n False) 0 queue
        in filter (\<lambda>s. case index_of adj s of None \<Rightarrow> False | Some ix \<Rightarrow> hit ! ix) sources)"

subsection \<open>Layers of a relation\<close>

text \<open>
  The layers of a breadth-first search: everything visited after \<open>d\<close> layers, and the nodes
  new in the last one. With \<open>pl\<close> the seeds do not count as visited at the start.
\<close>

fun layer :: "('a \<times> 'a) set \<Rightarrow> 'a set \<Rightarrow> bool \<Rightarrow> nat \<Rightarrow> 'a set \<times> 'a set" where
  "layer R S pl 0 = (if pl then {} else S, S)"
| "layer R S pl (Suc d) =
     (let (V, F) = layer R S pl d; N = R `` F - V in (V \<union> N, N))"

definition hops :: "('a \<times> 'a) set \<Rightarrow> 'a set \<Rightarrow> nat \<Rightarrow> 'a set" where
  "hops R S k = (R ^^ k) `` S"

lemma hops_0 [simp]: "hops R S 0 = S"
  by (simp add: hops_def)

lemma hops_Suc: "hops R S (Suc k) = R `` hops R S k"
  by (auto simp: hops_def)

text \<open>\<open>v\<close> is reached first at hop \<open>k\<close>: not the start itself, and at no smaller hop count.\<close>

definition first_hop :: "('a \<times> 'a) set \<Rightarrow> 'a set \<Rightarrow> bool \<Rightarrow> nat \<Rightarrow> 'a set" where
  "first_hop R S pl k =
     {v \<in> hops R S k. 1 \<le> k \<and> (\<forall>j < k. (pl \<longrightarrow> 1 \<le> j) \<longrightarrow> v \<notin> hops R S j)}"

lemma layer_spec:
  "fst (layer R S pl d) = (\<Union>j \<in> {j. j \<le> d \<and> (pl \<longrightarrow> 1 \<le> j)}. hops R S j) \<and>
   snd (layer R S pl d) \<subseteq> hops R S d \<and>
   hops R S d \<subseteq> snd (layer R S pl d) \<union> fst (layer R S pl d) \<and>
   R `` (fst (layer R S pl d) - snd (layer R S pl d)) \<subseteq> fst (layer R S pl d)"
proof (induction d)
  case 0
  then show ?case by auto
next
  case (Suc d)
  obtain V F where VF: "layer R S pl d = (V, F)" by (cases "layer R S pl d")
  from Suc have IH: "V = (\<Union>j \<in> {j. j \<le> d \<and> (pl \<longrightarrow> 1 \<le> j)}. hops R S j)"
    "F \<subseteq> hops R S d" "hops R S d \<subseteq> F \<union> V" "R `` (V - F) \<subseteq> V"
    unfolding VF fst_conv snd_conv by blast+
  have "{j. j \<le> Suc d \<and> (pl \<longrightarrow> 1 \<le> j)} = insert (Suc d) {j. j \<le> d \<and> (pl \<longrightarrow> 1 \<le> j)}"
    by auto
  moreover have "V \<union> R `` F = V \<union> hops R S (Suc d)"
    using IH(2-4) unfolding hops_Suc by blast
  ultimately have "V \<union> (R `` F - V) = (\<Union>j \<in> {j. j \<le> Suc d \<and> (pl \<longrightarrow> 1 \<le> j)}. hops R S j)"
    using IH(1) by auto
  moreover have "R `` (V \<union> (R `` F - V) - (R `` F - V)) \<subseteq> V \<union> (R `` F - V)"
    using IH(4) by blast
  moreover have "R `` F - V \<subseteq> hops R S (Suc d)"
    using IH(2) unfolding hops_Suc by blast
  moreover have "hops R S (Suc d) \<subseteq> (R `` F - V) \<union> (V \<union> (R `` F - V))"
    using IH(3,4) unfolding hops_Suc by blast
  ultimately show ?case by (simp add: VF)
qed

lemma layer_first_hop: "snd (layer R S pl (Suc d)) = first_hop R S pl (Suc d)"
proof -
  obtain V F where VF: "layer R S pl d = (V, F)" by (cases "layer R S pl d")
  note spec = layer_spec [of R S pl d, unfolded VF fst_conv snd_conv]
  have "R `` F - V = hops R S (Suc d) - V"
    using spec unfolding hops_Suc by blast
  also have "\<dots> = first_hop R S pl (Suc d)"
    using spec by (auto simp: first_hop_def less_Suc_eq_le)
  finally show ?thesis by (simp add: VF)
qed

subsection \<open>One layer of the levelled walk\<close>

definition vset :: "bool list \<Rightarrow> nat set" where
  "vset v = {i. i < length v \<and> v ! i}"

lemma vset_replicate [simp]: "vset (replicate n False) = {}"
  by (auto simp: vset_def)

lemma vset_update [simp]: "i < length v \<Longrightarrow> vset (v[i := True]) = insert i (vset v)"
  by (auto simp: vset_def nth_list_update split: if_splits)

lemma is_set_vset: "i < length v \<Longrightarrow> is_set v i \<longleftrightarrow> i \<in> vset v"
  by (simp add: is_set_def vset_def)

definition walkable :: "level_walk \<Rightarrow> nat list \<Rightarrow> nat \<Rightarrow> inc \<Rightarrow> bool" where
  "walkable how el level x \<longleftrightarrow> el ! i_edge x \<le> level \<and> inside how (i_other x)"

definition layer_targets :: "level_walk \<Rightarrow> nat list \<Rightarrow> nat \<Rightarrow> (nat \<times> inc) list \<Rightarrow> nat set" where
  "layer_targets how el level xs = {i_other x | u x. (u, x) \<in> set xs \<and> walkable how el level x}"

lemma layer_targets_simps [simp]:
  "layer_targets how el level [] = {}"
  "layer_targets how el level ((u, x) # xs) =
     (if walkable how el level x then insert (i_other x) (layer_targets how el level xs)
      else layer_targets how el level xs)"
  by (auto simp: layer_targets_def)

text \<open>What a record of a walk at one level and depth says: the incidence that reached it.\<close>

definition explains ::
  "adjacency \<Rightarrow> level_walk \<Rightarrow> nat list \<Rightarrow> nat \<Rightarrow> nat \<Rightarrow> (nat \<times> inc) list \<Rightarrow> level_reached \<Rightarrow> bool" where
  "explains adj how el level depth xs r \<longleftrightarrow>
     l_level r = level \<and> l_depth r = Suc depth \<and>
     (\<exists>(u, x) \<in> set xs. walkable how el level x \<and> l_id r = adj_id adj (i_other x) \<and>
        l_via r = i_category x \<and> l_parent r = adj_id adj u \<and> l_kept_edge r = i_edge x)"

lemma level_fold:
  assumes "\<forall>(u, x) \<in> set xs. i_other x < n" and "length visited = n" and "length reported = n"
  shows "\<exists>visited' new reported' rs.
    fold (level_step adj how el level depth) xs (visited, next, reported, reached, scanned) =
      (visited', next @ new, reported', reached @ rs, scanned + length xs) \<and>
    length visited' = n \<and> length reported' = n \<and>
    vset visited' = vset visited \<union> layer_targets how el level xs \<and>
    distinct new \<and> set new = layer_targets how el level xs - vset visited \<and>
    vset reported' = vset reported \<union> set new \<and>
    map l_id rs = map (adj_id adj) (filter (\<lambda>v. v \<notin> vset reported) new) \<and>
    (\<forall>r \<in> set rs. explains adj how el level depth xs r)"
  using assms
proof (induction xs arbitrary: visited "next" reported reached scanned)
  case Nil
  then show ?case by simp
next
  case (Cons p xs)
  obtain u x where p: "p = (u, x)" by (cases p)
  let ?to = "i_other x"
  have to: "?to < n" and rest: "\<forall>(u, x) \<in> set xs. i_other x < n" using Cons.prems(1) p by auto
  have mono: "explains adj how el level depth xs r \<Longrightarrow> explains adj how el level depth (p # xs) r" for r
    by (auto simp: explains_def)
  show ?case
  proof (cases "walkable how el level x \<and> ?to \<notin> vset visited")
    case False
    have "level_step adj how el level depth p (visited, next, reported, reached, scanned) =
        (visited, next, reported, reached, Suc scanned)"
      using False to Cons.prems(2) by (auto simp: p walkable_def is_set_vset)
    moreover have "vset visited \<union> layer_targets how el level (p # xs) =
        vset visited \<union> layer_targets how el level xs"
      "layer_targets how el level (p # xs) - vset visited = layer_targets how el level xs - vset visited"
      using False by (auto simp: p)
    ultimately show ?thesis
      using Cons.IH [OF rest Cons.prems(2,3), of "next" reached "Suc scanned"] mono by fastforce
  next
    case True
    let ?v = "visited[?to := True]"
    have v: "length ?v = n" "vset ?v = insert ?to (vset visited)" using Cons.prems(2) to by auto
    define r where "r = \<lparr>l_id = adj_id adj (i_other x), l_level = level, l_depth = Suc depth,
      l_via = i_category x, l_parent = adj_id adj u, l_kept_edge = i_edge x\<rparr>"
    define rep where "rep = (if ?to \<in> vset reported then reported else reported[?to := True])"
    define rs0 where "rs0 = (if ?to \<in> vset reported then [] else [r])"
    have rep: "length rep = n" "vset rep = insert ?to (vset reported)"
      using Cons.prems(3) to by (auto simp: rep_def)
    have step: "level_step adj how el level depth p (visited, next, reported, reached, scanned) =
        (?v, next @ [?to], rep, reached @ rs0, Suc scanned)"
      using True to Cons.prems(2,3)
      by (auto simp: p walkable_def is_set_vset rep_def rs0_def r_def)
    have r: "explains adj how el level depth (p # xs) r"
      using True by (auto simp: explains_def r_def p)
    obtain visited' new reported' rs where IH:
      "fold (level_step adj how el level depth) xs (?v, next @ [?to], rep, reached @ rs0, Suc scanned) =
        (visited', (next @ [?to]) @ new, reported', (reached @ rs0) @ rs, Suc scanned + length xs)"
      "length visited' = n" "length reported' = n"
      "vset visited' = vset ?v \<union> layer_targets how el level xs"
      "distinct new" "set new = layer_targets how el level xs - vset ?v"
      "vset reported' = vset rep \<union> set new"
      "map l_id rs = map (adj_id adj) (filter (\<lambda>v. v \<notin> vset rep) new)"
      "\<forall>r \<in> set rs. explains adj how el level depth xs r"
      using Cons.IH [OF rest v(1) rep(1), of "next @ [?to]" "reached @ rs0" "Suc scanned"] by blast
    have "filter (\<lambda>v. v \<notin> vset rep) new = filter (\<lambda>v. v \<notin> vset reported) new"
      using IH(6) v(2) rep(2) by (intro filter_cong) auto
    then have ids: "map l_id (rs0 @ rs) =
        map (adj_id adj) (filter (\<lambda>v. v \<notin> vset reported) (?to # new))"
      using IH(8) by (simp add: rs0_def r_def)
    show ?thesis
    proof (intro exI conjI)
      show "fold (level_step adj how el level depth) (p # xs)
          (visited, next, reported, reached, scanned) =
        (visited', next @ (?to # new), reported', reached @ (rs0 @ rs), scanned + length (p # xs))"
        using IH(1) step by simp
      show "set (?to # new) = layer_targets how el level (p # xs) - vset visited"
        using IH(6) True v(2) by (auto simp: p)
      show "distinct (?to # new)" using IH(5,6) v(2) by simp
      show "map l_id (rs0 @ rs) = map (adj_id adj) (filter (\<lambda>v. v \<notin> vset reported) (?to # new))"
        by (rule ids)
      show "\<forall>r \<in> set (rs0 @ rs). explains adj how el level depth (p # xs) r"
        using IH(9) mono r by (auto simp: rs0_def)
    qed (use IH v rep True p in auto)
  qed
qed

subsection \<open>A pass of the levelled walk\<close>

text \<open>The relation pass \<open>level\<close> walks.\<close>

definition walk_rel :: "adjacency \<Rightarrow> level_walk \<Rightarrow> nat list \<Rightarrow> nat \<Rightarrow> (nat \<times> nat) set" where
  "walk_rel adj how el level = {(u, i_other x) | u x. u < adj_len adj \<and>
     x \<in> set (each_incidence adj u (lw_walk how)) \<and> walkable how el level x}"

lemma set_merge_incs_subset: "set (merge_incs xs ys) \<subseteq> set xs \<union> set ys"
  by (induction xs ys rule: merge_incs.induct) auto

lemma set_rank_frontier [simp]: "set (rank_frontier how frontier) = set frontier"
  by (auto simp: rank_frontier_def split: option.split)

lemma layer_empty: "snd (layer R S pl d) = {} \<Longrightarrow> d \<le> k \<Longrightarrow> snd (layer R S pl k) = {}"
proof (induction k)
  case (Suc k)
  show ?case
  proof (cases "d = Suc k")
    case False
    then have "snd (layer R S pl k) = {}" using Suc by simp
    then show ?thesis by (simp add: case_prod_beta)
  qed (use Suc in simp)
qed simp

lemma first_hop_disjoint: "v \<in> first_hop R S pl k \<Longrightarrow> v \<in> first_hop R S pl j \<Longrightarrow> k = j"
  by (auto simp: first_hop_def) (metis linorder_neqE_nat)

text \<open>The record's parent sits one layer up, and the reaching edge leads from it to the node.\<close>

definition hop_explained ::
  "adjacency \<Rightarrow> level_walk \<Rightarrow> nat list \<Rightarrow> nat set \<Rightarrow> nat \<Rightarrow> level_reached \<Rightarrow> bool" where
  "hop_explained adj how el S level r \<longleftrightarrow>
     l_level r = level \<and>
     (\<exists>u x. u \<in> snd (layer (walk_rel adj how el level) S (lw_plus how) (l_depth r - 1)) \<and>
        u < adj_len adj \<and> x \<in> set (each_incidence adj u (lw_walk how)) \<and>
        walkable how el level x \<and> l_id r = adj_id adj (i_other x) \<and>
        l_via r = i_category x \<and> l_parent r = adj_id adj u \<and> l_kept_edge r = i_edge x)"

definition pass_rows ::
  "adjacency \<Rightarrow> level_walk \<Rightarrow> nat list \<Rightarrow> nat set \<Rightarrow> nat \<Rightarrow> nat \<Rightarrow> (nat \<times> nat) set" where
  "pass_rows adj how el S level d =
     {(v, k). d < k \<and> k \<le> lw_max_depth how \<and>
        v \<in> first_hop (walk_rel adj how el level) S (lw_plus how) k}"

lemma pass_rows_step:
  "d < lw_max_depth how \<Longrightarrow>
   pass_rows adj how el S level d =
     (\<lambda>v. (v, Suc d)) ` snd (layer (walk_rel adj how el level) S (lw_plus how) (Suc d)) \<union>
     pass_rows adj how el S level (Suc d)"
  unfolding pass_rows_def layer_first_hop by (auto simp: image_iff) (metis Suc_lessI)

lemma pass_rows_end:
  assumes "snd (layer (walk_rel adj how el level) S (lw_plus how) d) = {} \<or> lw_max_depth how \<le> d"
  shows "pass_rows adj how el S level d = {}"
proof -
  have "first_hop (walk_rel adj how el level) S (lw_plus how) k = {}"
    if "d < k" "k \<le> lw_max_depth how" for k
    using that assms layer_empty [of "walk_rel adj how el level" S "lw_plus how" d k]
      layer_first_hop [of "walk_rel adj how el level" S "lw_plus how" "k - 1"] by auto
  then show ?thesis by (auto simp: pass_rows_def)
qed

context indexed_graph
begin

lemma incidence_range:
  "u < adj_len adj \<Longrightarrow> x \<in> set (each_incidence adj u w) \<Longrightarrow>
   i_other x < adj_len adj \<and> i_edge x < a_kept adj"
  using out_range in_range set_merge_incs_subset by (cases w) (auto, blast+)

lemma walk_rel_range: "(u, v) \<in> walk_rel adj how el level \<Longrightarrow> u < adj_len adj \<and> v < adj_len adj"
  using incidence_range by (auto simp: walk_rel_def)

lemma layer_range: "S \<subseteq> {..<adj_len adj} \<Longrightarrow>
  snd (layer (walk_rel adj how el level) S pl d) \<subseteq> {..<adj_len adj}"
  by (cases d) (auto simp: case_prod_beta dest: walk_rel_range)

lemma adj_id_inj: "u < adj_len adj \<Longrightarrow> v < adj_len adj \<Longrightarrow> adj_id adj u = adj_id adj v \<longleftrightarrow> u = v"
  using ids_distinct by (simp add: adj_id_def adj_len_def nth_eq_iff_index_eq)

lemma layer_incs_targets:
  assumes "set frontier \<subseteq> {..<adj_len adj}"
  shows "layer_targets how el level (layer_incs adj (lw_walk how) (rank_frontier how frontier)) =
      walk_rel adj how el level `` set frontier"
    and "\<forall>(u, x) \<in> set (layer_incs adj (lw_walk how) (rank_frontier how frontier)). i_other x < adj_len adj"
  using assms incidence_range by (fastforce simp: layer_targets_def layer_incs_def walk_rel_def)+

lemma level_loop_spec:
  assumes "length visited = adj_len adj" and "length reported = adj_len adj"
    and "S \<subseteq> {..<adj_len adj}"
    and "vset visited = fst (layer (walk_rel adj how el level) S (lw_plus how) d)"
    and "set frontier = snd (layer (walk_rel adj how el level) S (lw_plus how) d)"
  shows "\<exists>reported' rs scanned'.
    level_loop adj how el level d visited frontier reported reached scanned =
      (reported', reached @ rs, scanned') \<and>
    length reported' = adj_len adj \<and>
    vset reported' = vset reported \<union> fst ` pass_rows adj how el S level d \<and>
    distinct (map l_id rs) \<and>
    (\<lambda>r. (l_id r, l_depth r)) ` set rs =
      (\<lambda>(v, k). (adj_id adj v, k)) ` {p \<in> pass_rows adj how el S level d. fst p \<notin> vset reported} \<and>
    (\<forall>r \<in> set rs. hop_explained adj how el S level r)"
  using assms
proof (induction "unset visited + length frontier"
    arbitrary: d visited frontier reported reached scanned rule: less_induct)
  case less
  let ?R = "walk_rel adj how el level" and ?pl = "lw_plus how"
  show ?case
  proof (cases "frontier \<noteq> [] \<and> d < lw_max_depth how")
    case False
    then have "pass_rows adj how el S level d = {}"
      using less.prems(5) by (intro pass_rows_end) auto
    then show ?thesis
      using False less.prems(2) by (auto simp: level_loop.simps [of adj how el level d])
  next
    case True
    let ?xs = "layer_incs adj (lw_walk how) (rank_frontier how frontier)"
    have F: "set frontier \<subseteq> {..<adj_len adj}"
      unfolding less.prems(5) by (rule layer_range [OF less.prems(3)])
    note targets = layer_incs_targets(1) [OF F, where how = how and el = el and level = level]
      layer_incs_targets(2) [OF F, where how = how]
    obtain visited' new reported' rs where f:
      "fold (level_step adj how el level d) ?xs (visited, [], reported, reached, scanned) =
        (visited', new, reported', reached @ rs, scanned + length ?xs)"
      "length visited' = adj_len adj" "length reported' = adj_len adj"
      "vset visited' = vset visited \<union> ?R `` set frontier"
      "distinct new" "set new = ?R `` set frontier - vset visited"
      "vset reported' = vset reported \<union> set new"
      "map l_id rs = map (adj_id adj) (filter (\<lambda>v. v \<notin> vset reported) new)"
      "\<forall>r \<in> set rs. explains adj how el level d ?xs r"
      using level_fold [OF targets(2) less.prems(1,2), of adj how el level d "[]" reached scanned]
      unfolding targets(1) by auto
    have layer: "vset visited' = fst (layer ?R S ?pl (Suc d))" "set new = snd (layer ?R S ?pl (Suc d))"
      using f(4,6) less.prems(4,5) by (auto simp: case_prod_beta)
    have "unset visited' + length new = unset visited"
      using level_fold_measure [of adj how el level d ?xs "(visited, [], reported, reached, scanned)"]
      by (simp add: f(1))
    then have smaller: "unset visited' + length new < unset visited + length frontier"
      using True by simp
    obtain reported'' rs' scanned' where IH:
      "level_loop adj how el level (Suc d) visited' new reported' (reached @ rs)
         (scanned + length ?xs) = (reported'', (reached @ rs) @ rs', scanned')"
      "length reported'' = adj_len adj"
      "vset reported'' = vset reported' \<union> fst ` pass_rows adj how el S level (Suc d)"
      "distinct (map l_id rs')"
      "(\<lambda>r. (l_id r, l_depth r)) ` set rs' = (\<lambda>(v, k). (adj_id adj v, k)) `
        {p \<in> pass_rows adj how el S level (Suc d). fst p \<notin> vset reported'}"
      "\<forall>r \<in> set rs'. hop_explained adj how el S level r"
      using less.hyps [OF smaller f(2,3) less.prems(3) layer, of "reached @ rs" "scanned + length ?xs"]
      by (elim exE conjE) (rule that)
    have rows: "pass_rows adj how el S level d =
        (\<lambda>v. (v, Suc d)) ` set new \<union> pass_rows adj how el S level (Suc d)"
      unfolding layer(2) by (rule pass_rows_step) (use True in simp)
    have later: "v \<notin> set new" if "(v, k) \<in> pass_rows adj how el S level (Suc d)" for v k
      using that first_hop_disjoint [of v ?R S ?pl "Suc d" k] layer(2)
      unfolding layer_first_hop by (auto simp: pass_rows_def)
    have eq: "level_loop adj how el level d visited frontier reported reached scanned =
        (reported'', reached @ (rs @ rs'), scanned')"
      using True f(1) IH(1) by (simp add: level_loop.simps [of adj how el level d] level_expand_def)
    have "(\<lambda>r. (l_id r, l_depth r)) ` set rs =
        (\<lambda>i. (i, Suc d)) ` (l_id ` set rs)"
      using f(9) by (auto simp: explains_def image_image intro!: image_cong)
    also have "l_id ` set rs = adj_id adj ` {v \<in> set new. v \<notin> vset reported}"
      using arg_cong [OF f(8), of set] by simp
    finally have ids: "(\<lambda>r. (l_id r, l_depth r)) ` set rs =
        (\<lambda>(v, k). (adj_id adj v, k)) ` {p \<in> (\<lambda>v. (v, Suc d)) ` set new. fst p \<notin> vset reported}"
      by (auto simp: image_image)
    have ids': "{p \<in> pass_rows adj how el S level (Suc d). fst p \<notin> vset reported'} =
        {p \<in> pass_rows adj how el S level (Suc d). fst p \<notin> vset reported}"
      using later f(7) by auto
    have new_range: "set new \<subseteq> {..<adj_len adj}"
      unfolding layer(2) by (rule layer_range [OF less.prems(3)])
    have rows_range: "v < adj_len adj" if "(v, k) \<in> pass_rows adj how el S level (Suc d)" for v k
      using that layer_range [OF less.prems(3), of how el level ?pl k] layer_first_hop [of ?R S ?pl "k - 1"]
      by (cases k) (auto simp: pass_rows_def)
    have "distinct (map (adj_id adj) (filter (\<lambda>v. v \<notin> vset reported) new))"
      using f(5) new_range adj_id_inj by (auto simp: distinct_map intro!: inj_onI)
    then have d1: "distinct (map l_id rs)" by (simp add: f(8))
    have "l_id r \<noteq> l_id r'" if r: "r \<in> set rs" and r': "r' \<in> set rs'" for r r'
    proof -
      obtain w where w: "l_id r = adj_id adj w" "w \<in> set new"
        using arg_cong [OF f(8), of set] r by auto
      have "(l_id r', l_depth r') \<in> (\<lambda>r. (l_id r, l_depth r)) ` set rs'" using r' by simp
      then obtain v where v: "l_id r' = adj_id adj v" "v < adj_len adj" "v \<notin> vset reported'"
        unfolding IH(5) using rows_range by auto
      then show ?thesis using w new_range adj_id_inj [of w v] f(7) by auto
    qed
    then have distinct: "distinct (map l_id (rs @ rs'))" using d1 IH(4) by fastforce
    have "hop_explained adj how el S level r" if "r \<in> set rs" for r
    proof -
      have "explains adj how el level d ?xs r" using f(9) that by blast
      then show ?thesis
        using F less.prems(5) by (fastforce simp: explains_def hop_explained_def layer_incs_def)
    qed
    then have expl: "\<forall>r \<in> set (rs @ rs'). hop_explained adj how el S level r" using IH(6) by auto
    have "vset reported'' = vset reported \<union> fst ` pass_rows adj how el S level d"
      using IH(3) f(7) rows by (auto simp: image_Un image_image)
    moreover have "(\<lambda>r. (l_id r, l_depth r)) ` set (rs @ rs') = (\<lambda>(v, k). (adj_id adj v, k)) `
        {p \<in> pass_rows adj how el S level d. fst p \<notin> vset reported}"
      unfolding rows set_append image_Un ids IH(5) ids' by blast
    ultimately show ?thesis using eq IH(2) distinct expl by blast
  qed
qed

end

subsection \<open>Seeds and passes\<close>

text \<open>The seeds pass \<open>level\<close> starts from: indexed, inside the mask, at a level it walks.\<close>

definition started :: "adjacency \<Rightarrow> level_walk \<Rightarrow> (node_id \<times> nat) list \<Rightarrow> nat \<Rightarrow> nat set" where
  "started adj how seeds level =
     {ix. \<exists>(i, l) \<in> set seeds. index_of adj i = Some ix \<and> inside how ix \<and> l \<le> level}"

definition upto_level :: "(nat \<times> nat) list \<Rightarrow> nat \<Rightarrow> nat set" where
  "upto_level start level = {ix. \<exists>l. (ix, l) \<in> set start \<and> l \<le> level}"

definition slot_inv :: "nat \<Rightarrow> nat option list \<Rightarrow> (nat \<times> nat) list \<Rightarrow> bool" where
  "slot_inv n slot start \<longleftrightarrow> length slot = n \<and> distinct (map fst start) \<and>
     (\<forall>ix < n. \<forall>at. slot ! ix = Some at \<longleftrightarrow> at < length start \<and> fst (start ! at) = ix) \<and>
     (\<forall>p \<in> set start. fst p < n)"

lemma slot_inv_empty: "slot_inv n (replicate n None) []"
  by (simp add: slot_inv_def)

lemma slot_inv_push:
  assumes "slot_inv n slot start" and "ix < n" and "slot ! ix = None"
  shows "slot_inv n (slot[ix := Some (length start)]) (start @ [(ix, l)])"
proof -
  have "ix \<notin> fst ` set start"
    using assms by (fastforce simp: slot_inv_def in_set_conv_nth)
  then show ?thesis
    using assms by (auto simp: slot_inv_def nth_list_update nth_append less_Suc_eq)
qed

lemma slot_inv_lower:
  assumes "slot_inv n slot start" and "at < length start" and "fst (start ! at) = ix"
  shows "slot_inv n slot (start[at := (ix, l)])"
proof -
  have keep: "fst (start[at := (ix, l)] ! i) = fst (start ! i)" if "i < length start" for i
    using assms(3) that by (cases "i = at") simp_all
  then have keys: "map fst (start[at := (ix, l)]) = map fst start"
    by (auto intro!: nth_equalityI)
  have bound: "(\<forall>p \<in> set xs. fst p < n) \<longleftrightarrow> (\<forall>i \<in> set (map fst xs). i < n)" for xs :: "(nat \<times> nat) list"
    by simp
  show ?thesis
    using assms(1) keep unfolding slot_inv_def bound keys by auto
qed

lemma upto_level_lower:
  assumes "distinct (map fst start)" and "at < length start" and "start ! at = (ix, m)"
  shows "upto_level (start[at := (ix, min m l)]) level =
    upto_level start level \<union> (if l \<le> level then {ix} else {})"
proof -
  have mem: "(ix, m) \<in> set start" using assms(2,3) nth_mem by metis
  have uniq: "m' = m" if "(ix, m') \<in> set start" for m'
    using inj_onD [of fst "set start", OF _ _ that mem] assms(1) by (simp add: distinct_map)
  have set: "set (start[at := (ix, min m l)]) = insert (ix, min m l) (set start - {(ix, m)})"
    using assms(1-3) set_update_distinct [of start at "(ix, min m l)"] by (simp add: distinct_map)
  have "j \<in> upto_level (start[at := (ix, min m l)]) level \<longleftrightarrow>
      j \<in> upto_level start level \<union> (if l \<le> level then {ix} else {})" for j
  proof (cases "j = ix")
    case True
    have "ix \<in> upto_level start level \<longleftrightarrow> m \<le> level"
      using mem uniq unfolding upto_level_def by blast
    moreover have "ix \<in> upto_level (start[at := (ix, min m l)]) level \<longleftrightarrow> min m l \<le> level"
      using uniq unfolding upto_level_def set by blast
    ultimately show ?thesis using True by (simp add: min_le_iff_disj)
  next
    case False
    then show ?thesis by (auto simp: upto_level_def set)
  qed
  then show ?thesis by blast
qed

context indexed_graph
begin

lemma level_start_spec:
  assumes "slot_inv (adj_len adj) slot start"
  shows "(\<exists>slot'. slot_inv (adj_len adj) slot' (level_start adj how seeds slot start)) \<and>
    upto_level (level_start adj how seeds slot start) level =
      upto_level start level \<union> started adj how seeds level"
  using assms
proof (induction seeds arbitrary: slot start)
  case Nil
  then show ?case by (auto simp: started_def)
next
  case (Cons s seeds)
  obtain i l where s: "s = (i, l)" by (cases s)
  show ?case
  proof (cases "\<exists>ix. index_of adj i = Some ix \<and> inside how ix")
    case False
    then have "level_start adj how (s # seeds) slot start = level_start adj how seeds slot start"
      "started adj how (s # seeds) level = started adj how seeds level"
      by (auto simp: s started_def split: option.split)
    then show ?thesis using Cons by simp
  next
    case True
    then obtain ix where ix: "index_of adj i = Some ix" "inside how ix" by blast
    then have n: "ix < adj_len adj" using index_iff by blast
    have started: "started adj how (s # seeds) level =
        (if l \<le> level then {ix} else {}) \<union> started adj how seeds level"
      using ix by (auto simp: s started_def)
    show ?thesis
    proof (cases "slot ! ix")
      case None
      have "upto_level (start @ [(ix, l)]) level = upto_level start level \<union> (if l \<le> level then {ix} else {})"
        by (auto simp: upto_level_def)
      then show ?thesis
        using Cons.IH [OF slot_inv_push [OF Cons.prems n None]] ix None started by (simp add: s Un_assoc)
    next
      case (Some at)
      then have at: "at < length start" "fst (start ! at) = ix"
        using Cons.prems n by (auto simp: slot_inv_def)
      then obtain m where m: "start ! at = (ix, m)" by (cases "start ! at") auto
      have "distinct (map fst start)" using Cons.prems by (simp add: slot_inv_def)
      note low = upto_level_lower [OF this at(1) m, of l level]
      show ?thesis
        using Cons.IH [OF slot_inv_lower [OF Cons.prems at]] ix Some started m low
        by (simp add: s Un_assoc)
    qed
  qed
qed

end

lemma pass_init_spec:
  assumes "distinct (map fst start)" and "\<forall>p \<in> set start. fst p < n"
  shows "length (fst (pass_init how start n level)) = n"
    and "set (snd (pass_init how start n level)) = upto_level start level"
    and "vset (fst (pass_init how start n level)) = (if lw_plus how then {} else upto_level start level)"
proof -
  have "length (fst (pass_init how start n level)) = n \<and>
    set (snd (pass_init how start n level)) = upto_level start level \<and>
    vset (fst (pass_init how start n level)) = (if lw_plus how then {} else upto_level start level)"
    using assms(2)
  proof (induction start rule: rev_induct)
    case Nil
    then show ?case by (simp add: pass_init_def upto_level_def)
  next
    case (snoc p start)
    obtain ix l where p: "p = (ix, l)" by (cases p)
    obtain v f where vf: "pass_init how start n level = (v, f)" by (cases "pass_init how start n level")
    have vset: "vset (v[ix := \<not> lw_plus how]) = (if lw_plus how then {} else insert ix (vset v))"
      if "ix < n" using snoc that vf by (auto simp: vset_def nth_list_update split: if_splits)
    have "pass_init how (start @ [p]) n level =
        (if l \<le> level then (v[ix := \<not> lw_plus how], f @ [ix]) else (v, f))"
      using vf by (simp add: pass_init_def p)
    then show ?case
      using snoc vf vset by (auto simp: p upto_level_def)
  qed
  then show "length (fst (pass_init how start n level)) = n"
    "set (snd (pass_init how start n level)) = upto_level start level"
    "vset (fst (pass_init how start n level)) = (if lw_plus how then {} else upto_level start level)"
    by auto
qed

text \<open>The nodes pass \<open>level\<close> reaches, with their depths.\<close>

definition level_rows ::
  "adjacency \<Rightarrow> level_walk \<Rightarrow> nat list \<Rightarrow> (node_id \<times> nat) list \<Rightarrow> nat \<Rightarrow> (nat \<times> nat) set" where
  "level_rows adj how el seeds level =
     pass_rows adj how el (started adj how seeds level) level 0"

definition level_result ::
  "adjacency \<Rightarrow> level_walk \<Rightarrow> nat list \<Rightarrow> (node_id \<times> nat) list \<Rightarrow> nat \<Rightarrow> level_reached list \<Rightarrow> bool" where
  "level_result adj how el seeds m rs \<longleftrightarrow>
     distinct (map l_id rs) \<and> sorted (map l_level rs) \<and> (\<forall>r \<in> set rs. l_level r < m) \<and>
     (\<lambda>r. (l_id r, l_level r, l_depth r)) ` set rs =
       {(adj_id adj v, level, k) | v level k. level < m \<and> (v, k) \<in> level_rows adj how el seeds level \<and>
          (\<forall>l < level. v \<notin> fst ` level_rows adj how el seeds l)} \<and>
     (\<forall>r \<in> set rs. hop_explained adj how el (started adj how seeds (l_level r)) (l_level r) r)"

context indexed_graph
begin

lemma started_range: "started adj how seeds level \<subseteq> {..<adj_len adj}"
  using index_iff by (auto simp: started_def)

lemma level_rows_range: "(v, k) \<in> level_rows adj how el seeds level \<Longrightarrow> v < adj_len adj"
  using layer_range [OF started_range, of how el level how seeds level "lw_plus how" k]
    layer_first_hop [of "walk_rel adj how el level" "started adj how seeds level" "lw_plus how" "k - 1"]
  by (cases k) (auto simp: level_rows_def pass_rows_def)

lemma level_pass_spec:
  assumes "distinct (map fst start)" and "\<forall>p \<in> set start. fst p < adj_len adj"
    and "upto_level start level = started adj how seeds level" and "length reported = adj_len adj"
  shows "\<exists>reported' rs scanned'.
    level_pass adj how el start level (reported, reached, scanned) = (reported', reached @ rs, scanned') \<and>
    length reported' = adj_len adj \<and>
    vset reported' = vset reported \<union> fst ` level_rows adj how el seeds level \<and>
    distinct (map l_id rs) \<and>
    (\<lambda>r. (l_id r, l_depth r)) ` set rs =
      (\<lambda>(v, k). (adj_id adj v, k)) ` {p \<in> level_rows adj how el seeds level. fst p \<notin> vset reported} \<and>
    (\<forall>r \<in> set rs. hop_explained adj how el (started adj how seeds level) level r)"
proof -
  note init = pass_init_spec [OF assms(1,2), where how = how and level = level]
  obtain visited frontier where vf: "pass_init how start (adj_len adj) level = (visited, frontier)"
    by (cases "pass_init how start (adj_len adj) level")
  show ?thesis
    using level_loop_spec [of visited reported "started adj how seeds level" how el level 0 frontier
        reached scanned] init assms(4) started_range [of how seeds level]
    unfolding level_pass_def vf level_rows_def by (simp add: assms(3) vf)
qed

lemma passes_spec:
  assumes "distinct (map fst start)" and "\<forall>p \<in> set start. fst p < adj_len adj"
    and "\<And>level. level < m \<Longrightarrow> upto_level start level = started adj how seeds level"
  shows "\<exists>reported rs scanned.
    fold (level_pass adj how el start) [0..<m] (replicate (adj_len adj) False, [], 0) =
      (reported, rs, scanned) \<and> length reported = adj_len adj \<and>
    vset reported = (\<Union>level < m. fst ` level_rows adj how el seeds level) \<and>
    level_result adj how el seeds m rs"
  using assms(3)
proof (induction m)
  case 0
  then show ?case by (simp add: level_result_def)
next
  case (Suc m)
  then obtain reported rs scanned where IH:
    "fold (level_pass adj how el start) [0..<m] (replicate (adj_len adj) False, [], 0) =
      (reported, rs, scanned)" "length reported = adj_len adj"
    "vset reported = (\<Union>level < m. fst ` level_rows adj how el seeds level)"
    "level_result adj how el seeds m rs" by auto
  obtain reported' rs' scanned' where new:
    "level_pass adj how el start m (reported, rs, scanned) = (reported', rs @ rs', scanned')"
    "length reported' = adj_len adj"
    "vset reported' = vset reported \<union> fst ` level_rows adj how el seeds m"
    "distinct (map l_id rs')"
    "(\<lambda>r. (l_id r, l_depth r)) ` set rs' = (\<lambda>(v, k). (adj_id adj v, k)) `
       {p \<in> level_rows adj how el seeds m. fst p \<notin> vset reported}"
    "\<forall>r \<in> set rs'. hop_explained adj how el (started adj how seeds m) m r"
    using level_pass_spec [OF assms(1,2) Suc.prems [OF lessI] IH(2), of el rs scanned]
    by (elim exE conjE) (rule that)
  have level: "\<forall>r \<in> set rs'. l_level r = m" using new(6) by (simp add: hop_explained_def)
  have old_id: "\<exists>v \<in> vset reported. l_id r = adj_id adj v \<and> v < adj_len adj" if "r \<in> set rs" for r
  proof -
    have "(l_id r, l_level r, l_depth r) \<in> (\<lambda>r. (l_id r, l_level r, l_depth r)) ` set rs"
      using that by simp
    also have "\<dots> = {(adj_id adj v, level, k) | v level k. level < m \<and>
        (v, k) \<in> level_rows adj how el seeds level \<and> (\<forall>l < level. v \<notin> fst ` level_rows adj how el seeds l)}"
      using IH(4) by (simp only: level_result_def)
    finally obtain v where "l_id r = adj_id adj v" "l_level r < m"
        "(v, l_depth r) \<in> level_rows adj how el seeds (l_level r)"
      by auto
    then show ?thesis using level_rows_range unfolding IH(3) by force
  qed
  have new_id: "\<exists>v. v \<notin> vset reported \<and> l_id r = adj_id adj v \<and> v < adj_len adj" if "r \<in> set rs'" for r
  proof -
    have "(l_id r, l_depth r) \<in> (\<lambda>r. (l_id r, l_depth r)) ` set rs'" using that by simp
    then show ?thesis using level_rows_range unfolding new(5) by auto
  qed
  have "l_id r \<noteq> l_id r'" if "r \<in> set rs" "r' \<in> set rs'" for r r'
    using old_id [OF that(1)] new_id [OF that(2)] adj_id_inj by metis
  then have "distinct (map l_id (rs @ rs'))"
    using IH(4) new(4) unfolding level_result_def by fastforce
  moreover have "sorted (map l_level (rs @ rs'))"
    using IH(4) level unfolding level_result_def by (auto simp: sorted_append) (simp add: sorted_wrt_iff_nth_less)
  moreover have "(\<lambda>r. (l_id r, l_level r, l_depth r)) ` set (rs @ rs') =
      {(adj_id adj v, level, k) | v level k. level < Suc m \<and> (v, k) \<in> level_rows adj how el seeds level \<and>
          (\<forall>l < level. v \<notin> fst ` level_rows adj how el seeds l)}" (is "_ = ?rows (Suc m)")
  proof -
    have "(\<lambda>r. (l_id r, l_level r, l_depth r)) ` set rs' =
        (\<lambda>(i, k). (i, m, k)) ` (\<lambda>r. (l_id r, l_depth r)) ` set rs'"
      using level by (auto simp: image_image intro!: image_cong)
    also have "\<dots> = {(adj_id adj v, m, k) | v k. (v, k) \<in> level_rows adj how el seeds m \<and>
        (\<forall>l < m. v \<notin> fst ` level_rows adj how el seeds l)}"
      unfolding new(5) IH(3) by (auto simp: image_iff) (metis lessThan_iff)+
    finally show ?thesis
      using IH(4) unfolding level_result_def set_append image_Un by (auto simp: less_Suc_eq)
  qed
  moreover have "\<forall>r \<in> set (rs @ rs').
      hop_explained adj how el (started adj how seeds (l_level r)) (l_level r) r"
    using IH(4) new(6) level unfolding level_result_def by auto
  ultimately have "level_result adj how el seeds (Suc m) (rs @ rs')"
    using IH(4) level unfolding level_result_def by (auto simp: less_Suc_eq)
  moreover have "vset reported' = (\<Union>level < Suc m. fst ` level_rows adj how el seeds level)"
    using new(3) IH(3) by (simp add: lessThan_Suc Un_commute)
  ultimately show ?case using IH(1) new(1,2) by simp
qed

lemma bfs_levels_spec:
  assumes "length el = a_kept adj" and "\<not> wrong_length (lw_within how) (adj_len adj)"
    and "\<not> wrong_length (lw_parent_rank how) (adj_len adj)"
  shows "level_result adj how el seeds (lw_levels how) (lb_reached (bfs_levels adj seeds el how))"
proof -
  define s0 where "s0 = level_start adj how seeds (replicate (adj_len adj) None) []"
  define start where "start = filter (\<lambda>(ix, level). level < lw_levels how) s0"
  note spec = level_start_spec [OF slot_inv_empty, where how = how and seeds = seeds, folded s0_def]
  obtain slot where "slot_inv (adj_len adj) slot s0" using spec by blast
  then have "distinct (map fst start)" "\<forall>p \<in> set start. fst p < adj_len adj"
    by (auto simp: start_def slot_inv_def distinct_map intro: inj_on_subset)
  moreover have "upto_level start level = started adj how seeds level" if "level < lw_levels how" for level
  proof -
    have "upto_level start level = upto_level s0 level"
      using that by (auto simp: start_def upto_level_def)
    then show ?thesis using spec [of level] by (simp add: upto_level_def)
  qed
  ultimately obtain reported rs scanned where
    "fold (level_pass adj how el start) [0..<lw_levels how] (replicate (adj_len adj) False, [], 0) =
      (reported, rs, scanned)" "level_result adj how el seeds (lw_levels how) rs"
    using passes_spec [of start "lw_levels how" how seeds el] by blast
  then show ?thesis using assms by (simp add: bfs_levels_def start_def s0_def)
qed

end

subsection \<open>The queue walk is the one-level walk\<close>

definition strip :: "level_reached \<Rightarrow> reached" where
  "strip r = \<lparr>r_id = l_id r, r_depth = l_depth r, r_via = l_via r, r_parent = l_parent r\<rparr>"

definition strip_bfs :: "level_reached list \<Rightarrow> nat \<Rightarrow> bfs_result" where
  "strip_bfs rs scanned = \<lparr>b_reached = map strip rs, b_scanned = scanned\<rparr>"

definition one_level :: "walk \<Rightarrow> nat \<Rightarrow> level_walk" where
  "one_level walk max_depth = (level_walk_new walk 1)\<lparr>lw_max_depth := max_depth\<rparr>"

definition at_depth :: "nat \<Rightarrow> nat list \<Rightarrow> queue" where
  "at_depth d us = map (\<lambda>u. (u, d)) us"

lemma one_level_simps [simp]:
  "lw_walk (one_level walk md) = walk" "lw_levels (one_level walk md) = 1"
  "lw_max_depth (one_level walk md) = md" "lw_plus (one_level walk md) = False"
  "inside (one_level walk md) ix" "rank_frontier (one_level walk md) us = us"
  "lw_within (one_level walk md) = None" "lw_parent_rank (one_level walk md) = None"
  by (simp_all add: one_level_def level_walk_new_def inside_def rank_frontier_def)

lemma bfs_fold_sim:
  assumes "\<forall>x \<in> set xs. i_other x < n \<and> i_edge x < k" and "length visited = n"
    and "length reported = n" and "vset reported \<subseteq> vset visited"
  shows "\<exists>visited' N' reported' reached' scanned'.
    fold (level_step adj (one_level walk md) (replicate k 0) 0 d) (map (Pair u) xs)
      (visited, N, reported, reached, scanned) = (visited', N', reported', reached', scanned') \<and>
    fold (bfs_step adj u d) xs (visited, Q @ at_depth (Suc d) N, strip_bfs reached scanned) =
      (visited', Q @ at_depth (Suc d) N', strip_bfs reached' scanned') \<and>
    length visited' = n \<and> length reported' = n \<and> vset reported' \<subseteq> vset visited'"
  using assms
proof (induction xs arbitrary: visited N reported reached scanned)
  case Nil
  then show ?case by simp
next
  case (Cons x xs)
  have x: "i_other x < n" "i_edge x < k" and rest: "\<forall>x \<in> set xs. i_other x < n \<and> i_edge x < k"
    using Cons.prems(1) by auto
  show ?case
  proof (cases "i_other x \<in> vset visited")
    case True
    then show ?thesis
      using Cons.IH [OF rest Cons.prems(2-4), of N reached "Suc scanned"] x Cons.prems(2)
      by (simp add: is_set_vset strip_bfs_def)
  next
    case False
    then have "i_other x \<notin> vset reported" using Cons.prems(4) by blast
    then show ?thesis
      using Cons.IH [OF rest, of "visited[i_other x := True]" "reported[i_other x := True]"
          "N @ [i_other x]" "reached @ [\<lparr>l_id = adj_id adj (i_other x), l_level = 0,
            l_depth = Suc d, l_via = i_category x, l_parent = adj_id adj u,
            l_kept_edge = i_edge x\<rparr>]" "Suc scanned"]
        False x Cons.prems(2-4)
      by (simp add: is_set_vset strip_bfs_def strip_def at_depth_def) blast
  qed
qed

context indexed_graph
begin

lemma bfs_layer_sim:
  assumes "set F \<subseteq> {..<adj_len adj}" and "length visited = adj_len adj"
    and "length reported = adj_len adj" and "vset reported \<subseteq> vset visited" and "d < md"
  shows "\<exists>visited' N' reported' reached' scanned'.
    fold (level_step adj (one_level walk md) (replicate (a_kept adj) 0) 0 d) (layer_incs adj walk F)
      (visited, N, reported, reached, scanned) = (visited', N', reported', reached', scanned') \<and>
    bfs_loop adj walk md visited (at_depth d F @ at_depth (Suc d) N) (strip_bfs reached scanned) =
      bfs_loop adj walk md visited' (at_depth (Suc d) N') (strip_bfs reached' scanned') \<and>
    length visited' = adj_len adj \<and> length reported' = adj_len adj \<and> vset reported' \<subseteq> vset visited'"
  using assms
proof (induction F arbitrary: visited N reported reached scanned)
  case Nil
  then show ?case by (simp add: layer_incs_def at_depth_def)
next
  case (Cons u F)
  have u: "u < adj_len adj" and F: "set F \<subseteq> {..<adj_len adj}" using Cons.prems(1) by auto
  obtain v1 N1 rep1 rea1 s1 where 1:
    "fold (level_step adj (one_level walk md) (replicate (a_kept adj) 0) 0 d)
      (map (Pair u) (each_incidence adj u walk)) (visited, N, reported, reached, scanned) =
      (v1, N1, rep1, rea1, s1)"
    "fold (bfs_step adj u d) (each_incidence adj u walk)
      (visited, at_depth d F @ at_depth (Suc d) N, strip_bfs reached scanned) =
      (v1, at_depth d F @ at_depth (Suc d) N1, strip_bfs rea1 s1)"
    "length v1 = adj_len adj" "length rep1 = adj_len adj" "vset rep1 \<subseteq> vset v1"
    using bfs_fold_sim [of "each_incidence adj u walk" "adj_len adj" "a_kept adj" visited reported
        adj walk md d u N reached scanned "at_depth d F"] incidence_range [OF u] Cons.prems(2-4)
    by blast
  have "bfs_loop adj walk md visited (at_depth d (u # F) @ at_depth (Suc d) N) (strip_bfs reached scanned) =
      bfs_loop adj walk md v1 (at_depth d F @ at_depth (Suc d) N1) (strip_bfs rea1 s1)"
    using Cons.prems(5) 1(2) by (simp add: at_depth_def)
  then show ?case
    using Cons.IH [OF F 1(3-5) Cons.prems(5), of N1 rea1 s1] 1(1)
    by (simp add: layer_incs_def)
qed

lemma bfs_loop_stop: "md \<le> d \<Longrightarrow> bfs_loop adj walk md visited (at_depth d F) out = out"
  by (induction F) (simp_all add: at_depth_def)

lemma bfs_loop_sim:
  assumes "set F \<subseteq> {..<adj_len adj}" and "length visited = adj_len adj"
    and "length reported = adj_len adj" and "vset reported \<subseteq> vset visited"
  shows "bfs_loop adj walk md visited (at_depth d F) (strip_bfs reached scanned) =
    (case level_loop adj (one_level walk md) (replicate (a_kept adj) 0) 0 d visited F reported reached scanned of
       (reported', reached', scanned') \<Rightarrow> strip_bfs reached' scanned')"
  using assms
proof (induction "unset visited + length F" arbitrary: d visited F reported reached scanned
    rule: less_induct)
  case less
  show ?case
  proof (cases "F \<noteq> [] \<and> d < md")
    case False
    then show ?thesis
      by (subst level_loop.simps) (auto simp: bfs_loop_stop, simp add: at_depth_def)
  next
    case True
    obtain v1 N1 rep1 rea1 s1 where 1:
      "fold (level_step adj (one_level walk md) (replicate (a_kept adj) 0) 0 d) (layer_incs adj walk F)
        (visited, [], reported, reached, scanned) = (v1, N1, rep1, rea1, s1)"
      "bfs_loop adj walk md visited (at_depth d F) (strip_bfs reached scanned) =
        bfs_loop adj walk md v1 (at_depth (Suc d) N1) (strip_bfs rea1 s1)"
      "length v1 = adj_len adj" "length rep1 = adj_len adj" "vset rep1 \<subseteq> vset v1"
      using bfs_layer_sim [OF less.prems, of d md walk "[]" reached scanned] True
      by (auto simp: at_depth_def)
    have "unset v1 + length N1 = unset visited"
      using level_fold_measure [of adj "one_level walk md" "replicate (a_kept adj) 0" 0 d
          "layer_incs adj walk F" "(visited, [], reported, reached, scanned)"] 1(1) by simp
    then have smaller: "unset v1 + length N1 < unset visited + length F" using True by simp
    have "set N1 \<subseteq> {..<adj_len adj}"
    proof -
      have "set (rank_frontier (one_level walk md) F) \<subseteq> {..<adj_len adj}" using less.prems(1) by simp
      then show ?thesis
        using layer_incs_targets(2) [OF less.prems(1), of "one_level walk md"]
          level_fold [of "layer_incs adj walk F" "adj_len adj" visited reported adj "one_level walk md"
            "replicate (a_kept adj) 0" 0 d "[]" reached scanned] 1(1) less.prems(2,3)
          layer_incs_targets(1) [OF less.prems(1), of "one_level walk md" "replicate (a_kept adj) 0" 0]
          walk_rel_range by fastforce
    qed
    then show ?thesis
      using less.hyps [OF smaller _ 1(3-5), of "Suc d" rea1 s1] True 1(1,2)
      by (simp add: level_loop.simps [of adj _ _ 0 d] level_expand_def)
  qed
qed

lemma seeds_sim:
  assumes "slot_inv (adj_len adj) slot start" and "\<forall>p \<in> set start. snd p = 0"
    and "length visited = adj_len adj" and "vset visited = fst ` set start"
  shows "\<exists>visited' start'.
    level_start adj (one_level walk md) (map (\<lambda>s. (s, 0)) seeds) slot start = start' \<and>
    fold (bfs_seed adj) seeds (visited, start) = (visited', start') \<and>
    (\<exists>slot'. slot_inv (adj_len adj) slot' start') \<and> (\<forall>p \<in> set start'. snd p = 0) \<and>
    length visited' = adj_len adj \<and> vset visited' = fst ` set start'"
  using assms
proof (induction seeds arbitrary: slot start visited)
  case Nil
  then show ?case by auto
next
  case (Cons s seeds)
  show ?case
  proof (cases "index_of adj s")
    case None
    then show ?thesis using Cons by simp
  next
    case (Some ix)
    then have n: "ix < adj_len adj" using index_iff by blast
    have member: "slot ! ix = None \<longleftrightarrow> ix \<notin> fst ` set start"
      using Cons.prems(1) n by (cases "slot ! ix") (force simp: slot_inv_def in_set_conv_nth)+
    show ?thesis
    proof (cases "slot ! ix")
      case None
      then show ?thesis
        using Cons.IH [OF slot_inv_push [OF Cons.prems(1) n None], of 0 "visited[ix := True]"]
          Cons.prems Some n member by (simp add: is_set_vset)
    next
      case at: (Some at)
      then have "at < length start" "fst (start ! at) = ix"
        using Cons.prems(1) n by (auto simp: slot_inv_def)
      moreover from this have "snd (start ! at) = 0" using Cons.prems(2) by simp
      ultimately have "start[at := (fst (start ! at), min (snd (start ! at)) 0)] = start"
        by (metis list_update_id min_0R prod.collapse)
      then show ?thesis
        using Cons.IH [OF Cons.prems] Cons.prems Some at n member by (simp add: is_set_vset)
    qed
  qed
qed

lemma pass_init_flat:
  "\<forall>p \<in> set start. snd p = 0 \<Longrightarrow> snd (pass_init how start n level) = map fst start"
proof (induction start rule: rev_induct)
  case (snoc p start)
  then show ?case by (auto simp: pass_init_def case_prod_beta)
qed (simp add: pass_init_def)

lemma flags_eq: "length v = length w \<Longrightarrow> vset v = vset w \<Longrightarrow> v = w"
  by (rule nth_equalityI) (auto simp: vset_def set_eq_iff)

lemma bfs_one_level:
  assumes "L = bfs_levels adj (map (\<lambda>s. (s, 0)) seeds) (replicate (a_kept adj) 0) (one_level walk md)"
  shows "bfs adj seeds walk md = strip_bfs (lb_reached L) (lb_scanned L)"
proof -
  let ?how = "one_level walk md"
  obtain visited start slot where sim:
    "level_start adj ?how (map (\<lambda>s. (s, 0)) seeds) (replicate (adj_len adj) None) [] = start"
    "fold (bfs_seed adj) seeds (replicate (adj_len adj) False, []) = (visited, start)"
    "slot_inv (adj_len adj) slot start" "\<forall>p \<in> set start. snd p = 0"
    "length visited = adj_len adj" "vset visited = fst ` set start"
    using seeds_sim [OF slot_inv_empty, of "replicate (adj_len adj) False" walk md seeds] by auto
  have all: "filter (\<lambda>(ix, level). level < 1) start = start"
    using sim(4) by (auto simp: filter_id_conv)
  have start: "distinct (map fst start)" "\<forall>p \<in> set start. fst p < adj_len adj"
    using sim(3) by (simp_all add: slot_inv_def)
  obtain v frontier where init: "pass_init ?how start (adj_len adj) 0 = (v, frontier)"
    by (cases "pass_init ?how start (adj_len adj) 0")
  have frontier: "frontier = map fst start"
    using pass_init_flat [OF sim(4), of ?how "adj_len adj" 0] init by simp
  have "upto_level start 0 = fst ` set start" using sim(4) by (force simp: upto_level_def)
  then have "v = visited"
    using pass_init_spec [OF start, of ?how 0] init sim(5,6) by (intro flags_eq) simp_all
  moreover have "at_depth 0 frontier = start"
    unfolding frontier at_depth_def map_map using sim(4) by (intro map_idI) (auto simp: prod_eq_iff)
  moreover have "set frontier \<subseteq> {..<adj_len adj}" using start(2) by (auto simp: frontier)
  ultimately have "bfs_loop adj walk md visited start (strip_bfs [] 0) =
      (case level_pass adj ?how (replicate (a_kept adj) 0) start 0 (replicate (adj_len adj) False, [], 0) of
        (reported', reached', scanned') \<Rightarrow> strip_bfs reached' scanned')"
    using bfs_loop_sim [of frontier visited "replicate (adj_len adj) False" walk md 0 "[]" 0] sim(5)
    by (simp add: level_pass_def init)
  then have loop: "bfs adj seeds walk md =
      (case level_pass adj ?how (replicate (a_kept adj) 0) start 0 (replicate (adj_len adj) False, [], 0) of
        (reported', reached', scanned') \<Rightarrow> strip_bfs reached' scanned')"
    unfolding bfs_def sim(2) prod.case strip_bfs_def by simp
  show ?thesis
    unfolding loop assms bfs_levels_def Let_def one_level_simps sim(1) all
    by (simp add: wrong_length_def case_prod_beta)
qed

end

text \<open>The incidence relation of a walk, and the indexed seeds.\<close>

definition inc_rel :: "adjacency \<Rightarrow> walk \<Rightarrow> (nat \<times> nat) set" where
  "inc_rel adj w = {(u, i_other x) | u x. u < adj_len adj \<and> x \<in> set (each_incidence adj u w)}"

definition seed_ixs :: "adjacency \<Rightarrow> node_id list \<Rightarrow> nat set" where
  "seed_ixs adj seeds = {ix. \<exists>s \<in> set seeds. index_of adj s = Some ix}"

context indexed_graph
begin

lemma one_level_rel: "walk_rel adj (one_level w md) (replicate (a_kept adj) 0) 0 = inc_rel adj w"
  using incidence_range by (fastforce simp: walk_rel_def inc_rel_def walkable_def)

lemma inc_rel_range: "(u, v) \<in> inc_rel adj w \<Longrightarrow> u < adj_len adj \<and> v < adj_len adj"
  using incidence_range by (auto simp: inc_rel_def)

lemma seed_ixs_range: "seed_ixs adj seeds \<subseteq> {..<adj_len adj}"
  using index_iff by (auto simp: seed_ixs_def)

lemma bfs_rows:
  "distinct (map r_id (b_reached (bfs adj seeds w md))) \<and>
   (\<lambda>r. (r_id r, r_depth r)) ` set (b_reached (bfs adj seeds w md)) =
     {(adj_id adj v, k) | v k. k \<le> md \<and> v \<in> first_hop (inc_rel adj w) (seed_ixs adj seeds) False k}"
proof -
  let ?how = "one_level w md" and ?el = "replicate (a_kept adj) (0::nat)"
  define rs where "rs = lb_reached (bfs_levels adj (map (\<lambda>s. (s, 0)) seeds) ?el ?how)"
  have b: "b_reached (bfs adj seeds w md) = map strip rs"
    unfolding bfs_one_level [OF refl] by (simp add: strip_bfs_def rs_def)
  have "level_result adj ?how ?el (map (\<lambda>s. (s, 0)) seeds) 1 rs"
    using bfs_levels_spec [of ?el ?how "map (\<lambda>s. (s, 0)) seeds"] by (simp add: wrong_length_def rs_def)
  then have rs: "distinct (map l_id rs)" "(\<lambda>r. (l_id r, l_level r, l_depth r)) ` set rs =
      {(adj_id adj v, 0::nat, k) | v k. (v, k) \<in> level_rows adj ?how ?el (map (\<lambda>s. (s, 0)) seeds) 0}"
    unfolding level_result_def by (simp_all only: less_one simp_thms ex_simps not_less0 ball_simps cong: conj_cong) blast
  have "started adj ?how (map (\<lambda>s. (s, 0)) seeds) 0 = seed_ixs adj seeds"
    by (auto simp: started_def seed_ixs_def)
  then have rows: "(v, k) \<in> level_rows adj ?how ?el (map (\<lambda>s. (s, 0)) seeds) 0 \<longleftrightarrow>
      k \<le> md \<and> v \<in> first_hop (inc_rel adj w) (seed_ixs adj seeds) False k" for v k
    by (auto simp: level_rows_def pass_rows_def one_level_rel) (simp add: first_hop_def)
  have "(\<lambda>r. (r_id r, r_depth r)) ` set (map strip rs) =
      (\<lambda>(i, l, k). (i, k)) ` (\<lambda>r. (l_id r, l_level r, l_depth r)) ` set rs"
    by (simp add: image_image strip_def)
  also have "\<dots> = {(adj_id adj v, k) | v k. k \<le> md \<and>
      v \<in> first_hop (inc_rel adj w) (seed_ixs adj seeds) False k}"
    unfolding rs(2) rows by (auto simp: image_iff)
  finally show ?thesis using rs(1) by (simp add: b o_def strip_def)
qed

end

lemma first_hop_bound:
  assumes "S \<subseteq> {..<n}" and "\<And>u v. (u, v) \<in> R \<Longrightarrow> v < n" and "v \<in> first_hop R S pl k"
  shows "k \<le> n"
proof -
  have k: "1 \<le> k" using assms(3) by (simp add: first_hop_def)
  have hop: "\<exists>u. u \<in> first_hop R S pl j" if "j \<in> {1..k}" for j
  proof (rule ccontr)
    assume none: "\<not> (\<exists>u. u \<in> first_hop R S pl j)"
    have "snd (layer R S pl j) = {}"
      using none layer_first_hop [of R S pl "j - 1"] that by (simp del: layer.simps)
    then have "snd (layer R S pl k) = {}" by (rule layer_empty) (use that in simp)
    then show False using layer_first_hop [of R S pl "k - 1"] k assms(3) by auto
  qed
  define f where "f j = (SOME u. u \<in> first_hop R S pl j)" for j
  have f: "f j \<in> first_hop R S pl j" if "j \<in> {1..k}" for j
    unfolding f_def using hop [OF that] by (rule someI_ex)
  have "inj_on f {1..k}" using f first_hop_disjoint by (metis inj_onI)
  moreover have "f ` {1..k} \<subseteq> {..<n}"
  proof (rule image_subsetI)
    fix j assume "j \<in> {1..k}"
    then have "f j \<in> hops R S j" "1 \<le> j" using f by (auto simp: first_hop_def)
    then have "f j \<in> R `` hops R S (j - 1)" by (metis Suc_pred' hops_Suc less_le_trans zero_less_one)
    then show "f j \<in> {..<n}" using assms(2) by blast
  qed
  ultimately show ?thesis using card_inj_on_le [of f "{1..k}" "{..<n}"] by simp
qed

subsection \<open>Walks over the kept edges\<close>

text \<open>The edges as a relation on node ids, in the direction a walk takes them.\<close>

fun walk_edges :: "walk \<Rightarrow> edge list \<Rightarrow> (node_id \<times> node_id) set" where
  "walk_edges Forward es = {(efrom e, eto e) | e. e \<in> set es}"
| "walk_edges Backward es = {(eto e, efrom e) | e. e \<in> set es}"
| "walk_edges Both es = {(efrom e, eto e) | e. e \<in> set es} \<union> {(eto e, efrom e) | e. e \<in> set es}"

lemma merge_incs_Nil [simp]: "merge_incs xs [] = xs" "merge_incs [] ys = ys"
  by (induction xs, simp_all) (induction ys, simp_all)

lemma merge_incs_others:
  assumes "\<And>x y. x \<in> set xs \<Longrightarrow> y \<in> set ys \<Longrightarrow> i_edge x = i_edge y \<Longrightarrow> i_other x = i_other y"
  shows "i_other ` set (merge_incs xs ys) = i_other ` (set xs \<union> set ys)"
  using assms
proof (induction xs ys rule: merge_incs.induct)
  case (4 x outs y ins)
  note agree = "4.prems"
  show ?case
  proof (cases "i_edge x = i_edge y")
    case True
    have "i_other ` set (merge_incs outs ins) = i_other ` (set outs \<union> set ins)"
      by (rule "4.IH"(1) [OF eq_refl [OF True] True]) (rule agree; simp)
    moreover have "i_other x = i_other y" by (rule agree) (simp_all add: True)
    ultimately show ?thesis using True by (simp add: image_Un insert_commute)
  next
    case ne: False
    show ?thesis
    proof (cases "i_edge x \<le> i_edge y")
      case True
      have "i_other ` set (merge_incs outs (y # ins)) = i_other ` (set outs \<union> set (y # ins))"
        by (rule "4.IH"(2) [OF True ne]) (rule agree; simp)
      then show ?thesis using True ne by (simp add: image_Un insert_commute)
    next
      case False
      have "i_other ` set (merge_incs (x # outs) ins) = i_other ` (set (x # outs) \<union> set ins)"
        by (rule "4.IH"(3) [OF False]) (rule agree; simp)
      then show ?thesis using False by (simp add: image_Un insert_commute)
    qed
  qed
qed (simp_all only: merge_incs_Nil set_append [symmetric] append_Nil append_Nil2)

lemma row_others:
  assumes "map (\<lambda>x. (i_edge x, adj_id a (i_other x), i_category x)) row =
      map (\<lambda>(k, e). (k, f e, ecategory e)) (filter (\<lambda>(k, e). P e) (enumerate 0 es))"
  shows "(\<lambda>x. (i_edge x, adj_id a (i_other x))) ` set row =
    {(k, f (es ! k)) | k. k < length es \<and> P (es ! k)}"
proof -
  have "(\<lambda>x. (i_edge x, adj_id a (i_other x))) ` set row =
      (\<lambda>(k, i, c). (k, i)) ` set (map (\<lambda>x. (i_edge x, adj_id a (i_other x), i_category x)) row)"
    by (simp add: image_image)
  also have "\<dots> = {(k, f (es ! k)) | k. k < length es \<and> P (es ! k)}"
    unfolding assms enumerate_upt by (auto simp: image_iff)
  finally show ?thesis .
qed

lemma built_rel:
  assumes "build_fits g keep cap" and "a = build_capped g keep cap"
    and "es = kept_of keep (g_edges g)"
  shows "(\<lambda>(u, v). (adj_id a u, adj_id a v)) ` inc_rel a w = walk_edges w es"
proof -
  note scan = build_scan [OF assms]
  have out: "(\<lambda>x. (i_edge x, adj_id a (i_other x))) ` set (outgoing a u) =
      {(k, eto (es ! k)) | k. k < length es \<and> efrom (es ! k) = adj_id a u}"
    and inn: "(\<lambda>x. (i_edge x, adj_id a (i_other x))) ` set (incoming a u) =
      {(k, efrom (es ! k)) | k. k < length es \<and> eto (es ! k) = adj_id a u}" if "u < adj_len a" for u
    using row_others [OF scan(3) [OF that]] row_others [OF scan(4) [OF that]] by auto
  have all: "\<exists>u < adj_len a. adj_id a u = i" if "e \<in> set es" "i = efrom e \<or> i = eto e" for e i
  proof -
    have "i \<in> set (a_ids a)" using that unfolding scan(1) by (auto simp: endpoints_def)
    then show ?thesis by (auto simp: in_set_conv_nth adj_len_def adj_id_def)
  qed
  have others: "(\<lambda>x. adj_id a (i_other x)) ` set row = snd ` (\<lambda>x. (i_edge x, adj_id a (i_other x))) ` set row"
    for row :: "inc list" by (simp add: image_image)
  have row: "adj_id a ` (inc_rel a w `` {u}) = {i. (adj_id a u, i) \<in> walk_edges w es}"
    if u: "u < adj_len a" for u
  proof -
    have "inc_rel a w `` {u} = i_other ` set (each_incidence a u w)"
      using u by (auto simp: inc_rel_def)
    then have "adj_id a ` (inc_rel a w `` {u}) = (\<lambda>x. adj_id a (i_other x)) ` set (each_incidence a u w)"
      by (simp add: image_image)
    moreover have "(\<lambda>x. adj_id a (i_other x)) ` set (outgoing a u) = {i. (adj_id a u, i) \<in> walk_edges Forward es}"
      unfolding others out [OF u] by (force simp: in_set_conv_nth)
    moreover have "(\<lambda>x. adj_id a (i_other x)) ` set (incoming a u) = {i. (adj_id a u, i) \<in> walk_edges Backward es}"
      unfolding others inn [OF u] by (force simp: in_set_conv_nth)
    moreover have "(\<lambda>x. adj_id a (i_other x)) ` set (merge_incs (outgoing a u) (incoming a u)) =
        (\<lambda>x. adj_id a (i_other x)) ` (set (outgoing a u) \<union> set (incoming a u))"
    proof -
      have "i_other x = i_other y" if xy: "x \<in> set (outgoing a u)" "y \<in> set (incoming a u)"
        "i_edge x = i_edge y" for x y
      proof -
        have "(i_edge x, adj_id a (i_other x)) \<in> {(k, eto (es ! k)) | k. k < length es \<and> efrom (es ! k) = adj_id a u}"
          using xy(1) out [OF u] by blast
        moreover have "(i_edge y, adj_id a (i_other y)) \<in> {(k, efrom (es ! k)) | k. k < length es \<and> eto (es ! k) = adj_id a u}"
          using xy(2) inn [OF u] by blast
        ultimately have "adj_id a (i_other x) = adj_id a (i_other y)" using xy(3) by auto
        moreover have "i_other x < adj_len a" "i_other y < adj_len a"
          using built.out_range [of u g keep cap x] built.in_range [of u g keep cap y] u xy(1,2)
          unfolding assms(2) by blast+
        ultimately show ?thesis using built.adj_id_inj assms(2) by blast
      qed
      from merge_incs_others [OF this] show ?thesis by (simp only: image_comp [symmetric, unfolded o_def] image_image [symmetric])
    qed
    ultimately show ?thesis by (cases w) (auto simp: image_Un)
  qed
  show ?thesis
  proof (intro set_eqI iffI)
    fix p assume "p \<in> (\<lambda>(u, v). (adj_id a u, adj_id a v)) ` inc_rel a w"
    then obtain u v where "p = (adj_id a u, adj_id a v)" "(u, v) \<in> inc_rel a w" by auto
    then show "p \<in> walk_edges w es"
      using row [of u] built.inc_rel_range [of u v g keep cap w] assms(2) by blast
  next
    fix p assume p: "p \<in> walk_edges w es"
    obtain i j where ij: "p = (i, j)" by (cases p)
    then obtain u where u: "u < adj_len a" "adj_id a u = i"
    proof -
      obtain e where "e \<in> set es" "i = efrom e \<or> i = eto e" using p ij by (cases w) auto
      then show ?thesis using all that by blast
    qed
    then have "j \<in> adj_id a ` (inc_rel a w `` {u})" using row p ij by simp
    then show "p \<in> (\<lambda>(u, v). (adj_id a u, adj_id a v)) ` inc_rel a w" using ij u by force
  qed
qed

end
