(* ===== verification/Walks.thy ===== *)
theory Walks
  imports Reach
begin

text \<open>
  What the walks of \<open>activation/src/algo/reach.rs\<close> mean on a built index: depths, closures
  and the early-exit backward walk \<open>reachable_by\<close>, stated over the graph's kept edges.
\<close>

subsection \<open>From index positions to node ids\<close>

lemma hops_map:
  assumes "inj_on f A" and "R \<subseteq> A \<times> A" and "S \<subseteq> A"
  shows "hops ((\<lambda>(u, v). (f u, f v)) ` R) (f ` S) k = f ` hops R S k \<and> hops R S k \<subseteq> A"
proof (induction k)
  case 0
  then show ?case using assms(3) by simp
next
  case (Suc k)
  then have sub: "hops R S k \<subseteq> A" by simp
  have "((\<lambda>(u, v). (f u, f v)) ` R) `` (f ` hops R S k) = f ` (R `` hops R S k)"
    (is "?l = ?r")
  proof
    show "?l \<subseteq> ?r"
    proof
      fix y assume "y \<in> ?l"
      then obtain u v u' where "(u, v) \<in> R" "y = f v" "u' \<in> hops R S k" "f u = f u'" by auto
      moreover from this have "u = u'" using assms(1,2) sub by (auto dest: inj_onD)
      ultimately show "y \<in> ?r" by auto
    qed
  qed force
  then show ?case using Suc assms(2) by (auto simp: hops_Suc)
qed

lemma first_hop_map:
  assumes "inj_on f A" and "R \<subseteq> A \<times> A" and "S \<subseteq> A"
  shows "first_hop ((\<lambda>(u, v). (f u, f v)) ` R) (f ` S) pl k = f ` first_hop R S pl k"
proof -
  have hop: "hops ((\<lambda>(u, v). (f u, f v)) ` R) (f ` S) j = f ` hops R S j" for j
    using hops_map [OF assms] by blast
  have sub: "hops R S j \<subseteq> A" for j using hops_map [OF assms] by blast
  have mem: "f v \<in> f ` hops R S j \<longleftrightarrow> v \<in> hops R S j" if "v \<in> hops R S k" for v j
    using inj_on_image_mem_iff [OF assms(1) _ sub] sub that by blast
  have iff: "f v \<in> first_hop ((\<lambda>(u, v). (f u, f v)) ` R) (f ` S) pl k \<longleftrightarrow> v \<in> first_hop R S pl k"
    if "v \<in> hops R S k" for v
    unfolding first_hop_def hop mem_Collect_eq mem [OF that] ..
  have "first_hop ((\<lambda>(u, v). (f u, f v)) ` R) (f ` S) pl k \<subseteq> f ` hops R S k"
    unfolding hop [symmetric] first_hop_def by blast
  moreover have "first_hop R S pl k \<subseteq> hops R S k" unfolding first_hop_def by blast
  ultimately show ?thesis using iff by blast
qed

text \<open>Seeds without edges (those the index does not hold) change no hop past the first.\<close>

lemma hops_seeds:
  assumes "S \<subseteq> T" and "\<And>s. s \<in> T - S \<Longrightarrow> s \<notin> Domain R"
  shows "hops R T (Suc k) = hops R S (Suc k)"
proof (induction k)
  case 0
  then show ?case using assms by (auto simp: hops_Suc)
next
  case (Suc k)
  then show ?case by (simp only: hops_Suc [of R _ "Suc k"])
qed

lemma first_hop_seeds:
  assumes "S \<subseteq> T" and "\<And>s. s \<in> T - S \<Longrightarrow> s \<notin> Domain R \<union> Range R"
  shows "first_hop R T pl k = first_hop R S pl k"
proof (cases k)
  case (Suc n)
  have pos: "hops R T j = hops R S j" if "1 \<le> j" for j
    using hops_seeds [of S T R "j - 1"] assms that by auto
  have "v \<in> T \<longleftrightarrow> v \<in> S" if "v \<in> hops R S (Suc n)" for v
    using that assms by (auto simp: hops_Suc)
  then show ?thesis
    unfolding first_hop_def Suc using pos
    by (intro Collect_cong) (metis hops_0 le_add1 less_one not_less plus_1_eq_Suc)
qed (simp add: first_hop_def)

lemma hops_reachable: "(\<Union>k. hops R S k) = R\<^sup>* `` S"
  by (auto simp: hops_def rtrancl_is_UN_relpow)

lemma hops_first_hop: "v \<in> hops R S k \<Longrightarrow> v \<notin> S \<Longrightarrow> \<exists>j \<le> k. v \<in> first_hop R S False j"
proof (induction k rule: less_induct)
  case (less k)
  show ?case
  proof (cases "\<exists>j < k. v \<in> hops R S j")
    case True
    then obtain j i where "j < k" "i \<le> j" "v \<in> first_hop R S False i"
      using less.IH less.prems(2) by blast
    then show ?thesis by (meson less_imp_le_nat order_trans)
  next
    case False
    moreover have "k \<noteq> 0" using less.prems by (auto intro: Nat.gr0I)
    ultimately show ?thesis using less.prems by (auto simp: first_hop_def)
  qed
qed

lemma first_hop_hops: "v \<in> first_hop R S False k \<Longrightarrow> v \<in> hops R S k \<and> v \<notin> S"
  by (auto simp: first_hop_def)

lemma walk_edges_ids:
  assumes "(i, j) \<in> walk_edges w es"
  shows "i \<in> set (endpoints es) \<and> j \<in> set (endpoints es)"
  using assms by (cases w) (auto simp: endpoints_def)

text \<open>The rows of a walk over a built index, on node ids.\<close>

lemma bfs_built_rows:
  assumes "build_fits g keep cap" and "a = build_capped g keep cap"
    and "es = kept_of keep (g_edges g)"
  shows "distinct (map r_id (b_reached (bfs a seeds w md))) \<and>
    (\<lambda>r. (r_id r, r_depth r)) ` set (b_reached (bfs a seeds w md)) =
      {(i, k). k \<le> md \<and> i \<in> first_hop (walk_edges w es) (set seeds) False k} \<and>
    (\<forall>k i. i \<in> first_hop (walk_edges w es) (set seeds) False k \<longrightarrow> k \<le> adj_len a)"
proof -
  note rows = built.bfs_rows [where g = g and keep = keep and cap = cap, folded assms(2)]
  have inj: "inj_on (adj_id a) {..<adj_len a}"
    using built.adj_id_inj assms(2) by (auto simp: inj_on_def)
  have rel: "inc_rel a w \<subseteq> {..<adj_len a} \<times> {..<adj_len a}"
    using built.inc_rel_range assms(2) by auto
  have ixs: "seed_ixs a seeds \<subseteq> {..<adj_len a}"
    using built.seed_ixs_range assms(2) by blast
  have ids: "s \<in> set (a_ids a) \<longleftrightarrow> (\<exists>ix. index_of a s = Some ix)" for s
    using built.index_iff [where g = g and keep = keep and cap = cap, folded assms(2)]
    by (auto simp: in_set_conv_nth adj_len_def adj_id_def)
  have im: "adj_id a ` seed_ixs a seeds = {s \<in> set seeds. s \<in> set (a_ids a)}"
    unfolding ids using built.index_iff [where g = g and keep = keep and cap = cap, folded assms(2)]
    by (force simp: seed_ixs_def)
  have "adj_id a ` first_hop (inc_rel a w) (seed_ixs a seeds) False k =
      first_hop (walk_edges w es) (adj_id a ` seed_ixs a seeds) False k" for k
    using first_hop_map [OF inj rel ixs] built_rel [OF assms, of w] by metis
  also have "\<dots> k = first_hop (walk_edges w es) (set seeds) False k" for k
  proof (rule first_hop_seeds [symmetric])
    show "adj_id a ` seed_ixs a seeds \<subseteq> set seeds" unfolding im by blast
    show "s \<notin> Domain (walk_edges w es) \<union> Range (walk_edges w es)"
      if "s \<in> set seeds - adj_id a ` seed_ixs a seeds" for s
    proof -
      have "s \<notin> set (a_ids a)" using that unfolding im by blast
      then have "s \<notin> set (endpoints es)" unfolding build_scan(1) [OF assms] by simp
      then show ?thesis using walk_edges_ids by blast
    qed
  qed
  finally have hop: "adj_id a ` first_hop (inc_rel a w) (seed_ixs a seeds) False k =
      first_hop (walk_edges w es) (set seeds) False k" for k .
  have "{(adj_id a v, k) | v k. k \<le> md \<and> v \<in> first_hop (inc_rel a w) (seed_ixs a seeds) False k} =
      {(i, k). k \<le> md \<and> i \<in> adj_id a ` first_hop (inc_rel a w) (seed_ixs a seeds) False k}"
    by auto
  moreover have "k \<le> adj_len a" if "i \<in> first_hop (walk_edges w es) (set seeds) False k" for i k
  proof -
    obtain v where "v \<in> first_hop (inc_rel a w) (seed_ixs a seeds) False k"
      using \<open>i \<in> _\<close> unfolding hop [symmetric] by blast
    then show ?thesis by (rule first_hop_bound [OF ixs, rotated]) (use rel in blast)
  qed
  ultimately show ?thesis using rows [of seeds w md] unfolding hop by simp
qed

subsection \<open>The early-exit walk\<close>

definition reached_ixs :: "adjacency \<Rightarrow> bfs_result \<Rightarrow> nat set" where
  "reached_ixs adj out = {ix. ix < adj_len adj \<and> adj_id adj ix \<in> r_id ` set (b_reached out)}"

text \<open>
  What \<open>rb_loop\<close> keeps of the walk \<open>bfs\<close> makes at the same time: the hits are the targets
  among the nodes reached so far.
\<close>

definition rb_inv :: "adjacency \<Rightarrow> bool list \<Rightarrow> bool list \<Rightarrow> bool list \<Rightarrow> nat \<Rightarrow> bfs_result \<Rightarrow> bool" where
  "rb_inv adj target visited hit hits out \<longleftrightarrow>
     length target = adj_len adj \<and> length visited = adj_len adj \<and> length hit = adj_len adj \<and>
     reached_ixs adj out \<subseteq> vset visited \<and> vset hit = vset target \<inter> reached_ixs adj out \<and>
     hits = card (vset hit)"

lemma finite_vset [simp]: "finite (vset v)"
  by (simp add: vset_def)

context indexed_graph
begin

lemma reached_ixs_push:
  "v < adj_len adj \<Longrightarrow>
   reached_ixs adj (out\<lparr>b_scanned := n, b_reached := b_reached out @
     [\<lparr>r_id = adj_id adj v, r_depth = d, r_via = c, r_parent = p\<rparr>]\<rparr>) = insert v (reached_ixs adj out)"
  using adj_id_inj by (auto simp: reached_ixs_def)

lemma reached_ixs_scan [simp]: "reached_ixs adj (out\<lparr>b_scanned := n\<rparr>) = reached_ixs adj out"
  by (simp add: reached_ixs_def)

lemma rb_queue_range:
  assumes "\<forall>x \<in> set xs. i_other x < adj_len adj"
    and "fst ` set (snd (snd (snd st))) \<subseteq> {..<adj_len adj}"
  shows "fst ` set (snd (snd (snd (fold (rb_step target d) xs st)))) \<subseteq> {..<adj_len adj}"
  using assms
proof (induction xs arbitrary: st)
  case (Cons x xs)
  obtain v h k q where st: "st = (v, h, k, q)" by (cases st)
  have x: "i_other x < adj_len adj" and rest: "\<forall>x \<in> set xs. i_other x < adj_len adj"
    using Cons.prems(1) by auto
  have "fst ` set (snd (snd (snd (rb_step target d x st)))) \<subseteq> {..<adj_len adj}"
    using Cons.prems(2) x by (simp add: st)
  then show ?case using Cons.IH [OF rest, of "rb_step target d x st"] by simp
qed simp

lemma rb_fold_sim:
  assumes "\<forall>x \<in> set xs. i_other x < adj_len adj" and "rb_inv adj target visited hit hits out"
  shows "\<exists>visited' hit' hits' queue' out'.
    fold (bfs_step adj u d) xs (visited, queue, out) = (visited', queue', out') \<and>
    fold (rb_step target d) xs (visited, hit, hits, queue) = (visited', hit', hits', queue') \<and>
    rb_inv adj target visited' hit' hits' out'"
  using assms
proof (induction xs arbitrary: visited hit hits queue out)
  case Nil
  then show ?case by simp
next
  case (Cons x xs)
  have x: "i_other x < adj_len adj" and rest: "\<forall>x \<in> set xs. i_other x < adj_len adj"
    using Cons.prems(1) by auto
  note inv = Cons.prems(2) [unfolded rb_inv_def]
  show ?case
  proof (cases "i_other x \<in> vset visited")
    case True
    have "rb_inv adj target visited hit hits (out\<lparr>b_scanned := Suc (b_scanned out)\<rparr>)"
      using inv by (simp add: rb_inv_def)
    then show ?thesis
      using Cons.IH [OF rest, of visited hit hits] True x inv by (simp add: is_set_vset)
  next
    case False
    then have new: "i_other x \<notin> vset hit" "i_other x \<notin> reached_ixs adj out" using inv by auto
    let ?out = "out\<lparr>b_scanned := Suc (b_scanned out), b_reached := b_reached out @
      [\<lparr>r_id = adj_id adj (i_other x), r_depth = Suc d, r_via = i_category x, r_parent = adj_id adj u\<rparr>]\<rparr>"
    let ?hit = "if target ! i_other x then hit[i_other x := True] else hit"
    let ?hits = "if target ! i_other x then Suc hits else hits"
    have t: "target ! i_other x \<longleftrightarrow> i_other x \<in> vset target" using inv x by (simp add: vset_def)
    have "rb_inv adj target (visited[i_other x := True]) ?hit ?hits ?out"
      using inv x new unfolding rb_inv_def t reached_ixs_push [OF x] by auto
    then have IH: "\<exists>visited' hit' hits' queue' out'.
        fold (bfs_step adj u d) xs (visited[i_other x := True], queue @ [(i_other x, Suc d)], ?out) =
          (visited', queue', out') \<and>
        fold (rb_step target d) xs
          (visited[i_other x := True], ?hit, ?hits, queue @ [(i_other x, Suc d)]) =
          (visited', hit', hits', queue') \<and>
        rb_inv adj target visited' hit' hits' out'"
      by (rule Cons.IH [OF rest])
    have "\<not> is_set visited (i_other x)" using False x inv by (simp add: is_set_vset)
    then have "bfs_step adj u d x (visited, queue, out) =
        (visited[i_other x := True], queue @ [(i_other x, Suc d)], ?out)"
      "rb_step target d x (visited, hit, hits, queue) =
        (visited[i_other x := True], ?hit, ?hits, queue @ [(i_other x, Suc d)])"
      by simp_all
    then show ?thesis using IH unfolding fold_simps by metis
  qed
qed

end

lemma bfs_fold_grows:
  "reached_ixs adj (snd (snd st)) \<subseteq> reached_ixs adj (snd (snd (fold (bfs_step adj u d) xs st)))"
proof (induction xs arbitrary: st)
  case (Cons x xs)
  obtain v q out where st: "st = (v, q, out)" by (cases st)
  have "reached_ixs adj (snd (snd st)) \<subseteq> reached_ixs adj (snd (snd (bfs_step adj u d x st)))"
    by (auto simp: st reached_ixs_def)
  then show ?case using Cons.IH [of "bfs_step adj u d x st"] by simp
qed simp

lemma bfs_loop_grows: "reached_ixs adj out \<subseteq> reached_ixs adj (bfs_loop adj w md visited queue out)"
proof (induction adj w md visited queue out rule: bfs_loop.induct)
  case (2 adj w md visited u depth queue out)
  obtain v q o' where f: "fold (bfs_step adj u depth) (each_incidence adj u w) (visited, queue, out) = (v, q, o')"
    by (cases "fold (bfs_step adj u depth) (each_incidence adj u w) (visited, queue, out)")
  have "reached_ixs adj out \<subseteq> reached_ixs adj o'"
    using bfs_fold_grows [of adj "(visited, queue, out)" u depth "each_incidence adj u w"] f by simp
  then show ?case using 2(1) 2(2) [OF _ f [symmetric] refl] f by auto
qed simp

context indexed_graph
begin

lemma rb_loop_sim:
  assumes "fst ` set queue \<subseteq> {..<adj_len adj}" and "rb_inv adj target visited hit hits out"
    and "card (vset target) \<le> wanted"
  shows "vset (rb_loop adj target wanted md visited hit hits queue) =
      vset target \<inter> reached_ixs adj (bfs_loop adj Backward md visited queue out) \<and>
    length (rb_loop adj target wanted md visited hit hits queue) = adj_len adj"
  using assms(1,2)
proof (induction "2 * unset visited + length queue" arbitrary: visited hit hits queue out
    rule: less_induct)
  case less
  note inv = less.prems(2) [unfolded rb_inv_def]
  show ?case
  proof (cases queue)
    case Nil
    then show ?thesis using inv by simp
  next
    case (Cons p rest)
    obtain u d where p: "p = (u, d)" by (cases p)
    have u: "u < adj_len adj" and rest: "fst ` set rest \<subseteq> {..<adj_len adj}"
      using less.prems(1) by (auto simp: Cons p)
    show ?thesis
    proof (cases "hits = wanted")
      case True
      then have "vset hit = vset target"
        using inv assms(3) card_seteq [of "vset target" "vset hit"] by simp
      then have "vset target \<subseteq> reached_ixs adj (bfs_loop adj Backward md visited queue out)"
        using inv bfs_loop_grows [of adj out Backward md visited queue] by blast
      then show ?thesis using True \<open>vset hit = vset target\<close> inv by (auto simp: Cons p)
    next
      case wanted: False
      show ?thesis
      proof (cases "md \<le> d")
        case True
        then show ?thesis
          using less.hyps [of visited rest hit hits out] less.prems(2) rest wanted by (simp add: Cons p)
      next
        case False
        have range: "\<forall>x \<in> set (incoming adj u). i_other x < adj_len adj" using in_range [OF u] by blast
        obtain v h k q o' where step:
          "fold (bfs_step adj u d) (incoming adj u) (visited, rest, out) = (v, q, o')"
          "fold (rb_step target d) (incoming adj u) (visited, hit, hits, rest) = (v, h, k, q)"
          "rb_inv adj target v h k o'"
          using rb_fold_sim [OF range less.prems(2), of u d rest] by (elim exE conjE) (rule that)
        have "2 * unset v + length q < 2 * unset visited + length queue"
          using rb_fold_measure [of target d "incoming adj u" "(visited, hit, hits, rest)"] step(2)
          by (simp add: Cons p)
        moreover have "fst ` set q \<subseteq> {..<adj_len adj}"
          using rb_queue_range [OF range, of "(visited, hit, hits, rest)" target d] rest step(2) by simp
        ultimately show ?thesis
          using less.hyps [of v q h k o'] step wanted False by (simp add: Cons p)
      qed
    qed
  qed
qed

lemma target_spec:
  assumes "length t = adj_len adj"
  shows "length (fold (\<lambda>s t. case index_of adj s of None \<Rightarrow> t | Some ix \<Rightarrow> t[ix := True]) sources t) =
      adj_len adj \<and>
    vset (fold (\<lambda>s t. case index_of adj s of None \<Rightarrow> t | Some ix \<Rightarrow> t[ix := True]) sources t) =
      vset t \<union> seed_ixs adj sources"
  using assms
proof (induction sources arbitrary: t)
  case Nil
  then show ?case by (simp add: seed_ixs_def)
next
  case (Cons s sources)
  show ?case
  proof (cases "index_of adj s")
    case None
    then show ?thesis using Cons by (simp add: seed_ixs_def)
  next
    case (Some ix)
    then have "ix < adj_len adj" using index_iff by blast
    then show ?thesis
      using Cons.IH [of "t[ix := True]"] Cons.prems Some by (auto simp: seed_ixs_def)
  qed
qed

lemma card_seed_ixs: "card (seed_ixs adj sources) \<le> card (set sources)"
proof -
  have "seed_ixs adj sources \<subseteq> (\<lambda>s. the (index_of adj s)) ` set sources"
    by (force simp: seed_ixs_def)
  then show ?thesis by (meson card_image_le card_mono finite_imageI finite_set le_trans)
qed

lemma reachable_by_bfs:
  "reachable_by adj sink sources md =
     filter (\<lambda>s. s \<in> r_id ` set (b_reached (bfs adj [sink] Backward md))) sources"
proof (cases "sources = []")
  case False
  define target where "target = fold (\<lambda>s t. case index_of adj s of None \<Rightarrow> t | Some ix \<Rightarrow> t[ix := True])
    sources (replicate (adj_len adj) False)"
  have t: "length target = adj_len adj" "vset target = seed_ixs adj sources"
    using target_spec [of "replicate (adj_len adj) False" sources] by (simp_all add: target_def)
  define vq where "vq = (case index_of adj sink of
      None \<Rightarrow> (replicate (adj_len adj) False, [])
    | Some ix \<Rightarrow> ((replicate (adj_len adj) False)[ix := True], [(ix, 0::nat)]))"
  let ?empty = "\<lparr>b_reached = [], b_scanned = 0\<rparr>"
  have bfs: "bfs adj [sink] Backward md = bfs_loop adj Backward md (fst vq) (snd vq) ?empty"
  proof (cases "index_of adj sink")
    case (Some ix)
    then have "ix < adj_len adj" using index_iff by blast
    then show ?thesis
      by (simp only: bfs_def vq_def fold_simps bfs_seed.simps Some option.case) (simp add: is_set_def)
  qed (simp add: bfs_def vq_def)
  have vq: "fst ` set (snd vq) \<subseteq> {..<adj_len adj}" "length (fst vq) = adj_len adj"
    using index_iff [of sink] by (auto simp: vq_def split: option.split)
  have inv: "rb_inv adj target (fst vq) (replicate (adj_len adj) False) 0 ?empty"
    using t vq by (simp add: rb_inv_def reached_ixs_def)
  define hit where "hit = rb_loop adj target (card (set sources)) md (fst vq)
    (replicate (adj_len adj) False) 0 (snd vq)"
  have hit: "vset hit = seed_ixs adj sources \<inter> reached_ixs adj (bfs adj [sink] Backward md)"
    "length hit = adj_len adj"
    using rb_loop_sim [OF vq(1) inv, of "card (set sources)" md] card_seed_ixs
    by (simp_all add: bfs t(2) hit_def)
  have "reachable_by adj sink sources md =
      filter (\<lambda>s. case index_of adj s of None \<Rightarrow> False | Some ix \<Rightarrow> hit ! ix) sources"
    using False by (simp only: reachable_by_def hit_def target_def vq_def Let_def case_prod_beta if_False)
  also have "\<dots> = filter (\<lambda>s. s \<in> r_id ` set (b_reached (bfs adj [sink] Backward md))) sources"
  proof (rule filter_cong [OF refl])
    fix s assume s: "s \<in> set sources"
    show "(case index_of adj s of None \<Rightarrow> False | Some ix \<Rightarrow> hit ! ix) =
        (s \<in> r_id ` set (b_reached (bfs adj [sink] Backward md)))"
    proof (cases "index_of adj s")
      case None
      have "s \<notin> r_id ` set (b_reached (bfs adj [sink] Backward md))"
      proof
        assume "s \<in> r_id ` set (b_reached (bfs adj [sink] Backward md))"
        then obtain r where "r \<in> set (b_reached (bfs adj [sink] Backward md))" "r_id r = s" by auto
        then have "(s, r_depth r) \<in> (\<lambda>r. (r_id r, r_depth r)) ` set (b_reached (bfs adj [sink] Backward md))"
          by force
        then obtain v where v: "s = adj_id adj v"
            "v \<in> first_hop (inc_rel adj Backward) (seed_ixs adj [sink]) False (r_depth r)"
          using bfs_rows [of "[sink]" Backward md] by auto
        then obtain j where "v \<in> hops (inc_rel adj Backward) (seed_ixs adj [sink]) (Suc j)"
          by (auto simp: first_hop_def) (metis Suc_le_D)
        then have "v < adj_len adj" using inc_rel_range by (auto simp: hops_Suc)
        then show False using None index_iff [of s v] v by simp
      qed
      then show ?thesis using None by simp
    next
      case (Some ix)
      then have "ix < adj_len adj" "adj_id adj ix = s" using index_iff by blast+
      moreover have "ix \<in> seed_ixs adj sources" using s Some by (auto simp: seed_ixs_def)
      moreover have "hit ! ix \<longleftrightarrow> ix \<in> vset hit" using hit(2) \<open>ix < adj_len adj\<close> by (simp add: vset_def)
      ultimately show ?thesis using Some hit(1) by (simp add: reached_ixs_def)
    qed
  qed
  finally show ?thesis .
qed (simp add: reachable_by_def)

end

lemma u32_le_usize: "u32_max \<le> usize_max"
  by (simp add: u32_max_def usize_max_def)

lemma relpow_converse: "((R :: ('a \<times> 'a) set)\<inverse>) ^^ k = (R ^^ k)\<inverse>"
proof (induction k)
  case (Suc k)
  have "(R\<inverse>) ^^ Suc k = ((R ^^ k)\<inverse>) O R\<inverse>" using Suc by simp
  also have "\<dots> = (R O R ^^ k)\<inverse>" by (rule converse_relcomp [symmetric])
  finally show ?case by (simp only: relpow_commute relpow.simps)
qed auto

lemma hops_backward: "i \<in> hops (walk_edges Backward es) {sink} k \<longleftrightarrow> (i, sink) \<in> walk_edges Forward es ^^ k"
proof -
  have "walk_edges Backward es = (walk_edges Forward es)\<inverse>" by auto
  then show ?thesis by (simp add: hops_def relpow_converse del: walk_edges.simps)
qed

subsection \<open>Properties\<close>

text \<open>
  C12: on a built index, with label vectors of the right lengths, the levelled walk reports each
  node once, in ascending level order: at the first level whose edges reach it, at its smallest
  hop count from that level's seeds (within the depth bound), with a parent one layer up and the
  kept edge, category and node that lead from the parent to it (\<open>level_result\<close>).
\<close>

theorem bfs_levels_first_level_first_hop:
  assumes "adj = build_capped g keep cap" and "length el = a_kept adj"
    and "\<not> wrong_length (lw_within how) (adj_len adj)"
    and "\<not> wrong_length (lw_parent_rank how) (adj_len adj)"
  shows "level_result adj how el seeds (lw_levels how) (lb_reached (bfs_levels adj seeds el how))"
  using built.bfs_levels_spec [of el g keep cap how seeds] assms(2-4) unfolding assms(1) by blast

definition chain3 :: graph_source where
  "chain3 = \<lparr>g_nodes = [1, 2, 3], g_edges = [edge_new 1 2 5 Strong, edge_new 2 3 6 Weak]\<rparr>"

lemma chain3_fits: "build_fits chain3 category_set_all u32_max"
  by (simp add: build_fits_def chain3_def edge_new_def u32_max_def card_insert_if)

lemma chain3_kept [simp]:
  "kept_of category_set_all (g_edges chain3) = [edge_new 1 2 5 Strong, edge_new 2 3 6 Weak]"
  by (simp add: chain3_def edge_new_def)

lemma chain3_edges [simp]:
  "walk_edges Forward [edge_new 1 2 5 Strong, edge_new 2 3 6 Weak] = {(1, 2), (2, 3)}"
proof -
  have "walk_edges Forward es = (\<lambda>e. (efrom e, eto e)) ` set es" for es by auto
  then show ?thesis by (simp del: walk_edges.simps add: edge_new_def)
qed

lemma chain3_size [simp]:
  "a_kept (build_capped chain3 category_set_all u32_max) = 2"
  "a_ids (build_capped chain3 category_set_all u32_max) = [1, 2, 3]"
  using build_scan(1,2) [OF chain3_fits refl refl]
  by (simp_all add: edge_new_def first_occ_def) (simp add: chain3_def)

theorem bfs_levels_first_level_first_hop_witness:
  "length [0, 1 :: nat] = a_kept (build_capped chain3 category_set_all u32_max) \<and>
   level_result (build_capped chain3 category_set_all u32_max) (level_walk_new Forward 2) [0, 1]
     [(1, 0)] 2 (lb_reached (bfs_levels (build_capped chain3 category_set_all u32_max) [(1, 0)] [0, 1]
       (level_walk_new Forward 2)))"
  using bfs_levels_first_level_first_hop [OF refl, of "[0, 1]" chain3 category_set_all u32_max
      "level_walk_new Forward 2" "[(1, 0)]"]
  by (simp add: wrong_length_def level_walk_new_def)

text \<open>
  C13: the queue walk finds each node within the depth bound once, at its shortest distance
  from the seeds over the kept edges in the walk's direction, and never a seed.
\<close>

theorem bfs_shortest_distances:
  assumes "build_fits g keep cap" and "es = kept_of keep (g_edges g)"
  shows "distinct (map r_id (b_reached (bfs (build_capped g keep cap) seeds w md))) \<and>
    (\<lambda>r. (r_id r, r_depth r)) ` set (b_reached (bfs (build_capped g keep cap) seeds w md)) =
      {(i, k). k \<le> md \<and> i \<notin> set seeds \<and> i \<in> (walk_edges w es ^^ k) `` set seeds \<and>
        (\<forall>j < k. i \<notin> (walk_edges w es ^^ j) `` set seeds)}"
proof -
  have "i \<in> first_hop (walk_edges w es) (set seeds) False k \<longleftrightarrow>
      i \<notin> set seeds \<and> i \<in> (walk_edges w es ^^ k) `` set seeds \<and>
      (\<forall>j < k. i \<notin> (walk_edges w es ^^ j) `` set seeds)" for i k
    by (cases k) (auto simp: first_hop_def hops_def)
  then show ?thesis using bfs_built_rows [OF assms(1) refl assms(2), of seeds w md] by simp
qed

text \<open>C14: \<open>reachable\<close> is the closure of the seeds under the kept edges, at any depth.\<close>

theorem reachable_is_closure:
  assumes "build_fits g keep u32_max" and "es = kept_of keep (g_edges g)"
  shows "reachable (build g keep) seeds w = (walk_edges w es)\<^sup>* `` set seeds"
proof -
  let ?R = "walk_edges w es" and ?S = "set seeds" and ?a = "build g keep"
  note rows = bfs_built_rows [OF assms(1) refl assms(2), of seeds w usize_max, folded build_def]
  have depth: "k \<le> usize_max" if "i \<in> first_hop ?R ?S False k" for i k
    using rows that adj_len_built_le [of g keep u32_max, folded build_def]
    by (meson le_trans u32_le_usize)
  have "set (map r_id (b_reached (bfs ?a seeds w usize_max))) =
      fst ` (\<lambda>r. (r_id r, r_depth r)) ` set (b_reached (bfs ?a seeds w usize_max))"
    by (simp add: image_image)
  also have "\<dots> = {i. \<exists>k. i \<in> first_hop ?R ?S False k}"
    using rows depth by (auto simp: image_iff) blast
  finally have "reachable ?a seeds w = ?S \<union> {i. \<exists>k. i \<in> first_hop ?R ?S False k}"
    by (simp add: reachable_def)
  also have "\<dots> = (\<Union>k. hops ?R ?S k)"
  proof (intro set_eqI iffI)
    fix i assume "i \<in> ?S \<union> {i. \<exists>k. i \<in> first_hop ?R ?S False k}"
    then have "\<exists>k. i \<in> hops ?R ?S k"
    proof (elim UnE CollectE exE)
      assume "i \<in> ?S"
      then have "i \<in> hops ?R ?S 0" by (simp only: hops_0)
      then show ?thesis ..
    next
      fix k assume "i \<in> first_hop ?R ?S False k"
      then have "i \<in> hops ?R ?S k" by (rule first_hop_hops [THEN conjunct1])
      then show ?thesis ..
    qed
    then show "i \<in> (\<Union>k. hops ?R ?S k)" by (simp only: UN_iff UNIV_I bex_UNIV)
  next
    fix i assume "i \<in> (\<Union>k. hops ?R ?S k)"
    then obtain k where k: "i \<in> hops ?R ?S k" by (rule UN_E)
    show "i \<in> ?S \<union> {i. \<exists>k. i \<in> first_hop ?R ?S False k}"
    proof (cases "i \<in> ?S")
      case False
      then show ?thesis using hops_first_hop [OF k] by auto
    qed simp
  qed
  finally show ?thesis by (simp only: hops_reachable)
qed

text \<open>
  C15: the early-exit backward walk returns, in \<open>sources\<close> order, exactly the sources other than
  the sink with a path of at most \<open>md\<close> kept edges to it.
\<close>

theorem reachable_by_spec:
  assumes "build_fits g keep cap" and "es = kept_of keep (g_edges g)"
  shows "reachable_by (build_capped g keep cap) sink sources md =
    filter (\<lambda>s. s \<noteq> sink \<and> (\<exists>k \<le> md. (s, sink) \<in> walk_edges Forward es ^^ k)) sources"
proof -
  let ?a = "build_capped g keep cap"
  have "r_id ` set (b_reached (bfs ?a [sink] Backward md)) =
      fst ` (\<lambda>r. (r_id r, r_depth r)) ` set (b_reached (bfs ?a [sink] Backward md))"
    by (simp add: image_image)
  also have "\<dots> = {i. \<exists>k \<le> md. i \<in> first_hop (walk_edges Backward es) {sink} False k}"
    using bfs_built_rows [OF assms(1) refl assms(2), of "[sink]" Backward md] by (auto simp: image_iff)
  also have "\<dots> = {s. s \<noteq> sink \<and> (\<exists>k \<le> md. (s, sink) \<in> walk_edges Forward es ^^ k)}"
  proof (intro set_eqI iffI)
    fix i assume "i \<in> {i. \<exists>k \<le> md. i \<in> first_hop (walk_edges Backward es) {sink} False k}"
    then obtain k where "k \<le> md" "i \<in> first_hop (walk_edges Backward es) {sink} False k" by blast
    then show "i \<in> {s. s \<noteq> sink \<and> (\<exists>k \<le> md. (s, sink) \<in> walk_edges Forward es ^^ k)}"
      using first_hop_hops [of i "walk_edges Backward es" "{sink}" k] hops_backward by blast
  next
    fix i assume "i \<in> {s. s \<noteq> sink \<and> (\<exists>k \<le> md. (s, sink) \<in> walk_edges Forward es ^^ k)}"
    then obtain k where "i \<noteq> sink" "k \<le> md" "i \<in> hops (walk_edges Backward es) {sink} k"
      using hops_backward by blast
    then show "i \<in> {i. \<exists>k \<le> md. i \<in> first_hop (walk_edges Backward es) {sink} False k}"
      using hops_first_hop [of i "walk_edges Backward es" "{sink}" k] by (auto dest: le_trans)
  qed
  finally show ?thesis by (simp add: built.reachable_by_bfs)
qed

subsection \<open>Witnesses\<close>

theorem bfs_shortest_distances_witness:
  "build_fits chain3 category_set_all u32_max \<and>
   (3, 2) \<in> (\<lambda>r. (r_id r, r_depth r)) ` set (b_reached
     (bfs (build_capped chain3 category_set_all u32_max) [1] Forward 2))"
proof -
  have "(3, 2) \<in> {(i, k). k \<le> 2 \<and> i \<notin> set [1] \<and>
      i \<in> (walk_edges Forward [edge_new 1 2 5 Strong, edge_new 2 3 6 Weak] ^^ k) `` set [1] \<and>
      (\<forall>j < k. i \<notin> (walk_edges Forward [edge_new 1 2 5 Strong, edge_new 2 3 6 Weak] ^^ j) `` set [1])}"
    unfolding chain3_edges by (auto simp: numeral_2_eq_2 less_Suc_eq)
  then show ?thesis
    using bfs_shortest_distances [OF chain3_fits refl, of "[1]" Forward 2] chain3_fits by simp
qed

theorem reachable_is_closure_witness:
  "build_fits chain3 category_set_all u32_max \<and> 3 \<in> reachable (build chain3 category_set_all) [1] Forward"
proof -
  have "(1, 3) \<in> {(1, 2), (2, 3 :: node_id)}\<^sup>*"
    by (rule rtrancl_into_rtrancl [OF r_into_rtrancl, of 1 2]) simp_all
  then show ?thesis
    using reachable_is_closure [OF chain3_fits refl, of "[1]" Forward] chain3_fits
    unfolding chain3_kept chain3_edges by auto
qed

theorem reachable_by_spec_witness:
  "build_fits chain3 category_set_all u32_max \<and>
   reachable_by (build_capped chain3 category_set_all u32_max) 3 [2, 3, 1] 1 = [2]"
proof -
  have "(i, 3) \<in> {(1, 2), (2, 3 :: node_id)} ^^ k \<longleftrightarrow>
      (k = 0 \<and> i = 3) \<or> (k = 1 \<and> i = 2)" if "k \<le> 1" for i :: node_id and k
  proof (cases k)
    case 0
    then show ?thesis by simp
  next
    case (Suc n)
    then show ?thesis using that by auto
  qed
  then have "(\<exists>k \<le> 1. (i, 3) \<in> {(1, 2), (2, 3 :: node_id)} ^^ k) \<longleftrightarrow>
      i = 3 \<or> i = 2" for i :: node_id
    by (metis le_numeral_extra(3,4) zero_le_one)
  then show ?thesis
    using reachable_by_spec [OF chain3_fits refl, of 3 "[2, 3, 1]" 1] chain3_fits
    unfolding chain3_kept chain3_edges by auto
qed

end
