(* ===== verification/Classes.thy ===== *)
theory Classes
  imports Adjacency
begin

text \<open>
  Identity classes, \<open>activation/src/algo/classes.rs\<close>: the union-find (\<open>union_find\<close>,
  \<open>uf_find\<close>, \<open>uf_union\<close>) with its invariant and root function, the classes a list of pairs
  joins (\<open>from_pairs\<close>) against the equivalence closure of the pairs, and the quotient view of a
  graph (\<open>quotient\<close>).
\<close>

subsection \<open>Union-find\<close>

text \<open>
  \<open>UnionFind\<close>: the parent of each dense index. The loops of \<open>find\<close> run with fuel: an entry points
  at or below itself (\<open>uf_inv\<close>), so a chain from \<open>i\<close> has at most \<open>i\<close> links and the number of
  entries is enough (\<open>climb_root\<close> shows that the loop's condition is then false at the exit).
\<close>

record union_find =
  uf_parent :: "nat list"

definition uf_new :: "nat \<Rightarrow> union_find" where
  "uf_new n = (if n > u32_max then \<lparr>uf_parent = []\<rparr> else \<lparr>uf_parent = [0..<n]\<rparr>)"

definition uf_len :: "union_find \<Rightarrow> nat" where
  "uf_len u = length (uf_parent u)"

fun climb :: "nat list \<Rightarrow> nat \<Rightarrow> nat \<Rightarrow> nat" where
  "climb p 0 root = root"
| "climb p (Suc fuel) root = (if p ! root \<noteq> root then climb p fuel (p ! root) else root)"

fun compress :: "nat \<Rightarrow> nat \<Rightarrow> nat \<Rightarrow> nat list \<Rightarrow> nat list" where
  "compress root 0 cur p = p"
| "compress root (Suc fuel) cur p =
     (if cur \<noteq> root then (let next = p ! cur in compress root fuel (p ! cur) (p[cur := root])) else p)"

definition uf_find :: "union_find \<Rightarrow> nat \<Rightarrow> nat \<times> union_find" where
  "uf_find u i =
     (if i \<ge> length (uf_parent u) then (i, u)
      else
        let root = climb (uf_parent u) (length (uf_parent u)) i
        in (root, u\<lparr>uf_parent := compress root (length (uf_parent u)) i (uf_parent u)\<rparr>))"

definition uf_union :: "union_find \<Rightarrow> nat \<Rightarrow> nat \<Rightarrow> nat \<times> union_find" where
  "uf_union u a b =
     (let (ra, u) = uf_find u a; (rb, u) = uf_find u b; n = length (uf_parent u)
      in if ra \<ge> n \<or> rb \<ge> n then (ra, u)
         else
           let (lo, hi) = (if ra \<le> rb then (ra, rb) else (rb, ra))
           in (lo, if lo \<noteq> hi then u\<lparr>uf_parent := (uf_parent u)[hi := lo]\<rparr> else u))"

subsection \<open>Classes of node ids\<close>

record classes =
  c_ids :: "node_id list"
  c_class :: "nat list"
  c_classes :: "(node_id \<times> node_id list) list"

definition classes_empty :: classes where
  "classes_empty = \<lparr>c_ids = [], c_class = [], c_classes = []\<rparr>"

definition dense :: "node_id list \<Rightarrow> node_id \<Rightarrow> nat + nat" where
  "dense ids i = binary_search_by (\<lambda>x. cmp_of x i) ids"

definition union_pair :: "node_id list \<Rightarrow> node_id \<times> node_id \<Rightarrow> union_find \<Rightarrow> union_find" where
  "union_pair ids p uf =
     (case (dense ids (fst p), dense ids (snd p)) of
        (Inr i, Inr j) \<Rightarrow> snd (uf_union uf i j)
      | _ \<Rightarrow> uf)"

text \<open>One id of the class-building loop: \<open>(uf, class_of_root, class, classes)\<close>.\<close>

type_synonym class_state = "union_find \<times> nat list \<times> nat list \<times> (node_id \<times> node_id list) list"

fun class_step :: "nat \<times> node_id \<Rightarrow> class_state \<Rightarrow> class_state" where
  "class_step (i, m) (uf, class_of_root, class, classes) =
     (let (root, uf) = uf_find uf i;
          (class_of_root, classes) =
            (if root = i then (class_of_root[i := length classes], classes @ [(m, [])])
             else (class_of_root, classes));
          c = class_of_root ! root
      in (uf, class_of_root, class @ [c],
          classes[c := (fst (classes ! c), snd (classes ! c) @ [m])]))"

definition from_pairs_capped :: "(node_id \<times> node_id) list \<Rightarrow> nat \<Rightarrow> classes" where
  "from_pairs_capped pairs cap =
     (let pairs = filter (\<lambda>(a, b). a \<noteq> b) pairs
      in if pairs = [] then classes_empty
         else
           let ids = remdups_adj (sort (concat (map (\<lambda>(a, b). [a, b]) pairs)))
           in if length ids > cap then classes_empty
              else
                let uf = fold (union_pair ids) pairs (uf_new (length ids));
                    (uf, class_of_root, class, classes) =
                      fold class_step (enumerate 0 ids) (uf, replicate (length ids) 0, [], [])
                in \<lparr>c_ids = ids, c_class = class, c_classes = classes\<rparr>)"

definition from_pairs :: "(node_id \<times> node_id) list \<Rightarrow> classes" where
  "from_pairs pairs = from_pairs_capped pairs u32_max"

definition from_source :: "graph_source \<Rightarrow> category_set \<Rightarrow> (edge \<Rightarrow> bool) \<Rightarrow> classes" where
  "from_source g keep accept =
     from_pairs (map (\<lambda>e. (efrom e, eto e))
       (filter (\<lambda>e. cs_contains keep (ecategory e) \<and> accept e) (g_edges g)))"

definition class_rep :: "classes \<Rightarrow> node_id \<Rightarrow> node_id" where
  "class_rep c i =
     (case dense (c_ids c) i of Inr k \<Rightarrow> fst (c_classes c ! (c_class c ! k)) | Inl _ \<Rightarrow> i)"

definition class_of :: "classes \<Rightarrow> node_id \<Rightarrow> node_id list option" where
  "class_of c i =
     (case dense (c_ids c) i of Inr k \<Rightarrow> Some (snd (c_classes c ! (c_class c ! k))) | Inl _ \<Rightarrow> None)"

definition same_class :: "classes \<Rightarrow> node_id \<Rightarrow> node_id \<Rightarrow> bool" where
  "same_class c a b \<longleftrightarrow> class_rep c a = class_rep c b"

definition classes_len :: "classes \<Rightarrow> nat" where
  "classes_len c = length (c_classes c)"

definition class_members :: "classes \<Rightarrow> nat" where
  "class_members c = length (c_ids c)"

subsection \<open>The quotient of a graph\<close>

record quotient =
  q_nodes :: "node_id list"
  q_edges :: "edge list"
  q_collapsed :: nat

fun mark_first :: "node_id list \<Rightarrow> nat \<Rightarrow> bool list \<times> node_id option \<Rightarrow> bool list \<times> node_id option" where
  "mark_first ids i (keep, prev) =
     (if prev \<noteq> Some (ids ! i) then (keep[i := True], Some (ids ! i)) else (keep, prev))"

definition first_occurrences :: "node_id list \<Rightarrow> node_id list" where
  "first_occurrences ids =
     (let order = sort_key (\<lambda>i. ids ! i) [0..<length ids];
          (keep, prev) = fold (mark_first ids) order (replicate (length ids) False, None)
      in map fst (filter snd (zip ids keep)))"

fun quotient_edge :: "classes \<Rightarrow> edge \<Rightarrow> edge list \<times> nat \<Rightarrow> edge list \<times> nat" where
  "quotient_edge c e (edges, collapsed) =
     (let from = class_rep c (efrom e); to = class_rep c (eto e)
      in if from = to \<and> efrom e \<noteq> eto e then (edges, Suc collapsed)
         else (edges @ [edge_new from to (ecategory e) (econfidence e)], collapsed))"

definition quotient_new :: "graph_source \<Rightarrow> classes \<Rightarrow> quotient" where
  "quotient_new g c =
     (let (edges, collapsed) = fold (quotient_edge c) (g_edges g) ([], 0)
      in \<lparr>q_nodes = first_occurrences (map (class_rep c) (g_nodes g)), q_edges = edges,
          q_collapsed = collapsed\<rparr>)"

definition quotient_source :: "quotient \<Rightarrow> graph_source" where
  "quotient_source q = \<lparr>g_nodes = q_nodes q, g_edges = q_edges q\<rparr>"

subsection \<open>Roots\<close>

definition uf_inv :: "nat list \<Rightarrow> bool" where
  "uf_inv p \<longleftrightarrow> (\<forall>i < length p. p ! i \<le> i)"

text \<open>The root of an index: the loop run with its own value as fuel.\<close>

definition root_of :: "nat list \<Rightarrow> nat \<Rightarrow> nat" where
  "root_of p i = climb p i i"

lemma climb_fuel:
  assumes "uf_inv p" and "i < length p" and "i \<le> fuel"
  shows "climb p fuel i = root_of p i"
proof -
  have "climb p f i = climb p g i" if "i \<le> f" "i \<le> g" for f g
    using assms(2) that
  proof (induction f arbitrary: g i)
    case 0
    then show ?case using assms(1) by (cases g) (auto simp: uf_inv_def)
  next
    case (Suc f)
    have le: "p ! i \<le> i" using assms(1) Suc.prems(1) by (simp add: uf_inv_def)
    show ?case
    proof (cases g)
      case 0
      then show ?thesis using Suc.prems le by simp
    next
      case g: (Suc h)
      have "climb p f (p ! i) = climb p h (p ! i)" if "p ! i \<noteq> i"
      proof (rule Suc.IH)
        show "p ! i < length p" "p ! i \<le> f" "p ! i \<le> h"
          using Suc.prems le that g by linarith+
      qed
      then show ?thesis unfolding \<open>g = Suc h\<close> climb.simps by argo
    qed
  qed
  then show ?thesis unfolding root_of_def using assms(3) by blast
qed

lemma root_of_rec:
  assumes "uf_inv p" and "i < length p"
  shows "root_of p i = (if p ! i = i then i else root_of p (p ! i))"
proof -
  have le: "p ! i \<le> i" using assms by (simp add: uf_inv_def)
  show ?thesis
  proof (cases i)
    case 0
    then show ?thesis using le by (simp add: root_of_def)
  next
    case (Suc j)
    then show ?thesis
      using climb_fuel [OF assms(1), of "p ! i" j] assms(2) le by (auto simp: root_of_def)
  qed
qed

lemma root_of_root:
  assumes "uf_inv p" and "i < length p"
  shows "root_of p i \<le> i \<and> p ! root_of p i = root_of p i \<and> root_of p (root_of p i) = root_of p i"
  using assms(2)
proof (induction i rule: less_induct)
  case (less i)
  have le: "p ! i \<le> i" using assms(1) less.prems by (simp add: uf_inv_def)
  show ?case
  proof (cases "p ! i = i")
    case True
    then show ?thesis using root_of_rec [OF assms(1) less.prems] by simp
  next
    case False
    then show ?thesis
      using less.IH [of "p ! i"] le less.prems root_of_rec [OF assms(1) less.prems] by auto
  qed
qed

lemma climb_root:
  assumes "uf_inv p" and "i < length p"
  shows "climb p (length p) i = root_of p i" and "p ! climb p (length p) i = climb p (length p) i"
  using climb_fuel [OF assms, of "length p"] root_of_root [OF assms] assms(2) by auto

lemma uf_inv_update: "uf_inv p \<Longrightarrow> r \<le> c \<Longrightarrow> uf_inv (p[c := r])"
  unfolding uf_inv_def by (metis length_list_update nth_list_update nth_list_update_neq)

text \<open>Pointing an index at its root changes no root.\<close>

lemma root_of_compress1:
  assumes "uf_inv p" and "c < length p" and "i < length p"
  shows "root_of (p[c := root_of p c]) i = root_of p i"
  using assms(3)
proof (induction i rule: less_induct)
  case (less i)
  let ?q = "p[c := root_of p c]"
  have rc: "root_of p c \<le> c" "p ! root_of p c = root_of p c" using root_of_root [OF assms(1,2)] by auto
  have q: "uf_inv ?q" by (rule uf_inv_update [OF assms(1) rc(1)])
  have le: "p ! i \<le> i" using assms(1) less.prems by (simp add: uf_inv_def)
  note rec = root_of_rec [OF assms(1) less.prems]
    root_of_rec [OF q, of i, unfolded length_list_update, OF less.prems]
  show ?case
  proof (cases "i = c")
    case True
    show ?thesis
    proof (cases "root_of p c = c")
      case True
      then show ?thesis using \<open>i = c\<close> rec(2) assms(2) by simp
    next
      case False
      then have "root_of ?q (root_of p c) = root_of p (root_of p c)"
        using less.IH [of "root_of p c"] \<open>i = c\<close> rc(1) less.prems by simp
      then show ?thesis
        using \<open>i = c\<close> False rec(2) assms(2) root_of_root [OF assms(1,2)] by simp
    qed
  next
    case False
    then show ?thesis using rec less.IH [of "p ! i"] le less.prems by auto
  qed
qed

lemma compress_roots:
  assumes "uf_inv p" and "cur < length p" and "cur \<le> fuel" and "root = root_of p cur"
  shows "uf_inv (compress root fuel cur p) \<and> length (compress root fuel cur p) = length p \<and>
    (\<forall>i < length p. root_of (compress root fuel cur p) i = root_of p i)"
  using assms
proof (induction root fuel cur p rule: compress.induct)
  case (1 root cur p)
  then show ?case by simp
next
  case (2 root fuel cur p)
  show ?case
  proof (cases "cur = root")
    case True
    then show ?thesis using "2.prems" by simp
  next
    case False
    let ?q = "p[cur := root]"
    have ne: "p ! cur \<noteq> cur" using False "2.prems" root_of_rec [of p cur] by auto
    have lt: "p ! cur < cur" using ne "2.prems"(1,2) by (simp add: uf_inv_def order_less_le)
    have inv: "uf_inv ?q"
      using root_of_root [OF "2.prems"(1,2)] "2.prems"(1,4) by (simp add: uf_inv_update)
    have same: "root_of ?q i = root_of p i" if "i < length p" for i
      using root_of_compress1 [OF "2.prems"(1,2) that] "2.prems"(4) by simp
    have "root = root_of ?q (p ! cur)"
      using same [of "p ! cur"] root_of_rec [OF "2.prems"(1,2)] ne lt "2.prems"(2,4) by simp
    then show ?thesis
      using "2.IH" [OF False refl inv] lt same "2.prems"(2,3) False by simp
  qed
qed

lemma uf_find_spec:
  assumes "uf_inv (uf_parent u)" and "i < length (uf_parent u)"
  shows "fst (uf_find u i) = root_of (uf_parent u) i"
    and "uf_inv (uf_parent (snd (uf_find u i)))"
    and "length (uf_parent (snd (uf_find u i))) = length (uf_parent u)"
    and "j < length (uf_parent u) \<Longrightarrow>
      root_of (uf_parent (snd (uf_find u i))) j = root_of (uf_parent u) j"
  using climb_root [OF assms] compress_roots [OF assms, of "length (uf_parent u)"] assms(2)
  by (simp_all add: uf_find_def)

text \<open>Linking a root under a smaller root moves its set.\<close>

lemma root_of_link:
  assumes "uf_inv p" and "lo < hi" and "hi < length p" and "p ! hi = hi" and "p ! lo = lo"
    and "i < length p"
  shows "root_of (p[hi := lo]) i = (if root_of p i = hi then lo else root_of p i)"
  using assms(6)
proof (induction i rule: less_induct)
  case (less i)
  let ?q = "p[hi := lo]"
  have q: "uf_inv ?q" by (rule uf_inv_update [OF assms(1)]) (use assms(2) in simp)
  have le: "p ! i \<le> i" using assms(1) less.prems by (simp add: uf_inv_def)
  note rec = root_of_rec [OF assms(1) less.prems]
    root_of_rec [OF q, of i, unfolded length_list_update, OF less.prems]
  have lo: "root_of ?q lo = lo"
    using root_of_rec [OF q, of lo] assms(2,3,5) by simp
  show ?case
  proof (cases "i = hi")
    case True
    then show ?thesis using rec lo assms(2-4) by simp
  next
    case False
    then show ?thesis using rec less.IH [of "p ! i"] le less.prems by auto
  qed
qed

lemma uf_union_spec:
  assumes "uf_inv (uf_parent u)" and "a < length (uf_parent u)" and "b < length (uf_parent u)"
  defines "ra \<equiv> root_of (uf_parent u) a" and "rb \<equiv> root_of (uf_parent u) b"
  shows "fst (uf_union u a b) = min ra rb"
    and "uf_inv (uf_parent (snd (uf_union u a b)))"
    and "length (uf_parent (snd (uf_union u a b))) = length (uf_parent u)"
    and "i < length (uf_parent u) \<Longrightarrow> root_of (uf_parent (snd (uf_union u a b))) i =
      (if root_of (uf_parent u) i = ra \<or> root_of (uf_parent u) i = rb then min ra rb
       else root_of (uf_parent u) i)"
proof -
  define u1 where "u1 = snd (uf_find u a)"
  define u2 where "u2 = snd (uf_find u1 b)"
  note 1 = uf_find_spec [OF assms(1,2), folded u1_def]
  have b1: "b < length (uf_parent u1)" using assms(3) 1(3) by simp
  note 2 = uf_find_spec [OF 1(2) b1, folded u2_def]
  have root: "root_of (uf_parent u2) i = root_of (uf_parent u) i" if "i < length (uf_parent u)" for i
    using 1(3,4) 2(4) that by simp
  have len: "length (uf_parent u2) = length (uf_parent u)" using 1(3) 2(3) by simp
  have ra: "ra < length (uf_parent u)" "uf_parent u2 ! ra = ra"
    using root_of_root [OF 2(2), of a] root [OF assms(2)] len assms(2) by (auto simp: ra_def)
  have rb: "rb < length (uf_parent u)" "uf_parent u2 ! rb = rb"
    using root_of_root [OF 2(2), of b] root [OF assms(3)] len assms(3) by (auto simp: rb_def)
  have f: "uf_find u a = (ra, u1)" "uf_find u1 b = (rb, u2)"
    using 1(1) 2(1) 1(4) assms(3) by (auto simp: prod_eq_iff u1_def u2_def ra_def rb_def)
  have union: "uf_union u a b = (min ra rb,
      if ra = rb then u2 else u2\<lparr>uf_parent := (uf_parent u2)[max ra rb := min ra rb]\<rparr>)"
    using ra rb len by (auto simp: uf_union_def f min_def max_def)
  show "fst (uf_union u a b) = min ra rb" by (simp add: union)
  show "uf_inv (uf_parent (snd (uf_union u a b)))"
    using 2(2) by (simp add: union uf_inv_update)
  show "length (uf_parent (snd (uf_union u a b))) = length (uf_parent u)"
    by (simp add: union len)
  assume i: "i < length (uf_parent u)"
  show "root_of (uf_parent (snd (uf_union u a b))) i =
      (if root_of (uf_parent u) i = ra \<or> root_of (uf_parent u) i = rb then min ra rb
       else root_of (uf_parent u) i)"
  proof (cases "ra = rb")
    case True
    then show ?thesis using root [OF i] by (simp add: union)
  next
    case False
    then show ?thesis
      using root_of_link [OF 2(2), of "min ra rb" "max ra rb" i] ra rb len i root [OF i]
      by (auto simp: union min_def max_def)
  qed
qed

subsection \<open>The equivalence the pairs generate\<close>

definition eqv :: "('a \<times> 'a) set \<Rightarrow> ('a \<times> 'a) set" where
  "eqv P = (P \<union> P\<inverse>)\<^sup>*"

lemma eqv_refl [simp]: "(x, x) \<in> eqv P"
  by (simp add: eqv_def)

lemma eqv_trans: "(x, y) \<in> eqv P \<Longrightarrow> (y, z) \<in> eqv P \<Longrightarrow> (x, z) \<in> eqv P"
  by (simp add: eqv_def)

lemma eqv_sym: "(x, y) \<in> eqv P \<Longrightarrow> (y, x) \<in> eqv P"
proof -
  have "sym (P \<union> P\<inverse>)" by (auto simp: sym_def)
  then show "(x, y) \<in> eqv P \<Longrightarrow> (y, x) \<in> eqv P"
    unfolding eqv_def by (meson sym_rtrancl symD)
qed

lemma eqv_mono: "P \<subseteq> Q \<Longrightarrow> (x, y) \<in> eqv P \<Longrightarrow> (x, y) \<in> eqv Q"
  unfolding eqv_def using rtrancl_mono [of "P \<union> P\<inverse>" "Q \<union> Q\<inverse>"] by blast

lemma eqv_pair: "(x, y) \<in> P \<Longrightarrow> (x, y) \<in> eqv P"
  by (auto simp: eqv_def)

lemma eqv_insert:
  "(x, y) \<in> eqv (insert (a, b) P) \<longleftrightarrow>
   (x, y) \<in> eqv P \<or> (x, a) \<in> eqv P \<and> (b, y) \<in> eqv P \<or> (x, b) \<in> eqv P \<and> (a, y) \<in> eqv P"
  (is "?l \<longleftrightarrow> ?r x y")
proof
  assume ?l
  then show "?r x y"
    unfolding eqv_def [of "insert (a, b) P"]
  proof (induction rule: rtrancl_induct)
    case base
    then show ?case by simp
  next
    case (step y z)
    then consider "(y, z) \<in> P \<union> P\<inverse>" | "y = a \<and> z = b" | "y = b \<and> z = a" by blast
    then show ?case
    proof cases
      case 1
      then have "(y, z) \<in> eqv P" by (auto simp: eqv_def)
      then show ?thesis using step.IH eqv_trans by metis
    next
      case 2
      then show ?thesis using step.IH eqv_trans eqv_refl by metis
    next
      case 3
      then show ?thesis using step.IH eqv_trans eqv_refl by metis
    qed
  qed
next
  have "(a, b) \<in> eqv (insert (a, b) P)" by (rule eqv_pair) simp
  moreover have "(u, v) \<in> eqv P \<Longrightarrow> (u, v) \<in> eqv (insert (a, b) P)" for u v
    by (rule eqv_mono) auto
  ultimately show "?r x y \<Longrightarrow> ?l" using eqv_trans eqv_sym by metis
qed

lemma eqv_field:
  assumes "(x, y) \<in> eqv P" and "x \<noteq> y"
  shows "x \<in> Field P \<and> y \<in> Field P"
  using assms unfolding eqv_def by (induction rule: rtrancl_induct) (auto simp: Field_def)

lemma eqv_sym_diag:
  "eqv (P - Id) = eqv P" "eqv (P \<union> P\<inverse>) = eqv P"
proof -
  have "P - Id \<union> (P - Id)\<inverse> = P \<union> P\<inverse> - Id" by auto
  then show "eqv (P - Id) = eqv P" unfolding eqv_def by (simp only: rtrancl_r_diff_Id)
  show "eqv (P \<union> P\<inverse>) = eqv P" unfolding eqv_def by (rule arg_cong [of _ _ rtrancl]) auto
qed

lemma dense_index:
  assumes "sorted ids" and "distinct ids"
  shows "k < length ids \<Longrightarrow> dense ids (ids ! k) = Inr k"
    and "x \<notin> set ids \<Longrightarrow> \<exists>e. dense ids x = Inl e"
    and "dense ids x = Inr k \<Longrightarrow> k < length ids \<and> ids ! k = x"
proof -
  have key: "sorted (map (\<lambda>x. x) ids)" using assms(1) by simp
  note search = binary_search_key [OF key, folded dense_def]
  show pos: "dense ids x = Inr k \<Longrightarrow> k < length ids \<and> ids ! k = x" for x k
    by (rule search(2))
  show "\<exists>e. dense ids x = Inl e" if "x \<notin> set ids"
    using search(1) [of x] that by (cases "dense ids x") auto
  show "dense ids (ids ! k) = Inr k" if "k < length ids"
  proof -
    obtain j where "dense ids (ids ! k) = Inr j"
    proof (cases "dense ids (ids ! k)")
      case (Inl e)
      then show ?thesis using search(1) [of "ids ! k"] \<open>k < length ids\<close> by simp
    qed
    then show ?thesis using pos [of "ids ! k" j] assms(2) that by (auto simp: nth_eq_iff_index_eq)
  qed
qed

text \<open>The root function says which ids the pairs joined so far.\<close>

definition joins :: "node_id list \<Rightarrow> (node_id \<times> node_id) set \<Rightarrow> union_find \<Rightarrow> bool" where
  "joins ids P u \<longleftrightarrow> uf_inv (uf_parent u) \<and> length (uf_parent u) = length ids \<and>
     (\<forall>i < length ids. \<forall>j < length ids.
        root_of (uf_parent u) i = root_of (uf_parent u) j \<longleftrightarrow> (ids ! i, ids ! j) \<in> eqv P)"

lemma joins_new:
  assumes "length ids \<le> u32_max" and "distinct ids"
  shows "joins ids {} (uf_new (length ids))"
proof -
  have "root_of [0..<n] i = i" if "i < n" for i n
    using root_of_rec [of "[0..<n]" i] that by (simp add: uf_inv_def)
  then show ?thesis
    using assms by (auto simp: joins_def uf_new_def uf_inv_def eqv_def nth_eq_iff_index_eq)
qed

lemma joins_union:
  assumes "joins ids P u" and "sorted ids" and "distinct ids" and "a \<in> set ids" and "b \<in> set ids"
  shows "joins ids (insert (a, b) P) (union_pair ids (a, b) u)"
proof -
  obtain i j where ij: "i < length ids" "ids ! i = a" "j < length ids" "ids ! j = b"
    using assms(4,5) by (auto simp: in_set_conv_nth)
  have u: "union_pair ids (a, b) u = snd (uf_union u i j)"
    using dense_index(1) [OF assms(2,3)] ij by (auto simp: union_pair_def)
  let ?r = "root_of (uf_parent u)"
  have inv: "uf_inv (uf_parent u)" and len: "length (uf_parent u) = length ids"
    and eq: "\<And>i j. i < length ids \<Longrightarrow> j < length ids \<Longrightarrow> ?r i = ?r j \<longleftrightarrow> (ids ! i, ids ! j) \<in> eqv P"
    using assms(1) by (auto simp: joins_def)
  note spec = uf_union_spec [OF inv, of i j, unfolded len, OF ij(1,3)]
  have "root_of (uf_parent (snd (uf_union u i j))) x = root_of (uf_parent (snd (uf_union u i j))) y \<longleftrightarrow>
      (ids ! x, ids ! y) \<in> eqv (insert (a, b) P)" if "x < length ids" "y < length ids" for x y
  proof -
    have "root_of (uf_parent (snd (uf_union u i j))) x = root_of (uf_parent (snd (uf_union u i j))) y \<longleftrightarrow>
        ?r x = ?r y \<or> ?r x = ?r i \<and> ?r j = ?r y \<or> ?r x = ?r j \<and> ?r i = ?r y"
      unfolding spec(4) [OF that(1)] spec(4) [OF that(2)] by (auto simp: min_def)
    then show ?thesis using eq that ij by (simp only: eqv_insert)
  qed
  then show ?thesis using spec(2,3) len by (simp add: joins_def u)
qed

lemma joins_fold:
  assumes "sorted ids" and "distinct ids" and "joins ids P u"
    and "\<forall>(a, b) \<in> set pairs. a \<in> set ids \<and> b \<in> set ids"
  shows "joins ids (P \<union> set pairs) (fold (union_pair ids) pairs u)"
  using assms(3,4)
proof (induction pairs arbitrary: P u)
  case (Cons p pairs)
  obtain a b where p: "p = (a, b)" by (cases p)
  have "joins ids (insert (a, b) P) (union_pair ids (a, b) u)"
    using joins_union [OF Cons.prems(1) assms(1,2)] Cons.prems(2) by (simp add: p)
  then show ?case using Cons.IH [of "insert (a, b) P"] Cons.prems(2) by (simp add: p)
qed simp

lemma joins_find:
  assumes "joins ids P u" and "i < length ids"
  shows "joins ids P (snd (uf_find u i)) \<and> fst (uf_find u i) = root_of (uf_parent u) i \<and>
    (\<forall>j < length ids. root_of (uf_parent (snd (uf_find u i))) j = root_of (uf_parent u) j)"
  using uf_find_spec [of u i] assms by (auto simp: joins_def)

subsection \<open>The class list\<close>

definition roots :: "(nat \<Rightarrow> nat) \<Rightarrow> nat \<Rightarrow> nat list" where
  "roots r m = filter (\<lambda>i. r i = i) [0..<m]"

definition class_rows :: "node_id list \<Rightarrow> (nat \<Rightarrow> nat) \<Rightarrow> nat \<Rightarrow> (node_id \<times> node_id list) list" where
  "class_rows ids r m =
     map (\<lambda>x. (ids ! x, map ((!) ids) (filter (\<lambda>j. r j = x) [0..<m]))) (roots r m)"

lemma roots_Suc: "roots r (Suc m) = roots r m @ (if r m = m then [m] else [])"
  by (simp add: roots_def)

lemma roots_nth:
  assumes "x < m" and "r x = x"
  shows "length (roots r x) < length (roots r m) \<and> roots r m ! length (roots r x) = x"
proof -
  have "[0..<m] = [0..<x] @ [x] @ [Suc x..<m]"
    using assms(1) by (metis append_Cons append_Nil le_add1 less_imp_add_positive upt_add_eq_append
        upt_conv_Cons zero_le)
  then have "roots r m = roots r x @ [x] @ filter (\<lambda>i. r i = i) [Suc x..<m]"
    using assms(2) by (simp add: roots_def)
  then show ?thesis by simp
qed

lemma roots_distinct: "distinct (roots r m)"
  by (simp add: roots_def)

definition class_loop_inv ::
  "node_id list \<Rightarrow> (node_id \<times> node_id) set \<Rightarrow> (nat \<Rightarrow> nat) \<Rightarrow> nat \<Rightarrow> class_state \<Rightarrow> bool" where
  "class_loop_inv ids P r m st \<longleftrightarrow> (case st of (u, cor, cls, rows) \<Rightarrow>
     joins ids P u \<and> (\<forall>j < length ids. root_of (uf_parent u) j = r j) \<and>
     length cor = length ids \<and> (\<forall>x < m. r x = x \<longrightarrow> cor ! x = length (roots r x)) \<and>
     cls = map (\<lambda>i. length (roots r (r i))) [0..<m] \<and> rows = class_rows ids r m)"

lemma class_step_inv:
  assumes inv: "class_loop_inv ids P r m st" and m: "m < length ids"
    and r: "\<And>j. j < length ids \<Longrightarrow> r j \<le> j \<and> r (r j) = r j"
  shows "class_loop_inv ids P r (Suc m) (class_step (m, ids ! m) st)"
proof -
  obtain u cor cls rows where st: "st = (u, cor, cls, rows)" by (cases st)
  note i = inv [unfolded class_loop_inv_def st prod.case]
  obtain u' where u': "uf_find u m = (r m, u')" "joins ids P u'"
    "\<forall>j < length ids. root_of (uf_parent u') j = r j"
    using joins_find [of ids P u m] i m by (cases "uf_find u m") auto
  have rows: "rows = class_rows ids r m" using i by blast
  show ?thesis
  proof (cases "r m = m")
    case True
    have "r j \<noteq> m" if "j < m" for j using r [of j] m that by linarith
    then have "filter (\<lambda>j. r j = m) [0..<m] = []" by (auto simp: filter_empty_conv)
    then have "class_rows ids r (Suc m) = rows @ [(ids ! m, [ids ! m])]"
      using True unfolding rows class_rows_def roots_Suc by (auto simp: roots_def)
    moreover have "length rows = length (roots r m)" by (simp add: rows class_rows_def)
    moreover have "class_step (m, ids ! m) st =
        (u', cor[m := length rows], cls @ [length rows], rows @ [(ids ! m, [ids ! m])])"
      using True u'(1) i m by (simp add: st)
    ultimately show ?thesis
      using i u' m True
      by (auto simp: class_loop_inv_def st nth_list_update less_Suc_eq nth_append)
  next
    case False
    then have lt: "r m < m" and rr: "r (r m) = r m" using r [OF m] by auto
    let ?c = "length (roots r (r m))"
    note c = roots_nth [of "r m" m r, OF lt rr]
    have new: "class_rows ids r (Suc m) = rows[?c := (ids ! r m, snd (rows ! ?c) @ [ids ! m])]"
    proof (rule nth_equalityI)
      show "length (class_rows ids r (Suc m)) =
          length (rows[?c := (ids ! r m, snd (rows ! ?c) @ [ids ! m])])"
        using False by (simp add: rows class_rows_def roots_Suc)
      fix k assume "k < length (class_rows ids r (Suc m))"
      then have k: "k < length (roots r m)" using False by (simp add: class_rows_def roots_Suc)
      have "roots r m ! k = r m \<longleftrightarrow> k = ?c"
        using k c nth_eq_iff_index_eq [OF roots_distinct k, of ?c] by auto
      then show "class_rows ids r (Suc m) ! k =
          rows[?c := (ids ! r m, snd (rows ! ?c) @ [ids ! m])] ! k"
        using k c False by (auto simp: rows class_rows_def roots_Suc nth_list_update)
    qed
    have "cor ! r m = ?c" and "fst (rows ! ?c) = ids ! r m"
      using i lt rr c by (auto simp: rows class_rows_def)
    then have "class_step (m, ids ! m) st = (u', cor, cls @ [?c], class_rows ids r (Suc m))"
      using False u'(1) by (simp add: st new)
    then show ?thesis
      using i u' False by (auto simp: class_loop_inv_def st less_Suc_eq)
  qed
qed

lemma class_loop:
  assumes "joins ids P u" and "distinct ids"
  defines "r \<equiv> root_of (uf_parent u)"
  shows "class_loop_inv ids P r (length ids)
    (fold class_step (enumerate 0 ids) (u, replicate (length ids) 0, [], []))"
proof -
  have r: "r j \<le> j \<and> r (r j) = r j" if "j < length ids" for j
    using root_of_root [of "uf_parent u" j] assms(1) that by (simp add: joins_def r_def)
  have "class_loop_inv ids P r m
      (fold class_step (map (\<lambda>k. (k, ids ! k)) [0..<m]) (u, replicate (length ids) 0, [], []))"
    if "m \<le> length ids" for m
    using that
  proof (induction m)
    case 0
    then show ?case using assms(1) by (simp add: class_loop_inv_def r_def class_rows_def roots_def)
  next
    case (Suc m)
    then show ?case using class_step_inv [OF Suc.IH _ r] by simp
  qed
  then show ?thesis unfolding enumerate_upt by simp
qed

text \<open>The root of a set is its least index.\<close>

definition least_of :: "node_id list \<Rightarrow> (node_id \<times> node_id) set \<Rightarrow> nat \<Rightarrow> nat" where
  "least_of ids P i = (LEAST j. j < length ids \<and> (ids ! i, ids ! j) \<in> eqv P)"

lemma root_least:
  assumes "joins ids P u" and "i < length ids"
  shows "root_of (uf_parent u) i = least_of ids P i"
  unfolding least_of_def
proof (rule Least_equality [symmetric])
  let ?r = "root_of (uf_parent u)"
  have inv: "uf_inv (uf_parent u)" "length (uf_parent u) = length ids"
    and eq: "\<And>i j. i < length ids \<Longrightarrow> j < length ids \<Longrightarrow> ?r i = ?r j \<longleftrightarrow> (ids ! i, ids ! j) \<in> eqv P"
    using assms(1) by (auto simp: joins_def)
  note root = root_of_root [of "uf_parent u", OF inv(1), unfolded inv(2)]
  show "?r i < length ids \<and> (ids ! i, ids ! ?r i) \<in> eqv P"
    using root [OF assms(2)] eq [OF assms(2), of "?r i"] assms(2) by simp
  show "?r i \<le> j" if "j < length ids \<and> (ids ! i, ids ! j) \<in> eqv P" for j
    using eq [OF assms(2), of j] root [of j] that by metis
qed

definition pair_ids :: "(node_id \<times> node_id) list \<Rightarrow> node_id set" where
  "pair_ids pairs = Field (set pairs - Id)"

lemma pairs_normal:
  defines "ps pairs \<equiv> filter (\<lambda>(a, b). a \<noteq> b) pairs"
  shows "set (ps pairs) = set pairs - Id"
    and "remdups_adj (sort (concat (map (\<lambda>(a, b). [a, b]) (ps pairs)))) = sorted_list_of_set (pair_ids pairs)"
proof -
  show set: "set (ps pairs) = set pairs - Id" by (auto simp: ps_def)
  have "set (concat (map (\<lambda>(a, b). [a, b]) (ps pairs))) = pair_ids pairs"
    unfolding pair_ids_def set [symmetric] by (auto simp: Field_def)
  then show "remdups_adj (sort (concat (map (\<lambda>(a, b). [a, b]) (ps pairs)))) = sorted_list_of_set (pair_ids pairs)"
    by (simp only: sort_dedup)
qed

text \<open>\<open>from_pairs\<close> as a function of the equivalence the pairs generate.\<close>

definition classes_of :: "node_id list \<Rightarrow> (nat \<Rightarrow> nat) \<Rightarrow> classes" where
  "classes_of ids r = \<lparr>c_ids = ids, c_class = map (\<lambda>i. length (roots r (r i))) [0..<length ids],
     c_classes = class_rows ids r (length ids)\<rparr>"

lemma roots_cong: "(\<And>i. i < m \<Longrightarrow> r i = s i) \<Longrightarrow> roots r m = roots s m"
  by (auto simp: roots_def intro: filter_cong)

lemma classes_of_cong:
  assumes "\<And>i. i < length ids \<Longrightarrow> r i = s i \<and> r i \<le> i"
  shows "classes_of ids r = classes_of ids s"
proof -
  have "roots r (r i) = roots s (s i)" if "i < length ids" for i
  proof -
    have "r j = s j" if "j < r i" for j
      using assms [of i] assms [of j] that \<open>i < length ids\<close> by linarith
    then have "roots r (r i) = roots s (r i)" by (rule roots_cong)
    then show ?thesis using assms that by simp
  qed
  moreover have "filter (\<lambda>j. r j = x) [0..<length ids] = filter (\<lambda>j. s j = x) [0..<length ids]" for x
    by (rule filter_cong) (use assms in auto)
  ultimately show ?thesis
    using roots_cong [of "length ids" r s] assms by (simp add: classes_of_def class_rows_def)
qed

lemma from_pairs_capped_eq:
  assumes "cap \<le> u32_max" and "ids = sorted_list_of_set (pair_ids pairs)"
  shows "from_pairs_capped pairs cap =
    (if card (pair_ids pairs) > cap then classes_empty else classes_of ids (least_of ids (set pairs)))"
proof -
  let ?ps = "filter (\<lambda>(a, b). a \<noteq> b) pairs"
  have fin: "finite (pair_ids pairs)" by (simp add: pair_ids_def finite_Field)
  then have len: "length ids = card (pair_ids pairs)" by (simp add: assms(2))
  note ps = pairs_normal [of pairs]
  show ?thesis
  proof (cases "?ps = []")
    case True
    then have "set pairs - Id = {}" using ps(1) by simp
    then have "pair_ids pairs = {}" by (simp only: pair_ids_def Field_empty)
    then show ?thesis
      using True by (simp add: from_pairs_capped_def assms(2) classes_of_def classes_empty_def
          class_rows_def roots_def)
  next
    case ne: False
    show ?thesis
    proof (cases "length ids > cap")
      case True
      then show ?thesis using ne ps(2) len assms(2) by (simp add: from_pairs_capped_def)
    next
      case False
      define u where "u = fold (union_pair ids) ?ps (uf_new (length ids))"
      have ids: "sorted ids" "distinct ids" "set ids = pair_ids pairs"
        using fin by (simp_all add: assms(2))
      have "joins ids {} (uf_new (length ids))"
        using False assms(1) ids(2) by (intro joins_new) simp_all
      moreover have "\<forall>(a, b) \<in> set ?ps. a \<in> set ids \<and> b \<in> set ids"
        unfolding ps(1) ids(3) pair_ids_def by (auto simp: Field_def)
      ultimately have u: "joins ids (set pairs - Id) u"
        using joins_fold [OF ids(1,2), of "{}" "uf_new (length ids)" ?ps] ps(1) by (simp add: u_def)
      obtain u' cor cls rows where
        loop: "fold class_step (enumerate 0 ids) (u, replicate (length ids) 0, [], []) = (u', cor, cls, rows)"
        by (cases "fold class_step (enumerate 0 ids) (u, replicate (length ids) 0, [], [])") auto
      let ?r = "root_of (uf_parent u)"
      have "from_pairs_capped pairs cap = \<lparr>c_ids = ids, c_class = cls, c_classes = rows\<rparr>"
        using ne False ps(2) loop assms(2) by (simp add: from_pairs_capped_def u_def)
      also have "\<dots> = classes_of ids ?r"
        using class_loop [OF u ids(2)] by (simp add: loop class_loop_inv_def classes_of_def)
      also have "\<dots> = classes_of ids (least_of ids (set pairs - Id))"
        by (rule classes_of_cong)
          (use root_least [OF u] root_of_root [of "uf_parent u"] u in \<open>auto simp: joins_def\<close>)
      also have "least_of ids (set pairs - Id) = least_of ids (set pairs)"
        by (simp add: least_of_def eqv_sym_diag fun_eq_iff)
      finally show ?thesis using False len by simp
    qed
  qed
qed

definition class_set :: "(node_id \<times> node_id) list \<Rightarrow> node_id \<Rightarrow> node_id set" where
  "class_set pairs x = {y. (x, y) \<in> eqv (set pairs)}"

lemma class_set_outside: "x \<notin> pair_ids pairs \<Longrightarrow> class_set pairs x = {x}"
  using eqv_field [of x _ "set pairs - Id"] unfolding class_set_def pair_ids_def eqv_sym_diag by auto

lemma class_set_subset: "class_set pairs x \<subseteq> insert x (pair_ids pairs)"
  using eqv_field [of x _ "set pairs - Id"] unfolding class_set_def pair_ids_def eqv_sym_diag by auto

lemma finite_class_set: "finite (class_set pairs x)"
  by (rule finite_subset [OF class_set_subset]) (simp add: pair_ids_def finite_Field)

lemma least_of_spec:
  assumes "i < length ids"
  shows "least_of ids P i \<le> i \<and> (ids ! i, ids ! least_of ids P i) \<in> eqv P"
    and "j < length ids \<Longrightarrow> (ids ! i, ids ! j) \<in> eqv P \<Longrightarrow> least_of ids P i \<le> j"
    and "j < length ids \<Longrightarrow> least_of ids P i = least_of ids P j \<longleftrightarrow> (ids ! i, ids ! j) \<in> eqv P"
proof -
  have self: "k < length ids \<and> (ids ! k, ids ! k) \<in> eqv P" if "k < length ids" for k using that by simp
  note least = LeastI [where P = "\<lambda>j. j < length ids \<and> (ids ! i, ids ! j) \<in> eqv P" for i, OF self,
      folded least_of_def]
  show i: "least_of ids P i \<le> i \<and> (ids ! i, ids ! least_of ids P i) \<in> eqv P"
    using least [OF assms] Least_le [where P = "\<lambda>j. j < length ids \<and> (ids ! i, ids ! j) \<in> eqv P", OF self [OF assms]]
    by (simp add: least_of_def)
  show "j < length ids \<Longrightarrow> (ids ! i, ids ! j) \<in> eqv P \<Longrightarrow> least_of ids P i \<le> j"
    unfolding least_of_def by (rule Least_le) simp
  assume j: "j < length ids"
  show "least_of ids P i = least_of ids P j \<longleftrightarrow> (ids ! i, ids ! j) \<in> eqv P"
  proof
    assume "least_of ids P i = least_of ids P j"
    then show "(ids ! i, ids ! j) \<in> eqv P"
      using least [OF assms] least [OF j] eqv_trans eqv_sym by metis
  next
    assume eq: "(ids ! i, ids ! j) \<in> eqv P"
    have "(ids ! i, y) \<in> eqv P \<longleftrightarrow> (ids ! j, y) \<in> eqv P" for y
      using eq eqv_trans eqv_sym by metis
    then show "least_of ids P i = least_of ids P j" by (simp only: least_of_def)
  qed
qed

lemma from_pairs_lookup:
  assumes "card (pair_ids pairs) \<le> u32_max"
  shows "class_rep (from_pairs pairs) x = Min (class_set pairs x)"
    and "class_of (from_pairs pairs) x =
      (if x \<in> pair_ids pairs then Some (sorted_list_of_set (class_set pairs x)) else None)"
proof -
  define ids where "ids = sorted_list_of_set (pair_ids pairs)"
  define r where "r = least_of ids (set pairs)"
  have fin: "finite (pair_ids pairs)" by (simp add: pair_ids_def finite_Field)
  have ids: "sorted ids" "distinct ids" "set ids = pair_ids pairs" using fin by (simp_all add: ids_def)
  have c: "from_pairs pairs = classes_of ids r"
    using from_pairs_capped_eq [OF order_refl ids_def] assms by (simp add: from_pairs_def r_def)
  note d = dense_index [OF ids(1,2)]
  have "class_rep (from_pairs pairs) x = Min (class_set pairs x) \<and>
    class_of (from_pairs pairs) x =
      (if x \<in> pair_ids pairs then Some (sorted_list_of_set (class_set pairs x)) else None)"
  proof (cases "x \<in> pair_ids pairs")
    case False
    then obtain e where "dense ids x = Inl e" using d(2) ids(3) by blast
    then show ?thesis using False class_set_outside [OF False]
      by (simp add: c class_rep_def class_of_def classes_of_def)
  next
    case True
    then obtain k where k: "k < length ids" "ids ! k = x" unfolding ids(3) [symmetric] in_set_conv_nth by blast
    note least = least_of_spec [OF k(1), where P = "set pairs", folded r_def, unfolded k(2)]
    have rk: "r k < length ids" "r (r k) = r k"
      using least(1) k(1) least(3) [of "r k"] by auto
    have members: "class_set pairs x \<subseteq> set ids"
      using class_set_subset [of pairs x] True ids(3) by auto
    have row: "class_rows ids r (length ids) ! length (roots r (r k)) =
        (ids ! r k, map ((!) ids) (filter (\<lambda>j. r j = r k) [0..<length ids]))"
      using roots_nth [of "r k" "length ids" r] rk by (simp add: class_rows_def)
    have "ids ! r k = Min (class_set pairs x)"
    proof (rule Min_eqI [symmetric, OF finite_class_set])
      show "ids ! r k \<in> class_set pairs x" using least(1) by (simp add: class_set_def)
      fix y assume y: "y \<in> class_set pairs x"
      then have "y \<in> set ids" using members by blast
      then obtain j where "j < length ids" "ids ! j = y" unfolding in_set_conv_nth by blast
      then show "ids ! r k \<le> y"
        using least(2) [of j] y ids(1) by (auto simp: class_set_def sorted_iff_nth_mono)
    qed
    moreover have "map ((!) ids) (filter (\<lambda>j. r j = r k) [0..<length ids]) = sorted_list_of_set (class_set pairs x)"
    proof (rule sorted_distinct_set_unique)
      have "sorted_wrt (\<le>) (filter (\<lambda>j. r j = r k) [0..<length ids])"
        by (rule sorted_wrt_filter) simp
      then show "sorted (map ((!) ids) (filter (\<lambda>j. r j = r k) [0..<length ids]))"
        unfolding sorted_wrt_map
        by (rule sorted_wrt_mono_rel [rotated]) (use ids(1) in \<open>auto simp: sorted_iff_nth_mono\<close>)
      show "distinct (map ((!) ids) (filter (\<lambda>j. r j = r k) [0..<length ids]))"
        using ids(2) by (auto simp: distinct_map inj_on_def nth_eq_iff_index_eq)
      show "set (map ((!) ids) (filter (\<lambda>j. r j = r k) [0..<length ids])) =
          set (sorted_list_of_set (class_set pairs x))"
      proof -
        have "set (map ((!) ids) (filter (\<lambda>j. r j = r k) [0..<length ids])) =
            (!) ids ` {j. j < length ids \<and> (x, ids ! j) \<in> eqv (set pairs)}"
        proof -
          have "r j = r k \<longleftrightarrow> (x, ids ! j) \<in> eqv (set pairs)" if "j < length ids" for j
            using least(3) [OF that] by (simp only: eq_commute)
          then have "set (filter (\<lambda>j. r j = r k) [0..<length ids]) =
              {j. j < length ids \<and> (x, ids ! j) \<in> eqv (set pairs)}" by auto
          then show ?thesis by (simp only: set_map)
        qed
        also have "\<dots> = {y \<in> set ids. (x, y) \<in> eqv (set pairs)}"
          by (auto simp: in_set_conv_nth)
        also have "\<dots> = class_set pairs x" using members by (auto simp: class_set_def)
        finally show ?thesis using finite_class_set by simp
      qed
    qed (simp_all add: finite_class_set)
    ultimately show ?thesis
      using True d(1) [OF k(1)] k row by (simp add: c class_rep_def class_of_def classes_of_def)
  qed
  then show "class_rep (from_pairs pairs) x = Min (class_set pairs x)"
    "class_of (from_pairs pairs) x =
      (if x \<in> pair_ids pairs then Some (sorted_list_of_set (class_set pairs x)) else None)" by auto
qed

subsection \<open>First occurrences and the quotient\<close>

lemma sorted_lex:
  assumes "sorted (map f xs)" and "\<And>k. sorted_wrt (<) (filter (\<lambda>x. f x = k) xs)"
  shows "sorted_wrt (\<lambda>i j. f i < f j \<or> f i = f j \<and> i < j) (xs :: nat list)"
  using assms
proof (induction xs)
  case (Cons a xs)
  have "sorted_wrt (<) (filter (\<lambda>x. f x = k) xs)" for k
    using Cons.prems(2) [of k] by (cases "f a = k") auto
  moreover have "a < b" if "b \<in> set xs" "f a = f b" for b
    using Cons.prems(2) [of "f a"] that by auto
  moreover have "f a \<le> f b" if "b \<in> set xs" for b using Cons.prems(1) that by simp
  ultimately show ?case using Cons.IH Cons.prems(1) by (auto simp: order.order_iff_strict)
qed simp

lemma mark_first_fold:
  assumes "sorted_wrt (\<lambda>i j. ids ! i < ids ! j \<or> ids ! i = ids ! j \<and> i < j) order"
    and "\<forall>i \<in> set order. i < length keep \<and> (\<forall>v. prev = Some v \<longrightarrow> v \<le> ids ! i)"
    and "i < length keep"
  shows "length (fst (fold (mark_first ids) order (keep, prev))) = length keep \<and>
    (fst (fold (mark_first ids) order (keep, prev)) ! i \<longleftrightarrow>
      keep ! i \<or> i \<in> set order \<and> prev \<noteq> Some (ids ! i) \<and> (\<forall>j \<in> set order. ids ! j = ids ! i \<longrightarrow> i \<le> j))"
  using assms
proof (induction order arbitrary: keep prev)
  case (Cons a order)
  have above: "ids ! a < ids ! b \<or> ids ! a = ids ! b \<and> a < b" if "b \<in> set order" for b
    using Cons.prems(1) that by simp
  have sorted: "sorted_wrt (\<lambda>i j. ids ! i < ids ! j \<or> ids ! i = ids ! j \<and> i < j) order"
    using Cons.prems(1) by simp
  have "a \<notin> set order" using above by blast
  show ?case
  proof (cases "prev = Some (ids ! a)")
    case True
    then have "fst (fold (mark_first ids) (a # order) (keep, prev)) = fst (fold (mark_first ids) order (keep, prev))"
      by simp
    moreover have "\<forall>b \<in> set order. b < length keep \<and> (\<forall>v. prev = Some v \<longrightarrow> v \<le> ids ! b)"
      using Cons.prems(2) by simp
    ultimately show ?thesis
      using Cons.IH [OF sorted _ Cons.prems(3), of prev] True above by auto
  next
    case False
    then have step: "fst (fold (mark_first ids) (a # order) (keep, prev)) =
        fst (fold (mark_first ids) order (keep[a := True], Some (ids ! a)))" by simp
    have range: "\<forall>b \<in> set order. b < length (keep[a := True]) \<and> (\<forall>v. Some (ids ! a) = Some v \<longrightarrow> v \<le> ids ! b)"
      using Cons.prems(2) above by (auto dest!: above)
    have i: "i < length (keep[a := True])" using Cons.prems(3) by simp
    have a: "a < length keep" using Cons.prems(2) by simp
    have "keep[a := True] ! i \<or> i \<in> set order \<and> Some (ids ! a) \<noteq> Some (ids ! i) \<and>
        (\<forall>j \<in> set order. ids ! j = ids ! i \<longrightarrow> i \<le> j) \<longleftrightarrow>
      keep ! i \<or> i \<in> set (a # order) \<and> prev \<noteq> Some (ids ! i) \<and>
        (\<forall>j \<in> set (a # order). ids ! j = ids ! i \<longrightarrow> i \<le> j)"
    proof (cases "i = a")
      case True
      moreover have "a \<le> j" if "j \<in> set order" "ids ! j = ids ! a" for j
        using above [OF that(1)] that(2) by simp
      ultimately show ?thesis using False a by auto
    next
      case ne: False
      have "prev \<noteq> Some (ids ! i)" if "i \<in> set order" "ids ! a \<noteq> ids ! i"
        using above [OF that(1)] that(2) Cons.prems(2) by auto
      moreover have "a < i" if "i \<in> set order" "ids ! a = ids ! i" using above [OF that(1)] that(2) by simp
      ultimately show ?thesis using ne by auto
    qed
    then show ?thesis using Cons.IH [OF sorted range i] by (simp only: step) simp
  qed
qed simp

lemma zip_first_occ:
  assumes "length keep = length ids" and "\<And>i. i < length ids \<Longrightarrow> keep ! i \<longleftrightarrow> ids ! i \<notin> set (take i ids)"
  shows "map fst (filter snd (zip ids keep)) = first_occ ids"
  using assms
proof (induction ids arbitrary: keep rule: rev_induct)
  case (snoc x ids)
  obtain ks k where keep: "keep = ks @ [k]" "length ks = length ids"
    using snoc.prems(1) by (cases keep rule: rev_cases) auto
  have "ks ! i \<longleftrightarrow> ids ! i \<notin> set (take i ids)" if "i < length ids" for i
    using snoc.prems(2) [of i] that keep by (simp add: nth_append)
  then have "map fst (filter snd (zip ids ks)) = first_occ ids" by (rule snoc.IH [OF keep(2)])
  moreover have "k \<longleftrightarrow> x \<notin> set ids" using snoc.prems(2) [of "length ids"] keep by (simp add: nth_append)
  ultimately show ?case using keep by (simp add: first_occ_snoc)
qed simp

lemma first_occurrences_eq: "first_occurrences ids = first_occ ids"
proof -
  define order where "order = sort_key (\<lambda>i. ids ! i) [0..<length ids]"
  have "sorted (map (\<lambda>i. ids ! i) order)" by (simp add: order_def)
  moreover have "filter (\<lambda>i. ids ! i = k) order = filter (\<lambda>i. ids ! i = k) [0..<length ids]" for k
    unfolding order_def by (rule sort_key_stable)
  then have "sorted_wrt (<) (filter (\<lambda>i. ids ! i = k) order)" for k
    by (simp add: sorted_wrt_filter)
  ultimately have sorted: "sorted_wrt (\<lambda>i j. ids ! i < ids ! j \<or> ids ! i = ids ! j \<and> i < j) order"
    by (rule sorted_lex)
  define keep where "keep = fst (fold (mark_first ids) order (replicate (length ids) False, None))"
  have set: "set order = {..<length ids}" by (auto simp: order_def)
  note marks = mark_first_fold [OF sorted, of "replicate (length ids) False" None, folded keep_def,
      unfolded set]
  have "keep ! i \<longleftrightarrow> ids ! i \<notin> set (take i ids)" if "i < length ids" for i
  proof -
    have "(\<forall>j \<in> {..<length ids}. ids ! j = ids ! i \<longrightarrow> i \<le> j) \<longleftrightarrow> ids ! i \<notin> set (take i ids)"
      using that by (auto simp: in_set_conv_nth) (metis not_less order_less_trans)
    then show ?thesis using marks [of i] that by simp
  qed
  moreover have "length keep = length ids"
    by (cases "ids = []") (use marks [of 0] in \<open>auto simp: keep_def order_def\<close>)
  ultimately show ?thesis
    using zip_first_occ [of keep ids]
    by (simp add: first_occurrences_def case_prod_beta flip: order_def keep_def)
qed

definition collapses :: "classes \<Rightarrow> edge \<Rightarrow> bool" where
  "collapses c e \<longleftrightarrow> same_class c (efrom e) (eto e) \<and> efrom e \<noteq> eto e"

definition contract :: "classes \<Rightarrow> edge \<Rightarrow> edge" where
  "contract c e = edge_new (class_rep c (efrom e)) (class_rep c (eto e)) (ecategory e) (econfidence e)"

lemma quotient_fold:
  "fold (quotient_edge c) es (edges, n) =
     (edges @ map (contract c) (filter (\<lambda>e. \<not> collapses c e) es), n + length (filter (collapses c) es))"
  by (induction es arbitrary: edges n) (auto simp: collapses_def same_class_def contract_def)

lemma quotient_parts:
  "q_nodes (quotient_new g c) = first_occ (map (class_rep c) (g_nodes g))"
  "q_edges (quotient_new g c) = map (contract c) (filter (\<lambda>e. \<not> collapses c e) (g_edges g))"
  "q_collapsed (quotient_new g c) = length (filter (collapses c) (g_edges g))"
  by (simp_all add: quotient_new_def quotient_fold first_occurrences_eq)

definition edge_rel :: "edge list \<Rightarrow> (node_id \<times> node_id) set" where
  "edge_rel es = (\<lambda>e. (efrom e, eto e)) ` set es"

lemma quotient_walk:
  "(class_rep c a, class_rep c b) \<in> (edge_rel (q_edges (quotient_new g c)))\<^sup>* \<longleftrightarrow>
   (a, b) \<in> (edge_rel (g_edges g) \<union> {(x, y). same_class c x y})\<^sup>*"
  (is "?q \<longleftrightarrow> (a, b) \<in> ?R\<^sup>*")
proof -
  let ?Q = "edge_rel (q_edges (quotient_new g c))"
  have Q: "(x, y) \<in> ?Q \<longleftrightarrow> (\<exists>e \<in> set (g_edges g). \<not> collapses c e \<and>
      x = class_rep c (efrom e) \<and> y = class_rep c (eto e))" for x y
  proof -
    have "?Q = (\<lambda>e. (class_rep c (efrom e), class_rep c (eto e))) ` {e \<in> set (g_edges g). \<not> collapses c e}"
      unfolding edge_rel_def quotient_parts by (simp add: contract_def edge_new_def image_image)
    then show ?thesis by blast
  qed
  show ?thesis
  proof
    have "(a, b) \<in> ?R\<^sup>*" if "(x, y) \<in> ?Q\<^sup>*" "x = class_rep c a" "y = class_rep c b" for x y b
      using that(1,3)
    proof (induction arbitrary: b rule: rtrancl_induct)
      case base
      then show ?case using that(2) by (auto simp: same_class_def)
    next
      case (step y z)
      then obtain e where e: "e \<in> set (g_edges g)" "y = class_rep c (efrom e)" "z = class_rep c (eto e)"
        using Q by blast
      then have "(a, efrom e) \<in> ?R\<^sup>*" using step.IH by simp
      moreover have "(efrom e, eto e) \<in> ?R" using e(1) by (auto simp: edge_rel_def)
      moreover have "(eto e, b) \<in> ?R" using e(3) step.prems by (simp add: same_class_def)
      ultimately show ?case by (meson rtrancl.rtrancl_into_rtrancl)
    qed
    then show "?q \<Longrightarrow> (a, b) \<in> ?R\<^sup>*" by blast
  next
    show "(a, b) \<in> ?R\<^sup>* \<Longrightarrow> ?q"
    proof (induction rule: rtrancl_induct)
      case (step y z)
      then consider e where "e \<in> set (g_edges g)" "y = efrom e" "z = eto e" | "same_class c y z"
        by (auto simp: edge_rel_def)
      then show ?case
      proof cases
        case 1
        show ?thesis
        proof (cases "collapses c e")
          case True
          then show ?thesis using 1 step.IH by (simp add: collapses_def same_class_def)
        next
          case False
          then have "(class_rep c y, class_rep c z) \<in> ?Q" using 1 Q by blast
          then show ?thesis using step.IH by (rule rtrancl_into_rtrancl [rotated])
        qed
      next
        case 2
        then show ?thesis using step.IH by (simp add: same_class_def)
      qed
    qed simp
  qed
qed

subsection \<open>Properties\<close>

text \<open>
  C16: union and find. On an array whose entries point at or below themselves, \<open>union\<close> returns
  the smaller of the two roots, keeps the array's invariant and length, and merges exactly the
  two sets: every index of either now has that root, and no other root changes.
\<close>

theorem union_merges_sets:
  assumes "uf_inv (uf_parent u)" and "a < uf_len u" and "b < uf_len u"
  shows "let ra = fst (uf_find u a); rb = fst (uf_find u b); (lo, u') = uf_union u a b
    in lo = min ra rb \<and> uf_inv (uf_parent u') \<and> uf_len u' = uf_len u \<and>
       (\<forall>i < uf_len u. fst (uf_find u' i) =
          (if fst (uf_find u i) = ra \<or> fst (uf_find u i) = rb then lo else fst (uf_find u i)))"
proof -
  have len: "a < length (uf_parent u)" "b < length (uf_parent u)" using assms(2,3) by (simp_all add: uf_len_def)
  note find = uf_find_spec(1) [OF assms(1)]
  note union = uf_union_spec [OF assms(1) len]
  obtain lo u' where u': "uf_union u a b = (lo, u')" by (cases "uf_union u a b")
  have "fst (uf_find u' i) = root_of (uf_parent u') i" if "i < length (uf_parent u)" for i
    using uf_find_spec(1) [of u' i] union(2,3) that u' by simp
  then show ?thesis using union u' find len by (simp add: uf_len_def)
qed

theorem union_merges_sets_witness:
  "uf_inv (uf_parent \<lparr>uf_parent = [0, 0, 2]\<rparr>) \<and>
   fst (uf_find (snd (uf_union \<lparr>uf_parent = [0, 0, 2]\<rparr> 2 1)) 2) = 0"
proof -
  have inv: "uf_inv (uf_parent \<lparr>uf_parent = [0, 0, 2]\<rparr>)"
    by (auto simp: uf_inv_def less_Suc_eq numeral_2_eq_2)
  have "fst (uf_find \<lparr>uf_parent = [0, 0, 2]\<rparr> 2) = 2" "fst (uf_find \<lparr>uf_parent = [0, 0, 2]\<rparr> 1) = 0"
    by (simp_all add: uf_find_def)
  then show ?thesis
    using union_merges_sets [OF inv, of 2 1] inv by (simp add: uf_len_def case_prod_beta)
qed

text \<open>
  C17: an id's class is its class under the equivalence the pairs generate: the representative is
  the smallest member, the members come in ascending order, and an id that no pair joins to
  another is in no class.
\<close>

theorem from_pairs_equivalence:
  assumes "card (Field (set pairs - Id)) \<le> u32_max"
  shows "class_rep (from_pairs pairs) x = Min {y. (x, y) \<in> (set pairs \<union> (set pairs)\<inverse>)\<^sup>*} \<and>
    class_of (from_pairs pairs) x =
      (if x \<in> Field (set pairs - Id)
       then Some (sorted_list_of_set {y. (x, y) \<in> (set pairs \<union> (set pairs)\<inverse>)\<^sup>*}) else None)"
  using from_pairs_lookup [of pairs x] assms by (simp add: pair_ids_def class_set_def eqv_def)

theorem from_pairs_equivalence_witness:
  "card (Field (set [(7, 3), (3, 9)] - Id) :: node_id set) \<le> u32_max \<and>
   class_rep (from_pairs [(7, 3), (3, 9)]) 5 = 5"
proof -
  have fin: "card (Field (set [(7, 3), (3, 9)] - Id) :: node_id set) \<le> u32_max"
  proof -
    have "Field (set [(7, 3), (3, 9)] - Id) \<subseteq> {3, 7, 9 :: node_id}" by (auto simp: Field_def)
    then have "card (Field (set [(7, 3), (3, 9)] - Id) :: node_id set) \<le> card {3, 7, 9 :: node_id}"
      by (rule card_mono [rotated]) simp
    also have "\<dots> \<le> 3" by (simp add: card_insert_if)
    finally show ?thesis by (simp add: u32_max_def)
  qed
  have "class_set [(7, 3), (3, 9)] 5 = {5}"
    by (rule class_set_outside) (auto simp: pair_ids_def Field_def)
  then show ?thesis
    using from_pairs_equivalence [OF fin, of 5] fin by (simp add: class_set_def eqv_def)
qed

text \<open>
  C18: the classes depend only on the set of pairs: not on their order, on repeats, on the order
  within a pair, nor on pairs of an id with itself.
\<close>

theorem from_pairs_order_independent:
  assumes "set ps \<union> (set ps)\<inverse> - Id = set qs \<union> (set qs)\<inverse> - Id"
  shows "from_pairs ps = from_pairs qs"
proof -
  have field: "pair_ids pairs = Field (set pairs \<union> (set pairs)\<inverse> - Id)" for pairs
    by (auto simp: pair_ids_def Field_def)
  have "eqv (set ps) = eqv (set qs)"
    using eqv_sym_diag(1) [of "set ps \<union> (set ps)\<inverse>"] eqv_sym_diag(1) [of "set qs \<union> (set qs)\<inverse>"]
    unfolding eqv_sym_diag(2) assms by simp
  moreover have "pair_ids ps = pair_ids qs" unfolding field assms ..
  ultimately show ?thesis
    using from_pairs_capped_eq [OF order_refl refl]
    by (simp add: from_pairs_def least_of_def [abs_def])
qed

theorem from_pairs_order_independent_witness:
  "from_pairs [(1, 2), (3, 3), (2, 4)] = from_pairs [(4, 2), (2, 1), (1, 2)]"
  by (rule from_pairs_order_independent) auto

text \<open>
  C19: the quotient view. Its nodes are the representatives at first occurrence; its edges are the
  edges in order under their representatives, except the edges inside a class, which are counted;
  and a walk over it goes from one class to another exactly when the original edges, crossing
  classes at no cost, connect the two ids.
\<close>

theorem quotient_contracts_classes:
  "q_nodes (quotient_new g c) = first_occ (map (class_rep c) (g_nodes g)) \<and>
   q_edges (quotient_new g c) =
     map (\<lambda>e. edge_new (class_rep c (efrom e)) (class_rep c (eto e)) (ecategory e) (econfidence e))
       (filter (\<lambda>e. \<not> (same_class c (efrom e) (eto e) \<and> efrom e \<noteq> eto e)) (g_edges g)) \<and>
   q_collapsed (quotient_new g c) =
     length (filter (\<lambda>e. same_class c (efrom e) (eto e) \<and> efrom e \<noteq> eto e) (g_edges g)) \<and>
   ((class_rep c a, class_rep c b) \<in> (edge_rel (q_edges (quotient_new g c)))\<^sup>* \<longleftrightarrow>
    (a, b) \<in> (edge_rel (g_edges g) \<union> {(x, y). same_class c x y})\<^sup>*)"
  using quotient_walk [of c a b g] quotient_parts [of g c]
  unfolding collapses_def [abs_def] contract_def [abs_def] by blast

end
