(* ===== verification/OrdMap.thy ===== *)
theory OrdMap
  imports Prelude
begin

text \<open>
  The standard library's \<open>BTreeMap\<close> as its callers see it: an association list in strictly
  ascending key order. The contract (\<open>ordered_map\<close>) is what the delta, timeline and rule
  components rely on; the list implementation is shown to meet it.
\<close>

type_synonym ('k, 'v) btree = "('k \<times> 'v) list"

definition bt_get :: "('k, 'v) btree \<Rightarrow> 'k \<Rightarrow> 'v option" where
  "bt_get m k = map_of m k"

fun bt_insert :: "'k::linorder \<Rightarrow> 'v \<Rightarrow> ('k, 'v) btree \<Rightarrow> ('k, 'v) btree" where
  "bt_insert k v [] = [(k, v)]"
| "bt_insert k v ((a, w) # m) =
     (if k < a then (k, v) # (a, w) # m
      else if k = a then (k, v) # m
      else (a, w) # bt_insert k v m)"

definition bt_remove :: "'k \<Rightarrow> ('k, 'v) btree \<Rightarrow> ('k, 'v) btree" where
  "bt_remove k m = filter (\<lambda>p. fst p \<noteq> k) m"

definition bt_keys :: "('k, 'v) btree \<Rightarrow> 'k list" where
  "bt_keys m = map fst m"

definition bt_map :: "('k \<Rightarrow> 'v \<Rightarrow> 'w) \<Rightarrow> ('k, 'v) btree \<Rightarrow> ('k, 'w) btree" where
  "bt_map f m = map (\<lambda>p. (fst p, f (fst p) (snd p))) m"

text \<open>\<open>collect\<close> into a map: later entries replace earlier ones.\<close>

definition bt_collect :: "('k::linorder \<times> 'v) list \<Rightarrow> ('k, 'v) btree" where
  "bt_collect xs = fold (\<lambda>(k, v). bt_insert k v) xs []"

definition bt_ok :: "('k::linorder, 'v) btree \<Rightarrow> bool" where
  "bt_ok m \<longleftrightarrow> sorted_wrt (<) (map fst m)"

subsection \<open>The contract\<close>

locale ordered_map =
  fixes get :: "'m \<Rightarrow> 'k::linorder \<Rightarrow> 'v option"
    and put :: "'k \<Rightarrow> 'v \<Rightarrow> 'm \<Rightarrow> 'm"
    and del :: "'k \<Rightarrow> 'm \<Rightarrow> 'm"
    and entries :: "'m \<Rightarrow> ('k \<times> 'v) list"
    and ok :: "'m \<Rightarrow> bool"
  assumes put_ok: "ok m \<Longrightarrow> ok (put k v m)"
    and del_ok: "ok m \<Longrightarrow> ok (del k m)"
    and get_put: "ok m \<Longrightarrow> get (put k v m) = (get m)(k \<mapsto> v)"
    and get_del: "ok m \<Longrightarrow> get (del k m) = (get m)(k := None)"
    and entries_sorted: "ok m \<Longrightarrow> sorted_wrt (<) (map fst (entries m))"
    and entries_get: "ok m \<Longrightarrow> (k, v) \<in> set (entries m) \<longleftrightarrow> get m k = Some v"
begin

lemma entries_keys: "ok m \<Longrightarrow> set (map fst (entries m)) = dom (get m)"
  using entries_get [of m] by (force simp: dom_def)

lemma finite_dom: "ok m \<Longrightarrow> finite (dom (get m))"
  using entries_keys [of m] by (metis finite_set)

lemma keys_sorted_list: "ok m \<Longrightarrow> map fst (entries m) = sorted_list_of_set (dom (get m))"
  using entries_sorted [of m] entries_keys [of m]
  by (metis sorted_list_of_set.idem_if_sorted_distinct strict_sorted_iff)

lemma entries_eq: "ok m \<Longrightarrow> entries m = map (\<lambda>k. (k, the (get m k))) (sorted_list_of_set (dom (get m)))"
proof -
  assume ok: "ok m"
  have "map (\<lambda>p. (fst p, the (get m (fst p)))) (entries m) = entries m"
    by (rule map_idI) (use entries_get [OF ok] in auto)
  then show ?thesis unfolding keys_sorted_list [OF ok, symmetric] by (simp add: o_def)
qed

lemma entries_ext: "ok m \<Longrightarrow> ok n \<Longrightarrow> get m = get n \<Longrightarrow> entries m = entries n"
  using entries_eq by metis

lemma fold_put_ok: "ok m \<Longrightarrow> ok (fold (\<lambda>(k, v). put k v) xs m)"
  by (induction xs arbitrary: m) (auto simp: put_ok)

lemma fold_put_get: "ok m \<Longrightarrow> get (fold (\<lambda>(k, v). put k v) xs m) = get m ++ map_of (rev xs)"
proof (induction xs arbitrary: m)
  case (Cons x xs)
  obtain k v where x: "x = (k, v)" by (cases x)
  show ?case using Cons.IH [OF put_ok [OF Cons.prems]] Cons.prems
    by (simp add: x get_put map_add_upd_left map_add_assoc [symmetric]) (simp add: map_add_def fun_eq_iff split: option.splits)
qed simp

lemma fold_del_ok: "ok m \<Longrightarrow> ok (fold del ks m)"
  by (induction ks arbitrary: m) (auto simp: del_ok)

lemma fold_del_get: "ok m \<Longrightarrow> get (fold del ks m) = get m |` (- set ks)"
proof (induction ks arbitrary: m)
  case (Cons k ks)
  show ?case using Cons.IH [OF del_ok [OF Cons.prems]] Cons.prems
    by (simp add: get_del) (auto simp: restrict_map_def fun_eq_iff)
qed (simp add: restrict_map_def)

end

subsection \<open>The list meets it\<close>

lemma set_keys_bt_insert [simp]: "set (map fst (bt_insert k v m)) = insert k (set (map fst m))"
proof (induction m)
  case (Cons p m)
  then show ?case by (cases p) (simp add: insert_commute)
qed simp

lemma fst_bt_insert [simp]: "fst ` set (bt_insert k v m) = insert k (fst ` set m)"
  using set_keys_bt_insert [of k v m] by simp

lemma bt_ok_simps [simp]: "bt_ok []" "bt_ok ((k, v) # m) \<longleftrightarrow> (\<forall>a \<in> fst ` set m. k < a) \<and> bt_ok m"
  by (auto simp: bt_ok_def)

lemma bt_insert_ok: "bt_ok m \<Longrightarrow> bt_ok (bt_insert k v m)"
proof (induction m)
  case (Cons p m)
  then show ?case by (cases p; cases rule: linorder_cases [of k "fst p"]) (auto intro: less_trans)
qed simp

lemma bt_get_insert: "bt_ok m \<Longrightarrow> bt_get (bt_insert k v m) = (bt_get m)(k \<mapsto> v)"
  unfolding bt_get_def by (induction m) (auto simp: fun_eq_iff)

lemma bt_remove_ok: "bt_ok m \<Longrightarrow> bt_ok (bt_remove k m)"
  by (auto simp: bt_ok_def bt_remove_def sorted_wrt_map intro: sorted_wrt_filter)

lemma bt_get_remove: "bt_get (bt_remove k m) = (bt_get m)(k := None)"
  unfolding bt_get_def bt_remove_def by (induction m) (auto simp: fun_eq_iff)

lemma bt_ok_distinct: "bt_ok m \<Longrightarrow> distinct (map fst m)"
  by (simp add: bt_ok_def strict_sorted_iff)

interpretation bt: ordered_map bt_get bt_insert bt_remove "\<lambda>m. m" bt_ok
proof (unfold_locales, goal_cases)
  case (5 m)
  then show ?case by (simp add: bt_ok_def)
next
  case (6 m k v)
  then show ?case using map_of_eq_Some_iff [OF bt_ok_distinct [OF 6]] by (simp add: bt_get_def)
qed (simp_all add: bt_insert_ok bt_remove_ok bt_get_insert bt_get_remove)

lemma bt_collect_ok: "bt_ok (bt_collect xs)"
  unfolding bt_collect_def by (rule bt.fold_put_ok) simp

lemma bt_get_collect: "bt_get (bt_collect xs) = map_of (rev xs)"
  unfolding bt_collect_def using bt.fold_put_get [of "[]" xs] by (simp add: bt_get_def [abs_def])

lemma bt_map_ok [simp]: "bt_ok (bt_map f m) \<longleftrightarrow> bt_ok m"
  by (simp add: bt_ok_def bt_map_def o_def)

lemma bt_get_map: "bt_get (bt_map f m) k = map_option (f k) (bt_get m k)"
  unfolding bt_get_def bt_map_def by (induction m) auto

lemma bt_get_Nil [simp]: "bt_get [] k = None"
  by (simp add: bt_get_def)

lemma dom_bt_get: "dom (bt_get m) = fst ` set m"
  by (simp add: bt_get_def [abs_def] dom_map_of_conv_image_fst)

end
