(* ===== verification/Delta.thy ===== *)
theory Delta
  imports OrdMap CoreGraph
begin

text \<open>
  The graph delta, \<open>activation/src/algo/delta.rs\<close>: what changed between two snapshots, with
  moved nodes carried from their old id to their new one. The move map it applies is injective
  on every id the before side names (\<open>accept_moves\<close>), so applying the delta to the before
  side gives exactly the node set and the edge keys of the after side.
\<close>

subsection \<open>Records\<close>

text \<open>\<open>EdgeKey\<close>, ordered by its raw \<open>(from, to, category)\<close>.\<close>

datatype edgekey = EdgeKey (k_from: node_id) (k_to: node_id) (k_category: category)

definition edgekey_tuple :: "edgekey \<Rightarrow> node_id \<times> node_id \<times> category" where
  "edgekey_tuple k = (k_from k, k_to k, k_category k)"

lemma edgekey_tuple_inject [simp]: "edgekey_tuple a = edgekey_tuple b \<longleftrightarrow> a = b"
  by (cases a; cases b) (simp add: edgekey_tuple_def)

instantiation edgekey :: linorder
begin

definition less_eq_edgekey :: "edgekey \<Rightarrow> edgekey \<Rightarrow> bool" where
  "less_eq_edgekey a b \<longleftrightarrow> edgekey_tuple a \<le> edgekey_tuple b"

definition less_edgekey :: "edgekey \<Rightarrow> edgekey \<Rightarrow> bool" where
  "less_edgekey a b \<longleftrightarrow> edgekey_tuple a < edgekey_tuple b"

instance
proof
  show "\<And>x y :: edgekey. x \<le> y \<Longrightarrow> y \<le> x \<Longrightarrow> x = y"
    unfolding less_eq_edgekey_def by (metis antisym edgekey_tuple_inject)
qed (unfold less_eq_edgekey_def less_edgekey_def, auto simp: less_le_not_le)

end

fun key_of_edge :: "edge \<Rightarrow> edgekey" where
  "key_of_edge e = EdgeKey (efrom e) (eto e) (ecategory e)"

record delta_side =
  ds_nodes :: "node list"
  ds_edges :: "edge list"

definition delta_side_empty :: delta_side where
  "delta_side_empty = \<lparr>ds_nodes = [], ds_edges = []\<rparr>"

type_synonym edge_cell_key = "cell_payload \<Rightarrow> byte list option"

fun whole_payload :: edge_cell_key where
  "whole_payload (Text s) = Some (as_bytes s)"
| "whole_payload (Json s) = Some (as_bytes s)"
| "whole_payload (Bytes b) = Some b"

record delta_options =
  do_content_cells :: "cell_kind list"
  do_moves :: "(node_id \<times> node_id) list"
  do_edge_cell :: "cell_kind option"
  do_edge_cell_key :: "edge_cell_key option"

definition delta_options_default :: delta_options where
  "delta_options_default =
     \<lparr>do_content_cells = [], do_moves = [], do_edge_cell = None, do_edge_cell_key = None\<rparr>"

record graph_delta_rows =
  d_added_nodes :: "node_id list"
  d_removed_nodes :: "node_id list"
  d_modified_nodes :: "node_id list"
  d_moved_nodes :: "(node_id \<times> node_id) list"
  d_added_edges :: "edgekey list"
  d_removed_edges :: "edgekey list"
  d_reconfidenced_edges :: "(edgekey \<times> confidence \<times> confidence) list"
  d_restamped_edges :: "edgekey list"
  d_ignored_moves :: nat

type_synonym text_row = "cell_kind \<times> string"
type_synonym content_map = "(node_id, text_row list) btree"

record folded =
  f_confidence :: confidence
  f_given :: edgekey
  f_cell :: "byte list set"

record cell_read =
  cr_kind :: cell_kind
  cr_key :: edge_cell_key

subsection \<open>Content\<close>

fun text_of :: "cell_kind set \<Rightarrow> cell \<Rightarrow> text_row list" where
  "text_of kinds (Cell k (Text s)) = (if k \<in> kinds then [(k, s)] else [])"
| "text_of kinds (Cell k p) = []"

definition content_node :: "cell_kind set \<Rightarrow> node \<Rightarrow> content_map \<Rightarrow> content_map" where
  "content_node kinds n out =
     bt_insert (nid n)
       ((case bt_get out (nid n) of None \<Rightarrow> [] | Some texts \<Rightarrow> texts) @
        concat (map (text_of kinds) (ncells n))) out"

definition content :: "delta_side \<Rightarrow> cell_kind set \<Rightarrow> content_map" where
  "content side kinds =
     bt_map (\<lambda>i texts. remdups_adj (sort texts)) (fold (content_node kinds) (ds_nodes side) [])"

subsection \<open>Moves\<close>

type_synonym move_map = "(node_id, node_id) btree"

fun accept_first :: "content_map \<Rightarrow> content_map \<Rightarrow> node_id \<times> node_id \<Rightarrow>
    move_map \<times> node_id set \<times> nat \<Rightarrow> move_map \<times> node_id set \<times> nat" where
  "accept_first old new (b, a) (moves, targets, ignored) =
     (if b \<noteq> a \<and> bt_get old b \<noteq> None \<and> bt_get new a \<noteq> None \<and> bt_get moves b = None \<and> a \<notin> targets
      then (bt_insert b a moves, insert a targets, ignored)
      else (moves, targets, Suc ignored))"

definition named_targets :: "delta_side \<Rightarrow> content_map \<Rightarrow> node_id set \<Rightarrow> node_id set" where
  "named_targets before old targets =
     {a \<in> targets. bt_get old a \<noteq> None} \<union>
     {a \<in> set (concat (map (\<lambda>e. [efrom e, eto e]) (ds_edges before))). a \<in> targets}"

definition clashes :: "node_id set \<Rightarrow> move_map \<Rightarrow> node_id list" where
  "clashes named moves = map fst (filter (\<lambda>p. snd p \<in> named \<and> bt_get moves (snd p) = None) moves)"

lemma fold_bt_remove: "fold bt_remove ks m = filter (\<lambda>p. fst p \<notin> set ks) m"
  by (induction ks arbitrary: m) (auto simp: bt_remove_def intro: filter_cong)

function drop_clashes :: "node_id set \<Rightarrow> move_map \<Rightarrow> nat \<Rightarrow> move_map \<times> nat" where
  "drop_clashes named moves ignored =
     (let clash = clashes named moves
      in if clash = [] then (moves, ignored)
         else drop_clashes named (fold bt_remove (clashes named moves) moves) (ignored + length clash))"
  by pat_completeness auto
termination
proof (relation "measure (\<lambda>(named, moves, ignored). length moves)", goal_cases)
  case (2 named moves ignored clash)
  then obtain p where "p \<in> set moves" "fst p \<in> set (clashes named moves)"
    by (auto simp: clashes_def filter_empty_conv)
  then show ?case by (simp add: fold_bt_remove length_filter_less)
qed simp

declare drop_clashes.simps [simp del]

definition accept_moves :: "(node_id \<times> node_id) list \<Rightarrow> delta_side \<Rightarrow> content_map \<Rightarrow> content_map \<Rightarrow>
    move_map \<times> nat" where
  "accept_moves pairs before old new =
     (let (moves, targets, ignored) = fold (accept_first old new) pairs ([], {}, 0)
      in drop_clashes (named_targets before old targets) moves ignored)"

subsection \<open>Edges\<close>

fun strength :: "confidence \<Rightarrow> nat" where
  "strength Strong = 2"
| "strength Medium = 1"
| "strength Weak = 0"

definition cell_part :: "cell_read option \<Rightarrow> edge \<Rightarrow> byte list set" where
  "cell_part read e =
     (case read of
        None \<Rightarrow> {}
      | Some r \<Rightarrow>
          (case find (\<lambda>c. ckind c = cr_kind r) (ecells e) of
             None \<Rightarrow> {}
           | Some c \<Rightarrow> (case cr_key r (cpayload c) of None \<Rightarrow> {} | Some part \<Rightarrow> {part})))"

definition fold_edge :: "(node_id \<Rightarrow> node_id) \<Rightarrow> cell_read option \<Rightarrow> edge \<Rightarrow>
    (edgekey, folded) btree \<Rightarrow> (edgekey, folded) btree" where
  "fold_edge remap read e out =
     (let key = EdgeKey (remap (efrom e)) (remap (eto e)) (ecategory e);
          slot = (case bt_get out key of
              Some slot \<Rightarrow> slot
            | None \<Rightarrow> \<lparr>f_confidence = econfidence e, f_given = key_of_edge e, f_cell = {}\<rparr>);
          slot = (if strength (econfidence e) > strength (f_confidence slot)
            then slot\<lparr>f_confidence := econfidence e\<rparr> else slot);
          slot = slot\<lparr>f_cell := f_cell slot \<union> cell_part read e\<rparr>
      in bt_insert key slot out)"

definition fold_edges :: "edge list \<Rightarrow> (node_id \<Rightarrow> node_id) \<Rightarrow> cell_read option \<Rightarrow>
    (edgekey, folded) btree" where
  "fold_edges edges remap read = fold (fold_edge remap read) edges []"

subsection \<open>The delta\<close>

definition remap_by :: "move_map \<Rightarrow> node_id \<Rightarrow> node_id" where
  "remap_by moves i = (case bt_get moves i of Some a \<Rightarrow> a | None \<Rightarrow> i)"

fun was_step :: "move_map \<Rightarrow> content_map \<Rightarrow> node_id \<Rightarrow>
    (node_id, node_id) btree \<times> node_id list \<Rightarrow> (node_id, node_id) btree \<times> node_id list" where
  "was_step moves new b (was, removed) =
     (let a = remap_by moves b
      in if bt_get new a \<noteq> None then (bt_insert a b was, removed) else (was, removed @ [b]))"

definition graph_delta :: "delta_side \<Rightarrow> delta_side \<Rightarrow> delta_options \<Rightarrow> graph_delta_rows" where
  "graph_delta before after opts =
     (let kinds = set (do_content_cells opts);
          old = content before kinds;
          new = content after kinds;
          (moves, ignored) = accept_moves (do_moves opts) before old new;
          (was, removed) = fold (was_step moves new) (bt_keys old) ([], []);
          added = map fst (filter (\<lambda>(a, texts). bt_get was a = None) new);
          modified = map fst (filter (\<lambda>(a, texts). case bt_get was a of
              None \<Rightarrow> False | Some b \<Rightarrow> bt_get old b \<noteq> Some texts) new);
          read = map_option (\<lambda>k. \<lparr>cr_kind = k,
              cr_key = (case do_edge_cell_key opts of None \<Rightarrow> whole_payload | Some f \<Rightarrow> f)\<rparr>) (do_edge_cell opts);
          old_edges = fold_edges (ds_edges before) (remap_by moves) read;
          new_edges = fold_edges (ds_edges after) (\<lambda>i. i) read
      in \<lparr>d_added_nodes = added, d_removed_nodes = removed, d_modified_nodes = modified,
          d_moved_nodes = moves,
          d_added_edges = filter (\<lambda>k. bt_get old_edges k = None) (bt_keys new_edges),
          d_removed_edges = sort (map (\<lambda>p. f_given (snd p))
            (filter (\<lambda>p. bt_get new_edges (fst p) = None) old_edges)),
          d_reconfidenced_edges = concat (map (\<lambda>(key, slot).
              case bt_get new_edges key of
                None \<Rightarrow> []
              | Some now \<Rightarrow>
                  (if f_confidence now \<noteq> f_confidence slot
                   then [(key, f_confidence slot, f_confidence now)] else [])) old_edges),
          d_restamped_edges = concat (map (\<lambda>(key, slot).
              case bt_get new_edges key of
                None \<Rightarrow> []
              | Some now \<Rightarrow>
                  (if f_confidence now = f_confidence slot \<and> f_cell now \<noteq> f_cell slot
                   then [key] else [])) old_edges),
          d_ignored_moves = ignored\<rparr>)"

subsection \<open>Content, as sets\<close>

definition node_set :: "delta_side \<Rightarrow> node_id set" where
  "node_set side = nid ` set (ds_nodes side)"

text \<open>The Text payloads of the content kinds over every copy of a node.\<close>

definition texts :: "delta_side \<Rightarrow> cell_kind set \<Rightarrow> node_id \<Rightarrow> text_row set" where
  "texts side kinds i =
     {(k, s). k \<in> kinds \<and> (\<exists>n \<in> set (ds_nodes side). nid n = i \<and> Cell k (Text s) \<in> set (ncells n))}"

lemma set_text_of: "set (concat (map (text_of kinds) cs)) = {(k, s). k \<in> kinds \<and> Cell k (Text s) \<in> set cs}"
proof (induction cs)
  case (Cons c cs)
  obtain k p where c: "c = Cell k p" by (cases c)
  show ?case using Cons by (cases p) (auto simp: c)
qed simp

lemma content_fold:
  "bt_ok out \<Longrightarrow> bt_ok (fold (content_node kinds) ns out) \<and>
   (\<forall>i. map_option set (bt_get (fold (content_node kinds) ns out) i) =
     (if bt_get out i = None \<and> i \<notin> nid ` set ns then None
      else Some ((case bt_get out i of None \<Rightarrow> {} | Some t \<Rightarrow> set t) \<union>
        {(k, s). k \<in> kinds \<and> (\<exists>n \<in> set ns. nid n = i \<and> Cell k (Text s) \<in> set (ncells n))})))"
proof (induction ns arbitrary: out)
  case Nil
  then show ?case by (auto split: option.split)
next
  case (Cons n ns)
  have ok: "bt_ok (content_node kinds n out)" using Cons.prems by (simp add: content_node_def bt_insert_ok)
  have get: "bt_get (content_node kinds n out) i = (if i = nid n
      then Some ((case bt_get out i of None \<Rightarrow> [] | Some t \<Rightarrow> t) @ concat (map (text_of kinds) (ncells n)))
      else bt_get out i)" for i
    using Cons.prems by (simp add: content_node_def bt_get_insert)
  show ?case
  proof (intro conjI allI)
    show "bt_ok (fold (content_node kinds) (n # ns) out)" using Cons.IH [OF ok] by simp
    fix i
    have cells: "set (concat (map (text_of kinds) (ncells n))) =
        {(k, s). k \<in> kinds \<and> Cell k (Text s) \<in> set (ncells n)}" by (rule set_text_of)
    show "map_option set (bt_get (fold (content_node kinds) (n # ns) out) i) =
     (if bt_get out i = None \<and> i \<notin> nid ` set (n # ns) then None
      else Some ((case bt_get out i of None \<Rightarrow> {} | Some t \<Rightarrow> set t) \<union>
        {(k, s). k \<in> kinds \<and> (\<exists>n \<in> set (n # ns). nid n = i \<and> Cell k (Text s) \<in> set (ncells n))}))"
      using Cons.IH [OF ok] cells unfolding fold_simps comp_apply get
      by (cases "bt_get out i") (auto simp del: set_concat)
  qed
qed

lemma content_spec:
  "bt_ok (content side kinds)"
  "bt_get (content side kinds) i =
     (if i \<in> node_set side then Some (sorted_list_of_set (texts side kinds i)) else None)"
proof -
  let ?c = "fold (content_node kinds) (ds_nodes side) []"
  note f = content_fold [of "[]" kinds "ds_nodes side"]
  show "bt_ok (content side kinds)" using f by (simp add: content_def)
  have s: "map_option set (bt_get ?c i) = (if i \<in> node_set side then Some (texts side kinds i) else None)"
    using f by (simp add: node_set_def texts_def)
  show "bt_get (content side kinds) i =
     (if i \<in> node_set side then Some (sorted_list_of_set (texts side kinds i)) else None)"
  proof (cases "bt_get ?c i")
    case None
    then show ?thesis using s by (auto simp: content_def bt_get_map split: if_splits)
  next
    case (Some t)
    then have "i \<in> node_set side" "set t = texts side kinds i" using s by (auto split: if_splits)
    then show ?thesis using Some by (simp add: content_def bt_get_map sort_dedup)
  qed
qed

lemma content_dom: "bt_get (content side kinds) i = None \<longleftrightarrow> i \<notin> node_set side"
  by (simp add: content_spec(2))

lemma finite_texts: "finite (texts side kinds i)"
proof -
  have "texts side kinds i \<subseteq> set (concat (map (text_of kinds) (concat (map ncells (ds_nodes side)))))"
    unfolding set_text_of by (auto simp: texts_def)
  then show ?thesis by (rule finite_subset) simp
qed

subsection \<open>The moves that apply\<close>

lemma mset_bt_insert: "bt_get m k = None \<Longrightarrow> mset (bt_insert k v m) = add_mset (k, v) (mset m)"
  unfolding bt_get_def by (induction m) (auto split: if_splits)

lemma set_bt_insert: "bt_get m k = None \<Longrightarrow> set (bt_insert k v m) = insert (k, v) (set m)"
  using mset_bt_insert by (metis set_mset_add_mset_insert set_mset_mset)

definition moves_inv :: "content_map \<Rightarrow> content_map \<Rightarrow> (node_id \<times> node_id) list \<Rightarrow> move_map \<Rightarrow> bool" where
  "moves_inv old new pairs moves \<longleftrightarrow> bt_ok moves \<and> distinct (map snd moves) \<and>
     (\<forall>(b, a) \<in> set moves. (b, a) \<in> set pairs \<and> b \<noteq> a \<and> bt_get old b \<noteq> None \<and> bt_get new a \<noteq> None)"

lemma accept_first_inv:
  assumes "moves_inv old new done moves" and "targets = snd ` set moves"
    and "ignored + length moves = length done"
  shows "case fold (accept_first old new) pairs (moves, targets, ignored) of (moves', targets', ignored') \<Rightarrow>
    moves_inv old new (done @ pairs) moves' \<and> targets' = snd ` set moves' \<and>
    ignored' + length moves' = length (done @ pairs)"
  using assms
proof (induction pairs arbitrary: "done" moves targets ignored)
  case (Cons p pairs)
  obtain b a where p: "p = (b, a)" by (cases p)
  show ?case
  proof (cases "b \<noteq> a \<and> bt_get old b \<noteq> None \<and> bt_get new a \<noteq> None \<and> bt_get moves b = None \<and> a \<notin> targets")
    case True
    then have ms: "mset (bt_insert b a moves) = add_mset (b, a) (mset moves)" by (simp add: mset_bt_insert)
    have ins: "set (bt_insert b a moves) = insert (b, a) (set moves)"
      using True by (simp add: set_bt_insert)
    moreover have "mset (map snd (bt_insert b a moves)) = add_mset a (mset (map snd moves))"
      by (simp only: mset_map ms image_mset_add_mset snd_conv)
    moreover have "length (bt_insert b a moves) = Suc (length moves)"
      using arg_cong [OF ms, of size] by simp
    ultimately have ins: "set (bt_insert b a moves) = insert (b, a) (set moves)"
      "mset (map snd (bt_insert b a moves)) = add_mset a (mset (map snd moves))"
      "length (bt_insert b a moves) = Suc (length moves)" by simp_all
    have "distinct (map snd (bt_insert b a moves)) \<longleftrightarrow> distinct (a # map snd moves)"
      using ins(2) by (metis mset.simps(2) mset_eq_imp_distinct_iff)
    then have "moves_inv old new (done @ [p]) (bt_insert b a moves)"
      using Cons.prems(1,2) True ins(1) by (auto simp: moves_inv_def p bt_insert_ok)
    then show ?thesis
      using Cons.IH [of "done @ [p]" "bt_insert b a moves" "insert a targets" ignored] Cons.prems True ins
      by (simp add: p)
  next
    case False
    then have step: "accept_first old new p (moves, targets, ignored) = (moves, targets, Suc ignored)"
      by (auto simp: p)
    have "moves_inv old new (done @ [p]) moves" using Cons.prems(1) by (auto simp: moves_inv_def)
    then show ?thesis
      using Cons.IH [of "done @ [p]" moves targets "Suc ignored"] Cons.prems unfolding fold_simps comp_apply step
      by simp
  qed
qed simp

definition closed_moves :: "node_id set \<Rightarrow> (node_id \<times> node_id) set \<Rightarrow> bool" where
  "closed_moves named S \<longleftrightarrow> (\<forall>(b, a) \<in> S. a \<in> named \<longrightarrow> a \<in> fst ` S)"

lemma bt_get_None: "bt_get m k = None \<longleftrightarrow> k \<notin> fst ` set m"
  by (auto simp: bt_get_def map_of_eq_None_iff)

lemma drop_clashes_spec:
  assumes "bt_ok moves"
  shows "case drop_clashes named moves ignored of (moves', ignored') \<Rightarrow>
    (\<exists>keep. moves' = filter keep moves) \<and> ignored' + length moves' = ignored + length moves \<and>
    closed_moves named (set moves') \<and>
    (\<forall>S \<subseteq> set moves. closed_moves named S \<longrightarrow> S \<subseteq> set moves')"
  using assms
proof (induction named moves ignored rule: drop_clashes.induct)
  case (1 named moves ignored)
  let ?P = "\<lambda>p. snd p \<in> named \<and> bt_get moves (snd p) = None"
  show ?case
  proof (cases "clashes named moves = []")
    case True
    then have "\<forall>p \<in> set moves. \<not> ?P p" by (simp add: clashes_def filter_empty_conv)
    then have "closed_moves named (set moves)" unfolding closed_moves_def bt_get_None case_prod_beta by blast
    moreover have "\<exists>keep. moves = filter keep moves" by (rule exI [of _ "\<lambda>_. True"]) simp
    ultimately show ?thesis using True by (subst drop_clashes.simps) simp
  next
    case False
    let ?m = "fold bt_remove (clashes named moves) moves"
    have inj: "inj_on fst (set moves)" using bt_ok_distinct [OF "1.prems"] by (simp add: distinct_map)
    have m: "?m = filter (\<lambda>p. \<not> ?P p) moves"
      unfolding fold_bt_remove by (rule filter_cong [OF refl]) (auto simp: clashes_def dest: inj_onD [OF inj])
    have ok: "bt_ok ?m" using "1.prems" unfolding m by (simp add: bt_ok_def sorted_wrt_map sorted_wrt_filter)
    have len: "length (clashes named moves) + length ?m = length moves"
      unfolding m using sum_length_filter_compl [of ?P moves] by (simp add: clashes_def)
    obtain r n where rec: "drop_clashes named ?m (ignored + length (clashes named moves)) = (r, n)"
      by (cases "drop_clashes named ?m (ignored + length (clashes named moves))")
    have step: "drop_clashes named moves ignored = (r, n)"
      using False by (subst drop_clashes.simps) (simp add: rec)
    obtain keep where IH: "r = filter keep ?m" "n + length r = ignored + length (clashes named moves) + length ?m"
      "closed_moves named (set r)" "\<forall>S \<subseteq> set ?m. closed_moves named S \<longrightarrow> S \<subseteq> set r"
      using "1.IH" [OF refl False ok] rec by auto
    have "\<exists>keep. r = filter keep moves"
      by (rule exI [of _ "\<lambda>p. \<not> ?P p \<and> keep p"]) (simp add: IH(1) m)
    moreover have "S \<subseteq> set r" if "S \<subseteq> set moves" "closed_moves named S" for S
    proof -
      have "S \<subseteq> set ?m"
      proof
        fix p assume "p \<in> S"
        moreover from this that have "snd p \<in> fst ` set moves" if "snd p \<in> named"
          using that by (force simp: closed_moves_def)
        ultimately show "p \<in> set ?m" using that(1) by (auto simp: m bt_get_None)
      qed
      then show ?thesis using IH(4) that(2) by blast
    qed
    ultimately show ?thesis using IH(2,3) len step by simp
  qed
qed

definition end_ids :: "edge list \<Rightarrow> node_id set" where
  "end_ids es = efrom ` set es \<union> eto ` set es"

definition named_ids :: "delta_side \<Rightarrow> node_id set" where
  "named_ids side = node_set side \<union> end_ids (ds_edges side)"

lemma accept_moves_spec:
  assumes "accept_moves pairs before (content before kinds) (content after kinds) = (moves, ignored)"
  shows "bt_ok moves" and "distinct (map snd moves)"
    and "(b, a) \<in> set moves \<Longrightarrow> (b, a) \<in> set pairs \<and> b \<noteq> a \<and> b \<in> node_set before \<and> a \<in> node_set after"
    and "ignored + length moves = length pairs"
    and "(b, a) \<in> set moves \<Longrightarrow> a \<in> named_ids before \<Longrightarrow> a \<in> fst ` set moves"
proof -
  let ?old = "content before kinds" and ?new = "content after kinds"
  obtain m t g where first: "fold (accept_first ?old ?new) pairs ([], {}, 0) = (m, t, g)"
    by (cases "fold (accept_first ?old ?new) pairs ([], {}, 0)")
  have inv: "moves_inv ?old ?new pairs m" "t = snd ` set m" "g + length m = length pairs"
    using accept_first_inv [of ?old ?new "[]" "[]" "{}" 0 pairs] first by (simp_all add: moves_inv_def)
  have d: "drop_clashes (named_targets before ?old t) m g = (moves, ignored)"
    using assms first by (simp add: accept_moves_def)
  have ok: "bt_ok m" using inv(1) by (simp add: moves_inv_def)
  note drop = drop_clashes_spec [OF ok, where named = "named_targets before ?old t" and ignored = g, unfolded d prod.case]
  obtain keep where keep: "moves = filter keep m" using drop by blast
  show "bt_ok moves" using ok by (simp add: keep bt_ok_def sorted_wrt_map sorted_wrt_filter)
  show "distinct (map snd moves)" using inv(1) by (simp add: keep moves_inv_def distinct_map_filter)
  show "(b, a) \<in> set moves \<Longrightarrow> (b, a) \<in> set pairs \<and> b \<noteq> a \<and> b \<in> node_set before \<and> a \<in> node_set after"
    using inv(1) by (auto simp: keep moves_inv_def content_dom)
  show "ignored + length moves = length pairs" using drop inv(3) by simp
  assume ba: "(b, a) \<in> set moves" and a: "a \<in> named_ids before"
  have "a \<in> t" using ba inv(2) by (force simp: keep)
  then have "a \<in> named_targets before ?old t"
    using a by (auto simp: named_targets_def named_ids_def end_ids_def content_dom)
  then show "a \<in> fst ` set moves" using drop ba by (auto simp: closed_moves_def)
qed

lemma remap_by_mem: "bt_ok moves \<Longrightarrow> remap_by moves i = a \<longleftrightarrow> (i, a) \<in> set moves \<or> i = a \<and> i \<notin> fst ` set moves"
  using bt.entries_get [of moves i] by (force simp: remap_by_def bt_get_None split: option.splits)

lemma remap_inj:
  assumes "accept_moves pairs before (content before kinds) (content after kinds) = (moves, ignored)"
  shows "inj_on (remap_by moves) (named_ids before)"
proof (rule inj_onI)
  note spec = accept_moves_spec [OF assms]
  fix i j assume ij: "i \<in> named_ids before" "j \<in> named_ids before" "remap_by moves i = remap_by moves j"
  define a where "a = remap_by moves j"
  have cases: "(i, a) \<in> set moves \<or> i = a \<and> i \<notin> fst ` set moves"
    "(j, a) \<in> set moves \<or> j = a \<and> j \<notin> fst ` set moves"
    using remap_by_mem [OF spec(1)] ij(3) a_def by metis+
  have "inj_on snd (set moves)" using spec(2) by (simp add: distinct_map)
  then have "i = j" if "(i, a) \<in> set moves" "(j, a) \<in> set moves" using that by (metis inj_onD prod.inject snd_conv)
  then show "i = j" using cases spec(5) ij(1,2) by blast
qed

subsection \<open>Edges, as sets\<close>

definition edge_key_under :: "(node_id \<Rightarrow> node_id) \<Rightarrow> edge \<Rightarrow> edgekey" where
  "edge_key_under f e = EdgeKey (f (efrom e)) (f (eto e)) (ecategory e)"

text \<open>The strongest confidence of a key's copies.\<close>

definition strongest :: "confidence set \<Rightarrow> confidence" where
  "strongest cs = (if Strong \<in> cs then Strong else if Medium \<in> cs then Medium else Weak)"

definition copies :: "(node_id \<Rightarrow> node_id) \<Rightarrow> edge list \<Rightarrow> edgekey \<Rightarrow> edge set" where
  "copies f es k = {e \<in> set es. edge_key_under f e = k}"

definition parts :: "cell_read option \<Rightarrow> edge set \<Rightarrow> byte list set" where
  "parts read es = (\<Union>e \<in> es. cell_part read e)"

lemma strongest_insert:
  "strongest (insert c cs) = (if cs = {} \<or> strength c > strength (strongest cs) then c else strongest cs)"
  by (cases c; cases "Strong \<in> cs"; cases "Medium \<in> cs") (auto simp: strongest_def)

lemma fold_edges_spec:
  "bt_ok (fold_edges es f read) \<and>
   (\<forall>k. case bt_get (fold_edges es f read) k of
      None \<Rightarrow> copies f es k = {}
    | Some slot \<Rightarrow> copies f es k \<noteq> {} \<and> f_confidence slot = strongest (econfidence ` copies f es k) \<and>
        f_given slot \<in> key_of_edge ` copies f es k \<and> f_cell slot = parts read (copies f es k))"
proof (induction es rule: rev_induct)
  case Nil
  then show ?case by (simp add: fold_edges_def copies_def)
next
  case (snoc e es)
  let ?out = "fold_edges es f read" and ?key = "edge_key_under f e"
  obtain slot where new: "fold_edges (es @ [e]) f read = bt_insert ?key slot ?out"
    "slot = (let s = (case bt_get ?out ?key of Some slot \<Rightarrow> slot
        | None \<Rightarrow> \<lparr>f_confidence = econfidence e, f_given = key_of_edge e, f_cell = {}\<rparr>);
      s = (if strength (econfidence e) > strength (f_confidence s) then s\<lparr>f_confidence := econfidence e\<rparr> else s)
      in s\<lparr>f_cell := f_cell s \<union> cell_part read e\<rparr>)"
    by (simp add: fold_edges_def fold_edge_def edge_key_under_def)
  have ok: "bt_ok ?out" using snoc by blast
  have copies: "copies f (es @ [e]) k = (if k = ?key then insert e (copies f es k) else copies f es k)" for k
    by (auto simp: copies_def)
  have parts: "parts read (insert e es') = parts read es' \<union> cell_part read e" for es'
    by (auto simp: parts_def)
  have one: "strongest {econfidence e} = econfidence e" by (cases "econfidence e") (simp_all add: strongest_def)
  have old: "case bt_get ?out ?key of
      None \<Rightarrow> copies f es ?key = {}
    | Some slot \<Rightarrow> copies f es ?key \<noteq> {} \<and> f_confidence slot = strongest (econfidence ` copies f es ?key) \<and>
        f_given slot \<in> key_of_edge ` copies f es ?key \<and> f_cell slot = parts read (copies f es ?key)"
    using snoc by blast
  have slot: "f_confidence slot = strongest (econfidence ` insert e (copies f es ?key)) \<and>
      f_given slot \<in> key_of_edge ` insert e (copies f es ?key) \<and>
      f_cell slot = parts read (insert e (copies f es ?key))"
  proof (cases "bt_get ?out ?key")
    case None
    then show ?thesis using old one by (simp add: new(2) parts parts_def [of read "{}"])
  next
    case (Some s)
    then show ?thesis
      using old strongest_insert [of "econfidence e" "econfidence ` copies f es ?key"]
      by (auto simp: new(2) parts)
  qed
  show ?case
  proof (intro conjI allI)
    show "bt_ok (fold_edges (es @ [e]) f read)" using ok by (simp add: new(1) bt_insert_ok)
    fix k
    show "case bt_get (fold_edges (es @ [e]) f read) k of
      None \<Rightarrow> copies f (es @ [e]) k = {}
    | Some slot \<Rightarrow> copies f (es @ [e]) k \<noteq> {} \<and>
        f_confidence slot = strongest (econfidence ` copies f (es @ [e]) k) \<and>
        f_given slot \<in> key_of_edge ` copies f (es @ [e]) k \<and> f_cell slot = parts read (copies f (es @ [e]) k)"
    proof (cases "k = ?key")
      case True
      then show ?thesis using slot ok unfolding new(1) copies by (simp add: bt_get_insert)
    next
      case False
      then show ?thesis using snoc ok unfolding new(1) copies by (simp add: bt_get_insert)
    qed
  qed
qed

definition edge_keys :: "(node_id \<Rightarrow> node_id) \<Rightarrow> edge list \<Rightarrow> edgekey set" where
  "edge_keys f es = edge_key_under f ` set es"

lemma fold_edges_dom: "bt_get (fold_edges es f read) k = None \<longleftrightarrow> k \<notin> edge_keys f es"
proof -
  have "copies f es k = {} \<longleftrightarrow> k \<notin> edge_keys f es" by (auto simp: copies_def edge_keys_def)
  then show ?thesis using fold_edges_spec [where es = es and f = f and read = read, THEN conjunct2, THEN spec, of k]
    by (cases "bt_get (fold_edges es f read) k") simp_all
qed

lemma fold_edges_slot:
  "bt_get (fold_edges es f read) k = Some slot \<Longrightarrow>
   f_confidence slot = strongest (econfidence ` copies f es k) \<and>
   f_given slot \<in> key_of_edge ` copies f es k \<and> f_cell slot = parts read (copies f es k)"
  using fold_edges_spec [where es = es and f = f and read = read, THEN conjunct2, THEN spec, of k] by simp

definition rename_key :: "(node_id \<Rightarrow> node_id) \<Rightarrow> edgekey \<Rightarrow> edgekey" where
  "rename_key f k = EdgeKey (f (k_from k)) (f (k_to k)) (k_category k)"

lemma edge_key_under_rename: "edge_key_under f e = rename_key f (key_of_edge e)"
  by (simp add: edge_key_under_def rename_key_def)

lemma edge_keys_rename: "edge_keys f es = rename_key f ` edge_keys (\<lambda>i. i) es"
  by (simp add: edge_keys_def image_image edge_key_under_rename rename_key_def)

lemma rename_key_inj:
  assumes "inj_on f (end_ids es)"
  shows "inj_on (rename_key f) (edge_keys (\<lambda>i. i) es)"
proof (rule inj_onI)
  fix k l assume kl: "k \<in> edge_keys (\<lambda>i. i) es" "l \<in> edge_keys (\<lambda>i. i) es" "rename_key f k = rename_key f l"
  have ends: "k_from m \<in> end_ids es \<and> k_to m \<in> end_ids es" if "m \<in> edge_keys (\<lambda>i. i) es" for m
    using that by (auto simp: edge_keys_def edge_key_under_def end_ids_def)
  show "k = l"
    using ends [OF kl(1)] ends [OF kl(2)] kl(3) assms
    by (cases k; cases l) (auto simp: rename_key_def dest: inj_onD)
qed

lemma sorted_bt_keys: "bt_ok m \<Longrightarrow> bt_keys m = sorted_list_of_set (fst ` set m)"
  using bt.keys_sorted_list [of m] by (simp add: bt_keys_def dom_bt_get)

lemma filter_bt_keys:
  assumes "bt_ok m"
  shows "filter P (bt_keys m) = sorted_list_of_set {k. bt_get m k \<noteq> None \<and> P k}"
proof -
  have "sorted_wrt (<) (filter P (bt_keys m))"
    using assms by (simp add: bt_ok_def bt_keys_def sorted_wrt_filter)
  then have "filter P (bt_keys m) = sorted_list_of_set (set (filter P (bt_keys m)))"
    by (metis sorted_list_of_set.idem_if_sorted_distinct strict_sorted_iff)
  also have "set (filter P (bt_keys m)) = {k. bt_get m k \<noteq> None \<and> P k}"
    by (auto simp: bt_keys_def bt_get_None)
  finally show ?thesis .
qed

lemma map_fst_filter:
  assumes "bt_ok m"
  shows "map fst (filter (\<lambda>p. P (fst p) (snd p)) m) =
    sorted_list_of_set {k. \<exists>v. bt_get m k = Some v \<and> P k v}"
proof -
  let ?l = "map fst (filter (\<lambda>p. P (fst p) (snd p)) m)"
  have "sorted_wrt (<) ?l"
    using assms by (simp add: bt_ok_def sorted_wrt_map sorted_wrt_filter)
  then have "?l = sorted_list_of_set (set ?l)"
    by (metis sorted_list_of_set.idem_if_sorted_distinct strict_sorted_iff)
  also have "set ?l = {k. \<exists>v. bt_get m k = Some v \<and> P k v}"
    using bt.entries_get [OF assms] by force
  finally show ?thesis .
qed

subsection \<open>The delta, as sets\<close>

definition delta_remap :: "graph_delta_rows \<Rightarrow> node_id \<Rightarrow> node_id" where
  "delta_remap d i = (case map_of (d_moved_nodes d) i of Some a \<Rightarrow> a | None \<Rightarrow> i)"

lemma was_fold:
  "fold (was_step moves new) bs (was, removed) =
     (fold (\<lambda>(a, b). bt_insert a b)
        (map (\<lambda>b. (remap_by moves b, b)) (filter (\<lambda>b. bt_get new (remap_by moves b) \<noteq> None) bs)) was,
      removed @ filter (\<lambda>b. bt_get new (remap_by moves b) = None) bs)"
  by (induction bs arbitrary: was removed) auto

lemma was_get:
  assumes "inj_on (remap_by moves) (set bs)" and "distinct bs"
  shows "bt_get (fst (fold (was_step moves new) bs ([], removed))) a = Some b \<longleftrightarrow>
    b \<in> set bs \<and> remap_by moves b = a \<and> bt_get new a \<noteq> None"
proof -
  let ?xs = "map (\<lambda>b. (remap_by moves b, b)) (filter (\<lambda>b. bt_get new (remap_by moves b) \<noteq> None) bs)"
  have "distinct (map fst ?xs)"
    using assms by (auto simp: o_def distinct_map intro: inj_on_subset)
  moreover have "bt_get (fst (fold (was_step moves new) bs ([], removed))) = map_of (rev ?xs)"
    unfolding was_fold using bt.fold_put_get [of "[]" ?xs] by (simp add: bt_get_def [abs_def])
  ultimately have "bt_get (fst (fold (was_step moves new) bs ([], removed))) a = Some b \<longleftrightarrow> (a, b) \<in> set ?xs"
    using map_of_eq_Some_iff [of "rev ?xs" a b] by (simp only: rev_map [symmetric] distinct_rev set_rev)
  then show ?thesis by auto
qed

lemma delta_parts:
  obtains moves ignored where
    "accept_moves (do_moves opts) before (content before (set (do_content_cells opts)))
      (content after (set (do_content_cells opts))) = (moves, ignored)"
    "d_moved_nodes (graph_delta before after opts) = moves"
    "d_ignored_moves (graph_delta before after opts) = ignored"
    "delta_remap (graph_delta before after opts) = remap_by moves"
proof -
  obtain moves ignored where m: "accept_moves (do_moves opts) before (content before (set (do_content_cells opts)))
      (content after (set (do_content_cells opts))) = (moves, ignored)"
    by (cases "accept_moves (do_moves opts) before (content before (set (do_content_cells opts)))
      (content after (set (do_content_cells opts)))")
  then have "d_moved_nodes (graph_delta before after opts) = moves"
    "d_ignored_moves (graph_delta before after opts) = ignored"
    by (simp_all add: graph_delta_def case_prod_beta)
  moreover from this have "delta_remap (graph_delta before after opts) = remap_by moves"
    by (simp add: delta_remap_def remap_by_def bt_get_def fun_eq_iff)
  ultimately show ?thesis using that m by blast
qed

lemma delta_nodes:
  fixes before after :: delta_side and opts :: delta_options
  defines "d \<equiv> graph_delta before after opts"
  shows "d_removed_nodes d = sorted_list_of_set {b \<in> node_set before. delta_remap d b \<notin> node_set after}"
    and "d_added_nodes d = sorted_list_of_set (node_set after - delta_remap d ` node_set before)"
    and "d_modified_nodes d = sorted_list_of_set {a \<in> node_set after. \<exists>b \<in> node_set before.
      delta_remap d b = a \<and> texts before (set (do_content_cells opts)) b \<noteq> texts after (set (do_content_cells opts)) a}"
proof -
  let ?kinds = "set (do_content_cells opts)"
  let ?old = "content before ?kinds" and ?new = "content after ?kinds"
  obtain moves ignored where m: "accept_moves (do_moves opts) before ?old ?new = (moves, ignored)"
    "delta_remap d = remap_by moves"
    using delta_parts [of opts before after] unfolding d_def by metis
  note ok = content_spec(1) [of before ?kinds] content_spec(1) [of after ?kinds]
  have keys: "set (bt_keys ?old) = node_set before"
    using content_dom by (auto simp: bt_keys_def bt_get_None)
  have inj: "inj_on (remap_by moves) (set (bt_keys ?old))"
    using remap_inj [OF m(1)] unfolding keys by (rule inj_on_subset) (simp add: named_ids_def)
  have dist: "distinct (bt_keys ?old)" using ok(1) by (simp add: bt_keys_def bt_ok_distinct)
  define was where "was = fst (fold (was_step moves ?new) (bt_keys ?old) ([], []))"
  note was = was_get [OF inj dist, of ?new "[]", folded was_def, unfolded keys]
  have d: "d_removed_nodes d = filter (\<lambda>b. bt_get ?new (remap_by moves b) = None) (bt_keys ?old)"
    "d_added_nodes d = map fst (filter (\<lambda>(a, texts). bt_get was a = None) ?new)"
    "d_modified_nodes d = map fst (filter (\<lambda>(a, texts). case bt_get was a of
        None \<Rightarrow> False | Some b \<Rightarrow> bt_get ?old b \<noteq> Some texts) ?new)"
  proof -
    define rem where "rem = filter (\<lambda>b. bt_get ?new (remap_by moves b) = None) (bt_keys ?old)"
    have w: "fold (was_step moves ?new) (bt_keys ?old) ([], []) = (was, rem)"
      by (simp add: was_def rem_def was_fold)
    show "d_removed_nodes d = filter (\<lambda>b. bt_get ?new (remap_by moves b) = None) (bt_keys ?old)"
      "d_added_nodes d = map fst (filter (\<lambda>(a, texts). bt_get was a = None) ?new)"
      "d_modified_nodes d = map fst (filter (\<lambda>(a, texts). case bt_get was a of
        None \<Rightarrow> False | Some b \<Rightarrow> bt_get ?old b \<noteq> Some texts) ?new)"
      unfolding rem_def [symmetric]
      by (simp_all only: d_def graph_delta_def m(1) Let_def prod.case w graph_delta_rows.simps)
  qed
  show "d_removed_nodes d = sorted_list_of_set {b \<in> node_set before. delta_remap d b \<notin> node_set after}"
    unfolding d m(2) filter_bt_keys [OF ok(1)] content_dom by simp
  have "(\<exists>v. bt_get ?new a = Some v \<and> bt_get was a = None) \<longleftrightarrow> a \<in> node_set after - remap_by moves ` node_set before" for a
    using was [of a] content_dom [of after ?kinds a] by (cases "bt_get was a"; cases "bt_get ?new a") auto
  then show "d_added_nodes d = sorted_list_of_set (node_set after - delta_remap d ` node_set before)"
    unfolding d m(2) case_prod_beta
    by (subst map_fst_filter [OF ok(2)]) (rule arg_cong [of _ _ sorted_list_of_set], blast)
  have "(\<exists>v. bt_get ?new a = Some v \<and> (case bt_get was a of None \<Rightarrow> False | Some b \<Rightarrow> bt_get ?old b \<noteq> Some v)) \<longleftrightarrow>
      a \<in> node_set after \<and> (\<exists>b \<in> node_set before. remap_by moves b = a \<and> texts before ?kinds b \<noteq> texts after ?kinds a)" for a
  proof (cases "a \<in> node_set after")
    case False
    then show ?thesis using content_dom [of after ?kinds a] by simp
  next
    case True
    then have v: "bt_get ?new a = Some (sorted_list_of_set (texts after ?kinds a))" by (simp add: content_spec)
    have differ: "bt_get ?old b \<noteq> Some (sorted_list_of_set (texts after ?kinds a)) \<longleftrightarrow>
        texts before ?kinds b \<noteq> texts after ?kinds a" if "b \<in> node_set before" for b
      using that by (simp add: content_spec) (metis finite_texts sorted_list_of_set_inject)
    show ?thesis
    proof (cases "bt_get was a")
      case None
      then show ?thesis using was [of a] v by auto
    next
      case (Some b)
      then have b: "b \<in> node_set before" "remap_by moves b = a" using was by auto
      have "b' = b" if "b' \<in> node_set before" "remap_by moves b' = a" for b'
        using was [of a b'] that Some v by simp
      then have "(\<exists>b' \<in> node_set before. remap_by moves b' = a \<and> texts before ?kinds b' \<noteq> texts after ?kinds a) \<longleftrightarrow>
          texts before ?kinds b \<noteq> texts after ?kinds a" using b by blast
      then show ?thesis unfolding Some v option.case using differ [OF b(1)] True by (simp only: option.inject) simp
    qed
  qed
  then show "d_modified_nodes d = sorted_list_of_set {a \<in> node_set after. \<exists>b \<in> node_set before.
      delta_remap d b = a \<and> texts before ?kinds b \<noteq> texts after ?kinds a}"
    unfolding d m(2) case_prod_beta
    by (subst map_fst_filter [OF ok(2)]) (rule arg_cong [of _ _ sorted_list_of_set], blast)
qed

lemma delta_edges:
  fixes before after :: delta_side and opts :: delta_options
  defines "d \<equiv> graph_delta before after opts"
  defines "r \<equiv> delta_remap d" and "es \<equiv> ds_edges before" and "es' \<equiv> ds_edges after"
  defines "read \<equiv> map_option (\<lambda>k. \<lparr>cr_kind = k,
      cr_key = (case do_edge_cell_key opts of None \<Rightarrow> whole_payload | Some f \<Rightarrow> f)\<rparr>) (do_edge_cell opts)"
  shows "d_added_edges d = sorted_list_of_set (edge_keys (\<lambda>i. i) es' - edge_keys r es)"
    and "d_removed_edges d = sorted_list_of_set
      {k \<in> edge_keys (\<lambda>i. i) es. rename_key r k \<notin> edge_keys (\<lambda>i. i) es'}"
    and "set (d_reconfidenced_edges d) = {(k, c, c') | k c c'. k \<in> edge_keys r es \<inter> edge_keys (\<lambda>i. i) es' \<and>
      c = strongest (econfidence ` copies r es k) \<and> c' = strongest (econfidence ` copies (\<lambda>i. i) es' k) \<and> c' \<noteq> c}"
    and "set (d_restamped_edges d) = {k \<in> edge_keys r es \<inter> edge_keys (\<lambda>i. i) es'.
      strongest (econfidence ` copies (\<lambda>i. i) es' k) = strongest (econfidence ` copies r es k) \<and>
      parts read (copies (\<lambda>i. i) es' k) \<noteq> parts read (copies r es k)}"
    and "sorted_wrt (<) (map fst (d_reconfidenced_edges d))" and "sorted_wrt (<) (d_restamped_edges d)"
proof -
  obtain moves ignored where m:
    "accept_moves (do_moves opts) before (content before (set (do_content_cells opts)))
      (content after (set (do_content_cells opts))) = (moves, ignored)" "r = remap_by moves"
    using delta_parts [of opts before after] unfolding d_def r_def by metis
  have inj: "inj_on r (end_ids es)"
    using remap_inj [OF m(1)] unfolding m(2) es_def by (rule inj_on_subset) (simp add: named_ids_def)
  define old where "old = fold_edges es r read"
  define new where "new = fold_edges es' (\<lambda>i. i) read"
  have ok: "bt_ok old" "bt_ok new" using fold_edges_spec by (simp_all add: old_def new_def)
  have dom: "bt_get old k = None \<longleftrightarrow> k \<notin> edge_keys r es" "bt_get new k = None \<longleftrightarrow> k \<notin> edge_keys (\<lambda>i. i) es'" for k
    unfolding old_def new_def by (rule fold_edges_dom)+
  note slot = fold_edges_slot [of es r read, folded old_def] fold_edges_slot [of es' "\<lambda>i. i" read, folded new_def]
  obtain was rem where w: "fold (was_step moves (content after (set (do_content_cells opts))))
      (bt_keys (content before (set (do_content_cells opts)))) ([], []) = (was, rem)"
    by (cases "fold (was_step moves (content after (set (do_content_cells opts))))
      (bt_keys (content before (set (do_content_cells opts)))) ([], [])")
  have d: "d_added_edges d = filter (\<lambda>k. bt_get old k = None) (bt_keys new)"
    "d_removed_edges d = sort (map (\<lambda>p. f_given (snd p)) (filter (\<lambda>p. bt_get new (fst p) = None) old))"
    "d_reconfidenced_edges d = concat (map (\<lambda>(key, slot). case bt_get new key of None \<Rightarrow> []
      | Some now \<Rightarrow> (if f_confidence now \<noteq> f_confidence slot
          then [(key, f_confidence slot, f_confidence now)] else [])) old)"
    "d_restamped_edges d = concat (map (\<lambda>(key, slot). case bt_get new key of None \<Rightarrow> []
      | Some now \<Rightarrow> (if f_confidence now = f_confidence slot \<and> f_cell now \<noteq> f_cell slot then [key] else [])) old)"
    unfolding old_def new_def es_def es'_def read_def m(2)
    by (simp_all only: d_def graph_delta_def m(1) Let_def prod.case w graph_delta_rows.simps)
  have entry: "(k, s) \<in> set old \<longleftrightarrow> bt_get old k = Some s" for k s by (rule bt.entries_get [OF ok(1)])
  have picked: "sorted_wrt (<) (map fst m) \<Longrightarrow> \<forall>p \<in> set m. map g (f p) \<in> {[], [fst p]} \<Longrightarrow> sorted_wrt (<) (map g (concat (map f m)))"
    for m :: "(edgekey \<times> folded) list" and f :: "edgekey \<times> folded \<Rightarrow> 'z list" and g
  proof (induction m)
    case (Cons p m)
    have "set (map g (f q)) \<subseteq> {fst q}" if "q \<in> set m" for q using bspec [OF Cons.prems(2), of q] that by auto
    then have sub: "set (map g (concat (map f m))) \<subseteq> fst ` set m" by (simp add: image_Union) blast
    have less: "\<forall>k \<in> fst ` set m. fst p < k" using Cons.prems(1) by auto
    have IH: "sorted_wrt (<) (map g (concat (map f m)))" using Cons by simp
    consider "map g (f p) = []" | "map g (f p) = [fst p]" using Cons.prems(2) by auto
    then show ?case
    proof cases
      case 2
      have "\<forall>k \<in> set (map g (concat (map f m))). fst p < k" using sub less by blast
      then show ?thesis using IH 2 by (simp only: list.map concat.simps map_append append_Cons append_Nil sorted_wrt.simps)
    qed (use IH in simp)
  qed simp
  have keys: "sorted_wrt (<) (map fst old)" using ok(1) by (simp add: bt_ok_def)
  show "sorted_wrt (<) (map fst (d_reconfidenced_edges d))"
    unfolding d by (rule picked [OF keys]) (auto split: option.splits)
  show "sorted_wrt (<) (d_restamped_edges d)"
    unfolding d by (rule picked [OF keys, of "\<lambda>k. k", unfolded list.map_ident]) (simp add: case_prod_unfold split: option.split)
  show "d_added_edges d = sorted_list_of_set (edge_keys (\<lambda>i. i) es' - edge_keys r es)"
    unfolding d filter_bt_keys [OF ok(2)] dom by (rule arg_cong [of _ _ sorted_list_of_set]) blast
  have given: "rename_key r (f_given s) = k \<and> f_given s \<in> edge_keys (\<lambda>i. i) es" if "bt_get old k = Some s" for k s
    using slot(1) [OF that] by (auto simp: copies_def edge_key_under_rename edge_keys_def rename_key_def)
  define gone where "gone = filter (\<lambda>p. bt_get new (fst p) = None) old"
  have "distinct (map (\<lambda>p. f_given (snd p)) gone)"
  proof (rule distinct_map [THEN iffD2], rule conjI)
    show "distinct gone" using bt_ok_distinct [OF ok(1)] by (simp add: gone_def distinct_map)
    show "inj_on (\<lambda>p. f_given (snd p)) (set gone)"
    proof (rule inj_onI)
      fix p q assume pq: "p \<in> set gone" "q \<in> set gone" "f_given (snd p) = f_given (snd q)"
      then have "bt_get old (fst p) = Some (snd p)" "bt_get old (fst q) = Some (snd q)"
        using entry [of "fst p" "snd p"] entry [of "fst q" "snd q"] by (simp_all add: gone_def)
      then show "p = q" using given pq(3) by (metis option.inject prod_eqI)
    qed
  qed
  moreover have "set (map (\<lambda>p. f_given (snd p)) gone) =
      {k \<in> edge_keys (\<lambda>i. i) es. rename_key r k \<notin> edge_keys (\<lambda>i. i) es'}"
  proof (intro set_eqI iffI)
    fix g assume "g \<in> set (map (\<lambda>p. f_given (snd p)) gone)"
    then obtain k s where ks: "bt_get old k = Some s" "bt_get new k = None" "g = f_given s"
      using entry by (auto simp: gone_def)
    then show "g \<in> {k \<in> edge_keys (\<lambda>i. i) es. rename_key r k \<notin> edge_keys (\<lambda>i. i) es'}"
      using given [OF ks(1)] dom(2) by simp
  next
    fix g assume g: "g \<in> {k \<in> edge_keys (\<lambda>i. i) es. rename_key r k \<notin> edge_keys (\<lambda>i. i) es'}"
    then have "rename_key r g \<in> edge_keys r es" unfolding edge_keys_rename [of r] by blast
    then obtain s where s: "bt_get old (rename_key r g) = Some s" using dom(1) by blast
    then have "f_given s = g"
      using given [OF s] g rename_key_inj [OF inj] by (auto dest: inj_onD)
    moreover have "(rename_key r g, s) \<in> set gone" using s g dom(2) entry by (simp add: gone_def)
    ultimately show "g \<in> set (map (\<lambda>p. f_given (snd p)) gone)" by force
  qed
  ultimately show "d_removed_edges d = sorted_list_of_set
      {k \<in> edge_keys (\<lambda>i. i) es. rename_key r k \<notin> edge_keys (\<lambda>i. i) es'}"
    unfolding d gone_def [symmetric] by (metis distinct_remdups_id sorted_list_of_set_sort_remdups)
  have both: "k \<in> edge_keys r es \<inter> edge_keys (\<lambda>i. i) es' \<longleftrightarrow> (\<exists>s now. bt_get old k = Some s \<and> bt_get new k = Some now)" for k
    using dom [of k] by (cases "bt_get old k"; cases "bt_get new k") auto
  show "set (d_reconfidenced_edges d) = {(k, c, c') | k c c'. k \<in> edge_keys r es \<inter> edge_keys (\<lambda>i. i) es' \<and>
      c = strongest (econfidence ` copies r es k) \<and> c' = strongest (econfidence ` copies (\<lambda>i. i) es' k) \<and> c' \<noteq> c}"
  proof -
    have "set (d_reconfidenced_edges d) = {(k, f_confidence s, f_confidence now) | k s now.
        bt_get old k = Some s \<and> bt_get new k = Some now \<and> f_confidence now \<noteq> f_confidence s}"
      unfolding d using entry by (fastforce split: option.splits if_splits)
    also have "\<dots> = {(k, c, c') | k c c'. k \<in> edge_keys r es \<inter> edge_keys (\<lambda>i. i) es' \<and>
      c = strongest (econfidence ` copies r es k) \<and> c' = strongest (econfidence ` copies (\<lambda>i. i) es' k) \<and> c' \<noteq> c}"
    proof (rule set_eqI)
      fix x :: "edgekey \<times> confidence \<times> confidence"
      obtain k c c' where x: "x = (k, c, c')" by (cases x)
      have "(\<exists>s now. c = f_confidence s \<and> c' = f_confidence now \<and> bt_get old k = Some s \<and>
          bt_get new k = Some now \<and> f_confidence now \<noteq> f_confidence s) \<longleftrightarrow>
        (\<exists>s now. bt_get old k = Some s \<and> bt_get new k = Some now) \<and>
        c = strongest (econfidence ` copies r es k) \<and> c' = strongest (econfidence ` copies (\<lambda>i. i) es' k) \<and> c' \<noteq> c"
      proof (cases "bt_get old k")
        case (Some s)
        then have s: "f_confidence s = strongest (econfidence ` copies r es k)" using slot(1) by blast
        show ?thesis
        proof (cases "bt_get new k")
          case now: (Some n)
          then have "f_confidence n = strongest (econfidence ` copies (\<lambda>i. i) es' k)" using slot(2) by blast
          then show ?thesis by (auto simp: Some now s)
        qed simp
      qed simp
      then show "x \<in> {(k, f_confidence s, f_confidence now) | k s now.
          bt_get old k = Some s \<and> bt_get new k = Some now \<and> f_confidence now \<noteq> f_confidence s} \<longleftrightarrow>
        x \<in> {(k, c, c') | k c c'. k \<in> edge_keys r es \<inter> edge_keys (\<lambda>i. i) es' \<and>
          c = strongest (econfidence ` copies r es k) \<and> c' = strongest (econfidence ` copies (\<lambda>i. i) es' k) \<and> c' \<noteq> c}"
        unfolding both x by simp auto
    qed
    finally show ?thesis .
  qed
  show "set (d_restamped_edges d) = {k \<in> edge_keys r es \<inter> edge_keys (\<lambda>i. i) es'.
      strongest (econfidence ` copies (\<lambda>i. i) es' k) = strongest (econfidence ` copies r es k) \<and>
      parts read (copies (\<lambda>i. i) es' k) \<noteq> parts read (copies r es k)}"
  proof -
    have "set (d_restamped_edges d) = {k. \<exists>s now. bt_get old k = Some s \<and> bt_get new k = Some now \<and>
        f_confidence now = f_confidence s \<and> f_cell now \<noteq> f_cell s}"
      unfolding d using entry by (fastforce split: option.splits if_splits)
    also have "\<dots> = {k \<in> edge_keys r es \<inter> edge_keys (\<lambda>i. i) es'.
      strongest (econfidence ` copies (\<lambda>i. i) es' k) = strongest (econfidence ` copies r es k) \<and>
      parts read (copies (\<lambda>i. i) es' k) \<noteq> parts read (copies r es k)}"
    proof (rule Collect_cong)
      fix k
      show "(\<exists>s now. bt_get old k = Some s \<and> bt_get new k = Some now \<and>
          f_confidence now = f_confidence s \<and> f_cell now \<noteq> f_cell s) \<longleftrightarrow>
        k \<in> edge_keys r es \<inter> edge_keys (\<lambda>i. i) es' \<and>
        strongest (econfidence ` copies (\<lambda>i. i) es' k) = strongest (econfidence ` copies r es k) \<and>
        parts read (copies (\<lambda>i. i) es' k) \<noteq> parts read (copies r es k)"
        unfolding both
      proof (cases "bt_get old k")
        case (Some s)
        note s = Some slot(1) [OF Some]
        show "(\<exists>s now. bt_get old k = Some s \<and> bt_get new k = Some now \<and>
          f_confidence now = f_confidence s \<and> f_cell now \<noteq> f_cell s) \<longleftrightarrow>
          (\<exists>s now. bt_get old k = Some s \<and> bt_get new k = Some now) \<and>
          strongest (econfidence ` copies (\<lambda>i. i) es' k) = strongest (econfidence ` copies r es k) \<and>
          parts read (copies (\<lambda>i. i) es' k) \<noteq> parts read (copies r es k)"
        proof (cases "bt_get new k")
          case now: (Some n)
          show ?thesis by (simp add: s now slot(2) [OF now])
        qed simp
      qed simp
    qed
    finally show ?thesis .
  qed
qed

subsection \<open>Properties\<close>

text \<open>
  C20: the moves a delta applies are pairs of the given list that take a node of the before side to
  a different node of the after side, no two from or to the same id; the rest are counted as
  ignored. Renaming by them never folds two ids the before side names (as a node or as the end of
  an edge) into one.
\<close>

theorem delta_moves_are_injective:
  "set (d_moved_nodes (graph_delta before after opts)) \<subseteq>
     {(b, a) \<in> set (do_moves opts). b \<noteq> a \<and> b \<in> node_set before \<and> a \<in> node_set after} \<and>
   distinct (map fst (d_moved_nodes (graph_delta before after opts))) \<and>
   distinct (map snd (d_moved_nodes (graph_delta before after opts))) \<and>
   d_ignored_moves (graph_delta before after opts) + length (d_moved_nodes (graph_delta before after opts)) =
     length (do_moves opts) \<and>
   inj_on (delta_remap (graph_delta before after opts))
     (node_set before \<union> efrom ` set (ds_edges before) \<union> eto ` set (ds_edges before))"
proof -
  obtain moves ignored where m:
    "accept_moves (do_moves opts) before (content before (set (do_content_cells opts)))
      (content after (set (do_content_cells opts))) = (moves, ignored)"
    "d_moved_nodes (graph_delta before after opts) = moves"
    "d_ignored_moves (graph_delta before after opts) = ignored"
    "delta_remap (graph_delta before after opts) = remap_by moves" by (rule delta_parts)
  note spec = accept_moves_spec [OF m(1)]
  have "set moves \<subseteq> {(b, a) \<in> set (do_moves opts). b \<noteq> a \<and> b \<in> node_set before \<and> a \<in> node_set after}"
    using spec(3) by auto
  then show ?thesis
    using spec(2,4) bt_ok_distinct [OF spec(1)] remap_inj [OF m(1)]
    by (simp add: m(2-4) named_ids_def end_ids_def Un_assoc)
qed

text \<open>
  C21: the node lists of a delta. Removed: the before nodes whose new id the after side lacks.
  Added: the after nodes that are no before node's new id. Modified: the after nodes whose set of
  content texts differs from that of the before node they were. Each list is ascending; and the
  before nodes renamed, less the removed, plus the added, are exactly the after nodes.
\<close>

theorem delta_patches_nodes:
  "d_removed_nodes (graph_delta before after opts) =
     sorted_list_of_set {b \<in> node_set before. delta_remap (graph_delta before after opts) b \<notin> node_set after} \<and>
   d_added_nodes (graph_delta before after opts) =
     sorted_list_of_set (node_set after - delta_remap (graph_delta before after opts) ` node_set before) \<and>
   d_modified_nodes (graph_delta before after opts) =
     sorted_list_of_set {a \<in> node_set after. \<exists>b \<in> node_set before. delta_remap (graph_delta before after opts) b = a \<and>
       texts before (set (do_content_cells opts)) b \<noteq> texts after (set (do_content_cells opts)) a} \<and>
   delta_remap (graph_delta before after opts) `
       (node_set before - set (d_removed_nodes (graph_delta before after opts))) \<union>
     set (d_added_nodes (graph_delta before after opts)) = node_set after"
proof -
  have fin: "finite (node_set s)" for s by (simp add: node_set_def)
  show ?thesis using delta_nodes [of before after opts] fin by auto
qed

text \<open>
  C22: the edge lists of a delta, over edge keys. Removed are exactly the before keys whose renaming by
  the moves is no after key, added the after keys no before key is renamed to, so that renaming the
  other before keys and adding the added ones gives the after keys; reconfidenced are the keys on both
  sides whose strongest confidence differs, with the two confidences, and restamped those of equal
  confidence whose parts of the compared cell differ. Each list is ascending without repetition.
\<close>

theorem delta_patches_edges:
  fixes before after :: delta_side and opts :: delta_options
  defines "d \<equiv> graph_delta before after opts"
  defines "r \<equiv> rename_key (delta_remap d)"
  defines "old \<equiv> (\<lambda>e. EdgeKey (efrom e) (eto e) (ecategory e)) ` set (ds_edges before)"
    and "new \<equiv> (\<lambda>e. EdgeKey (efrom e) (eto e) (ecategory e)) ` set (ds_edges after)"
    and "was \<equiv> copies (delta_remap d) (ds_edges before)"
    and "now \<equiv> copies (\<lambda>i. i) (ds_edges after)"
    and "cells \<equiv> parts (map_option (\<lambda>k. \<lparr>cr_kind = k,
      cr_key = (case do_edge_cell_key opts of None \<Rightarrow> whole_payload | Some f \<Rightarrow> f)\<rparr>) (do_edge_cell opts))"
  shows "d_removed_edges d = sorted_list_of_set {k \<in> old. r k \<notin> new} \<and>
    d_added_edges d = sorted_list_of_set (new - r ` old) \<and>
    r ` (old - set (d_removed_edges d)) \<union> set (d_added_edges d) = new \<and>
    r ` (old - set (d_removed_edges d)) \<inter> set (d_added_edges d) = {} \<and>
    sorted_wrt (<) (map fst (d_reconfidenced_edges d)) \<and>
    set (d_reconfidenced_edges d) = {(k, strongest (econfidence ` was k), strongest (econfidence ` now k)) | k.
      k \<in> r ` old \<inter> new \<and> strongest (econfidence ` now k) \<noteq> strongest (econfidence ` was k)} \<and>
    d_restamped_edges d = sorted_list_of_set {k \<in> r ` old \<inter> new.
      strongest (econfidence ` now k) = strongest (econfidence ` was k) \<and> cells (now k) \<noteq> cells (was k)}"
proof -
  have keys: "edge_keys (\<lambda>i. i) (ds_edges before) = old" "edge_keys (\<lambda>i. i) (ds_edges after) = new"
    "edge_keys (delta_remap d) (ds_edges before) = r ` old"
    unfolding old_def new_def r_def edge_keys_rename [of "delta_remap d"] by (simp_all add: edge_keys_def edge_key_under_def)
  have fin: "finite old" "finite new" by (simp_all add: old_def new_def)
  note e = delta_edges [of before after opts, folded d_def, unfolded keys, folded r_def was_def now_def cells_def]
  have sets: "set (d_removed_edges d) = {k \<in> old. r k \<notin> new}" "set (d_added_edges d) = new - r ` old"
    unfolding e(1,2) using fin by simp_all
  have "r ` (old - set (d_removed_edges d)) \<union> set (d_added_edges d) = new"
    "r ` (old - set (d_removed_edges d)) \<inter> set (d_added_edges d) = {}" unfolding sets by auto
  moreover have "set (d_reconfidenced_edges d) = {(k, strongest (econfidence ` was k), strongest (econfidence ` now k)) | k.
      k \<in> r ` old \<inter> new \<and> strongest (econfidence ` now k) \<noteq> strongest (econfidence ` was k)}"
    unfolding e(3) by blast
  moreover have "d_restamped_edges d = sorted_list_of_set (set (d_restamped_edges d))"
    using e(6) by (simp add: strict_sorted_iff sorted_list_of_set.idem_if_sorted_distinct)
  ultimately show ?thesis using e(1,2,4,5) by (intro conjI) simp_all
qed

end
