(* ===== verification/Timeline.thy ===== *)
theory Timeline
  imports Delta
begin

text \<open>
  Validity intervals over a run of snapshots, \<open>activation/src/algo/timeline.rs\<close>: the builder
  that folds each snapshot pair's delta into open and closed spans, and \<open>finish\<close>. The spans
  that cover a revision are shown to be as many as the items of that revision's snapshot.
\<close>

subsection \<open>Spans and the builder\<close>

record edge_span =
  es_key :: edgekey
  es_from :: nat
  es_until :: "nat option"

record node_span =
  ns_id :: node_id
  ns_from :: nat
  ns_until :: "nat option"
  ns_prior :: "(nat \<times> node_id) list"

record timeline =
  t_revs :: nat
  t_edges :: "edge_span list"
  t_nodes :: "node_span list"
  t_moves_applied :: nat
  t_moves_ignored :: nat

type_synonym node_open = "nat \<times> (nat \<times> node_id) list"

record timeline_builder =
  tb_open_edges :: "(edgekey, nat) btree"
  tb_open_nodes :: "(node_id, node_open) btree"
  tb_closed_edges :: "edge_span list"
  tb_closed_nodes :: "node_span list"
  tb_rev :: nat
  tb_moves_applied :: nat
  tb_moves_ignored :: nat

text \<open>\<open>u32::saturating_add(1)\<close>.\<close>

definition next_rev :: "nat \<Rightarrow> nat" where
  "next_rev r = min (Suc r) (2 ^ 32 - 1)"

definition tb_new :: "delta_side \<Rightarrow> timeline_builder" where
  "tb_new first =
     (let d = graph_delta delta_side_empty first delta_options_default
      in \<lparr>tb_open_edges = bt_collect (map (\<lambda>k. (k, 0)) (d_added_edges d)),
          tb_open_nodes = bt_collect (map (\<lambda>i. (i, (0, []))) (d_added_nodes d)),
          tb_closed_edges = [], tb_closed_nodes = [], tb_rev = 0,
          tb_moves_applied = 0, tb_moves_ignored = 0\<rparr>)"

fun close_edge :: "nat \<Rightarrow> edgekey \<Rightarrow> (edgekey, nat) btree \<times> edge_span list \<Rightarrow>
    (edgekey, nat) btree \<times> edge_span list" where
  "close_edge rv k (opens, closed) =
     (case bt_get opens k of
        None \<Rightarrow> (opens, closed)
      | Some from \<Rightarrow>
          (bt_remove k opens, closed @ [\<lparr>es_key = k, es_from = from, es_until = Some rv\<rparr>]))"

fun close_node :: "nat \<Rightarrow> node_id \<Rightarrow> (node_id, node_open) btree \<times> node_span list \<Rightarrow>
    (node_id, node_open) btree \<times> node_span list" where
  "close_node rv i (opens, closed) =
     (case bt_get opens i of
        None \<Rightarrow> (opens, closed)
      | Some (from, prior) \<Rightarrow>
          (bt_remove i opens,
           closed @ [\<lparr>ns_id = i, ns_from = from, ns_until = Some rv, ns_prior = prior\<rparr>]))"

definition carry_edges :: "move_map \<Rightarrow> (edgekey, nat) btree \<Rightarrow> (edgekey, nat) btree" where
  "carry_edges moved opens =
     bt_collect (map (\<lambda>p. (EdgeKey (remap_by moved (k_from (fst p))) (remap_by moved (k_to (fst p)))
       (k_category (fst p)), snd p)) opens)"

definition carry_nodes :: "nat \<Rightarrow> move_map \<Rightarrow> (node_id, node_open) btree \<Rightarrow> (node_id, node_open) btree" where
  "carry_nodes rv moved opens =
     bt_collect (map (\<lambda>(i, from, prior). case bt_get moved i of
         Some to \<Rightarrow> (to, from, prior @ [(rv, i)])
       | None \<Rightarrow> (i, from, prior)) opens)"

definition or_insert :: "'v \<Rightarrow> 'k::linorder \<Rightarrow> ('k, 'v) btree \<Rightarrow> ('k, 'v) btree" where
  "or_insert v k m = (case bt_get m k of None \<Rightarrow> bt_insert k v m | Some w \<Rightarrow> m)"

definition tb_push :: "timeline_builder \<Rightarrow> delta_side \<Rightarrow> delta_side \<Rightarrow> (node_id \<times> node_id) list \<Rightarrow>
    timeline_builder" where
  "tb_push tb prev next_side moves =
     (let rv = next_rev (tb_rev tb);
          d = graph_delta prev next_side (delta_options_default\<lparr>do_moves := moves\<rparr>);
          (open_edges, closed_edges) =
            fold (close_edge rv) (d_removed_edges d) (tb_open_edges tb, tb_closed_edges tb);
          (open_nodes, closed_nodes) =
            fold (close_node rv) (d_removed_nodes d) (tb_open_nodes tb, tb_closed_nodes tb);
          moved = bt_collect (d_moved_nodes d);
          open_edges = (if d_moved_nodes d = [] then open_edges else carry_edges moved open_edges);
          open_nodes = (if d_moved_nodes d = [] then open_nodes else carry_nodes rv moved open_nodes)
      in \<lparr>tb_open_edges = fold (or_insert rv) (d_added_edges d) open_edges,
          tb_open_nodes = fold (or_insert (rv, [])) (d_added_nodes d) open_nodes,
          tb_closed_edges = closed_edges, tb_closed_nodes = closed_nodes, tb_rev = rv,
          tb_moves_applied = tb_moves_applied tb + length (d_moved_nodes d),
          tb_moves_ignored = tb_moves_ignored tb + d_ignored_moves d\<rparr>)"

fun until_order :: "nat option \<Rightarrow> nat option \<Rightarrow> ordering" where
  "until_order (Some x) (Some y) = cmp_of x y"
| "until_order (Some x) None = Less"
| "until_order None (Some y) = Greater"
| "until_order None None = Equal"

definition edge_span_cmp :: "edge_span \<Rightarrow> edge_span \<Rightarrow> ordering" where
  "edge_span_cmp a b =
     then_with (cmp_of (es_from a, es_key a) (es_from b, es_key b)) (until_order (es_until a) (es_until b))"

definition node_span_cmp :: "node_span \<Rightarrow> node_span \<Rightarrow> ordering" where
  "node_span_cmp a b =
     then_with (cmp_of (ns_from a, ns_id a) (ns_from b, ns_id b)) (until_order (ns_until a) (ns_until b))"

definition tb_finish :: "timeline_builder \<Rightarrow> timeline" where
  "tb_finish tb =
     \<lparr>t_revs = next_rev (tb_rev tb),
      t_edges = sort_cmp edge_span_cmp (tb_closed_edges tb @
        map (\<lambda>(k, from). \<lparr>es_key = k, es_from = from, es_until = None\<rparr>) (tb_open_edges tb)),
      t_nodes = sort_cmp node_span_cmp (tb_closed_nodes tb @
        map (\<lambda>(i, from, prior). \<lparr>ns_id = i, ns_from = from, ns_until = None, ns_prior = prior\<rparr>)
          (tb_open_nodes tb)),
      t_moves_applied = tb_moves_applied tb, t_moves_ignored = tb_moves_ignored tb\<rparr>"

text \<open>A run as \<open>push\<close> asks for it: each call gets the snapshot folded last and the next one.\<close>

fun tb_run :: "timeline_builder \<Rightarrow> delta_side \<Rightarrow> (delta_side \<times> (node_id \<times> node_id) list) list \<Rightarrow>
    timeline_builder" where
  "tb_run tb prev [] = tb"
| "tb_run tb prev ((s, moves) # steps) = tb_run (tb_push tb prev s moves) s steps"

subsection \<open>The order of the edge spans\<close>

lemma until_order_eq:
  "until_order a b = Equal \<longleftrightarrow> a = b"
  "until_order b a = flip_ordering (until_order a b)"
  "until_order a b = Less \<Longrightarrow> until_order b c = Less \<Longrightarrow> until_order a c = Less"
proof -
  show "until_order a b = Equal \<longleftrightarrow> a = b" by (cases a; cases b) auto
  show "until_order b a = flip_ordering (until_order a b)"
    using raw.cmp_flip by (cases a; cases b) auto
  show "until_order a b = Less \<Longrightarrow> until_order b c = Less \<Longrightarrow> until_order a c = Less"
    by (cases a; cases b; cases c) auto
qed

lemma then_with_flip: "flip_ordering (then_with a b) = then_with (flip_ordering a) (flip_ordering b)"
  by (cases a) simp_all

interpretation edge_spans: total_cmp edge_span_cmp
proof (unfold_locales, goal_cases)
  case (1 a b)
  then show ?case
    by (auto simp: edge_span_cmp_def then_with_eq until_order_eq(1))
next
  case (2 b a)
  then show ?case
    unfolding edge_span_cmp_def then_with_flip
    by (subst raw.cmp_flip, subst until_order_eq(2), rule refl)
next
  case (3 a b c)
  have lex: "x < y \<or> x = y \<and> p = Less \<Longrightarrow> y < z \<or> y = z \<and> q = Less \<Longrightarrow>
      (p = Less \<Longrightarrow> q = Less \<Longrightarrow> r = Less) \<Longrightarrow> x < z \<or> x = z \<and> r = Less"
    for x y z :: "nat \<times> edgekey" and p q r
    by (metis order_less_trans)
  show ?case
    using 3 unfolding edge_span_cmp_def then_with_eq cmp_of_simps
    by (rule lex) (rule until_order_eq(3))
qed

subsection \<open>Counting over the open maps\<close>

lemma mset_or_insert: "bt_get m k = None \<Longrightarrow> mset (or_insert v k m) = add_mset (k, v) (mset m)"
  by (simp add: or_insert_def mset_bt_insert)

lemma fold_or_insert:
  assumes "bt_ok m" and "distinct ks" and "set ks \<inter> fst ` set m = {}"
  shows "bt_ok (fold (or_insert v) ks m) \<and> mset (fold (or_insert v) ks m) = mset (map (\<lambda>k. (k, v)) ks) + mset m"
  using assms
proof (induction ks arbitrary: m)
  case (Cons k ks)
  have none: "bt_get m k = None" using Cons.prems(3) by (simp add: bt_get_None)
  then have ok: "bt_ok (or_insert v k m)" using Cons.prems(1) by (simp add: or_insert_def bt_insert_ok)
  have ms: "mset (or_insert v k m) = add_mset (k, v) (mset m)" by (rule mset_or_insert [OF none])
  have "fst ` set (or_insert v k m) = insert k (fst ` set m)" using none by (simp add: or_insert_def)
  then have "set ks \<inter> fst ` set (or_insert v k m) = {}" using Cons.prems(2,3) by auto
  then show ?case using Cons.IH [OF ok] Cons.prems(2) ms by simp
qed simp

lemma mset_bt_collect:
  assumes "distinct (map fst xs)"
  shows "mset (bt_collect xs) = mset xs"
proof -
  have "mset (fold (\<lambda>(k, v). bt_insert k v) xs m) = mset xs + mset m"
    if "distinct (map fst xs)" "fst ` set xs \<inter> fst ` set m = {}" for xs and m :: "('a, 'b) btree"
    using that
  proof (induction xs arbitrary: m)
    case (Cons x xs)
    obtain k v where x: "x = (k, v)" by (cases x)
    have "bt_get m k = None" using Cons.prems(2) by (simp add: x bt_get_None)
    then have "mset (bt_insert k v m) = add_mset (k, v) (mset m)" by (rule mset_bt_insert)
    moreover have "fst ` set xs \<inter> fst ` set (bt_insert k v m) = {}" using Cons.prems by (auto simp: x)
    ultimately show ?case using Cons.IH [of "bt_insert k v m"] Cons.prems(1) by (simp add: x)
  qed simp
  from this [of xs "[]"] show ?thesis using assms by (simp add: bt_collect_def)
qed

text \<open>The keys of a map kept or dropped by a removal.\<close>

lemma mset_bt_remove:
  assumes "bt_ok m" and "bt_get m k = Some v"
  shows "mset m = add_mset (k, v) (mset (bt_remove k m))"
proof -
  have mem: "(k, v) \<in> set m" using bt.entries_get [OF assms(1)] assms(2) by blast
  have "filter (\<lambda>p. fst p = k) m = [(k, v)]"
  proof -
    have "\<forall>p \<in> set m. fst p = k \<longleftrightarrow> p = (k, v)"
      using eq_key_imp_eq_value [OF bt_ok_distinct [OF assms(1)]] mem by fastforce
    then have "filter (\<lambda>p. fst p = k) m = filter (\<lambda>p. p = (k, v)) m" by (auto intro: filter_cong)
    also have "\<dots> = [(k, v)]"
    proof -
      have "distinct m" using bt_ok_distinct [OF assms(1)] by (simp add: distinct_map)
      then show ?thesis using mem by (induction m) (auto simp: filter_empty_conv)
    qed
    finally show ?thesis .
  qed
  moreover have "mset m = mset (filter (\<lambda>p. fst p = k) m) + mset (filter (\<lambda>p. fst p \<noteq> k) m)"
    by (simp add: mset_filter)
  ultimately show ?thesis by (simp add: bt_remove_def)
qed

text \<open>
  The spans that cover revision \<open>r\<close>, from the bag of open \<open>(key, from)\<close> pairs and the bag of
  closed \<open>(from, until)\<close> pairs.
\<close>

definition live :: "nat \<Rightarrow> ('k \<times> nat) multiset \<Rightarrow> (nat \<times> nat) multiset \<Rightarrow> nat" where
  "live r opens closed =
     size (filter_mset (\<lambda>p. snd p \<le> r) opens) + size (filter_mset (\<lambda>p. fst p \<le> r \<and> r < snd p) closed)"

lemma live_step:
  assumes "r < rv"
  shows "live r (image_mset (\<lambda>p. (g (fst p), snd p)) (filter_mset keep opens) + image_mset (\<lambda>k. (k, rv)) added)
      (closed + image_mset (\<lambda>p. (snd p, rv)) (filter_mset (\<lambda>p. \<not> keep p) opens)) = live r opens closed"
proof -
  have "size (filter_mset (\<lambda>p. snd p \<le> r) (image_mset (\<lambda>k. (k, rv)) added)) = 0"
    using assms by (induction added) auto
  moreover have "size (filter_mset (\<lambda>p. snd p \<le> r) (image_mset (\<lambda>p. (g (fst p), snd p)) (filter_mset keep opens))) =
      size (filter_mset (\<lambda>p. snd p \<le> r) (filter_mset keep opens))"
    by (simp add: filter_mset_image_mset)
  moreover have "size (filter_mset (\<lambda>p. fst p \<le> r \<and> r < snd p)
        (image_mset (\<lambda>p. (snd p, rv)) (filter_mset (\<lambda>p. \<not> keep p) opens))) =
      size (filter_mset (\<lambda>p. snd p \<le> r) (filter_mset (\<lambda>p. \<not> keep p) opens))"
    using assms by (simp add: filter_mset_image_mset)
  moreover have "size (filter_mset (\<lambda>p. snd p \<le> r) (filter_mset keep opens)) +
      size (filter_mset (\<lambda>p. snd p \<le> r) (filter_mset (\<lambda>p. \<not> keep p) opens)) =
      size (filter_mset (\<lambda>p. snd p \<le> r) opens)"
    by (induction opens) auto
  ultimately show ?thesis unfolding live_def filter_union_mset size_union by linarith
qed

lemma live_now:
  assumes "\<forall>p \<in># opens. snd p \<le> r" and "\<forall>p \<in># closed. snd p \<le> r"
  shows "live r opens closed = size opens"
proof -
  have "filter_mset (\<lambda>p. snd p \<le> r) opens = opens" using assms(1) by (simp add: filter_mset_eq_conv)
  moreover have "filter_mset (\<lambda>p. fst p \<le> r \<and> r < snd p) closed = {#}"
    using assms(2) by (induction closed) auto
  ultimately show ?thesis by (simp add: live_def)
qed

subsection \<open>One push\<close>

definition edge_opens :: "timeline_builder \<Rightarrow> (edgekey \<times> nat) multiset" where
  "edge_opens tb = mset (tb_open_edges tb)"

definition edge_closed :: "edge_span list \<Rightarrow> (nat \<times> nat) multiset" where
  "edge_closed cs = mset (map (\<lambda>s. (es_from s, the (es_until s))) cs)"

definition node_pair :: "node_id \<times> node_open \<Rightarrow> node_id \<times> nat" where
  "node_pair p = (fst p, fst (snd p))"

definition node_opens :: "timeline_builder \<Rightarrow> (node_id \<times> nat) multiset" where
  "node_opens tb = mset (map node_pair (tb_open_nodes tb))"

definition node_closed :: "node_span list \<Rightarrow> (nat \<times> nat) multiset" where
  "node_closed cs = mset (map (\<lambda>s. (ns_from s, the (ns_until s))) cs)"

lemma close_edges:
  assumes "bt_ok opens" and "distinct ks" and "set ks \<subseteq> fst ` set opens"
  shows "\<exists>closed'. fold (close_edge rv) ks (opens, closed) = (filter (\<lambda>p. fst p \<notin> set ks) opens, closed') \<and>
    edge_closed closed' = edge_closed closed +
      image_mset (\<lambda>p. (snd p, rv)) (filter_mset (\<lambda>p. fst p \<in> set ks) (mset opens)) \<and>
    (\<exists>new. closed' = closed @ new \<and> (\<forall>s \<in> set new. es_until s = Some rv))"
  using assms
proof (induction ks arbitrary: opens closed)
  case Nil
  then show ?case by simp
next
  case (Cons k ks)
  obtain f where f: "bt_get opens k = Some f"
    using Cons.prems(3) bt_get_None [of opens k] by (cases "bt_get opens k") auto
  let ?span = "\<lparr>es_key = k, es_from = f, es_until = Some rv\<rparr>"
  have step: "close_edge rv k (opens, closed) = (bt_remove k opens, closed @ [?span])" using f by simp
  have ks: "distinct ks" "k \<notin> set ks" using Cons.prems(2) by auto
  have "set ks \<subseteq> fst ` set (bt_remove k opens)"
  proof
    fix x assume "x \<in> set ks"
    then have "x \<in> fst ` set opens" "x \<noteq> k" using Cons.prems(3) ks(2) by auto
    then show "x \<in> fst ` set (bt_remove k opens)" by (auto simp: bt_remove_def)
  qed
  then obtain closed' where IH: "fold (close_edge rv) ks (bt_remove k opens, closed @ [?span]) =
      (filter (\<lambda>p. fst p \<notin> set ks) (bt_remove k opens), closed')"
    "edge_closed closed' = edge_closed (closed @ [?span]) +
      image_mset (\<lambda>p. (snd p, rv)) (filter_mset (\<lambda>p. fst p \<in> set ks) (mset (bt_remove k opens)))"
    "\<exists>new. closed' = (closed @ [?span]) @ new \<and> (\<forall>s \<in> set new. es_until s = Some rv)"
    using Cons.IH [OF bt_remove_ok [OF Cons.prems(1)] ks(1)] by blast
  have "filter (\<lambda>p. fst p \<notin> set ks) (bt_remove k opens) = filter (\<lambda>p. fst p \<notin> set (k # ks)) opens"
    by (auto simp: bt_remove_def intro: filter_cong)
  moreover have "filter_mset (\<lambda>p. fst p \<in> set (k # ks)) (mset opens) =
      add_mset (k, f) (filter_mset (\<lambda>p. fst p \<in> set ks) (mset (bt_remove k opens)))"
  proof -
    have "filter_mset (\<lambda>p. fst p \<in> set (k # ks)) (mset (bt_remove k opens)) =
        filter_mset (\<lambda>p. fst p \<in> set ks) (mset (bt_remove k opens))"
      by (rule filter_mset_cong) (auto simp: bt_remove_def)
    then show ?thesis unfolding mset_bt_remove [OF Cons.prems(1) f] by simp
  qed
  ultimately show ?case
    using IH unfolding fold_simps comp_apply step by (auto simp: edge_closed_def)
qed

lemma close_nodes:
  assumes "bt_ok opens" and "distinct ks" and "set ks \<subseteq> fst ` set opens"
  shows "\<exists>closed'. fold (close_node rv) ks (opens, closed) = (filter (\<lambda>p. fst p \<notin> set ks) opens, closed') \<and>
    node_closed closed' = node_closed closed +
      image_mset (\<lambda>p. (snd p, rv)) (filter_mset (\<lambda>p. fst p \<in> set ks) (mset (map node_pair opens))) \<and>
    (\<exists>new. closed' = closed @ new \<and> (\<forall>s \<in> set new. ns_until s = Some rv))"
  using assms
proof (induction ks arbitrary: opens closed)
  case Nil
  then show ?case by simp
next
  case (Cons k ks)
  obtain f prior where f: "bt_get opens k = Some (f, prior)"
    using Cons.prems(3) bt_get_None [of opens k] by (cases "bt_get opens k") auto
  let ?span = "\<lparr>ns_id = k, ns_from = f, ns_until = Some rv, ns_prior = prior\<rparr>"
  have step: "close_node rv k (opens, closed) = (bt_remove k opens, closed @ [?span])" using f by simp
  have ks: "distinct ks" "k \<notin> set ks" using Cons.prems(2) by auto
  have "set ks \<subseteq> fst ` set (bt_remove k opens)"
  proof
    fix x assume "x \<in> set ks"
    then have "x \<in> fst ` set opens" "x \<noteq> k" using Cons.prems(3) ks(2) by auto
    then show "x \<in> fst ` set (bt_remove k opens)" by (auto simp: bt_remove_def)
  qed
  then obtain closed' where IH: "fold (close_node rv) ks (bt_remove k opens, closed @ [?span]) =
      (filter (\<lambda>p. fst p \<notin> set ks) (bt_remove k opens), closed')"
    "node_closed closed' = node_closed (closed @ [?span]) +
      image_mset (\<lambda>p. (snd p, rv)) (filter_mset (\<lambda>p. fst p \<in> set ks) (mset (map node_pair (bt_remove k opens))))"
    "\<exists>new. closed' = (closed @ [?span]) @ new \<and> (\<forall>s \<in> set new. ns_until s = Some rv)"
    using Cons.IH [OF bt_remove_ok [OF Cons.prems(1)] ks(1)] by blast
  have "filter (\<lambda>p. fst p \<notin> set ks) (bt_remove k opens) = filter (\<lambda>p. fst p \<notin> set (k # ks)) opens"
    by (auto simp: bt_remove_def intro: filter_cong)
  moreover have "filter_mset (\<lambda>p. fst p \<in> set (k # ks)) (mset (map node_pair opens)) =
      add_mset (k, f) (filter_mset (\<lambda>p. fst p \<in> set ks) (mset (map node_pair (bt_remove k opens))))"
  proof -
    have "filter_mset (\<lambda>p. fst p \<in> set (k # ks)) (mset (map node_pair (bt_remove k opens))) =
        filter_mset (\<lambda>p. fst p \<in> set ks) (mset (map node_pair (bt_remove k opens)))"
      by (rule filter_mset_cong) (auto simp: bt_remove_def node_pair_def)
    then show ?thesis
      unfolding mset_map mset_bt_remove [OF Cons.prems(1) f] by (simp add: node_pair_def)
  qed
  ultimately show ?case
    using IH unfolding fold_simps comp_apply step by (auto simp: node_closed_def)
qed

lemma reopen:
  assumes "bt_ok m2" and "inj_on g (fst ` set m)" and "finite N"
    and "mset m2 = image_mset (\<lambda>p. (g (fst p), h p)) (filter_mset (\<lambda>p. g (fst p) \<in> N) (mset m))"
  defines "ks \<equiv> sorted_list_of_set (N - g ` fst ` set m)"
  shows "bt_ok (fold (or_insert v) ks m2)" and "fst ` set (fold (or_insert v) ks m2) = N"
    and "mset (fold (or_insert v) ks m2) = image_mset (\<lambda>k. (k, v)) (mset_set (N - g ` fst ` set m)) +
      image_mset (\<lambda>p. (g (fst p), h p)) (filter_mset (\<lambda>p. g (fst p) \<in> N) (mset m))"
proof -
  have ks: "distinct ks" "set ks = N - g ` fst ` set m" using assms(3) by (simp_all add: ks_def)
  have "set m2 = (\<lambda>p. (g (fst p), h p)) ` {p \<in> set m. g (fst p) \<in> N}"
    using arg_cong [OF assms(4), of set_mset] by simp
  then have keys: "fst ` set m2 = g ` fst ` set m \<inter> N" by (simp add: image_image) blast
  then have "set ks \<inter> fst ` set m2 = {}" using ks(2) by auto
  note fold = fold_or_insert [OF assms(1) ks(1) this, of v]
  show "bt_ok (fold (or_insert v) ks m2)" using fold by blast
  have ms: "mset ks = mset_set (N - g ` fst ` set m)"
    using mset_set_set [OF ks(1)] by (simp only: ks(2))
  have "mset (fold (or_insert v) ks m2) = image_mset (\<lambda>k. (k, v)) (mset ks) + mset m2"
    using fold by simp
  then show m: "mset (fold (or_insert v) ks m2) = image_mset (\<lambda>k. (k, v)) (mset_set (N - g ` fst ` set m)) +
      image_mset (\<lambda>p. (g (fst p), h p)) (filter_mset (\<lambda>p. g (fst p) \<in> N) (mset m))"
    unfolding ms assms(4) .
  have "set (fold (or_insert v) ks m2) = (\<lambda>k. (k, v)) ` set ks \<union> set m2"
    using arg_cong [OF conjunct2 [OF fold], of set_mset] by simp
  then have "fst ` set (fold (or_insert v) ks m2) = set ks \<union> fst ` set m2"
    by (simp add: image_Un image_image)
  then show "fst ` set (fold (or_insert v) ks m2) = N" using keys ks(2) by auto
qed

lemma filter_closed:
  assumes "ks = sorted_list_of_set {k \<in> fst ` set m. g k \<notin> N}"
  shows "filter (\<lambda>p. fst p \<notin> set ks) m = filter (\<lambda>p. g (fst p) \<in> N) m"
    and "distinct ks" and "set ks \<subseteq> fst ` set m"
    and "filter_mset (\<lambda>p. fst p \<in> set ks) (mset m) = filter_mset (\<lambda>p. g (fst p) \<notin> N) (mset m)"
proof -
  have ks: "set ks = {k \<in> fst ` set m. g k \<notin> N}" by (simp add: assms)
  show "filter (\<lambda>p. fst p \<notin> set ks) m = filter (\<lambda>p. g (fst p) \<in> N) m"
    by (rule filter_cong) (auto simp: ks)
  show "filter_mset (\<lambda>p. fst p \<in> set ks) (mset m) = filter_mset (\<lambda>p. g (fst p) \<notin> N) (mset m)"
    by (rule filter_mset_cong) (auto simp: ks)
  show "distinct ks" "set ks \<subseteq> fst ` set m" by (simp_all add: assms)
qed

lemma carry_mset:
  assumes "bt_ok m" and "inj_on g (fst ` set m)"
  shows "mset (bt_collect (map (\<lambda>p. (g (fst p), h p)) (filter (\<lambda>p. g (fst p) \<in> N) m))) =
    image_mset (\<lambda>p. (g (fst p), h p)) (filter_mset (\<lambda>p. g (fst p) \<in> N) (mset m))"
proof -
  have "inj_on (g \<circ> fst) (set m)"
    using assms(2) bt_ok_distinct [OF assms(1)] by (auto simp: distinct_map intro: comp_inj_on)
  then have "distinct (map fst (map (\<lambda>p. (g (fst p), h p)) (filter (\<lambda>p. g (fst p) \<in> N) m)))"
    using bt_ok_distinct [OF assms(1)] by (auto simp: distinct_map o_def intro: inj_on_subset)
  then show ?thesis by (simp add: mset_bt_collect)
qed

definition node_carry :: "nat \<Rightarrow> move_map \<Rightarrow> node_id \<times> node_open \<Rightarrow> node_open" where
  "node_carry rv moved p =
     (fst (snd p), if bt_get moved (fst p) = None then snd (snd p) else snd (snd p) @ [(rv, fst p)])"

lemma carry_eqs:
  "carry_edges moved m = bt_collect (map (\<lambda>p. (rename_key (remap_by moved) (fst p), snd p)) m)"
  "carry_nodes rv moved ns = bt_collect (map (\<lambda>p. (remap_by moved (fst p), node_carry rv moved p)) ns)"
  unfolding carry_edges_def carry_nodes_def rename_key_def node_carry_def remap_by_def
  by (auto intro!: arg_cong [of _ _ bt_collect] map_cong split: option.split)

definition tb_inv :: "timeline_builder \<Rightarrow> delta_side \<Rightarrow> bool" where
  "tb_inv tb side \<longleftrightarrow> bt_ok (tb_open_edges tb) \<and> bt_ok (tb_open_nodes tb) \<and>
     fst ` set (tb_open_edges tb) = edge_keys (\<lambda>i. i) (ds_edges side) \<and>
     fst ` set (tb_open_nodes tb) = node_set side \<and>
     (\<forall>p \<in> set (tb_open_edges tb). snd p \<le> tb_rev tb) \<and>
     (\<forall>p \<in> set (tb_open_nodes tb). fst (snd p) \<le> tb_rev tb) \<and>
     (\<forall>s \<in> set (tb_closed_edges tb). \<exists>u \<le> tb_rev tb. es_until s = Some u) \<and>
     (\<forall>s \<in> set (tb_closed_nodes tb). \<exists>u \<le> tb_rev tb. ns_until s = Some u)"

lemma remap_by_nil: "remap_by [] i = i" "rename_key (remap_by []) k = k"
  by (simp_all add: remap_by_def rename_key_def)

lemma delta_remap_collect:
  "remap_by (bt_collect (d_moved_nodes (graph_delta before after opts))) = delta_remap (graph_delta before after opts)"
proof -
  have "distinct (map fst (d_moved_nodes (graph_delta before after opts)))"
    using delta_parts [of opts before after] accept_moves_spec(1) bt_ok_distinct by metis
  then have "map_of (rev (d_moved_nodes (graph_delta before after opts))) = map_of (d_moved_nodes (graph_delta before after opts))"
    by (simp add: map_of_inject_set rev_map [symmetric])
  then show ?thesis by (simp add: fun_eq_iff remap_by_def delta_remap_def bt_get_collect)
qed

lemma delta_inj:
  "inj_on (rename_key (delta_remap (graph_delta before after opts))) (edge_keys (\<lambda>i. i) (ds_edges before))"
  "inj_on (delta_remap (graph_delta before after opts)) (node_set before)"
proof -
  have "inj_on (delta_remap (graph_delta before after opts)) (named_ids before)"
    using delta_parts [of opts before after] remap_inj by metis
  then show "inj_on (rename_key (delta_remap (graph_delta before after opts))) (edge_keys (\<lambda>i. i) (ds_edges before))"
    "inj_on (delta_remap (graph_delta before after opts)) (node_set before)"
    by (auto intro!: rename_key_inj intro: inj_on_subset simp: named_ids_def)
qed

lemma push_spec:
  fixes s :: delta_side and moves :: "(node_id \<times> node_id) list"
  assumes inv: "tb_inv tb prev" and small: "tb_rev tb < 2 ^ 32 - 1"
  defines "tb' \<equiv> tb_push tb prev s moves"
  shows "tb_inv tb' s" and "tb_rev tb' = Suc (tb_rev tb)"
    and "r \<le> tb_rev tb \<Longrightarrow> live r (edge_opens tb') (edge_closed (tb_closed_edges tb')) =
      live r (edge_opens tb) (edge_closed (tb_closed_edges tb))"
    and "r \<le> tb_rev tb \<Longrightarrow> live r (node_opens tb') (node_closed (tb_closed_nodes tb')) =
      live r (node_opens tb) (node_closed (tb_closed_nodes tb))"
    and "tb_moves_applied tb' + tb_moves_ignored tb' =
      tb_moves_applied tb + tb_moves_ignored tb + length moves"
proof -
  define rv where "rv = Suc (tb_rev tb)"
  define d where "d = graph_delta prev s (delta_options_default\<lparr>do_moves := moves\<rparr>)"
  define moved where "moved = bt_collect (d_moved_nodes d)"
  define g where "g = delta_remap d"
  have rv: "next_rev (tb_rev tb) = rv" using small by (simp add: next_rev_def rv_def)
  have g: "remap_by moved = g" unfolding moved_def g_def d_def by (rule delta_remap_collect)
  have still: "g = (\<lambda>i. i)" if "d_moved_nodes d = []"
    using that by (simp add: g_def delta_remap_def fun_eq_iff)
  let ?E = "edge_keys (\<lambda>i. i) (ds_edges s)" and ?N = "node_set s"
  let ?oe = "tb_open_edges tb" and ?on = "tb_open_nodes tb"
  note i = inv [unfolded tb_inv_def]
  have oe: "bt_ok ?oe" "fst ` set ?oe = edge_keys (\<lambda>i. i) (ds_edges prev)"
    and on: "bt_ok ?on" "fst ` set ?on = node_set prev" using i by auto
  have fin: "finite ?E" "finite ?N" by (simp_all add: edge_keys_def node_set_def)
  have ie: "inj_on (rename_key g) (fst ` set ?oe)" and nn: "inj_on g (fst ` set ?on)"
    unfolding oe(2) on(2) g_def d_def by (rule delta_inj)+
  have re: "d_removed_edges d = sorted_list_of_set {k \<in> fst ` set ?oe. rename_key g k \<notin> ?E}"
    unfolding oe(2) g_def d_def by (rule delta_edges(2))
  have rn: "d_removed_nodes d = sorted_list_of_set {k \<in> fst ` set ?on. g k \<notin> ?N}"
    unfolding on(2) g_def d_def by (rule delta_nodes(1))
  have ae: "d_added_edges d = sorted_list_of_set (?E - rename_key g ` fst ` set ?oe)"
    unfolding oe(2) g_def d_def edge_keys_rename [symmetric] by (rule delta_edges(1))
  have an: "d_added_nodes d = sorted_list_of_set (?N - g ` fst ` set ?on)"
    unfolding on(2) g_def d_def by (rule delta_nodes(2))
  note fe = filter_closed [OF re] and fn = filter_closed [OF rn]
  obtain ce newe where ce: "fold (close_edge rv) (d_removed_edges d) (?oe, tb_closed_edges tb) =
      (filter (\<lambda>p. rename_key g (fst p) \<in> ?E) ?oe, ce)"
    "edge_closed ce = edge_closed (tb_closed_edges tb) +
      image_mset (\<lambda>p. (snd p, rv)) (filter_mset (\<lambda>p. \<not> rename_key g (fst p) \<in> ?E) (mset ?oe))"
    "ce = tb_closed_edges tb @ newe" "\<forall>s \<in> set newe. es_until s = Some rv"
    using close_edges [OF oe(1) fe(2,3), of rv "tb_closed_edges tb"] unfolding fe(1,4)
    by (elim exE conjE) (rule that)
  obtain cn newn where cn: "fold (close_node rv) (d_removed_nodes d) (?on, tb_closed_nodes tb) =
      (filter (\<lambda>p. g (fst p) \<in> ?N) ?on, cn)"
    "node_closed cn = node_closed (tb_closed_nodes tb) +
      image_mset (\<lambda>p. (snd p, rv)) (filter_mset (\<lambda>p. fst p \<in> set (d_removed_nodes d)) (mset (map node_pair ?on)))"
    "cn = tb_closed_nodes tb @ newn" "\<forall>s \<in> set newn. ns_until s = Some rv"
    using close_nodes [OF on(1) fn(2,3), of rv "tb_closed_nodes tb"] unfolding fn(1)
    by (elim exE conjE) (rule that)
  define m2 where "m2 = (if d_moved_nodes d = [] then filter (\<lambda>p. rename_key g (fst p) \<in> ?E) ?oe
    else carry_edges moved (filter (\<lambda>p. rename_key g (fst p) \<in> ?E) ?oe))"
  define n2 where "n2 = (if d_moved_nodes d = [] then filter (\<lambda>p. g (fst p) \<in> ?N) ?on
    else carry_nodes rv moved (filter (\<lambda>p. g (fst p) \<in> ?N) ?on))"
  have ok_filter: "bt_ok m \<Longrightarrow> bt_ok (filter P m)" for m :: "('k::linorder, 'v) btree" and P
    by (simp add: bt_ok_def sorted_wrt_map sorted_wrt_filter)
  have m2: "bt_ok m2" "mset m2 = image_mset (\<lambda>p. (rename_key g (fst p), snd p))
      (filter_mset (\<lambda>p. rename_key g (fst p) \<in> ?E) (mset ?oe))"
  proof -
    show "bt_ok m2" using ok_filter [OF oe(1)] by (simp add: m2_def carry_eqs bt_collect_ok)
    show "mset m2 = image_mset (\<lambda>p. (rename_key g (fst p), snd p))
      (filter_mset (\<lambda>p. rename_key g (fst p) \<in> ?E) (mset ?oe))"
    proof (cases "d_moved_nodes d = []")
      case True
      then have "rename_key g k = k" for k by (simp add: still rename_key_def)
      then show ?thesis using True by (simp add: m2_def)
    next
      case False
      then show ?thesis using carry_mset [OF oe(1) ie] by (simp add: m2_def carry_eqs g)
    qed
  qed
  have n2: "bt_ok n2" "mset n2 = image_mset (\<lambda>p. (g (fst p), node_carry rv moved p))
      (filter_mset (\<lambda>p. g (fst p) \<in> ?N) (mset ?on))"
  proof -
    show "bt_ok n2" using ok_filter [OF on(1)] by (simp add: n2_def carry_eqs bt_collect_ok)
    show "mset n2 = image_mset (\<lambda>p. (g (fst p), node_carry rv moved p))
      (filter_mset (\<lambda>p. g (fst p) \<in> ?N) (mset ?on))"
    proof (cases "d_moved_nodes d = []")
      case True
      then have "node_carry rv moved p = snd p" for p by (simp add: node_carry_def moved_def bt_collect_def)
      then show ?thesis using True still by (simp add: n2_def)
    next
      case False
      then show ?thesis using carry_mset [OF on(1) nn] by (simp add: n2_def carry_eqs g)
    qed
  qed
  note oe' = reopen [OF m2(1) ie fin(1) m2(2), of rv, folded ae]
  note on' = reopen [OF n2(1) nn fin(2) n2(2), of "(rv, [])", folded an]
  have tb': "tb_open_edges tb' = fold (or_insert rv) (d_added_edges d) m2"
    "tb_open_nodes tb' = fold (or_insert (rv, [])) (d_added_nodes d) n2"
    "tb_closed_edges tb' = ce" "tb_closed_nodes tb' = cn" "tb_rev tb' = rv"
    "tb_moves_applied tb' = tb_moves_applied tb + length (d_moved_nodes d)"
    "tb_moves_ignored tb' = tb_moves_ignored tb + d_ignored_moves d"
    by (simp_all only: tb'_def tb_push_def rv Let_def d_def [symmetric] ce(1) cn(1) prod.case
        timeline_builder.simps m2_def n2_def moved_def)
  show "tb_rev tb' = Suc (tb_rev tb)" by (simp add: tb' rv_def)
  show "tb_moves_applied tb' + tb_moves_ignored tb' =
      tb_moves_applied tb + tb_moves_ignored tb + length moves"
    using delta_moves_are_injective [of prev s "delta_options_default\<lparr>do_moves := moves\<rparr>"]
    by (simp add: tb' d_def)
  have se: "set (tb_open_edges tb') = (\<lambda>k. (k, rv)) ` (?E - rename_key g ` fst ` set ?oe) \<union>
      (\<lambda>p. (rename_key g (fst p), snd p)) ` {p \<in> set ?oe. rename_key g (fst p) \<in> ?E}"
    using arg_cong [OF oe'(3), of set_mset] fin by (simp add: tb')
  have sn: "set (tb_open_nodes tb') = (\<lambda>k. (k, (rv, []))) ` (?N - g ` fst ` set ?on) \<union>
      (\<lambda>p. (g (fst p), node_carry rv moved p)) ` {p \<in> set ?on. g (fst p) \<in> ?N}"
    using arg_cong [OF on'(3), of set_mset] fin by (simp add: tb')
  show "tb_inv tb' s"
    unfolding tb_inv_def
  proof (intro conjI)
    show "\<forall>p \<in> set (tb_open_edges tb'). snd p \<le> tb_rev tb'"
      unfolding se tb'(5) using i by (auto simp: rv_def intro: le_SucI)
    show "\<forall>p \<in> set (tb_open_nodes tb'). fst (snd p) \<le> tb_rev tb'"
      unfolding sn tb'(5) using i by (auto simp: rv_def node_carry_def intro: le_SucI)
    show "\<forall>s \<in> set (tb_closed_edges tb'). \<exists>u \<le> tb_rev tb'. es_until s = Some u"
      using i ce(4) by (auto simp: tb' ce(3) rv_def intro: le_SucI)
    show "\<forall>s \<in> set (tb_closed_nodes tb'). \<exists>u \<le> tb_rev tb'. ns_until s = Some u"
      using i cn(4) by (auto simp: tb' cn(3) rv_def intro: le_SucI)
  qed (use oe'(1,2) on'(1,2) in \<open>simp_all add: tb'\<close>)
  assume r: "r \<le> tb_rev tb"
  show "live r (edge_opens tb') (edge_closed (tb_closed_edges tb')) =
      live r (edge_opens tb) (edge_closed (tb_closed_edges tb))"
    unfolding tb' edge_opens_def oe'(3) ce(2)
    using live_step [of r rv "rename_key g" "\<lambda>p. rename_key g (fst p) \<in> ?E" "mset ?oe"] r
    by (simp add: rv_def add.commute)
  have bag: "node_opens tb' = image_mset (\<lambda>p. (g (fst p), snd p))
      (filter_mset (\<lambda>p. g (fst p) \<in> ?N) (mset (map node_pair ?on))) +
      image_mset (\<lambda>k. (k, rv)) (mset_set (?N - g ` fst ` set ?on))"
    unfolding tb' node_opens_def mset_map on'(3)
    by (simp add: image_mset.compositionality o_def node_pair_def node_carry_def filter_mset_image_mset add.commute)
  have gone: "filter_mset (\<lambda>p. fst p \<in> set (d_removed_nodes d)) (mset (map node_pair ?on)) =
      filter_mset (\<lambda>p. \<not> g (fst p) \<in> ?N) (mset (map node_pair ?on))"
    by (rule filter_mset_cong) (auto simp: rn node_pair_def intro: rev_image_eqI)
  show "live r (node_opens tb') (node_closed (tb_closed_nodes tb')) =
      live r (node_opens tb) (node_closed (tb_closed_nodes tb))"
    unfolding bag tb' cn(2) gone node_opens_def [of tb]
    by (rule live_step) (use r in \<open>simp add: rv_def\<close>)
qed

subsection \<open>A run\<close>

lemma new_inv: "tb_inv (tb_new first) first \<and> tb_rev (tb_new first) = 0 \<and>
  tb_moves_applied (tb_new first) = 0 \<and> tb_moves_ignored (tb_new first) = 0"
proof -
  let ?d = "graph_delta delta_side_empty first delta_options_default"
  have e: "d_added_edges ?d = sorted_list_of_set (edge_keys (\<lambda>i. i) (ds_edges first))"
    using delta_edges(1) [of delta_side_empty first delta_options_default]
    by (simp add: delta_side_empty_def edge_keys_def)
  have n: "d_added_nodes ?d = sorted_list_of_set (node_set first)"
    using delta_nodes(2) [of delta_side_empty first delta_options_default]
    by (simp add: delta_side_empty_def node_set_def)
  have fin: "finite (edge_keys (\<lambda>i. i) (ds_edges first))" "finite (node_set first)"
    by (simp_all add: edge_keys_def node_set_def)
  have set: "set (bt_collect (map (\<lambda>k. (k, v)) ks)) = (\<lambda>k. (k, v)) ` set ks"
    if "distinct ks" for ks :: "'k::linorder list" and v :: 'v
    using arg_cong [OF mset_bt_collect [of "map (\<lambda>k. (k, v)) ks"], of set_mset] that by (simp add: o_def)
  show ?thesis
    unfolding tb_inv_def tb_new_def using fin by (simp add: e n set bt_collect_ok image_image)
qed

lemma distinct_keys_size: "bt_ok m \<Longrightarrow> size (mset m) = card (fst ` set m)"
  using distinct_card [OF bt_ok_distinct, of m] by simp

lemma live_self:
  assumes "tb_inv tb prev"
  shows "live (tb_rev tb) (edge_opens tb) (edge_closed (tb_closed_edges tb)) =
      card (edge_keys (\<lambda>i. i) (ds_edges prev)) \<and>
    live (tb_rev tb) (node_opens tb) (node_closed (tb_closed_nodes tb)) = card (node_set prev)"
proof -
  note inv = assms [unfolded tb_inv_def]
  have "live (tb_rev tb) (edge_opens tb) (edge_closed (tb_closed_edges tb)) = size (edge_opens tb)"
    using inv by (intro live_now) (force simp: edge_opens_def edge_closed_def)+
  moreover have "live (tb_rev tb) (node_opens tb) (node_closed (tb_closed_nodes tb)) = size (node_opens tb)"
    using inv by (intro live_now) (force simp: node_opens_def node_closed_def node_pair_def)+
  ultimately show ?thesis
    using distinct_keys_size [of "tb_open_edges tb"] distinct_keys_size [of "tb_open_nodes tb"] inv
    by (simp add: edge_opens_def node_opens_def)
qed

lemma run_spec:
  assumes "tb_inv tb prev" and "tb_rev tb + length steps < 2 ^ 32"
  shows "tb_inv (tb_run tb prev steps) (last (prev # map fst steps)) \<and>
    tb_rev (tb_run tb prev steps) = tb_rev tb + length steps \<and>
    tb_moves_applied (tb_run tb prev steps) + tb_moves_ignored (tb_run tb prev steps) =
      tb_moves_applied tb + tb_moves_ignored tb + sum_list (map (\<lambda>s. length (snd s)) steps) \<and>
    (\<forall>r \<le> tb_rev tb. live r (edge_opens (tb_run tb prev steps)) (edge_closed (tb_closed_edges (tb_run tb prev steps))) =
        live r (edge_opens tb) (edge_closed (tb_closed_edges tb)) \<and>
      live r (node_opens (tb_run tb prev steps)) (node_closed (tb_closed_nodes (tb_run tb prev steps))) =
        live r (node_opens tb) (node_closed (tb_closed_nodes tb))) \<and>
    (\<forall>j \<le> length steps.
      live (tb_rev tb + j) (edge_opens (tb_run tb prev steps)) (edge_closed (tb_closed_edges (tb_run tb prev steps))) =
        card (edge_keys (\<lambda>i. i) (ds_edges ((prev # map fst steps) ! j))) \<and>
      live (tb_rev tb + j) (node_opens (tb_run tb prev steps)) (node_closed (tb_closed_nodes (tb_run tb prev steps))) =
        card (node_set ((prev # map fst steps) ! j)))"
  using assms
proof (induction steps arbitrary: tb prev)
  case Nil
  show ?case using live_self [OF Nil.prems(1)] Nil by simp
next
  case (Cons step steps)
  obtain s moves where step: "step = (s, moves)" by (cases step)
  have "tb_rev tb < 2 ^ 32 - 1" using Cons.prems(2) by simp
  note push = push_spec [OF Cons.prems(1) this, where s = s and moves = moves]
  have "tb_rev (tb_push tb prev s moves) + length steps < 2 ^ 32" using push(2) Cons.prems(2) by simp
  note IH = Cons.IH [OF push(1) this]
  have run: "tb_run tb prev (step # steps) = tb_run (tb_push tb prev s moves) s steps" by (simp add: step)
  have old: "live r (edge_opens (tb_run tb prev (step # steps)))
        (edge_closed (tb_closed_edges (tb_run tb prev (step # steps)))) =
        live r (edge_opens tb) (edge_closed (tb_closed_edges tb)) \<and>
      live r (node_opens (tb_run tb prev (step # steps)))
        (node_closed (tb_closed_nodes (tb_run tb prev (step # steps)))) =
        live r (node_opens tb) (node_closed (tb_closed_nodes tb))" if "r \<le> tb_rev tb" for r
    using IH push(2) push(3,4) [OF that] that unfolding run by simp
  note self = live_self [OF Cons.prems(1)]
  show ?case
  proof (intro conjI allI impI)
    fix j assume j: "j \<le> length (step # steps)"
    show "live (tb_rev tb + j) (edge_opens (tb_run tb prev (step # steps)))
        (edge_closed (tb_closed_edges (tb_run tb prev (step # steps)))) =
        card (edge_keys (\<lambda>i. i) (ds_edges ((prev # map fst (step # steps)) ! j)))"
      "live (tb_rev tb + j) (node_opens (tb_run tb prev (step # steps)))
        (node_closed (tb_closed_nodes (tb_run tb prev (step # steps)))) =
        card (node_set ((prev # map fst (step # steps)) ! j))"
      using old [of "tb_rev tb"] self IH push(2) j unfolding run by (cases j; simp add: step)+
  qed (use old IH push run step in \<open>auto simp del: tb_run.simps\<close>)
qed

definition covers :: "nat \<Rightarrow> nat \<Rightarrow> nat option \<Rightarrow> bool" where
  "covers r from until \<longleftrightarrow> from \<le> r \<and> (case until of None \<Rightarrow> True | Some u \<Rightarrow> r < u)"

lemma finish_live:
  assumes "tb_inv tb prev"
  shows "length (filter (\<lambda>s. covers r (es_from s) (es_until s)) (t_edges (tb_finish tb))) =
      live r (edge_opens tb) (edge_closed (tb_closed_edges tb)) \<and>
    length (filter (\<lambda>s. covers r (ns_from s) (ns_until s)) (t_nodes (tb_finish tb))) =
      live r (node_opens tb) (node_closed (tb_closed_nodes tb))"
proof -
  note inv = assms [unfolded tb_inv_def]
  have sorted: "length (filter P (sort_cmp c xs)) = length (filter P xs)" for P c and xs :: "'x list"
    by (metis mset_filter mset_sort_cmp size_mset)
  have e: "filter (\<lambda>s. covers r (es_from s) (es_until s)) (tb_closed_edges tb) =
      filter (\<lambda>s. es_from s \<le> r \<and> r < the (es_until s)) (tb_closed_edges tb)"
    by (rule filter_cong) (use inv in \<open>auto simp: covers_def\<close>)
  have n: "filter (\<lambda>s. covers r (ns_from s) (ns_until s)) (tb_closed_nodes tb) =
      filter (\<lambda>s. ns_from s \<le> r \<and> r < the (ns_until s)) (tb_closed_nodes tb)"
    by (rule filter_cong) (use inv in \<open>auto simp: covers_def\<close>)
  show ?thesis
    unfolding tb_finish_def timeline.simps sorted live_def edge_opens_def node_opens_def
      edge_closed_def node_closed_def mset_filter [symmetric] size_mset filter_append length_append e n
    by (simp add: filter_map o_def case_prod_beta covers_def node_pair_def)
qed

subsection \<open>Properties\<close>

text \<open>
  C23: a timeline over fewer than \<open>2 ^ 32\<close> snapshots, each pushed with the one before it, has at
  every revision as many edge spans covering it as the snapshot has distinct edge keys, and as many
  node spans as it has nodes, whatever moves were applied; every move pair given is counted once,
  as applied or as ignored.
\<close>

theorem timeline_spans_cover_snapshots:
  assumes "length steps < 2 ^ 32 - 1" and "r \<le> length steps"
    and "t = tb_finish (tb_run (tb_new first) first steps)" and "side = (first # map fst steps) ! r"
  shows "length (filter (\<lambda>s. covers r (es_from s) (es_until s)) (t_edges t)) =
      card ((\<lambda>e. (efrom e, eto e, ecategory e)) ` set (ds_edges side)) \<and>
    length (filter (\<lambda>s. covers r (ns_from s) (ns_until s)) (t_nodes t)) = card (nid ` set (ds_nodes side)) \<and>
    t_revs t = Suc (length steps) \<and>
    t_moves_applied t + t_moves_ignored t = sum_list (map (\<lambda>s. length (snd s)) steps)"
proof -
  define tb where "tb = tb_run (tb_new first) first steps"
  have new: "tb_inv (tb_new first) first" "tb_rev (tb_new first) = 0" using new_inv by auto
  note run = run_spec [OF new(1), of steps, folded tb_def]
  have keys: "edge_keys (\<lambda>i. i) es = (\<lambda>(f, t, c). EdgeKey f t c) ` (\<lambda>e. (efrom e, eto e, ecategory e)) ` set es" for es
    by (simp add: edge_keys_def edge_key_under_def image_image)
  have "inj (\<lambda>(f, t, c). EdgeKey f t c)" by (auto simp: inj_def)
  then have card: "card (edge_keys (\<lambda>i. i) es) = card ((\<lambda>e. (efrom e, eto e, ecategory e)) ` set es)" for es
    unfolding keys by (intro card_image) (auto intro: inj_on_subset)
  have t: "t_revs t = next_rev (tb_rev tb)" "t_moves_applied t = tb_moves_applied tb"
    "t_moves_ignored t = tb_moves_ignored tb"
    by (simp_all add: assms(3) tb_def tb_finish_def)
  have fin: "t = tb_finish tb" by (simp add: assms(3) tb_def)
  have run: "tb_inv tb (last (first # map fst steps))" "tb_rev tb = length steps"
    "tb_moves_applied tb + tb_moves_ignored tb = sum_list (map (\<lambda>s. length (snd s)) steps)"
    "live r (edge_opens tb) (edge_closed (tb_closed_edges tb)) = card (edge_keys (\<lambda>i. i) (ds_edges side))"
    "live r (node_opens tb) (node_closed (tb_closed_nodes tb)) = card (node_set side)"
    using run new_inv [of first] assms(1,2) unfolding assms(4) by auto
  show ?thesis
    using finish_live [OF run(1), of r] run(2-5) assms(1)
    by (simp add: fin [symmetric] t next_rev_def card node_set_def)
qed

definition one_node_side :: "node_id \<Rightarrow> delta_side" where
  "one_node_side i = \<lparr>ds_nodes = [\<lparr>nid = i, nrepo = 0, nconfidence = Strong, ncells = []\<rparr>],
    ds_edges = [edge_new i i 1 Strong]\<rparr>"

theorem timeline_spans_cover_snapshots_witness:
  "length [(one_node_side 2, [(1, 2)])] < 2 ^ 32 - 1 \<and>
   length (filter (\<lambda>s. covers 1 (ns_from s) (ns_until s))
     (t_nodes (tb_finish (tb_run (tb_new (one_node_side 1)) (one_node_side 1) [(one_node_side 2, [(1, 2)])])))) = 1"
  using timeline_spans_cover_snapshots [of "[(one_node_side 2, [(1, 2)])]" 1 _ "one_node_side 1", OF _ _ refl refl]
  by (simp add: one_node_side_def)

end
