(* ===== verification/Chunks.thy ===== *)
theory Chunks
  imports Prelude
begin

text \<open>
  \<open>slice::chunk_by\<close>, the runs of a list whose neighbours are related, with the fact its users
  rest on: over a list sorted by a key, the runs of equal keys are the groups of the key, one per
  key, in ascending key order.
\<close>

fun chunk_by :: "('a \<Rightarrow> 'a \<Rightarrow> bool) \<Rightarrow> 'a list \<Rightarrow> 'a list list" where
  "chunk_by eq [] = []"
| "chunk_by eq [x] = [[x]]"
| "chunk_by eq (x # y # xs) =
     (if eq x y
      then (case chunk_by eq (y # xs) of [] \<Rightarrow> [[x]] | c # cs \<Rightarrow> (x # c) # cs)
      else [x] # chunk_by eq (y # xs))"

lemma chunk_by_Nil_iff [simp]: "chunk_by eq xs = [] \<longleftrightarrow> xs = []"
  by (induction eq xs rule: chunk_by.induct) (auto split: list.splits)

lemma concat_chunk_by [simp]: "concat (chunk_by eq xs) = xs"
  by (induction eq xs rule: chunk_by.induct) (auto split: list.splits)

lemma chunk_by_key:
  assumes "sorted (map f xs)"
  shows "chunk_by (\<lambda>a b. f a = f b) xs = map (\<lambda>k. filter (\<lambda>x. f x = k) xs) (remdups_adj (map f xs))"
  using assms
proof (induction "\<lambda>a b. f a = f b" xs rule: chunk_by.induct)
  case (3 x y xs)
  let ?g = "\<lambda>ys k. filter (\<lambda>z. f z = k) ys"
  have IH: "chunk_by (\<lambda>a b. f a = f b) (y # xs) = map (?g (y # xs)) (remdups_adj (map f (y # xs)))"
    using 3 by (cases "f x = f y") simp_all
  obtain ks where ks: "remdups_adj (map f (y # xs)) = f y # ks"
    by (metis hd_remdups_adj list.collapse list.distinct(1) list.sel(1) list.simps(9) remdups_adj_Nil_iff)
  have sub: "set ks \<subseteq> f ` set (y # xs)"
    by (metis ks image_set list.set_intros(2) remdups_adj_set subsetI)
  have "sorted (map f (y # xs))" using "3.prems" by simp
  then have "sorted (remdups_adj (map f (y # xs)))" "distinct (remdups_adj (map f (y # xs)))"
    by (simp_all only: sorted_remdups_adj distinct_dedup)
  then have new: "f y \<notin> set ks" "\<forall>k\<in>set ks. f y \<le> k" unfolding ks by simp_all
  show ?case
  proof (cases "f x = f y")
    case True
    have "map (?g (x # y # xs)) ks = map (?g (y # xs)) ks"
      using new True by (intro map_cong) auto
    then show ?thesis using IH ks True new(1) by simp
  next
    case False
    then have lt: "\<forall>z\<in>set (y # xs). f x < f z" using "3.prems" by fastforce
    then have none: "?g (y # xs) (f x) = []" by (auto simp: filter_empty_conv)
    have "map (?g (x # y # xs)) (f y # ks) = map (?g (y # xs)) (f y # ks)"
      using lt sub by (intro map_cong) fastforce+
    then show ?thesis using IH ks False none lt by simp
  qed
qed simp_all

lemma set_chunk_by_key:
  assumes "sorted (map f xs)"
  shows "set (chunk_by (\<lambda>a b. f a = f b) xs) = (\<lambda>k. filter (\<lambda>x. f x = k) xs) ` f ` set xs"
  by (simp add: chunk_by_key [OF assms])

lemma chunks_filter_card:
  assumes "sorted (map f xs)"
  shows "length (filter P (chunk_by (\<lambda>a b. f a = f b) xs)) =
    card {k \<in> f ` set xs. P (filter (\<lambda>x. f x = k) xs)}"
proof -
  let ?ks = "remdups_adj (map f xs)"
  have d: "distinct ?ks" using assms by (rule distinct_dedup)
  have "length (filter P (chunk_by (\<lambda>a b. f a = f b) xs)) =
      length (filter (\<lambda>k. P (filter (\<lambda>x. f x = k) xs)) ?ks)"
    by (simp add: chunk_by_key [OF assms] filter_map o_def)
  also have "\<dots> = card (set (filter (\<lambda>k. P (filter (\<lambda>x. f x = k) xs)) ?ks))"
    using d by (simp only: distinct_card distinct_filter)
  also have "set (filter (\<lambda>k. P (filter (\<lambda>x. f x = k) xs)) ?ks) = {k \<in> f ` set xs. P (filter (\<lambda>x. f x = k) xs)}"
    by auto
  finally show ?thesis .
qed

end
