(* ===== verification/Rng.thy ===== *)
theory Rng
  imports Prelude
begin

text \<open>
  The seeded generator of \<open>activation/src/algo/community.rs\<close>: \<open>mix64\<close>, the SplitMix64 stream,
  Lemire's \<open>below\<close> with its rejection loop, and the Fisher-Yates \<open>shuffle\<close>. The rejection loop
  is a partial function; it always returns because \<open>mix64\<close> is a bijection and the stream's
  states run through every 64-bit word.
\<close>

unbundle bit_operations_syntax

subsection \<open>The stream\<close>

definition golden :: "64 word" where
  "golden = 0x9e3779b97f4a7c15"

definition mix64 :: "64 word \<Rightarrow> 64 word" where
  "mix64 z =
     (let z = (z XOR drop_bit 30 z) * 0xbf58476d1ce4e5b9;
          z = (z XOR drop_bit 27 z) * 0x94d049bb133111eb
      in z XOR drop_bit 31 z)"

type_synonym rng = "64 word"

definition rng_next :: "rng \<Rightarrow> 64 word \<times> rng" where
  "rng_next s = (let s = s + golden in (mix64 s, s))"

definition wide_mul :: "64 word \<Rightarrow> 64 word \<Rightarrow> 128 word" where
  "wide_mul x n = ucast x * ucast n"

text \<open>The rejection loop of \<open>below\<close>: draw until the low half reaches \<open>floor\<close>.\<close>

partial_function (option) below_loop :: "64 word \<Rightarrow> 64 word \<Rightarrow> 128 word \<Rightarrow> rng \<Rightarrow> (128 word \<times> rng) option" where
  "below_loop n floor m s =
     (if (ucast m :: 64 word) < floor
      then (let (x, s') = rng_next s in below_loop n floor (wide_mul x n) s')
      else Some (m, s))"

definition below :: "64 word \<Rightarrow> rng \<Rightarrow> (64 word \<times> rng) option" where
  "below n s =
     (if n = 0 then Some (0, s)
      else
        let (x, s) = rng_next s; m = wide_mul x n
        in map_option (\<lambda>(m, s). (ucast (drop_bit 64 m), s))
             (if (ucast m :: 64 word) < n then below_loop n ((- n) mod n) m s else Some (m, s)))"

definition swap_at :: "'a list \<Rightarrow> nat \<Rightarrow> nat \<Rightarrow> 'a list" where
  "swap_at xs i j = xs[i := xs ! j, j := xs ! i]"

text \<open>\<open>shuffle\<close>: positions from the last down to 1.\<close>

fun shuffle_from :: "nat \<Rightarrow> 'a list \<Rightarrow> rng \<Rightarrow> ('a list \<times> rng) option" where
  "shuffle_from 0 xs s = Some (xs, s)"
| "shuffle_from (Suc i) xs s =
     (case below (of_nat (Suc i) + 1) s of
        None \<Rightarrow> None
      | Some (j, s) \<Rightarrow> shuffle_from i (swap_at xs (Suc i) (unat j)) s)"

definition shuffle_rng :: "'a list \<Rightarrow> rng \<Rightarrow> ('a list \<times> rng) option" where
  "shuffle_rng xs s = shuffle_from (length xs - 1) xs s"

subsection \<open>The finaliser is a bijection\<close>

lemma xorshift_inj:
  assumes "(x :: 64 word) XOR drop_bit k x = y XOR drop_bit k y" and "0 < k"
  shows "x = y"
proof (rule bit_word_eqI)
  have xs: "bit (z XOR drop_bit k z) n \<longleftrightarrow> bit z n \<noteq> bit z (k + n)" for z :: "64 word" and n
    by (auto simp: bit_simps)
  have step: "bit x n \<noteq> bit x (k + n) \<longleftrightarrow> bit y n \<noteq> bit y (k + n)" for n
    using assms(1) xs by metis
  have "\<forall>n. 64 \<le> n + d \<longrightarrow> bit x n = bit y n" for d
  proof (induction d)
    case 0
    then show ?case by (auto dest: bit_imp_le_length)
  next
    case (Suc d)
    show ?case
    proof (intro allI impI)
      fix n assume n: "64 \<le> n + Suc d"
      show "bit x n = bit y n"
      proof (cases "n < 64")
        case True
        have "64 \<le> (k + n) + d" using n assms(2) by simp
        then have "bit x (k + n) = bit y (k + n)" using Suc by blast
        then show ?thesis using step [of n] by (cases "bit y (k + n)") simp_all
      qed (auto dest: bit_imp_le_length)
    qed
  qed
  then show "bit x n = bit y n" for n by (metis le_add2)
qed

lemma mul_inj:
  assumes "(c :: 64 word) * d = 1" and "x * c = y * c"
  shows "x = y"
proof -
  have "x = (x * c) * d" using assms(1) by (simp only: mult.assoc mult.right_neutral)
  also have "\<dots> = y" using assms(1) by (simp only: assms(2) mult.assoc mult.right_neutral)
  finally show ?thesis .
qed

lemma mix64_inj:
  assumes "mix64 x = mix64 y"
  shows "x = y"
proof -
  have c1: "(0xbf58476d1ce4e5b9 :: 64 word) * 10871156337175269513 = 1" by simp
  have c2: "(0x94d049bb133111eb :: 64 word) * 3573116690164977347 = 1" by simp
  define f1 where "f1 z = (z XOR drop_bit 30 z) * 0xbf58476d1ce4e5b9" for z :: "64 word"
  define f2 where "f2 z = (z XOR drop_bit 27 z) * 0x94d049bb133111eb" for z :: "64 word"
  have "f2 (f1 x) XOR drop_bit 31 (f2 (f1 x)) = f2 (f1 y) XOR drop_bit 31 (f2 (f1 y))"
    using assms by (simp only: mix64_def Let_def f1_def f2_def)
  then have "f2 (f1 x) = f2 (f1 y)" by (rule xorshift_inj) simp
  then have "f1 x XOR drop_bit 27 (f1 x) = f1 y XOR drop_bit 27 (f1 y)"
    unfolding f2_def by (rule mul_inj [OF c2])
  then have "f1 x = f1 y" by (rule xorshift_inj) simp
  then have "x XOR drop_bit 30 x = y XOR drop_bit 30 y"
    unfolding f1_def by (rule mul_inj [OF c1])
  then show "x = y" by (rule xorshift_inj) simp
qed

lemma mix64_surj: "\<exists>x. mix64 x = y"
proof -
  have "inj mix64" by (rule injI) (rule mix64_inj)
  moreover have "finite (UNIV :: 64 word set)" by (rule finite)
  ultimately have "surj mix64" using finite_UNIV_inj_surj by blast
  then obtain x where "y = mix64 x" by (rule surjE)
  then show ?thesis by blast
qed

subsection \<open>The loop returns\<close>

definition rng_state :: "rng \<Rightarrow> nat \<Rightarrow> rng" where
  "rng_state s k = s + of_nat k * golden"

lemma rng_reaches: "\<exists>k. rng_state s (Suc k) = t"
proof -
  let ?d = "(t - s - golden) * 17428512612931826493"
  have inv: "(17428512612931826493 :: 64 word) * golden = 1" by (simp add: golden_def)
  have "of_nat (unat ?d) * golden = t - s - golden"
    by (simp only: of_nat_unat ucast_id mult.assoc inv mult.right_neutral)
  then have "rng_state s (Suc (unat ?d)) = t"
    by (simp add: rng_state_def algebra_simps)
  then show ?thesis ..
qed

lemma below_loop_returns:
  assumes "floor \<le> n"
  shows "\<exists>m' x s'. below_loop n floor m s = Some (m', s') \<and> (m' = m \<or> m' = wide_mul x n)"
proof -
  obtain y where y: "mix64 y = 1" using mix64_surj by blast
  obtain k where k: "rng_state s (Suc k) = y" using rng_reaches by blast
  have good: "(ucast (wide_mul 1 n) :: 64 word) = n"
    by (rule bit_word_eqI) (simp add: wide_mul_def bit_ucast_iff)
  show ?thesis
    using k
  proof (induction k arbitrary: s m)
    case 0
    then have "rng_next s = (1, y)" using y by (simp add: rng_next_def rng_state_def)
    then have "below_loop n floor (wide_mul 1 n) y = Some (wide_mul 1 n, y)"
      using assms by (subst below_loop.simps) (auto simp: good)
    then show ?case
      using \<open>rng_next s = (1, y)\<close> by (subst below_loop.simps) auto
  next
    case (Suc k)
    obtain x s' where n: "rng_next s = (x, s')" by (cases "rng_next s")
    then have "s' = s + golden" by (simp add: rng_next_def)
    then have "rng_state s' (Suc k) = y"
      using Suc.prems by (simp add: rng_state_def algebra_simps)
    then obtain m' x' t where "below_loop n floor (wide_mul x n) s' = Some (m', t)"
      "m' = wide_mul x n \<or> m' = wide_mul x' n"
      using Suc.IH [of s' "wide_mul x n"] by blast
    then show ?case by (subst below_loop.simps) (auto simp: n)
  qed
qed

lemma wide_mul_high: "n \<noteq> 0 \<Longrightarrow> (ucast (drop_bit 64 (wide_mul x n)) :: 64 word) < n"
proof -
  assume n: "n \<noteq> 0"
  have bounds: "unat x < 2 ^ 64" "unat n < 2 ^ 64" using unsigned_less [of x, where ?'a = nat] unsigned_less [of n, where ?'a = nat] by simp_all
  then have "unat x * unat n < 2 ^ 64 * 2 ^ 64" by (intro mult_strict_mono) auto
  then have prod: "unat x * unat n < 2 ^ 128" by simp
  have up: "unat (ucast z :: 128 word) = unat z" for z :: "64 word"
    using unsigned_less [of z, where ?'a = nat] by (simp add: unsigned_ucast_eq take_bit_nat_eq_self)
  have m: "unat (wide_mul x n) = unat x * unat n"
    unfolding wide_mul_def using prod by (simp add: unat_word_ariths(2) up)
  have "unat x * unat n < 2 ^ 64 * unat n"
    using bounds n by (simp add: unat_gt_0)
  then have "unat x * unat n div 2 ^ 64 < unat n"
    by (simp add: div_less_iff_less_mult mult.commute)
  moreover have "unat (drop_bit 64 (wide_mul x n)) = unat x * unat n div 2 ^ 64"
    by (simp only: unat_drop_bit_eq m) (simp only: drop_bit_eq_div)
  ultimately have "unat (ucast (drop_bit 64 (wide_mul x n)) :: 64 word) < unat n"
    using bounds by (simp add: unsigned_ucast_eq take_bit_nat_eq_self)
  then show ?thesis by (simp add: word_less_nat_alt)
qed

subsection \<open>Properties\<close>

lemma below_spec: "\<exists>v s'. below n s = Some (v, s') \<and> (if n = 0 then v = 0 \<and> s' = s else v < n)"
proof (cases "n = 0")
  case False
  obtain x s1 where n: "rng_next s = (x, s1)" by (cases "rng_next s")
  have "unat ((- n) mod n) < unat n" using False by (simp add: unat_mod unat_gt_0)
  then have floor: "(- n) mod n \<le> n" by (simp add: word_le_nat_alt)
  obtain m' x' s' where loop: "below_loop n ((- n) mod n) (wide_mul x n) s1 = Some (m', s')"
    "m' = wide_mul x n \<or> m' = wide_mul x' n"
    using below_loop_returns [OF floor] by blast
  then have "(ucast (drop_bit 64 m') :: 64 word) < n" using wide_mul_high [OF False] by auto
  then show ?thesis
    using False loop(1) wide_mul_high [OF False] by (simp add: below_def n)
qed (simp add: below_def)

lemma mset_swap_at: "i < length xs \<Longrightarrow> j < length xs \<Longrightarrow> mset (swap_at xs i j) = mset xs"
  by (simp add: swap_at_def mset_swap)

lemma unat_of_nat_le: "unat (of_nat k :: 64 word) \<le> k"
  by (simp add: unat_of_nat)

lemma shuffle_from_spec:
  assumes "i < length xs \<or> i = 0" and "length xs < 2 ^ 64"
  shows "\<exists>ys s'. shuffle_from i xs s = Some (ys, s') \<and> mset ys = mset xs"
  using assms
proof (induction i arbitrary: xs s)
  case (Suc i)
  obtain v s1 where v: "below (of_nat (Suc i) + 1) s = Some (v, s1)"
    "if (of_nat (Suc i) + 1 :: 64 word) = 0 then v = 0 \<and> s1 = s else v < of_nat (Suc i) + 1"
    using below_spec by blast
  have "unat (of_nat (Suc i) + 1 :: 64 word) \<le> Suc (Suc i)"
    using unat_of_nat_le [where k = "Suc (Suc i)"] by (simp add: add.commute)
  then have "unat v < Suc (Suc i)"
    using v(2) by (auto simp: word_less_nat_alt split: if_splits)
  then have j: "unat v < length xs" "Suc i < length xs" using Suc.prems(1) by auto
  then have ms: "mset (swap_at xs (Suc i) (unat v)) = mset xs" by (simp add: mset_swap_at)
  have len: "length (swap_at xs (Suc i) (unat v)) = length xs" by (simp add: swap_at_def)
  obtain ys s' where "shuffle_from i (swap_at xs (Suc i) (unat v)) s1 = Some (ys, s')"
    "mset ys = mset (swap_at xs (Suc i) (unat v))"
    using Suc.IH [of "swap_at xs (Suc i) (unat v)" s1] j len Suc.prems(2) by auto
  then show ?case using v(1) ms by simp
qed simp

text \<open>
  A draw below \<open>n\<close> always returns, whatever the state: the rejection loop ends, and the value
  is under \<open>n\<close> (0, without drawing, when \<open>n\<close> is 0).
\<close>

theorem below_returns_in_range:
  "\<exists>v s'. below n s = Some (v, s') \<and> (if n = 0 then v = 0 \<and> s' = s else v < n)"
  by (rule below_spec)

lemma shuffle_spec:
  assumes "length xs < 2 ^ 64"
  shows "\<exists>ys s'. shuffle_rng xs s = Some (ys, s') \<and> mset ys = mset xs"
  unfolding shuffle_rng_def by (rule shuffle_from_spec) (use assms in \<open>cases xs; simp\<close>)+

text \<open>C38: a shuffle returns and is a permutation of its input.\<close>

theorem shuffle_permutes:
  assumes "length xs < 2 ^ 64"
  shows "\<exists>ys s'. shuffle_rng xs s = Some (ys, s') \<and> mset ys = mset xs"
  by (rule shuffle_spec [OF assms])

theorem shuffle_permutes_witness: "\<exists>ys s'. shuffle_rng [10, 20, 30 :: nat] 7 = Some (ys, s') \<and> mset ys = {#10, 20, 30#}"
  using shuffle_permutes [of "[10, 20, 30 :: nat]" 7] by simp

end
