(* ===== verification/MinHash.thy ===== *)
theory MinHash
  imports Chunks Rng
begin

text \<open>
  \<open>activation/src/algo/minhash.rs\<close>: seeded MinHash signatures, LSH banding and the exact Jaccard
  counts. Values and ids are 64-bit words, an index into the signatures a 32-bit word; the band
  loop carries the pair list, its length at the last compaction and the oversized count.
\<close>

subsection \<open>Signatures\<close>

record min_hasher =
  seeds :: "64 word list"

fun draws :: "nat \<Rightarrow> rng \<Rightarrow> 64 word list" where
  "draws 0 s = []"
| "draws (Suc k) s = (let (x, s) = rng_next s in x # draws k s)"

definition min_hasher_new :: "nat \<Rightarrow> 64 word \<Rightarrow> min_hasher" where
  "min_hasher_new k seed = \<lparr>seeds = draws k seed\<rparr>"

definition hasher_k :: "min_hasher \<Rightarrow> nat" where
  "hasher_k h = length (seeds h)"

definition sig_step :: "64 word list \<Rightarrow> 64 word \<Rightarrow> 64 word list \<Rightarrow> 64 word list" where
  "sig_step ss x sig = map2 (\<lambda>m s. let h = mix64 (x XOR s) in if h < m then h else m) sig ss"

definition signature :: "min_hasher \<Rightarrow> 64 word list \<Rightarrow> 64 word list" where
  "signature h xs = fold (sig_step (seeds h)) xs (replicate (length (seeds h)) (- 1))"

subsection \<open>Banding\<close>

definition max_bucket :: nat where
  "max_bucket = 2000"

record lsh_cands =
  lsh_pairs :: "(32 word \<times> 32 word) list"
  oversized_buckets :: nat
  misshapen :: nat

definition band_key :: "64 word list \<Rightarrow> 64 word" where
  "band_key rows = fold (\<lambda>v h. mix64 (h XOR v)) rows 0"

definition checked_mul :: "nat \<Rightarrow> nat \<Rightarrow> nat option" where
  "checked_mul a b = (if a * b < 2 ^ 64 then Some (a * b) else None)"

definition band_width :: "nat \<Rightarrow> nat \<Rightarrow> nat option" where
  "band_width bands rows = (case checked_mul bands rows of Some w \<Rightarrow> if 0 < w then Some w else None | None \<Rightarrow> None)"

text \<open>The signatures zipped with \<open>0..=u32::MAX\<close>, and the split by length.\<close>

definition index_sigs :: "64 word list list \<Rightarrow> (64 word list \<times> 32 word) list" where
  "index_sigs sigs = map (\<lambda>(i, sig). (sig, of_nat i)) (enumerate 0 (take (2 ^ 32) sigs))"

definition shape_sigs :: "64 word list list \<Rightarrow> nat \<Rightarrow> nat \<Rightarrow> (64 word list \<times> 32 word) list \<times> nat" where
  "shape_sigs sigs bands rows =
     (let width = band_width bands rows; ok = (\<lambda>(sig, ix). width = Some (length sig))
      in (filter ok (index_sigs sigs), length (filter (Not \<circ> ok) (index_sigs sigs))))"

definition keyed_band :: "(64 word list \<times> 32 word) list \<Rightarrow> nat \<Rightarrow> nat \<Rightarrow> (64 word \<times> 32 word) list" where
  "keyed_band shaped rows band =
     sort (map (\<lambda>(sig, ix). (band_key (slice sig (band * rows) ((band + 1) * rows)), ix)) shaped)"

fun bucket_pairs :: "'a list \<Rightarrow> ('a \<times> 'a) list" where
  "bucket_pairs [] = []"
| "bucket_pairs (i # is) = map (Pair i) is @ bucket_pairs is"

definition band_buckets :: "(64 word \<times> 32 word) list \<Rightarrow> (64 word \<times> 32 word) list list" where
  "band_buckets keyed = chunk_by (\<lambda>a b. fst a = fst b) keyed"

definition lsh_band ::
  "(64 word list \<times> 32 word) list \<Rightarrow> nat \<Rightarrow> nat \<Rightarrow> (32 word \<times> 32 word) list \<times> nat \<times> nat
    \<Rightarrow> (32 word \<times> 32 word) list \<times> nat \<times> nat" where
  "lsh_band shaped rows band st =
     (let (pairs, compacted, over) = st;
          buckets = band_buckets (keyed_band shaped rows band);
          over = over + length (filter (\<lambda>b. length b > max_bucket) buckets);
          pairs = pairs @ concat (map (\<lambda>b. bucket_pairs (map snd b)) (filter (\<lambda>b. \<not> length b > max_bucket) buckets))
      in if length pairs > 2 * max compacted (2 ^ 16)
         then (let pairs = remdups_adj (sort pairs) in (pairs, length pairs, over))
         else (pairs, compacted, over))"

definition lsh_candidates :: "64 word list list \<Rightarrow> nat \<Rightarrow> nat \<Rightarrow> lsh_cands" where
  "lsh_candidates sigs bands rows =
     (let (shaped, bad) = shape_sigs sigs bands rows in
      if length shaped < 2 then \<lparr>lsh_pairs = [], oversized_buckets = 0, misshapen = bad\<rparr>
      else
        let (pairs, _, over) = fold (lsh_band shaped rows) [0..<bands] ([], 0, 0)
        in \<lparr>lsh_pairs = remdups_adj (sort pairs), oversized_buckets = over, misshapen = bad\<rparr>)"

subsection \<open>The exact check\<close>

text \<open>
  The cursors of \<open>jaccard_sorted\<close> are the unread suffixes; \<open>prev\<close> is the last id counted. Counts
  are \<open>u64\<close> bounded by the lists' lengths.
\<close>

fun jaccard_loop :: "64 word list \<Rightarrow> 64 word list \<Rightarrow> nat \<Rightarrow> nat \<Rightarrow> 64 word option \<Rightarrow> nat \<times> nat" where
  "jaccard_loop (x # as) (y # bs) both any prev =
     (if x = y then
        jaccard_loop as bs (if prev \<noteq> Some x then both + 1 else both)
          (if prev \<noteq> Some x then any + 1 else any) (Some x)
      else if x < y then jaccard_loop as (y # bs) both (if prev \<noteq> Some x then any + 1 else any) (Some x)
      else jaccard_loop (x # as) bs both (if prev \<noteq> Some y then any + 1 else any) (Some y))"
| "jaccard_loop [] (y # bs) both any prev =
     jaccard_loop [] bs both (if prev \<noteq> Some y then any + 1 else any) (Some y)"
| "jaccard_loop (x # as) [] both any prev =
     jaccard_loop as [] both (if prev \<noteq> Some x then any + 1 else any) (Some x)"
| "jaccard_loop [] [] both any prev = (both, any)"

definition sat32 :: "nat \<Rightarrow> 32 word" where
  "sat32 n = (if n < 2 ^ 32 then of_nat n else - 1)"

definition jaccard_sorted :: "64 word list \<Rightarrow> 64 word list \<Rightarrow> 32 word \<times> 32 word" where
  "jaccard_sorted as bs = (let (both, any) = jaccard_loop as bs 0 0 None in (sat32 both, sat32 any))"

subsection \<open>Signatures are pointwise minima\<close>

lemma length_sig_step [simp]: "length (sig_step ss x sig) = min (length sig) (length ss)"
  by (simp add: sig_step_def)

lemma sig_step_nth:
  "i < length sig \<Longrightarrow> i < length ss \<Longrightarrow> sig_step ss x sig ! i = min (mix64 (x XOR ss ! i)) (sig ! i)"
  by (auto simp: sig_step_def min_def)

lemma sig_fold:
  assumes "length sig = length ss"
  shows "length (fold (sig_step ss) xs sig) = length ss \<and>
    (\<forall>i < length ss. fold (sig_step ss) xs sig ! i =
       Min (insert (sig ! i) ((\<lambda>x. mix64 (x XOR ss ! i)) ` set xs)))"
  using assms
proof (induction xs arbitrary: sig)
  case (Cons x xs)
  have l: "length (sig_step ss x sig) = length ss" using Cons.prems by simp
  have "Min (insert (sig_step ss x sig ! i) ((\<lambda>x. mix64 (x XOR ss ! i)) ` set xs)) =
      Min (insert (sig ! i) ((\<lambda>x. mix64 (x XOR ss ! i)) ` set (x # xs)))" if "i < length ss" for i
    using that Cons.prems
    by (cases "xs = []") (simp_all add: sig_step_nth min.commute min.left_commute min.assoc)
  then show ?case using Cons.IH [OF l] by simp
qed simp

lemma length_draws [simp]: "length (draws k s) = k"
  by (induction k arbitrary: s) (simp_all add: case_prod_beta)

text \<open>
  Value \<open>i\<close> of a signature is the minimum of \<open>mix64 (x XOR seed i)\<close> over the ids of the set and
  the word of ones (the value for an empty set), so the order and repeats of the ids change
  nothing; a signature has one value per permutation.
\<close>

theorem signature_is_pointwise_min:
  "signature (min_hasher_new k seed) xs =
     map (\<lambda>s. Min (insert (- 1) ((\<lambda>x. mix64 (x XOR s)) ` set xs))) (draws k seed)"
  using sig_fold [of "replicate k (- 1)" "draws k seed" xs]
  by (intro nth_equalityI) (simp_all add: signature_def min_hasher_new_def)

subsection \<open>Candidate pairs\<close>

lemma set_bucket_pairs:
  "sorted_wrt (<) xs \<Longrightarrow> set (bucket_pairs xs) = {(i, j). i \<in> set xs \<and> j \<in> set xs \<and> i < (j :: 'a :: linorder)}"
  by (induction xs) (auto dest: less_asym)

definition in_shape :: "nat \<Rightarrow> nat \<Rightarrow> 64 word list \<Rightarrow> bool" where
  "in_shape bands rows sig \<longleftrightarrow> length sig = bands * rows \<and> 0 < bands * rows \<and> bands * rows < 2 ^ 64"

lemma band_width_iff: "band_width bands rows = Some (length sig) \<longleftrightarrow> in_shape bands rows sig"
  by (auto simp: band_width_def checked_mul_def in_shape_def)

text \<open>The members of one band's bucket: the well-shaped signatures with a given key there.\<close>

definition bucket :: "64 word list list \<Rightarrow> nat \<Rightarrow> nat \<Rightarrow> nat \<Rightarrow> 64 word \<Rightarrow> nat set" where
  "bucket sigs bands rows band key =
     {i. i < length (take (2 ^ 32) sigs) \<and> in_shape bands rows (sigs ! i) \<and>
         band_key (slice (sigs ! i) (band * rows) ((band + 1) * rows)) = key}"

abbreviation index_word :: "nat \<Rightarrow> 32 word" where
  "index_word \<equiv> of_nat"

lemma index_word_less: "i < 2 ^ 32 \<Longrightarrow> j < 2 ^ 32 \<Longrightarrow> index_word i < index_word j \<longleftrightarrow> i < j"
  by (simp add: word_less_nat_alt unat_of_nat)

lemma index_word_inj: "inj_on index_word {..<2 ^ 32}"
  by (rule inj_onI) (metis index_word_less lessThan_iff less_irrefl linorder_neqE_nat)

lemma index_sigs_eq:
  "index_sigs sigs = map (\<lambda>i. (sigs ! i, index_word i)) [0..<length (take (2 ^ 32) sigs)]"
proof -
  let ?t = "take (2 ^ 32) sigs"
  have "enumerate 0 ?t = map (\<lambda>i. (i, ?t ! i)) [0..<length ?t]"
    using enumerate_map_upt [of 0 "\<lambda>i. ?t ! i" "length ?t"] by (simp only: map_nth)
  then show ?thesis by (simp add: index_sigs_def)
qed

lemma shape_sigs_fst:
  "fst (shape_sigs sigs bands rows) =
     map (\<lambda>i. (sigs ! i, index_word i)) (filter (\<lambda>i. in_shape bands rows (sigs ! i)) [0..<length (take (2 ^ 32) sigs)])"
  by (simp add: shape_sigs_def index_sigs_eq filter_map o_def band_width_iff)

lemma keyed_bucket:
  fixes k band rows bands sigs
  defines "ys \<equiv> filter (\<lambda>p. fst p = k) (keyed_band (fst (shape_sigs sigs bands rows)) rows band)"
  shows "set (map snd ys) = index_word ` bucket sigs bands rows band k"
    and "sorted_wrt (<) (map snd ys)" and "length ys = card (bucket sigs bands rows band k)"
proof -
  let ?is = "filter (\<lambda>i. in_shape bands rows (sigs ! i)) [0..<length (take (2 ^ 32) sigs)]"
  let ?key = "\<lambda>i. band_key (slice (sigs ! i) (band * rows) ((band + 1) * rows))"
  let ?L = "map (\<lambda>i. (?key i, index_word i)) ?is"
  have L: "ys = filter (\<lambda>p. fst p = k) (sort ?L)"
    by (simp add: ys_def keyed_band_def shape_sigs_fst o_def)
  show set: "set (map snd ys) = index_word ` bucket sigs bands rows band k"
    unfolding L by (auto simp: bucket_def image_iff)
  have sub: "set ?is \<subseteq> {..<2 ^ 32}" by auto
  have "distinct (map snd ?L)"
    using inj_on_subset [OF index_word_inj sub] by (simp add: distinct_map o_def)
  then have "distinct (map snd (sort ?L))"
    using mset_eq_imp_distinct_iff [of "map snd (sort ?L)" "map snd ?L"] by (simp only: mset_map mset_sort)
  then have d: "distinct (map snd ys)" unfolding L by (rule distinct_map_filter)
  have "sorted ys" unfolding L by (rule sorted_wrt_filter) simp
  then have "sorted_wrt (\<lambda>p q. snd p \<le> snd q) ys"
    by (rule sorted_wrt_mono_rel [rotated]) (auto simp: L less_eq_prod_def)
  then have "sorted (map snd ys)" by (simp add: sorted_map)
  then show "sorted_wrt (<) (map snd ys)" using d by (simp add: strict_sorted_iff)
  have "length ys = card (set (map snd ys))" using distinct_card [OF d] by simp
  also have "\<dots> = card (bucket sigs bands rows band k)"
    unfolding set by (rule card_image) (rule inj_on_subset [OF index_word_inj], auto simp: bucket_def)
  finally show "length ys = card (bucket sigs bands rows band k)" .
qed

text \<open>What one band contributes, over the band's buckets.\<close>

definition band_twins :: "64 word list list \<Rightarrow> nat \<Rightarrow> nat \<Rightarrow> nat \<Rightarrow> (nat \<times> nat) set" where
  "band_twins sigs bands rows band =
     {(i, j). i < j \<and> (\<exists>k. i \<in> bucket sigs bands rows band k \<and> j \<in> bucket sigs bands rows band k
        \<and> card (bucket sigs bands rows band k) \<le> max_bucket)}"

definition crowded_keys :: "64 word list list \<Rightarrow> nat \<Rightarrow> nat \<Rightarrow> nat \<Rightarrow> 64 word set" where
  "crowded_keys sigs bands rows band = {k. card (bucket sigs bands rows band k) > max_bucket}"

abbreviation index_pair :: "nat \<times> nat \<Rightarrow> 32 word \<times> 32 word" where
  "index_pair \<equiv> map_prod of_nat of_nat"

lemma bucket_less: "i \<in> bucket sigs bands rows band k \<Longrightarrow> i < 2 ^ 32"
  by (auto simp: bucket_def)

lemma sorted_keyed: "sorted (map fst (keyed_band shaped rows band))"
proof -
  have "sorted (keyed_band shaped rows band)" by (simp add: keyed_band_def)
  then show ?thesis unfolding sorted_map
    by (rule sorted_wrt_mono_rel [rotated]) (auto simp: less_eq_prod_def)
qed

lemma band_pairs:
  fixes band rows bands sigs
  defines "kb \<equiv> keyed_band (fst (shape_sigs sigs bands rows)) rows band"
  shows "set (concat (map (\<lambda>b. bucket_pairs (map snd b)) (filter (\<lambda>b. \<not> length b > max_bucket) (band_buckets kb))))
    = index_pair ` band_twins sigs bands rows band"
proof -
  let ?B = "bucket sigs bands rows band"
  let ?ys = "\<lambda>k. filter (\<lambda>p. fst p = k) kb"
  have pairs: "set (bucket_pairs (map snd (?ys k))) = index_pair ` {(i, j). i \<in> ?B k \<and> j \<in> ?B k \<and> i < j}" for k
  proof -
    have "set (bucket_pairs (map snd (?ys k))) =
        {(a, b). a \<in> index_word ` ?B k \<and> b \<in> index_word ` ?B k \<and> a < b}"
      unfolding kb_def by (simp only: set_bucket_pairs [OF keyed_bucket(2)] keyed_bucket(1))
    also have "\<dots> = index_pair ` {(i, j). i \<in> ?B k \<and> j \<in> ?B k \<and> i < j}"
    proof -
      have lt: "index_word i < index_word j \<longleftrightarrow> i < j" if "i \<in> ?B k" "j \<in> ?B k" for i j
        using that by (intro index_word_less bucket_less)
      show ?thesis by (auto simp: lt image_iff)
    qed
    finally show ?thesis .
  qed
  have empty: "?B k = {}" if "k \<notin> fst ` set kb" for k
  proof -
    have "?ys k = []" using that by (auto simp: filter_empty_conv)
    then show ?thesis using keyed_bucket(1) [of k sigs bands rows band] by (simp add: kb_def)
  qed
  have "set (concat (map (\<lambda>b. bucket_pairs (map snd b)) (filter (\<lambda>b. \<not> length b > max_bucket) (band_buckets kb))))
    = (\<Union>k \<in> {k \<in> fst ` set kb. \<not> length (?ys k) > max_bucket}. set (bucket_pairs (map snd (?ys k))))"
    unfolding band_buckets_def kb_def by (simp add: set_chunk_by_key [OF sorted_keyed]) blast
  also have "\<dots> = (\<Union>k \<in> {k \<in> fst ` set kb. card (?B k) \<le> max_bucket}. index_pair ` {(i, j). i \<in> ?B k \<and> j \<in> ?B k \<and> i < j})"
    unfolding pairs using keyed_bucket(3) [where sigs = sigs and bands = bands and rows = rows and band = band]
    by (simp add: kb_def not_less)
  also have "\<dots> = index_pair ` band_twins sigs bands rows band"
    unfolding band_twins_def using empty by (fastforce simp: image_iff)
  finally show ?thesis .
qed

lemma band_crowded:
  fixes band rows bands sigs
  defines "kb \<equiv> keyed_band (fst (shape_sigs sigs bands rows)) rows band"
  shows "length (filter (\<lambda>b. length b > max_bucket) (band_buckets kb)) = card (crowded_keys sigs bands rows band)"
proof -
  have c: "card (bucket sigs bands rows band k) = length (filter (\<lambda>p. fst p = k) kb)" for k
    unfolding kb_def by (rule keyed_bucket(3) [symmetric])
  have "k \<in> fst ` set kb" if "length (filter (\<lambda>p. fst p = k) kb) > max_bucket" for k
    using that by (metis (mono_tags, lifting) filter_False image_eqI list.size(3) not_less_zero)
  then have "crowded_keys sigs bands rows band = {k \<in> fst ` set kb. length (filter (\<lambda>p. fst p = k) kb) > max_bucket}"
    unfolding crowded_keys_def c by blast
  then show ?thesis
    unfolding band_buckets_def kb_def by (simp only: chunks_filter_card [OF sorted_keyed])
qed

lemma lsh_fold:
  fixes sigs bands rows
  defines "shaped \<equiv> fst (shape_sigs sigs bands rows)"
  shows "\<exists>pairs c. fold (lsh_band shaped rows) [0..<n] ([], 0, 0) =
      (pairs, c, \<Sum>band<n. card (crowded_keys sigs bands rows band)) \<and>
    set pairs = index_pair ` (\<Union>band<n. band_twins sigs bands rows band)"
proof (induction n)
  case (Suc n)
  then obtain pairs c where IH: "fold (lsh_band shaped rows) [0..<n] ([], 0, 0) =
      (pairs, c, \<Sum>band<n. card (crowded_keys sigs bands rows band))"
    "set pairs = index_pair ` (\<Union>band<n. band_twins sigs bands rows band)" by blast
  let ?over = "(\<Sum>band<Suc n. card (crowded_keys sigs bands rows band))"
  let ?new = "concat (map (\<lambda>b. bucket_pairs (map snd b)) (filter (\<lambda>b. \<not> length b > max_bucket)
       (band_buckets (keyed_band shaped rows n))))"
  have new: "set ?new = index_pair ` band_twins sigs bands rows n"
    unfolding shaped_def by (rule band_pairs)
  have set: "set (pairs @ ?new) = index_pair ` (\<Union>band<Suc n. band_twins sigs bands rows band)"
    unfolding set_append new IH(2) by (auto simp: lessThan_Suc)
  have "\<exists>c. lsh_band shaped rows n (pairs, c0, x) =
      (if length (pairs @ ?new) > 2 * max c0 (2 ^ 16) then remdups_adj (sort (pairs @ ?new)) else pairs @ ?new, c,
       x + length (filter (\<lambda>b. length b > max_bucket) (band_buckets (keyed_band shaped rows n))))" for c0 x
    by (simp add: lsh_band_def)
  then obtain c' where step: "lsh_band shaped rows n (pairs, c, \<Sum>band<n. card (crowded_keys sigs bands rows band)) =
      (if length (pairs @ ?new) > 2 * max c (2 ^ 16) then remdups_adj (sort (pairs @ ?new)) else pairs @ ?new, c', ?over)"
    using band_crowded [of sigs bands rows n] by (simp only: shaped_def sum.lessThan_Suc) blast
  let ?p = "if length (pairs @ ?new) > 2 * max c (2 ^ 16) then remdups_adj (sort (pairs @ ?new)) else pairs @ ?new"
  have "set ?p = set (pairs @ ?new)" by simp
  then show ?case using step IH(1) set
    by (intro exI [of _ ?p] exI [of _ c']) simp
qed simp

text \<open>
  C39: the candidates are exactly the index pairs \<open>i < j\<close> of well-shaped signatures that share a
  bucket of at most 2000 members in some band, strictly ascending; buckets over the cap and
  signatures of another length are counted. The compaction of the pair list along the way
  changes nothing.
\<close>

theorem lsh_candidates_are_band_twins:
  "lsh_candidates sigs bands rows =
     \<lparr>lsh_pairs = sorted_list_of_set (index_pair ` (\<Union>band<bands. band_twins sigs bands rows band)),
      oversized_buckets = (\<Sum>band<bands. card (crowded_keys sigs bands rows band)),
      misshapen = length (filter (\<lambda>sig. \<not> in_shape bands rows sig) (take (2 ^ 32) sigs))\<rparr>"
proof -
  let ?shaped = "fst (shape_sigs sigs bands rows)"
  have bad: "snd (shape_sigs sigs bands rows) = length (filter (\<lambda>sig. \<not> in_shape bands rows sig) (take (2 ^ 32) sigs))"
  proof -
    have "take (2 ^ 32) sigs = map fst (index_sigs sigs)"
      by (rule nth_equalityI) (simp_all add: index_sigs_eq)
    then show ?thesis
      by (simp add: shape_sigs_def filter_map o_def case_prod_beta band_width_iff)
  qed
  show ?thesis
  proof (cases "length ?shaped < 2")
    case True
    have fin: "finite (bucket sigs bands rows band k)" for band k by (simp add: bucket_def)
    have "\<exists>x. bucket sigs bands rows band k \<subseteq> {x}" for band k
    proof -
      let ?is = "filter (\<lambda>i. in_shape bands rows (sigs ! i)) [0..<length (take (2 ^ 32) sigs)]"
      have "length ?is < 2" using True by (simp add: shape_sigs_fst)
      moreover have "\<exists>x. set zs \<subseteq> {x}" if "length zs < 2" for zs :: "nat list"
        using that by (cases zs rule: remdups_adj.cases) auto
      ultimately obtain x where "set ?is \<subseteq> {x}" by blast
      moreover have "bucket sigs bands rows band k \<subseteq> set ?is" by (auto simp: bucket_def)
      ultimately show ?thesis by blast
    qed
    then have same: "i \<in> bucket sigs bands rows band k \<Longrightarrow> j \<in> bucket sigs bands rows band k \<Longrightarrow> i = j" for band k i j
      by blast
    then have one: "card (bucket sigs bands rows band k) \<le> 1" for band k
      using card_le_Suc0_iff_eq [OF fin] by (metis One_nat_def)
    have "crowded_keys sigs bands rows band = {}" for band
      using one [of band] by (simp add: crowded_keys_def max_bucket_def not_less order_trans [of _ 1])
    moreover have "band_twins sigs bands rows band = {}" for band
    proof -
      have "\<not> i < j" if "i \<in> bucket sigs bands rows band k" "j \<in> bucket sigs bands rows band k" for i j k
        using same [OF that] by simp
      then show ?thesis by (auto simp: band_twins_def)
    qed
    ultimately show ?thesis
      using True bad by (simp add: lsh_candidates_def case_prod_beta)
  next
    case False
    obtain pairs c where "fold (lsh_band ?shaped rows) [0..<bands] ([], 0, 0) =
        (pairs, c, \<Sum>band<bands. card (crowded_keys sigs bands rows band))"
      "set pairs = index_pair ` (\<Union>band<bands. band_twins sigs bands rows band)"
      using lsh_fold [of sigs bands rows bands] by (elim exE conjE) (rule that)
    then show ?thesis
      using False bad by (simp add: lsh_candidates_def case_prod_beta sort_dedup)
  qed
qed

subsection \<open>Exact Jaccard\<close>

lemma card_head:
  assumes "finite S" "\<forall>z\<in>S. x \<le> z" "\<forall>p\<in>set_option prev. p \<le> (x :: 'a :: linorder)"
  shows "card (insert x S - set_option prev) = card (S - {x}) + (if prev \<noteq> Some x then 1 else 0)"
proof (cases "prev = Some x")
  case False
  then have "insert x S - set_option prev = insert x (S - {x})"
    using assms(2,3) by (cases prev) (auto dest: order_antisym)
  moreover have "card (insert x (S - {x})) = Suc (card (S - {x}))"
    using assms(1) by (intro card_insert_disjoint) auto
  ultimately show ?thesis using False by (simp only:) simp
qed (simp add: assms(1))

lemma jaccard_loop_counts:
  assumes "sorted as" "sorted bs" "\<forall>p\<in>set_option prev. \<forall>z\<in>set as \<union> set bs. p \<le> z"
  shows "jaccard_loop as bs n m prev =
    (n + card (set as \<inter> set bs - set_option prev), m + card (set as \<union> set bs - set_option prev))"
  using assms
proof (induction as bs n m prev rule: jaccard_loop.induct)
  case (1 x as y bs n m prev)
  consider (eq) "x = y" | (lt) "x \<noteq> y" "x < y" | (gt) "x \<noteq> y" "y < x" by fastforce
  then show ?case
  proof cases
    case eq
    have sets: "set (x # as) \<inter> set (y # bs) = insert x (set as \<inter> set bs)"
      "set (x # as) \<union> set (y # bs) = insert x (set as \<union> set bs)" using eq by auto
    have h: "card (insert x (set as \<inter> set bs) - set_option prev) =
        card (set as \<inter> set bs - {x}) + (if prev \<noteq> Some x then 1 else 0)"
      "card (insert x (set as \<union> set bs) - set_option prev) =
        card (set as \<union> set bs - {x}) + (if prev \<noteq> Some x then 1 else 0)"
      using 1(4,5,6) eq by (intro card_head; auto)+
    have pre: "\<forall>p\<in>set_option (Some x). \<forall>z\<in>set as \<union> set bs. p \<le> z" using 1(4,5) eq by auto
    have "sorted as" "sorted bs" using 1(4,5) by simp_all
    note IH = 1(1) [OF eq this pre, unfolded option.set]
    show ?thesis unfolding sets h using IH eq by simp
  next
    case lt
    have notin: "x \<notin> set (y # bs)" using lt 1(5) by auto
    have sets: "set (x # as) \<inter> set (y # bs) - set_option prev = set as \<inter> set (y # bs) - {x}"
      using notin lt 1(5,6) by (cases prev) auto
    have un: "set (x # as) \<union> set (y # bs) = insert x (set as \<union> set (y # bs))" by auto
    have h: "card (insert x (set as \<union> set (y # bs)) - set_option prev) =
        card (set as \<union> set (y # bs) - {x}) + (if prev \<noteq> Some x then 1 else 0)"
      using 1(4,5,6) lt by (intro card_head) auto
    have pre: "\<forall>p\<in>set_option (Some x). \<forall>z\<in>set as \<union> set (y # bs). p \<le> z" using 1(4,5) lt by auto
    have "sorted as" using 1(4) by simp
    note IH = 1(2) [OF lt this 1(5) pre, unfolded option.set]
    show ?thesis unfolding sets un h using IH lt by simp
  next
    case gt
    have notin: "y \<notin> set (x # as)" using gt 1(4) by auto
    have sets: "set (x # as) \<inter> set (y # bs) - set_option prev = set (x # as) \<inter> set bs - {y}"
      using notin gt 1(4,6) by (cases prev) auto
    have un: "set (x # as) \<union> set (y # bs) = insert y (set (x # as) \<union> set bs)" by auto
    have h: "card (insert y (set (x # as) \<union> set bs) - set_option prev) =
        card (set (x # as) \<union> set bs - {y}) + (if prev \<noteq> Some y then 1 else 0)"
      using 1(4,5,6) gt by (intro card_head) auto
    have nlt: "\<not> x < y" using gt by simp
    have pre: "\<forall>p\<in>set_option (Some y). \<forall>z\<in>set (x # as) \<union> set bs. p \<le> z" using 1(4,5) gt by auto
    have "sorted bs" using 1(5) by simp
    note IH = 1(3) [OF gt(1) nlt 1(4) this pre, unfolded option.set]
    show ?thesis unfolding sets un h using IH gt nlt by simp
  qed
next
  case (2 y bs n m prev)
  have "card (insert y (set bs) - set_option prev) = card (set bs - {y}) + (if prev \<noteq> Some y then 1 else 0)"
    using 2(3,4) by (intro card_head) auto
  then show ?case using 2 by auto
next
  case (3 x as n m prev)
  have "card (insert x (set as) - set_option prev) = card (set as - {x}) + (if prev \<noteq> Some x then 1 else 0)"
    using 3(2,4) by (intro card_head) auto
  then show ?case using 3 by auto
qed simp

text \<open>
  C40: on ascending lists \<open>jaccard_sorted\<close> returns the sizes of the intersection and of the union
  of the two id sets, a repeated id counted once, each saturated at 32 bits.
\<close>

theorem jaccard_sorted_is_exact:
  assumes "sorted as" and "sorted bs"
  shows "jaccard_sorted as bs = (sat32 (card (set as \<inter> set bs)), sat32 (card (set as \<union> set bs)))"
  using jaccard_loop_counts [OF assms, of None] by (simp add: jaccard_sorted_def)

theorem jaccard_sorted_is_exact_witness:
  "jaccard_sorted [0, 1, 1] [1, 1, 3] = (1, 3)"
  using jaccard_sorted_is_exact [of "[0, 1, 1]" "[1, 1, 3]"] by (simp add: sat32_def card_insert_if)

end
