(* ===== verification/WGraph.thy ===== *)
theory WGraph
  imports Adjacency Chunks
begin

text \<open>
  The weighted undirected view of \<open>activation/src/algo/community.rs\<close>: \<open>WeightedGraph\<close> with its
  constructors \<open>from_source\<close>, \<open>from_pairs\<close>, \<open>quotient\<close> and the accessors. Dense indices and
  neighbour offsets (\<open>u32\<close>, under \<open>CAP\<close>) are naturals, weights 64-bit words added with
  saturation.
\<close>

subsection \<open>Saturating 64-bit arithmetic\<close>

definition sat64 :: "nat \<Rightarrow> 64 word" where
  "sat64 n = (if n < 2 ^ 64 then of_nat n else - 1)"

definition sat_add :: "64 word \<Rightarrow> 64 word \<Rightarrow> 64 word" where
  "sat_add a b = sat64 (unat a + unat b)"

definition sat_mul :: "64 word \<Rightarrow> 64 word \<Rightarrow> 64 word" where
  "sat_mul a b = sat64 (unat a * unat b)"

definition sat_sub :: "64 word \<Rightarrow> 64 word \<Rightarrow> 64 word" where
  "sat_sub a b = (if a < b then 0 else a - b)"

abbreviation sat_sum :: "64 word \<Rightarrow> 64 word list \<Rightarrow> 64 word" where
  "sat_sum s ws \<equiv> foldl sat_add s ws"

lemma unat_sat64: "unat (sat64 n) = min n (2 ^ 64 - 1)"
proof (cases "n < 2 ^ 64")
  case True
  then show ?thesis by (simp add: sat64_def unat_of_nat)
qed (simp add: sat64_def unsigned_minus_1_eq_mask mask_eq_exp_minus_1)

lemma sat64_unat [simp]: "sat64 (unat w) = w"
  using unsigned_less [of w, where ?'a = nat] by (simp add: sat64_def)

lemma sat64_min [simp]: "sat64 (min n (2 ^ 64 - 1)) = sat64 n"
  by (metis sat64_unat unat_sat64)

lemma sat64_absorb:
  "sat64 (unat (sat64 n) + m) = sat64 (n + m)" "sat64 (m + unat (sat64 n)) = sat64 (m + n)"
proof -
  have "min (min n k + m) k = min (n + m) k" for k :: nat by auto
  then show "sat64 (unat (sat64 n) + m) = sat64 (n + m)"
    by (metis sat64_min unat_sat64)
  then show "sat64 (m + unat (sat64 n)) = sat64 (m + n)" by (simp add: add.commute)
qed

lemma sat64_twice: "sat64 (u + 2 * unat (sat64 s)) = sat64 (u + 2 * s)"
proof -
  have "min (u + 2 * min s k) k = min (u + 2 * s) k" for k :: nat by auto
  then show ?thesis by (metis sat64_min unat_sat64)
qed

lemma sat_sum_val: "sat_sum s ws = sat64 (unat s + (\<Sum>w\<leftarrow>ws. unat w))"
  by (induction ws arbitrary: s) (simp_all add: sat_add_def sat64_absorb add.assoc)

lemma sat64_0_iff [simp]: "sat64 n = 0 \<longleftrightarrow> n = 0"
  using unat_sat64 [of n] by (auto simp: min_def split: if_splits) (metis unat_0 sat64_unat)

subsection \<open>The view\<close>

type_synonym wpair = "nat \<times> nat \<times> 64 word"

record wgraph =
  wg_ids :: "node_id list"
  wg_start :: "nat list"
  wg_nbr :: "(nat \<times> 64 word) list"
  wg_self :: "64 word list"
  wg_strengths :: "64 word list"
  wg_total :: "64 word"

definition wg_over_limit :: wgraph where
  "wg_over_limit = \<lparr>wg_ids = [], wg_start = [0], wg_nbr = [], wg_self = [], wg_strengths = [], wg_total = 0\<rparr>"

definition wg_len :: "wgraph \<Rightarrow> nat" where
  "wg_len g = length (wg_ids g)"

definition pair_count :: "wgraph \<Rightarrow> nat" where
  "pair_count g = length (wg_nbr g) div 2"

definition wg_id :: "wgraph \<Rightarrow> nat \<Rightarrow> node_id" where
  "wg_id g ix = wg_ids g ! ix"

definition wg_index_of :: "wgraph \<Rightarrow> node_id \<Rightarrow> nat option" where
  "wg_index_of g i = (case binary_search_by (\<lambda>x. cmp_of x i) (wg_ids g) of Inr ix \<Rightarrow> Some ix | Inl _ \<Rightarrow> None)"

definition neighbours :: "wgraph \<Rightarrow> nat \<Rightarrow> (nat \<times> 64 word) list" where
  "neighbours g ix = slice (wg_nbr g) (wg_start g ! ix) (wg_start g ! Suc ix)"

definition self_weight :: "wgraph \<Rightarrow> nat \<Rightarrow> 64 word" where
  "self_weight g ix = wg_self g ! ix"

definition wg_strength :: "wgraph \<Rightarrow> nat \<Rightarrow> 64 word" where
  "wg_strength g ix = wg_strengths g ! ix"

text \<open>
  \<open>assemble_with\<close>: sort the pairs by their ends, add up equal ones, count each end's row (a
  self-loop goes to the diagonal, twice), lay the rows out. The sort is unstable in the code; the
  weights of equal pairs are summed with saturation, so their order does not matter.
\<close>

definition pair_key :: "wpair \<Rightarrow> nat \<times> nat" where
  "pair_key p = (fst p, fst (snd p))"

definition merge_step :: "wpair list \<Rightarrow> wpair \<Rightarrow> wpair list" where
  "merge_step merged p =
     (case p of (a, b, w) \<Rightarrow>
        if merged \<noteq> [] \<and> fst (last merged) = a \<and> fst (snd (last merged)) = b
        then butlast merged @ [(a, b, sat_add (snd (snd (last merged))) w)]
        else merged @ [(a, b, w)])"

definition merge_pairs :: "wpair list \<Rightarrow> wpair list" where
  "merge_pairs pairs = foldl merge_step [] (sort_key pair_key pairs)"

fun count_links ::
  "nat \<Rightarrow> wpair list \<Rightarrow> nat list \<times> 64 word list \<times> nat \<Rightarrow> (nat list \<times> 64 word list \<times> nat) option" where
  "count_links cap [] st = Some st"
| "count_links cap ((a, b, w) # ms) (start, self_w, links) =
     (if a = b then count_links cap ms (start, self_w[a := sat_add (self_w ! a) (sat_mul w 2)], links)
      else if cap < links + 2 then None
      else count_links cap ms
        ((start[Suc a := Suc (start ! Suc a)])[Suc b := Suc (start[Suc a := Suc (start ! Suc a)] ! Suc b)],
         self_w, links + 2))"

definition both_ends :: "wpair list \<Rightarrow> (nat \<times> nat \<times> 64 word) list" where
  "both_ends merged = concat (map (\<lambda>(a, b, w). if a = b then [] else [(a, b, w), (b, a, w)]) merged)"

definition assemble_with :: "node_id list \<Rightarrow> wpair list \<Rightarrow> 64 word list \<Rightarrow> nat \<Rightarrow> wgraph" where
  "assemble_with ids pairs self_w cap =
     (let n = length ids in
      if n > cap then wg_over_limit
      else
        let self_w = take n self_w @ replicate (n - length self_w) 0;
            merged = merge_pairs pairs
        in (case count_links cap merged (replicate (n + 1) 0, self_w, 0) of
              None \<Rightarrow> wg_over_limit
            | Some (start, self_w, links) \<Rightarrow>
                let start = csr_prefix n start;
                    (cursor, nbr) = fold csr_place (both_ends merged) (start, replicate links (0, 0));
                    strength = map (\<lambda>i. sat_sum (self_w ! i) (map snd (slice nbr (start ! i) (start ! Suc i)))) [0..<n]
                in \<lparr>wg_ids = ids, wg_start = start, wg_nbr = nbr, wg_self = self_w,
                     wg_strengths = strength, wg_total = sat_sum 0 strength\<rparr>))"

definition assemble :: "node_id list \<Rightarrow> wpair list \<Rightarrow> nat \<Rightarrow> wgraph" where
  "assemble ids pairs cap =
     (if length ids > cap then wg_over_limit
      else assemble_with ids pairs (replicate (length ids) 0) cap)"

text \<open>\<open>from_pairs\<close>: a pair of weight 0 or with an end outside the view is skipped.\<close>

definition keep_pairs :: "nat \<Rightarrow> wpair list \<Rightarrow> wpair list" where
  "keep_pairs n pairs =
     map (\<lambda>(a, b, w). (min a b, max a b, w)) (filter (\<lambda>(a, b, w). 0 < w \<and> a < n \<and> b < n) pairs)"

definition wg_from_pairs :: "nat \<Rightarrow> wpair list \<Rightarrow> wgraph" where
  "wg_from_pairs n pairs =
     (if n > u32_max then wg_over_limit
      else assemble (map of_nat [0..<n]) (keep_pairs n pairs) u32_max)"

text \<open>\<open>from_source\<close>: the category table, the ids in ascending order, one pair per kept edge.\<close>

fun dedup_by_key :: "('a \<Rightarrow> 'k) \<Rightarrow> 'a list \<Rightarrow> 'a list" where
  "dedup_by_key f (x # y # xs) = (if f x = f y then dedup_by_key f (x # xs) else x # dedup_by_key f (y # xs))"
| "dedup_by_key f xs = xs"

definition weight_table :: "(category \<times> 32 word) list \<Rightarrow> (category \<times> 32 word) list" where
  "weight_table ws = filter (\<lambda>(c, w). 0 < w) (dedup_by_key fst (sort_key fst ws))"

definition table_weight :: "(category \<times> 32 word) list \<Rightarrow> category \<Rightarrow> 32 word" where
  "table_weight t c = (case binary_search_by (\<lambda>(x, _). cmp_of x c) t of Inr i \<Rightarrow> snd (t ! i) | Inl _ \<Rightarrow> 0)"

definition ranks_of :: "nat list \<Rightarrow> nat \<Rightarrow> nat list" where
  "ranks_of order n = fold (\<lambda>(r, ix) rank. rank[ix := r]) (enumerate 0 order) (replicate n 0)"

definition wg_from_source :: "graph_source \<Rightarrow> (category \<times> 32 word) list \<Rightarrow> wgraph" where
  "wg_from_source g weights =
     (let table = weight_table weights;
          adj = build g (category_set_of (map fst table));
          n = adj_len adj;
          order = sort_key (adj_id adj) [0..<n];
          rank = ranks_of order n;
          pairs = concat (map (\<lambda>ix. concat (map (\<lambda>inc.
            let w = table_weight table (i_category inc); a = rank ! ix; b = rank ! i_other inc
            in if w = 0 then [] else [(min a b, max a b, ucast w)]) (outgoing adj ix))) [0..<n])
      in assemble (map (adj_id adj) order) pairs u32_max)"

text \<open>\<open>quotient\<close>: one node per label below \<open>k\<close>, its diagonal the weight inside it.\<close>

definition label_at :: "nat list \<Rightarrow> nat \<Rightarrow> nat \<Rightarrow> nat option" where
  "label_at membership k v = (if v < length membership \<and> membership ! v < k then Some (membership ! v) else None)"

definition quotient_nbr ::
  "nat list \<Rightarrow> nat \<Rightarrow> nat \<Rightarrow> nat \<Rightarrow> nat \<times> 64 word \<Rightarrow> 64 word list \<times> wpair list \<Rightarrow> 64 word list \<times> wpair list" where
  "quotient_nbr membership k v c uw st =
     (let (u, w) = uw; (self_w, pairs) = st in
      if u < v then (self_w, pairs)
      else (case label_at membership k u of
          Some d \<Rightarrow>
            if d = c then (self_w[c := sat_add (self_w ! c) (sat_mul w 2)], pairs)
            else (self_w, pairs @ [(min c d, max c d, w)])
        | None \<Rightarrow> (self_w, pairs)))"

definition quotient_node ::
  "wgraph \<Rightarrow> nat list \<Rightarrow> nat \<Rightarrow> nat \<Rightarrow> 64 word list \<times> wpair list \<Rightarrow> 64 word list \<times> wpair list" where
  "quotient_node g membership k v st =
     (case label_at membership k v of
        None \<Rightarrow> st
      | Some c \<Rightarrow>
          let (self_w, pairs) = st
          in fold (quotient_nbr membership k v c) (neighbours g v)
               (self_w[c := sat_add (self_w ! c) (self_weight g v)], pairs))"

definition wg_quotient :: "wgraph \<Rightarrow> nat list \<Rightarrow> nat \<Rightarrow> wgraph" where
  "wg_quotient g membership k =
     (if k > u32_max then wg_over_limit
      else
        let (self_w, pairs) = fold (quotient_node g membership k) [0..<wg_len g] (replicate k 0, [])
        in assemble_with (map of_nat [0..<k]) pairs self_w u32_max)"

subsection \<open>Merging\<close>

abbreviation keys_of :: "wpair list \<Rightarrow> (nat \<times> nat) set" where
  "keys_of pairs \<equiv> pair_key ` set pairs"

definition wsum :: "wpair list \<Rightarrow> nat \<times> nat \<Rightarrow> nat" where
  "wsum pairs k = (\<Sum>p\<leftarrow>pairs. if pair_key p = k then unat (snd (snd p)) else 0)"

lemma wsum_simps [simp]:
  "wsum [] k = 0"
  "wsum (p # ps) k = (if pair_key p = k then unat (snd (snd p)) else 0) + wsum ps k"
  "wsum (ps @ qs) k = wsum ps k + wsum qs k"
  by (simp_all add: wsum_def)

lemma wsum_absent: "k \<notin> keys_of ps \<Longrightarrow> wsum ps k = 0"
  by (induction ps) auto

lemma wsum_mset: "mset ps = mset qs \<Longrightarrow> wsum ps k = wsum qs k"
  unfolding wsum_def sum_mset_sum_list [symmetric] mset_map by simp

lemma slos_snoc:
  assumes "finite (K :: ('a :: linorder) set)" and "\<forall>k\<in>K. k < m"
  shows "sorted_list_of_set (insert m K) = sorted_list_of_set K @ [m]"
proof -
  have "sorted_wrt (<) (sorted_list_of_set K @ [m])"
    using assms by (simp add: sorted_wrt_append)
  moreover have "set (sorted_list_of_set K @ [m]) = insert m K" using assms(1) by simp
  ultimately show ?thesis
    using sorted_list_of_set.idem_if_sorted_distinct [of "sorted_list_of_set K @ [m]"]
    by (simp only: strict_sorted_iff)
qed

lemma merged_snoc:
  assumes "sorted (map pair_key (ps @ [p]))"
    and "foldl merge_step [] ps = map (\<lambda>k. (fst k, snd k, sat64 (wsum ps k))) (sorted_list_of_set (keys_of ps))"
  shows "foldl merge_step [] (ps @ [p]) =
    map (\<lambda>k. (fst k, snd k, sat64 (wsum (ps @ [p]) k))) (sorted_list_of_set (keys_of (ps @ [p])))"
proof -
  let ?k = "pair_key p"
  obtain a b w where p: "p = (a, b, w)" by (cases p)
  have k: "?k = (a, b)" by (simp add: p pair_key_def)
  have le: "\<forall>k\<in>keys_of ps. k \<le> ?k" using assms(1) by (auto simp: sorted_append)
  let ?K = "keys_of ps - {?k}"
  have slos: "sorted_list_of_set (insert ?k ?K) = sorted_list_of_set ?K @ [?k]"
    using le by (intro slos_snoc) auto
  have same: "map (\<lambda>k. (fst k, snd k, sat64 (wsum (ps @ [p]) k))) (sorted_list_of_set ?K) =
      map (\<lambda>k. (fst k, snd k, sat64 (wsum ps k))) (sorted_list_of_set ?K)"
    by (intro map_cong) auto
  show ?thesis
  proof (cases "?k \<in> keys_of ps")
    case True
    then have K: "keys_of ps = insert ?k ?K" "keys_of (ps @ [p]) = insert ?k ?K" by auto
    have last: "foldl merge_step [] ps =
        map (\<lambda>k. (fst k, snd k, sat64 (wsum ps k))) (sorted_list_of_set ?K) @ [(a, b, sat64 (wsum ps ?k))]"
      unfolding assms(2) by (subst K(1)) (simp only: k slos [unfolded k] map_append list.map fst_conv snd_conv)
    show ?thesis
      unfolding K(2) slos map_append same foldl_append
      by (simp add: last merge_step_def p sat_add_def sat64_absorb k [unfolded p])
  next
    case False
    then have K: "keys_of ps = ?K" "keys_of (ps @ [p]) = insert ?k ?K" by auto
    have "merged = [] \<or> (fst (last merged), fst (snd (last merged))) \<noteq> (a, b)"
      if m: "merged = foldl merge_step [] ps" for merged
    proof (cases "merged = []")
      case False
      then have "last merged \<in> set merged" by simp
      then have "(fst (last merged), fst (snd (last merged))) \<in> (\<lambda>q. (fst q, fst (snd q))) ` set (foldl merge_step [] ps)"
        unfolding m by (rule image_eqI [OF refl])
      also have "\<dots> = keys_of ps" unfolding assms(2) by (simp add: image_image)
      finally have "(fst (last merged), fst (snd (last merged))) \<in> keys_of ps" .
      then show ?thesis using \<open>?k \<notin> keys_of ps\<close> k by auto
    qed simp
    then have "foldl merge_step [] (ps @ [p]) = foldl merge_step [] ps @ [(a, b, w)]"
      by (auto simp: merge_step_def p)
    then show ?thesis
      unfolding K(2) slos map_append same using False K(1) assms(2) wsum_absent [OF False]
      by (simp add: p k [unfolded p])
  qed
qed

lemma merge_pairs_eq:
  "merge_pairs pairs = map (\<lambda>k. (fst k, snd k, sat64 (wsum pairs k))) (sorted_list_of_set (keys_of pairs))"
proof -
  have "foldl merge_step [] ps = map (\<lambda>k. (fst k, snd k, sat64 (wsum ps k))) (sorted_list_of_set (keys_of ps))"
    if "sorted (map pair_key ps)" for ps
    using that
  proof (induction ps rule: rev_induct)
    case (snoc p ps)
    show ?case by (rule merged_snoc) (use snoc in \<open>simp_all add: sorted_append\<close>)
  qed simp
  from this [of "sort_key pair_key pairs"] show ?thesis
    using wsum_mset [of "sort_key pair_key pairs" pairs] by (simp add: merge_pairs_def)
qed

subsection \<open>Laying the rows out\<close>

lemma both_ends_Cons:
  "both_ends ((a, b, w) # ms) = (if a = b then [] else [(a, b, w), (b, a, w)]) @ both_ends ms"
  by (simp add: both_ends_def)

definition add_loops :: "wpair list \<Rightarrow> 64 word list \<Rightarrow> 64 word list" where
  "add_loops ms self_w =
     fold (\<lambda>(a, b, w) s. if a = b then s[a := sat_add (s ! a) (sat_mul w 2)] else s) ms self_w"

lemma csr_count_append: "csr_count (xs @ ys) s = csr_count ys (csr_count xs s)"
  by (simp add: csr_count_def)

lemma count_links_eq:
  "links \<le> cap \<Longrightarrow> count_links cap ms (start, self_w, links) =
     (if cap < links + length (both_ends ms) then None
      else Some (csr_count (map fst (both_ends ms)) start, add_loops ms self_w, links + length (both_ends ms)))"
proof (induction ms arbitrary: start self_w links)
  case Nil
  then show ?case by (simp add: both_ends_def csr_count_def add_loops_def)
next
  case (Cons m ms)
  obtain a b w where m: "m = (a, b, w)" by (cases m)
  show ?case
  proof (cases "a = b")
    case True
    then show ?thesis using Cons by (simp add: m both_ends_Cons add_loops_def)
  next
    case False
    then show ?thesis
      using Cons.IH [of "links + 2"] by (simp add: m both_ends_Cons add_loops_def csr_count_def)
  qed
qed

lemma length_add_loops [simp]: "length (add_loops ms s) = length s"
  by (induction ms arbitrary: s) (auto simp: add_loops_def split: prod.splits)

lemma add_loops_nth:
  "x < length s \<Longrightarrow>
   add_loops ms s ! x = sat64 (unat (s ! x) + (\<Sum>p\<leftarrow>ms. if pair_key p = (x, x) then 2 * unat (snd (snd p)) else 0))"
proof (induction ms arbitrary: s)
  case (Cons m ms)
  obtain a b w where m: "m = (a, b, w)" by (cases m)
  let ?s = "if a = b then s[a := sat_add (s ! a) (sat_mul w 2)] else s"
  have "add_loops (m # ms) s = add_loops ms ?s" by (simp add: add_loops_def m)
  moreover have "x < length ?s" using Cons.prems by simp
  moreover have "?s ! x = sat64 (unat (s ! x) + (if pair_key m = (x, x) then 2 * unat w else 0))"
    using Cons.prems
    by (auto simp: m pair_key_def sat_add_def sat_mul_def sat64_absorb nth_list_update mult.commute)
  ultimately show ?case
    using Cons.IH [of ?s] by (simp only: m snd_conv list.map sum_list.Cons sat64_absorb add.assoc)
qed (simp add: add_loops_def)

lemma self_of_merged:
  assumes "x < length s"
  shows "add_loops (merge_pairs pairs) s ! x = sat64 (unat (s ! x) + 2 * wsum pairs (x, x))"
proof -
  let ?M = "sorted_list_of_set (keys_of pairs)"
  have "(\<Sum>p\<leftarrow>merge_pairs pairs. if pair_key p = (x, x) then 2 * unat (snd (snd p)) else 0) =
      (\<Sum>k\<leftarrow>?M. if k = (x, x) then 2 * unat (sat64 (wsum pairs k)) else 0)"
    by (simp add: merge_pairs_eq pair_key_def o_def prod_eq_iff cong: if_cong)
  also have "\<dots> = (\<Sum>k\<in>keys_of pairs. if k = (x, x) then 2 * unat (sat64 (wsum pairs k)) else 0)"
    by (simp add: sum_list_distinct_conv_sum_set)
  also have "\<dots> = 2 * unat (sat64 (wsum pairs (x, x)))"
    using wsum_absent [of "(x, x)" pairs] by (auto simp: sum.delta sat64_def)
  finally have "add_loops (merge_pairs pairs) s ! x = sat64 (unat (s ! x) + 2 * unat (sat64 (wsum pairs (x, x))))"
    using add_loops_nth [OF assms, of "merge_pairs pairs"] by simp
  also have "\<dots> = sat64 (unat (s ! x) + 2 * wsum pairs (x, x))"
    by (rule sat64_twice)
  finally show ?thesis .
qed

text \<open>The ends incident to \<open>x\<close> come out of the sorted pairs in ascending order.\<close>

abbreviation joined :: "(nat \<times> nat) set \<Rightarrow> nat \<Rightarrow> nat set" where
  "joined K x \<equiv> {y. y \<noteq> x \<and> (min x y, max x y) \<in> K}"

lemma row_of_append: "row_of (xs @ ys) r = row_of xs r @ row_of ys r"
  by (simp add: row_of_def)

lemma row_of_both_ends:
  assumes "\<forall>k\<in>set ks. fst k \<le> snd k"
  shows "row_of (both_ends (map (\<lambda>k. (fst k, snd k, f k)) ks)) x =
    map (\<lambda>y. (y, f (min x y, max x y)))
      (map (\<lambda>k. if fst k = x then snd k else fst k) (filter (\<lambda>k. fst k \<noteq> snd k \<and> (fst k = x \<or> snd k = x)) ks))"
  using assms
proof (induction ks)
  case (Cons k ks)
  obtain a b where k: "k = (a, b)" by (cases k)
  have "a \<le> b" using Cons.prems k by simp
  then show ?case using Cons by (auto simp: k both_ends_Cons row_of_append row_of_def min_def max_def)
qed (simp add: both_ends_def row_of_def)

lemma ends_sorted:
  assumes "sorted_wrt (<) ks" and "\<forall>k\<in>set ks. fst k \<le> snd k"
  shows "map (\<lambda>k. if fst k = x then snd k else fst k) (filter (\<lambda>k. fst k \<noteq> snd k \<and> (fst k = x \<or> snd k = x)) ks) =
    sorted_list_of_set (joined (set ks) x)"
proof -
  let ?ks = "filter (\<lambda>k. fst k \<noteq> snd k \<and> (fst k = x \<or> snd k = x)) ks"
  let ?o = "\<lambda>k. if fst k = x then snd k else fst k"
  have "sorted_wrt (<) ?ks" using assms(1) by (rule sorted_wrt_filter)
  then have "sorted_wrt (\<lambda>k l. ?o k < ?o l) ?ks"
    by (rule sorted_wrt_mono_rel [rotated]) (use assms(2) in \<open>fastforce simp: less_prod_def\<close>)
  then have "sorted_wrt (<) (map ?o ?ks)" by (simp only: sorted_wrt_map)
  moreover have "set (map ?o ?ks) = joined (set ks) x"
    using assms(2) by (auto simp: min_def max_def image_iff split: if_splits) force+
  ultimately show ?thesis
    using sorted_list_of_set.idem_if_sorted_distinct [of "map ?o ?ks"] by (simp only: strict_sorted_iff)
qed

text \<open>What the constructors assume of their pairs, and the limit they run under.\<close>

definition pairs_in :: "nat \<Rightarrow> wpair list \<Rightarrow> bool" where
  "pairs_in n pairs \<longleftrightarrow> (\<forall>k\<in>keys_of pairs. fst k \<le> snd k \<and> snd k < n)"

definition entries :: "wpair list \<Rightarrow> nat" where
  "entries pairs = 2 * card {k \<in> keys_of pairs. fst k \<noteq> snd k}"

lemma length_both_ends: "length (both_ends (merge_pairs pairs)) = entries pairs"
proof -
  have "length (both_ends (map (\<lambda>k. (fst k, snd k, f k)) ks)) = 2 * length (filter (\<lambda>k. fst k \<noteq> snd k) ks)"
    for f and ks :: "(nat \<times> nat) list"
    by (induction ks) (simp_all add: both_ends_Cons, simp add: both_ends_def)
  moreover have "length (filter P (sorted_list_of_set K)) = card {k \<in> K. P k}" if "finite K" for P and K :: "(nat \<times> nat) set"
    using that distinct_card [of "filter P (sorted_list_of_set K)"] by simp
  ultimately show ?thesis by (simp add: merge_pairs_eq entries_def)
qed

lemma assemble_with_over:
  "cap < length ids \<or> cap < entries pairs \<Longrightarrow> assemble_with ids pairs self_w cap = wg_over_limit"
  by (auto simp: assemble_with_def count_links_eq length_both_ends)

lemma assemble_with_view:
  fixes ids pairs self_w cap
  defines "g \<equiv> assemble_with ids pairs self_w cap"
  assumes fits: "length ids \<le> cap" "entries pairs \<le> cap"
    and pairs: "pairs_in (length ids) pairs" and self: "length self_w = length ids"
  shows "wg_ids g = ids" and "length (wg_self g) = length ids"
    and "wg_strengths g = map (\<lambda>x. sat_sum (self_weight g x) (map snd (neighbours g x))) [0..<length ids]"
    and "wg_total g = sat_sum 0 (wg_strengths g)"
    and "length (wg_nbr g) = entries pairs"
    and "\<And>x. x < length ids \<Longrightarrow> neighbours g x =
      map (\<lambda>y. (y, sat64 (wsum pairs (min x y, max x y)))) (sorted_list_of_set (joined (keys_of pairs) x))"
    and "\<And>x. x < length ids \<Longrightarrow> self_weight g x = sat64 (unat (self_w ! x) + 2 * wsum pairs (x, x))"
proof -
  let ?n = "length ids" and ?M = "merge_pairs pairs"
  let ?keyed = "both_ends ?M"
  let ?start = "csr_prefix ?n (csr_count (map fst ?keyed) (replicate (Suc ?n) 0))"
  let ?nbr = "snd (fold csr_place ?keyed (?start, replicate (entries pairs) (0, 0)))"
  have "count_links cap ?M (replicate (Suc ?n) 0, self_w, 0) =
      Some (csr_count (map fst ?keyed) (replicate (Suc ?n) 0), add_loops ?M self_w, entries pairs)"
    using count_links_eq [of 0 cap ?M "replicate (Suc ?n) 0" self_w] fits(2) by (simp add: length_both_ends)
  then have g: "g = \<lparr>wg_ids = ids, wg_start = ?start, wg_nbr = ?nbr, wg_self = add_loops ?M self_w,
      wg_strengths = map (\<lambda>i. sat_sum (add_loops ?M self_w ! i) (map snd (slice ?nbr (?start ! i) (?start ! Suc i)))) [0..<?n],
      wg_total = sat_sum 0 (map (\<lambda>i. sat_sum (add_loops ?M self_w ! i) (map snd (slice ?nbr (?start ! i) (?start ! Suc i)))) [0..<?n])\<rparr>"
    using fits(1) self by (simp add: g_def assemble_with_def case_prod_beta del: replicate_Suc)
  have nb: "neighbours g x = slice ?nbr (?start ! x) (?start ! Suc x)" for x by (simp add: g neighbours_def)
  show "wg_ids g = ids" "length (wg_self g) = ?n" using self by (simp_all add: g)
  show "wg_strengths g = map (\<lambda>x. sat_sum (self_weight g x) (map snd (neighbours g x))) [0..<?n]"
    unfolding nb by (simp add: g self_weight_def)
  show "wg_total g = sat_sum 0 (wg_strengths g)" by (simp add: g)
  have "length (snd (fold csr_place ps st)) = length (snd st)" for ps and st :: "nat list \<times> (nat \<times> 64 word) list"
    by (induction ps arbitrary: st) (auto simp: case_prod_beta)
  then show "length (wg_nbr g) = entries pairs" by (simp add: g)
  fix x assume x: "x < ?n"
  show "self_weight g x = sat64 (unat (self_w ! x) + 2 * wsum pairs (x, x))"
    using x self by (simp add: g self_weight_def self_of_merged)
  have keys: "\<forall>k\<in>set (sorted_list_of_set (keys_of pairs)). fst k \<le> snd k"
    using pairs by (simp add: pairs_in_def)
  have "\<forall>p\<in>set ?keyed. fst p < ?n"
    using pairs by (fastforce simp: both_ends_def merge_pairs_eq pairs_in_def)
  then have "neighbours g x = row_of ?keyed x"
    unfolding nb using x by (intro placed_rows) (simp_all add: length_both_ends)
  also have "\<dots> = map (\<lambda>y. (y, sat64 (wsum pairs (min x y, max x y)))) (sorted_list_of_set (joined (keys_of pairs) x))"
    unfolding merge_pairs_eq row_of_both_ends [OF keys] by (subst ends_sorted [OF _ keys]) simp_all
  finally show "neighbours g x = map (\<lambda>y. (y, sat64 (wsum pairs (min x y, max x y)))) (sorted_list_of_set (joined (keys_of pairs) x))" .
qed

subsection \<open>The invariant of a view\<close>

definition wg_ok :: "wgraph \<Rightarrow> bool" where
  "wg_ok g \<longleftrightarrow>
     length (wg_self g) = wg_len g \<and>
     wg_strengths g = map (\<lambda>x. sat_sum (self_weight g x) (map snd (neighbours g x))) [0..<wg_len g] \<and>
     wg_total g = sat_sum 0 (wg_strengths g) \<and>
     (\<forall>x < wg_len g. sorted_wrt (<) (map fst (neighbours g x)) \<and>
        (\<forall>(y, w)\<in>set (neighbours g x). y < wg_len g \<and> y \<noteq> x \<and> 0 < w \<and> (x, w) \<in> set (neighbours g y)))"

lemma wg_ok_over_limit [wf_intros]: "wg_ok wg_over_limit"
  by (simp add: wg_ok_def wg_over_limit_def wg_len_def)

lemma wsum_pos:
  assumes "k \<in> keys_of pairs" and "\<forall>p\<in>set pairs. 0 < snd (snd p)"
  shows "0 < wsum pairs k"
  using assms by (induction pairs) (auto simp: unat_gt_0 word_neq_0_conv)

lemma wg_ok_assemble_with [wf_intros]:
  assumes "pairs_in (length ids) pairs" and "length self_w = length ids" and "\<forall>p\<in>set pairs. 0 < snd (snd p)"
  shows "wg_ok (assemble_with ids pairs self_w cap)"
proof (cases "length ids \<le> cap \<and> entries pairs \<le> cap")
  case True
  note view = assemble_with_view [OF conjunct1 [OF True] conjunct2 [OF True] assms(1,2)]
  have fin: "finite (joined (keys_of pairs) x)" for x
  proof (rule finite_subset)
    show "joined (keys_of pairs) x \<subseteq> fst ` keys_of pairs \<union> snd ` keys_of pairs"
      by (auto simp: min_def max_def image_iff split: if_splits) (metis fst_conv snd_conv)+
  qed simp
  have inside: "y < length ids" if "y \<in> joined (keys_of pairs) x" for x y
  proof -
    have "(min x y, max x y) \<in> keys_of pairs" using that by simp
    then have "snd (min x y, max x y) < length ids" using assms(1) unfolding pairs_in_def by blast
    then show ?thesis by simp
  qed
  have pos: "0 < sat64 (wsum pairs k)" if "k \<in> keys_of pairs" for k
    using wsum_pos [OF that assms(3)] by (simp add: word_gt_0)
  have n: "wg_len (assemble_with ids pairs self_w cap) = length ids" by (simp add: wg_len_def view(1))
  define K where "K = keys_of pairs"
  note nbr = view(6) [folded K_def] and fin = fin [folded K_def] and inside = inside [folded K_def]
    and pos = pos [folded K_def]
  have sym: "x \<in> joined K y" if "y \<in> joined K x" for x y
    using that by (auto simp: min.commute max.commute)
  show ?thesis
    unfolding wg_ok_def n
  proof (intro conjI allI impI ballI)
    fix x assume x: "x < length ids"
    show "sorted_wrt (<) (map fst (neighbours (assemble_with ids pairs self_w cap) x))"
      by (simp add: nbr [OF x] o_def)
    fix yw assume "yw \<in> set (neighbours (assemble_with ids pairs self_w cap) x)"
    then obtain y where yw: "yw = (y, sat64 (wsum pairs (min x y, max x y)))" and y: "y \<in> joined K x"
      by (auto simp: nbr [OF x] fin)
    have "0 < sat64 (wsum pairs (min x y, max x y))" using y by (intro pos) simp
    moreover have "(x, sat64 (wsum pairs (min y x, max y x))) \<in> set (neighbours (assemble_with ids pairs self_w cap) y)"
      using sym [OF y] by (simp add: nbr [OF inside [OF y]] fin)
    ultimately show "case yw of (y, w) \<Rightarrow> y < length ids \<and> y \<noteq> x \<and> 0 < w \<and>
        (x, w) \<in> set (neighbours (assemble_with ids pairs self_w cap) y)"
      using y inside [OF y] by (simp add: yw min.commute max.commute)
  qed (simp_all add: view)
next
  case False
  then show ?thesis by (auto simp: assemble_with_over intro: wf_intros)
qed

subsection \<open>\<open>from_pairs\<close>\<close>

text \<open>The weight two nodes are joined with by a list of pairs, either way round.\<close>

definition pair_weight :: "wpair list \<Rightarrow> nat \<Rightarrow> nat \<Rightarrow> nat" where
  "pair_weight pairs x y = (\<Sum>(a, b, w)\<leftarrow>pairs. if a = x \<and> b = y \<or> a = y \<and> b = x then unat w else 0)"

lemma keep_pairs_Cons:
  "keep_pairs n ((a, b, w) # ps) = (if 0 < w \<and> a < n \<and> b < n then [(min a b, max a b, w)] else []) @ keep_pairs n ps"
  by (simp add: keep_pairs_def)

lemma wsum_keep_pairs:
  "x < n \<Longrightarrow> y < n \<Longrightarrow> wsum (keep_pairs n pairs) (min x y, max x y) = pair_weight pairs x y"
proof (induction pairs)
  case (Cons p ps)
  obtain a b w where p: "p = (a, b, w)" by (cases p)
  have "min a b = min x y \<and> max a b = max x y \<longleftrightarrow> a = x \<and> b = y \<or> a = y \<and> b = x"
    by (auto simp: min_def max_def)
  then show ?case
    using Cons by (auto simp: p keep_pairs_Cons pair_weight_def pair_key_def word_neq_0_conv [symmetric])
qed (simp add: keep_pairs_def pair_weight_def)

lemma keep_pairs_ok:
  "pairs_in n (keep_pairs n pairs)" "\<forall>p\<in>set (keep_pairs n pairs). 0 < snd (snd p)"
  by (auto simp: keep_pairs_def pairs_in_def pair_key_def)

lemma wsum_pos_iff:
  "\<forall>p\<in>set pairs. 0 < snd (snd p) \<Longrightarrow> k \<in> keys_of pairs \<longleftrightarrow> 0 < wsum pairs k"
  using wsum_pos [of k pairs] wsum_absent [of k pairs] by (metis less_numeral_extra(3))

lemma slos_filter: "sorted_list_of_set {y. y < n \<and> P y} = filter P [0..<n]"
proof -
  have "{y. y < n \<and> P y} = set (filter P [0..<n])" by auto
  moreover have "sorted (filter P [0..<n])" by (rule sorted_wrt_filter) simp
  ultimately show ?thesis
    using sorted_list_of_set.idem_if_sorted_distinct [of "filter P [0..<n]"] by simp
qed

lemma joined_keep_pairs:
  assumes "x < n"
  shows "joined (keys_of (keep_pairs n pairs)) x = {y. y < n \<and> y \<noteq> x \<and> 0 < pair_weight pairs x y}"
proof -
  have inside: "y < n" if "(min x y, max x y) \<in> keys_of (keep_pairs n pairs)" for y
    using keep_pairs_ok(1) [of n pairs] bspec [OF _ that] unfolding pairs_in_def
    by (metis (no_types, lifting) le_less_trans max.cobounded2 snd_conv that)
  show ?thesis
  proof -
    have iff: "(min x y, max x y) \<in> keys_of (keep_pairs n pairs) \<longleftrightarrow> y < n \<and> 0 < pair_weight pairs x y" for y
    proof (cases "y < n")
      case True
      then show ?thesis
        by (simp only: wsum_pos_iff [OF keep_pairs_ok(2)] wsum_keep_pairs [OF assms True] True simp_thms)
    qed (use inside in blast)
    show ?thesis unfolding iff by auto
  qed
qed

text \<open>
  C26: the view built from \<open>pairs\<close> has, for every node, exactly the neighbours some kept pair
  joins it to, ascending, each once with the summed weight; twice the self-loops on the diagonal;
  and strengths and total that are their sums, all saturating at \<open>u64::MAX\<close>. Over the index
  limit it is the empty view.
\<close>

theorem from_pairs_sums_weights:
  "if n \<le> u32_max \<and> entries (keep_pairs n pairs) \<le> u32_max then
     let g = wg_from_pairs n pairs in
     wg_ids g = map of_nat [0..<n] \<and>
     map (neighbours g) [0..<n] =
       map (\<lambda>x. map (\<lambda>y. (y, sat64 (pair_weight pairs x y))) (filter (\<lambda>y. y \<noteq> x \<and> 0 < pair_weight pairs x y) [0..<n])) [0..<n] \<and>
     wg_self g = map (\<lambda>x. sat64 (2 * pair_weight pairs x x)) [0..<n] \<and>
     wg_strengths g = map (\<lambda>x. sat64 (2 * pair_weight pairs x x + (\<Sum>y\<leftarrow>filter (\<lambda>y. y \<noteq> x) [0..<n]. pair_weight pairs x y))) [0..<n] \<and>
     wg_total g = sat64 (\<Sum>s\<leftarrow>wg_strengths g. unat s)
   else wg_from_pairs n pairs = wg_over_limit"
proof (cases "n \<le> u32_max \<and> entries (keep_pairs n pairs) \<le> u32_max")
  case True
  let ?g = "wg_from_pairs n pairs" and ?W = "pair_weight pairs"
  have g: "?g = assemble_with (map of_nat [0..<n]) (keep_pairs n pairs) (replicate n 0) u32_max"
    using True by (simp add: wg_from_pairs_def assemble_def)
  note view = assemble_with_view [where ids = "map of_nat [0..<n]" and pairs = "keep_pairs n pairs" and
      self_w = "replicate n 0" and cap = u32_max, folded g, simplified, OF _ _ keep_pairs_ok(1)]
  have view: "wg_ids ?g = map of_nat [0..<n]" "length (wg_self ?g) = n"
    "wg_strengths ?g = map (\<lambda>x. sat_sum (self_weight ?g x) (map snd (neighbours ?g x))) [0..<n]"
    "wg_total ?g = sat_sum 0 (wg_strengths ?g)"
    "\<And>x. x < n \<Longrightarrow> neighbours ?g x =
      map (\<lambda>y. (y, sat64 (wsum (keep_pairs n pairs) (min x y, max x y)))) (sorted_list_of_set (joined (keys_of (keep_pairs n pairs)) x))"
    "\<And>x. x < n \<Longrightarrow> self_weight ?g x = sat64 (2 * wsum (keep_pairs n pairs) (x, x))"
    using True view by simp_all
  have nbr: "neighbours ?g x = map (\<lambda>y. (y, sat64 (?W x y))) (filter (\<lambda>y. y \<noteq> x \<and> 0 < ?W x y) [0..<n])" if "x < n" for x
    unfolding view(5) [OF that] joined_keep_pairs [OF that] slos_filter
    using wsum_keep_pairs [OF that] by simp
  have self: "self_weight ?g x = sat64 (2 * ?W x x)" if "x < n" for x
    using view(6) [OF that] wsum_keep_pairs [OF that that] by simp
  have absorb: "sat64 (a + (\<Sum>y\<leftarrow>ys. unat (sat64 (f y)))) = sat64 (a + (\<Sum>y\<leftarrow>ys. f y))" for a and f :: "nat \<Rightarrow> nat" and ys
    by (induction ys arbitrary: a) (simp_all add: add.assoc [symmetric],
        metis (no_types, lifting) add.assoc add.commute sat64_absorb(2))
  have drop0: "(\<Sum>y\<leftarrow>filter (\<lambda>y. P y \<and> 0 < f y) ys. f y) = (\<Sum>y\<leftarrow>filter P ys. f y)" for P and f :: "nat \<Rightarrow> nat" and ys
    by (induction ys) auto
  have strength: "sat_sum (self_weight ?g x) (map snd (neighbours ?g x)) =
      sat64 (2 * ?W x x + (\<Sum>y\<leftarrow>filter (\<lambda>y. y \<noteq> x) [0..<n]. ?W x y))" if "x < n" for x
    by (simp add: sat_sum_val nbr [OF that] self [OF that] o_def sat64_absorb absorb drop0)
  have selfs: "wg_self ?g = map (\<lambda>x. sat64 (2 * ?W x x)) [0..<n]"
    using view(2) self by (intro nth_equalityI) (simp_all add: self_weight_def)
  have strengths: "wg_strengths ?g =
      map (\<lambda>x. sat64 (2 * ?W x x + (\<Sum>y\<leftarrow>filter (\<lambda>y. y \<noteq> x) [0..<n]. ?W x y))) [0..<n]"
    unfolding view(3) by (intro map_cong refl strength) simp
  have tot: "wg_total ?g = sat64 (\<Sum>s\<leftarrow>wg_strengths ?g. unat s)"
    by (simp only: view(4) sat_sum_val unat_0 add_0)
  show ?thesis
    unfolding if_P [OF True] Let_def
    by (intro conjI view(1) selfs strengths tot map_cong refl nbr) simp
next
  case False
  then show ?thesis
    by (auto simp: wg_from_pairs_def assemble_def assemble_with_over)
qed

subsection \<open>\<open>from_source\<close> is a well-formed view\<close>

lemma ranks_of_spec:
  "length (ranks_of order n) = n \<and> (\<forall>ix < n. ranks_of order n ! ix < max 1 (length order))"
proof -
  have "length rank = n \<Longrightarrow> \<forall>x\<in>set rank. x < m \<Longrightarrow> k + length ord \<le> m \<Longrightarrow>
      length (fold (\<lambda>(r, ix) rank. rank[ix := r]) (enumerate k ord) rank) = n \<and>
      (\<forall>x\<in>set (fold (\<lambda>(r, ix) rank. rank[ix := r]) (enumerate k ord) rank). x < m)" for m k ord and rank :: "nat list"
  proof (induction ord arbitrary: k rank)
    case (Cons ix ord)
    have "\<forall>x\<in>set (rank[ix := k]). x < m"
      using Cons.prems set_update_subset_insert [of rank ix k] by auto
    then show ?case using Cons.IH [of "rank[ix := k]" "Suc k"] Cons.prems by simp
  qed simp
  from this [of "replicate n 0" "max 1 (length order)" 0 order] show ?thesis
    by (auto simp: ranks_of_def less_max_iff_disj)
qed

lemma wg_ok_from_source: "wg_ok (wg_from_source g weights)"
proof -
  define table where "table = weight_table weights"
  define adj where "adj = build g (category_set_of (map fst table))"
  define order where "order = sort_key (adj_id adj) [0..<adj_len adj]"
  define rank where "rank = ranks_of order (adj_len adj)"
  define pairs where "pairs = concat (map (\<lambda>ix. concat (map (\<lambda>inc.
      let w = table_weight table (i_category inc); a = rank ! ix; b = rank ! i_other inc
      in if w = 0 then [] else [(min a b, max a b, ucast w :: 64 word)]) (outgoing adj ix))) [0..<adj_len adj])"
  have len: "length order = adj_len adj" by (simp add: order_def)
  have rank: "rank ! ix < adj_len adj" if "ix < adj_len adj" for ix
    using ranks_of_spec [of order "adj_len adj"] that by (simp add: rank_def len max_def split: if_splits)
  have range: "i_other x < adj_len adj" if "ix < adj_len adj" "x \<in> set (outgoing adj ix)" for ix x
    using built.out_range [where keep = "category_set_of (map fst table)" and cap = u32_max and g = g] that
    by (simp add: adj_def build_def)
  have pos: "(0 :: 64 word) < ucast w" if "w \<noteq> 0" for w :: "32 word"
  proof -
    have "unat (ucast w :: 64 word) = unat w"
      using unsigned_less [of w, where ?'a = nat] by (simp add: unsigned_ucast_eq take_bit_nat_eq_self)
    then show ?thesis using that by (simp add: word_less_nat_alt unat_gt_0)
  qed
  have "pairs_in (length (map (adj_id adj) order)) pairs" "\<forall>p\<in>set pairs. 0 < snd (snd p)"
    using rank range pos by (auto simp: pairs_def pairs_in_def pair_key_def len split: if_splits)
  then have "wg_ok (assemble (map (adj_id adj) order) pairs u32_max)"
    by (auto simp: assemble_def intro!: wf_intros)
  then show ?thesis
    by (simp add: wg_from_source_def table_def adj_def order_def rank_def pairs_def)
qed

lemma wg_ok_from_pairs: "wg_ok (wg_from_pairs n pairs)"
  using keep_pairs_ok [of n pairs] by (auto simp: wg_from_pairs_def assemble_def intro!: wf_intros)

subsection \<open>Every view is well formed\<close>

text \<open>What the fold of a quotient keeps of its diagonal and its pairs, whatever the labelling.\<close>

definition quotient_inv :: "nat \<Rightarrow> 64 word list \<times> wpair list \<Rightarrow> bool" where
  "quotient_inv k st \<longleftrightarrow> length (fst st) = k \<and> pairs_in k (snd st) \<and> (\<forall>p\<in>set (snd st). 0 < snd (snd p))"

lemma label_at_bound: "label_at membership k v = Some c \<Longrightarrow> c < k"
  by (simp add: label_at_def split: if_splits)

lemma quotient_nbr_inv:
  assumes "quotient_inv k st" and "c < k" and "0 < snd uw"
  shows "quotient_inv k (quotient_nbr membership k v c uw st)"
  using assms
  by (auto simp: quotient_nbr_def quotient_inv_def pairs_in_def pair_key_def split: prod.split option.split dest!: label_at_bound)

lemma quotient_node_inv:
  assumes "quotient_inv k st" and "\<forall>uw\<in>set (neighbours g v). 0 < snd uw"
  shows "quotient_inv k (quotient_node g membership k v st)"
proof (cases "label_at membership k v")
  case None
  then show ?thesis using assms(1) by (simp add: quotient_node_def)
next
  case (Some c)
  have "quotient_inv k (fold (quotient_nbr membership k v c) uws st')"
    if "quotient_inv k st'" "\<forall>uw\<in>set uws. 0 < snd uw" for uws st'
    using that quotient_nbr_inv [OF _ label_at_bound [OF Some]] by (induction uws arbitrary: st') simp_all
  moreover have "quotient_inv k ((fst st)[c := sat_add (fst st ! c) (self_weight g v)], snd st)"
    using assms(1) by (simp add: quotient_inv_def)
  ultimately show ?thesis using Some assms(2) by (simp add: quotient_node_def case_prod_unfold)
qed

lemma wg_ok_quotient:
  assumes "wg_ok g"
  shows "wg_ok (wg_quotient g membership k)"
proof -
  have weights: "\<forall>uw\<in>set (neighbours g v). 0 < snd uw" if "v < wg_len g" for v
    using assms that unfolding wg_ok_def by fastforce
  have "quotient_inv k (fold (quotient_node g membership k) vs st)"
    if "quotient_inv k st" "\<forall>v\<in>set vs. v < wg_len g" for vs st
    using that by (induction vs arbitrary: st) (simp_all add: quotient_node_inv [OF _ weights])
  moreover have "quotient_inv k (replicate k 0, [])" by (simp add: quotient_inv_def pairs_in_def)
  moreover have "\<forall>v\<in>set [0..<wg_len g]. v < wg_len g" by simp
  ultimately have inv: "quotient_inv k (fold (quotient_node g membership k) [0..<wg_len g] (replicate k 0, []))"
    by blast
  show ?thesis
  proof (cases "k > u32_max")
    case True
    then show ?thesis by (simp add: wg_quotient_def wg_ok_over_limit)
  next
    case False
    obtain self_w pairs where st: "fold (quotient_node g membership k) [0..<wg_len g] (replicate k 0, []) = (self_w, pairs)"
      by fastforce
    have "wg_ok (assemble_with (map of_nat [0..<k]) pairs self_w u32_max)"
      using inv unfolding st by (intro wg_ok_assemble_with) (simp_all add: quotient_inv_def)
    then show ?thesis using False st by (simp add: wg_quotient_def)
  qed
qed

text \<open>The views a caller can hold: the two that are built and, of any of them, the quotients.\<close>

inductive constructed :: "wgraph \<Rightarrow> bool" where
  from_source: "constructed (wg_from_source g weights)"
| from_pairs: "constructed (wg_from_pairs n pairs)"
| quotient: "constructed g \<Longrightarrow> constructed (wg_quotient g membership k)"

text \<open>
  C27: every view the public constructors return, \<open>from_source\<close>, \<open>from_pairs\<close> and \<open>quotient\<close> by any
  labelling (partial, out of range or over the index limit) of a view they returned, is well
  formed: rows ascending, symmetric, without loops or zero weights, in range; strengths and total
  their saturated sums.
\<close>

theorem views_are_well_formed:
  "constructed g \<Longrightarrow> wg_ok g"
  by (induction rule: constructed.induct) (rule wg_ok_from_source wg_ok_from_pairs wg_ok_quotient; assumption?)+

theorem views_are_well_formed_witness:
  "wg_ok (wg_quotient (wg_from_pairs 3 [(0, 1, 2), (1, 2, 5)]) [0, 7, 0] 2)"
  by (rule views_are_well_formed [OF constructed.quotient [OF constructed.from_pairs]])

end
