(* ===== verification/WQuotient.thy ===== *)
theory WQuotient
  imports WGraph "HOL-Library.Code_Target_Numeral"
begin

text \<open>
  Contracting a view of \<open>activation/src/algo/community.rs\<close> by a labelling
  (\<open>WeightedGraph::quotient\<close>): the accumulated diagonal and pairs as sums over the view's links,
  and the sums a quotient keeps.
\<close>

subsection \<open>Quotients\<close>

text \<open>The unordered links of the view, each from its lower end.\<close>

definition upper_links :: "wgraph \<Rightarrow> nat \<Rightarrow> (nat \<times> nat \<times> 64 word) list" where
  "upper_links g n = concat (map (\<lambda>v. map (\<lambda>(u, w). (v, u, w)) (filter (\<lambda>(u, w). v \<le> u) (neighbours g v))) [0..<n])"

definition cross_pairs :: "nat list \<Rightarrow> (nat \<times> nat \<times> 64 word) list \<Rightarrow> wpair list" where
  "cross_pairs m ls = map (\<lambda>(v, u, w). (min (m ! v) (m ! u), max (m ! v) (m ! u), w))
     (filter (\<lambda>(v, u, w). m ! v \<noteq> m ! u) ls)"

lemma quotient_nbrs:
  assumes "\<forall>(u, w)\<in>set ns. u < length m" and "\<forall>l\<in>set m. l < k" and "length s = k" and "c < k"
  shows "\<exists>s'. fold (quotient_nbr m k v c) ns (s, ps) =
      (s', ps @ map (\<lambda>(u, w). (min c (m ! u), max c (m ! u), w)) (filter (\<lambda>(u, w). v \<le> u \<and> m ! u \<noteq> c) ns)) \<and>
    length s' = k \<and>
    (\<forall>x < k. s' ! x = sat64 (unat (s ! x) + (\<Sum>(u, w)\<leftarrow>ns. if v \<le> u \<and> m ! u = c \<and> c = x then 2 * unat w else 0)))"
  using assms(1,3)
proof (induction ns arbitrary: s ps)
  case (Cons uw ns)
  obtain u w where uw: "uw = (u, w)" by (cases uw)
  have lab: "label_at m k u = Some (m ! u)" using Cons.prems(1) assms(2) by (simp add: label_at_def uw)
  consider "u < v" | "v \<le> u" "m ! u = c" | "v \<le> u" "m ! u \<noteq> c" by linarith
  then show ?case
  proof cases
    case 1
    then show ?thesis using Cons.IH [of s ps] Cons.prems by (simp add: uw quotient_nbr_def)
  next
    case 2
    let ?s = "s[c := sat_add (s ! c) (sat_mul w 2)]"
    have "?s ! x = sat64 (unat (s ! x) + (if c = x then 2 * unat w else 0))" if "x < k" for x
      using that Cons.prems(2) by (auto simp: nth_list_update sat_add_def sat_mul_def sat64_absorb mult.commute)
    then show ?thesis
      using Cons.IH [of ?s ps] Cons.prems 2 lab
      by (auto simp: uw quotient_nbr_def sat64_absorb add.assoc)
  next
    case 3
    then show ?thesis
      using Cons.IH [of s "ps @ [(min c (m ! u), max c (m ! u), w)]"] Cons.prems lab
      by (auto simp: uw quotient_nbr_def)
  qed
qed simp

lemma upper_links_Suc:
  "upper_links g (Suc n) = upper_links g n @ map (\<lambda>(u, w). (n, u, w)) (filter (\<lambda>(u, w). n \<le> u) (neighbours g n))"
  by (simp add: upper_links_def)

lemma nbr_range: "wg_ok g \<Longrightarrow> v < wg_len g \<Longrightarrow> \<forall>(u, w)\<in>set (neighbours g v). u < wg_len g"
  unfolding wg_ok_def by fast

lemma nbr_sym: "wg_ok g \<Longrightarrow> v < wg_len g \<Longrightarrow> (u, w) \<in> set (neighbours g v) \<Longrightarrow> (v, w) \<in> set (neighbours g u)"
  unfolding wg_ok_def by fast

lemma quotient_nodes:
  assumes ok: "wg_ok g" and m: "length m = wg_len g" "\<forall>l\<in>set m. l < k" and n: "n \<le> wg_len g"
  shows "\<exists>s'. fold (quotient_node g m k) [0..<n] (replicate k 0, []) = (s', cross_pairs m (upper_links g n)) \<and>
    length s' = k \<and>
    (\<forall>x < k. s' ! x = sat64 ((\<Sum>v<n. if m ! v = x then unat (self_weight g v) else 0) +
       (\<Sum>(v, u, w)\<leftarrow>upper_links g n. if m ! v = x \<and> m ! u = x then 2 * unat w else 0)))"
  using n
proof (induction n)
  case 0
  then show ?case by (simp add: cross_pairs_def upper_links_def sat64_def)
next
  case (Suc n)
  then obtain s where IH: "fold (quotient_node g m k) [0..<n] (replicate k 0, []) = (s, cross_pairs m (upper_links g n))"
    "length s = k"
    "\<And>x. x < k \<Longrightarrow> s ! x = sat64 ((\<Sum>v<n. if m ! v = x then unat (self_weight g v) else 0) +
       (\<Sum>(v, u, w)\<leftarrow>upper_links g n. if m ! v = x \<and> m ! u = x then 2 * unat w else 0))"
    by auto
  let ?c = "m ! n" and ?ns = "neighbours g n"
  let ?s = "s[?c := sat_add (s ! ?c) (self_weight g n)]"
  have c: "?c < k" using m Suc.prems by simp
  have lab: "label_at m k n = Some ?c" using m Suc.prems c by (simp add: label_at_def)
  have "\<forall>(u, w)\<in>set ?ns. u < length m"
    using nbr_range [OF ok, of n] Suc.prems m(1) by simp
  then obtain s' where s': "fold (quotient_nbr m k n ?c) ?ns (?s, cross_pairs m (upper_links g n)) =
      (s', cross_pairs m (upper_links g n) @
        map (\<lambda>(u, w). (min ?c (m ! u), max ?c (m ! u), w)) (filter (\<lambda>(u, w). n \<le> u \<and> m ! u \<noteq> ?c) ?ns))"
    "length s' = k"
    "\<And>x. x < k \<Longrightarrow> s' ! x = sat64 (unat (?s ! x) + (\<Sum>(u, w)\<leftarrow>?ns. if n \<le> u \<and> m ! u = ?c \<and> ?c = x then 2 * unat w else 0))"
    using quotient_nbrs [of ?ns m k ?s ?c n "cross_pairs m (upper_links g n)"] m(2) IH(2) c by auto
  have cp: "cross_pairs m (upper_links g (Suc n)) = cross_pairs m (upper_links g n) @
      map (\<lambda>(u, w). (min ?c (m ! u), max ?c (m ! u), w)) (filter (\<lambda>(u, w). n \<le> u \<and> m ! u \<noteq> ?c) ?ns)"
    by (simp add: upper_links_Suc cross_pairs_def filter_map o_def case_prod_beta)
       (intro map_cong filter_cong, auto)
  have nth: "s' ! x = sat64 ((\<Sum>v<Suc n. if m ! v = x then unat (self_weight g v) else 0) +
       (\<Sum>(v, u, w)\<leftarrow>upper_links g (Suc n). if m ! v = x \<and> m ! u = x then 2 * unat w else 0))" if x: "x < k" for x
  proof -
    have "?s ! x = sat64 ((\<Sum>v<Suc n. if m ! v = x then unat (self_weight g v) else 0) +
       (\<Sum>(v, u, w)\<leftarrow>upper_links g n. if m ! v = x \<and> m ! u = x then 2 * unat w else 0))"
      using IH(2,3) x c by (auto simp: nth_list_update sat_add_def sat64_absorb ac_simps)
    moreover have filt: "(\<Sum>(u, w)\<leftarrow>ns. if n \<le> u \<and> m ! u = ?c \<and> ?c = x then 2 * unat w else 0) =
        (\<Sum>(u, w)\<leftarrow>filter (\<lambda>(u, w). n \<le> u) ns. if ?c = x \<and> m ! u = x then 2 * unat w else 0)" for ns :: "(nat \<times> 64 word) list"
      by (induction ns) auto
    moreover have "(\<Sum>(u, w)\<leftarrow>?ns. if n \<le> u \<and> m ! u = ?c \<and> ?c = x then 2 * unat w else 0) =
        (\<Sum>(u, w)\<leftarrow>filter (\<lambda>(u, w). n \<le> u) ?ns. if ?c = x \<and> m ! u = x then 2 * unat w else 0)"
      using filt .
    ultimately show ?thesis
      using s'(3) [OF x] by (simp add: upper_links_Suc sat64_absorb o_def split_def add.assoc cong: if_cong)
  qed
  have "fold (quotient_node g m k) [0..<Suc n] (replicate k 0, []) = (s', cross_pairs m (upper_links g (Suc n)))"
    using IH(1) s'(1) lab by (simp add: quotient_node_def cp)
  then show ?case using s'(2) nth by (intro exI [of _ s'] conjI allI impI)
qed

definition edge_weight :: "wgraph \<Rightarrow> nat \<Rightarrow> nat \<Rightarrow> nat" where
  "edge_weight g v u = (case map_of (neighbours g v) u of Some w \<Rightarrow> unat w | None \<Rightarrow> 0)"

lemma nbr_sum:
  fixes n :: nat
  assumes "distinct (map fst ns)" and "\<forall>(u, w)\<in>set ns. u < n"
  shows "(\<Sum>(u, w)\<leftarrow>ns. if P u then unat w else 0) =
    (\<Sum>u<n. if P u then (case map_of ns u of Some w \<Rightarrow> unat w | None \<Rightarrow> 0) else (0 :: nat))"
  using assms
proof (induction ns)
  case (Cons uw ns)
  obtain y w where uw: "uw = (y, w)" by (cases uw)
  let ?f = "\<lambda>ns u. if P u then (case map_of ns u of Some w \<Rightarrow> unat w | None \<Rightarrow> 0) else (0 :: nat)"
  have y: "y < n" "map_of ns y = None" using Cons.prems by (auto simp: uw map_of_eq_None_iff image_iff)
  have "?f (uw # ns) u = (if u = y then if P y then unat w else 0 else 0) + ?f ns u" for u
    using y by (auto simp: uw)
  then have "(\<Sum>u<n. ?f (uw # ns) u) = (\<Sum>u<n. if u = y then if P y then unat w else 0 else 0) + (\<Sum>u<n. ?f ns u)"
    by (simp only: sum.distrib)
  also have "(\<Sum>u<n. if u = y then if P y then unat w else 0 else 0) = (if P y then unat w else 0)"
    using y by (simp add: sum.delta)
  finally show ?case using Cons by (simp add: uw)
qed simp

lemma edge_weight_sym:
  assumes ok: "wg_ok g" and vu: "v < wg_len g" "u < wg_len g"
  shows "edge_weight g v u = edge_weight g u v" and "edge_weight g v v = 0"
proof -
  have d: "distinct (map fst (neighbours g x))" if "x < wg_len g" for x
    using ok that by (auto simp: wg_ok_def strict_sorted_iff)
  note sym = nbr_sym [OF ok]
  have "map_of (neighbours g v) u = map_of (neighbours g u) v"
    using sym vu map_of_eq_Some_iff [OF d [OF vu(1)]] map_of_eq_Some_iff [OF d [OF vu(2)]]
    by (metis option.exhaust)
  then show "edge_weight g v u = edge_weight g u v" by (simp add: edge_weight_def)
  have "v \<notin> fst ` set (neighbours g v)" using ok vu(1) unfolding wg_ok_def by fastforce
  then show "edge_weight g v v = 0" by (simp add: edge_weight_def map_of_eq_None_iff [symmetric])
qed

lemma row_sum:
  assumes "wg_ok g" and "v < wg_len g"
  shows "(\<Sum>(u, w)\<leftarrow>neighbours g v. if P u then unat w else 0) = (\<Sum>u<wg_len g. if P u then edge_weight g v u else 0)"
proof -
  have "distinct (map fst (neighbours g v))" "\<forall>(u, w)\<in>set (neighbours g v). u < wg_len g"
    using assms nbr_range [OF assms] unfolding wg_ok_def by (simp_all add: strict_sorted_iff)
  then show ?thesis unfolding edge_weight_def by (rule nbr_sum)
qed

lemma strength_sum:
  assumes "wg_ok g" and "v < wg_len g"
  shows "wg_strength g v = sat64 (unat (self_weight g v) + (\<Sum>u<wg_len g. edge_weight g v u))"
  using row_sum [OF assms, of "\<lambda>_. True"] assms
  by (simp add: wg_ok_def wg_strength_def sat_sum_val o_def split_def)

lemma upper_sum:
  assumes ok: "wg_ok g" and "n \<le> wg_len g"
  shows "(\<Sum>(v, u, w)\<leftarrow>upper_links g n. if P v u then unat w else 0) =
    (\<Sum>v<n. \<Sum>u<wg_len g. if v < u \<and> P v u then edge_weight g v u else 0)"
  using assms(2)
proof (induction n)
  case (Suc n)
  have row: "(\<Sum>(v, u, w)\<leftarrow>map (\<lambda>(u, w). (n, u, w)) (filter (\<lambda>(u, w). n \<le> u) ns). if P v u then unat w else 0) =
      (\<Sum>(u, w)\<leftarrow>ns. if n \<le> u \<and> P n u then unat w else 0)" for ns :: "(nat \<times> 64 word) list"
    by (induction ns) auto
  have "(\<Sum>(v, u, w)\<leftarrow>map (\<lambda>(u, w). (n, u, w)) (filter (\<lambda>(u, w). n \<le> u) (neighbours g n)). if P v u then unat w else 0) =
      (\<Sum>(u, w)\<leftarrow>neighbours g n. if n \<le> u \<and> P n u then unat w else 0)"
    by (rule row)
  also have "\<dots> = (\<Sum>u<wg_len g. if n \<le> u \<and> P n u then edge_weight g n u else 0)"
    using Suc.prems by (intro row_sum [OF ok]) simp
  also have "\<dots> = (\<Sum>u<wg_len g. if n < u \<and> P n u then edge_weight g n u else 0)"
    using edge_weight_sym(2) [OF ok, of n] Suc.prems by (intro sum.cong) (auto simp: le_less)
  finally show ?case using Suc by (simp add: upper_links_Suc)
qed (simp add: upper_links_def)

lemma sym_sum:
  fixes G :: "nat \<Rightarrow> nat \<Rightarrow> nat"
  assumes "\<And>v. v < n \<Longrightarrow> G v v = 0"
  shows "(\<Sum>v<n. \<Sum>u<n. G v u) = (\<Sum>v<n. \<Sum>u<n. if v < u then G v u + G u v else 0)"
proof -
  have "(\<Sum>v<n. \<Sum>u<n. G v u) = (\<Sum>v<n. \<Sum>u<n. (if v < u then G v u else 0) + (if u < v then G v u else 0))"
    using assms by (intro sum.cong refl) (auto simp: not_less le_less)
  also have "\<dots> = (\<Sum>v<n. \<Sum>u<n. if v < u then G v u else 0) + (\<Sum>v<n. \<Sum>u<n. if u < v then G v u else 0)"
    by (simp only: sum.distrib)
  also have "(\<Sum>v<n. \<Sum>u<n. if u < v then G v u else 0) = (\<Sum>v<n. \<Sum>u<n. if v < u then G u v else 0)"
    by (rule sum.swap)
  also have "(\<Sum>v<n. \<Sum>u<n. if v < u then G v u else 0) + (\<Sum>v<n. \<Sum>u<n. if v < u then G u v else 0) =
      (\<Sum>v<n. \<Sum>u<n. if v < u then G v u + G u v else 0)"
    by (simp only: sum.distrib [symmetric]) (intro sum.cong refl, simp)
  finally show ?thesis .
qed


lemma sat_list: "sat64 (a + (\<Sum>y\<leftarrow>ys. unat (sat64 (f y)))) = sat64 (a + (\<Sum>y\<leftarrow>ys. f y))"
proof (induction ys arbitrary: a)
  case (Cons y ys)
  have "sat64 (a + (unat (sat64 (f y)) + (\<Sum>y\<leftarrow>ys. unat (sat64 (f y))))) =
      sat64 ((a + unat (sat64 (f y))) + (\<Sum>y\<leftarrow>ys. f y))"
    unfolding add.assoc [symmetric] by (rule Cons)
  also have "\<dots> = sat64 ((a + (\<Sum>y\<leftarrow>ys. f y)) + f y)"
    using sat64_absorb(2) [of "a + (\<Sum>y\<leftarrow>ys. f y)" "f y"] by (simp add: ac_simps)
  finally show ?case by (simp add: ac_simps)
qed simp

lemma cross_sum:
  assumes ok: "wg_ok g" and x: "x \<noteq> y"
  shows "wsum (cross_pairs m (upper_links g (wg_len g))) (min x y, max x y) =
    (\<Sum>v<wg_len g. \<Sum>u<wg_len g. if v < u \<and> (m ! v = x \<and> m ! u = y \<or> m ! v = y \<and> m ! u = x) then edge_weight g v u else 0)"
proof -
  have "wsum (cross_pairs m ls) (min x y, max x y) =
      (\<Sum>(v, u, w)\<leftarrow>ls. if m ! v = x \<and> m ! u = y \<or> m ! v = y \<and> m ! u = x then unat w else 0)" for ls
  proof (induction ls)
    case (Cons l ls)
    obtain v u w where l: "l = (v, u, w)" by (cases l)
    have iff: "min a b = min x y \<and> max a b = max x y \<longleftrightarrow> a = x \<and> b = y \<or> a = y \<and> b = x" for a b :: nat
      using x by (auto simp: min_def max_def split: if_splits)
    have "cross_pairs m (l # ls) = (if m ! v = m ! u then [] else [(min (m ! v) (m ! u), max (m ! v) (m ! u), w)]) @ cross_pairs m ls"
      by (simp add: l cross_pairs_def)
    then show ?case
      using Cons.IH x by (cases "m ! v = m ! u") (auto simp: l pair_key_def iff)
  qed (simp add: cross_pairs_def)
  then show ?thesis using upper_sum [OF ok, of "wg_len g" "\<lambda>v u. m ! v = x \<and> m ! u = y \<or> m ! v = y \<and> m ! u = x"] by simp
qed

lemma member_weight:
  fixes A :: "nat \<Rightarrow> nat \<Rightarrow> nat" and l :: "nat \<Rightarrow> nat"
  assumes A: "\<And>v u. v < n \<Longrightarrow> u < n \<Longrightarrow> A v u = A u v" "\<And>v. v < n \<Longrightarrow> A v v = 0"
    and l: "\<And>v. v < n \<Longrightarrow> l v < k"
  shows "(\<Sum>v<n. if l v = x then \<Sum>u<n. A v u else 0) =
    2 * (\<Sum>v<n. \<Sum>u<n. if v < u \<and> l v = x \<and> l u = x then A v u else 0) +
    (\<Sum>y\<in>{..<k} - {x}. \<Sum>v<n. \<Sum>u<n. if v < u \<and> (l v = x \<and> l u = y \<or> l v = y \<and> l u = x) then A v u else 0)"
proof -
  let ?G = "\<lambda>v u. if l v = x then A v u else 0"
  have "(\<Sum>v<n. if l v = x then \<Sum>u<n. A v u else 0) = (\<Sum>v<n. \<Sum>u<n. ?G v u)"
    by (intro sum.cong) auto
  also have "\<dots> = (\<Sum>v<n. \<Sum>u<n. if v < u then ?G v u + ?G u v else 0)"
    using A(2) by (intro sym_sum) simp
  also have "\<dots> = (\<Sum>v<n. \<Sum>u<n. 2 * (if v < u \<and> l v = x \<and> l u = x then A v u else 0) +
      (\<Sum>y\<in>{..<k} - {x}. if v < u \<and> (l v = x \<and> l u = y \<or> l v = y \<and> l u = x) then A v u else 0))"
  proof (intro sum.cong refl)
    fix v u assume "v \<in> {..<n}" and "u \<in> {..<n}"
    then have v: "v < n" "u < n" "A u v = A v u" "l v < k" "l u < k" using A(1) l by auto
    have "(\<Sum>y\<in>{..<k} - {x}. if l v = x \<and> l u = y \<or> l v = y \<and> l u = x then A v u else 0) =
        (if l v = x \<and> l u \<noteq> x \<or> l v \<noteq> x \<and> l u = x then A v u else 0)"
    proof (cases "l v = x")
      case True
      have "(\<Sum>y\<in>{..<k} - {x}. if l v = x \<and> l u = y \<or> l v = y \<and> l u = x then A v u else 0) =
          (\<Sum>y\<in>{..<k} - {x}. if y = l u then A v u else 0)"
        using True by (intro sum.cong) auto
      then show ?thesis using True v(5) by (simp add: sum.delta)
    next
      case False
      have "(\<Sum>y\<in>{..<k} - {x}. if l v = x \<and> l u = y \<or> l v = y \<and> l u = x then A v u else 0) =
          (\<Sum>y\<in>{..<k} - {x}. if y = l v then (if l u = x then A v u else 0) else 0)"
        using False by (intro sum.cong) auto
      then show ?thesis using False v(4) by (simp add: sum.delta)
    qed
    then show "(if v < u then ?G v u + ?G u v else 0) = 2 * (if v < u \<and> l v = x \<and> l u = x then A v u else 0) +
      (\<Sum>y\<in>{..<k} - {x}. if v < u \<and> (l v = x \<and> l u = y \<or> l v = y \<and> l u = x) then A v u else 0)"
      using v(3) by (cases "v < u") auto
  qed
  also have "\<dots> = 2 * (\<Sum>v<n. \<Sum>u<n. if v < u \<and> l v = x \<and> l u = x then A v u else 0) +
      (\<Sum>v<n. \<Sum>u<n. \<Sum>y\<in>{..<k} - {x}. if v < u \<and> (l v = x \<and> l u = y \<or> l v = y \<and> l u = x) then A v u else 0)"
    by (simp only: sum.distrib sum_distrib_left)
  also have "(\<Sum>v<n. \<Sum>u<n. \<Sum>y\<in>{..<k} - {x}. if v < u \<and> (l v = x \<and> l u = y \<or> l v = y \<and> l u = x) then A v u else 0) =
      (\<Sum>v<n. \<Sum>y\<in>{..<k} - {x}. \<Sum>u<n. if v < u \<and> (l v = x \<and> l u = y \<or> l v = y \<and> l u = x) then A v u else 0)"
    by (rule sum.cong [OF refl], rule sum.swap)
  also have "\<dots> = (\<Sum>y\<in>{..<k} - {x}. \<Sum>v<n. \<Sum>u<n. if v < u \<and> (l v = x \<and> l u = y \<or> l v = y \<and> l u = x) then A v u else 0)"
    by (rule sum.swap)
  finally show ?thesis .
qed


lemma entries_le: "entries ps \<le> 2 * length ps"
proof -
  have "card {k \<in> keys_of ps. fst k \<noteq> snd k} \<le> card (keys_of ps)" by (rule card_mono) auto
  also have "\<dots> \<le> card (set ps)" by (rule card_image_le) simp
  also have "\<dots> \<le> length ps" by (rule card_length)
  finally show ?thesis by (simp add: entries_def)
qed

lemma length_upper:
  assumes ok: "wg_ok g"
  shows "2 * length (upper_links g (wg_len g)) = (\<Sum>v<wg_len g. length (neighbours g v))"
proof -
  let ?n = "wg_len g" and ?L = "\<lambda>v u. if u \<in> fst ` set (neighbours g v) then 1 else 0 :: nat"
  have row: "length (filter (\<lambda>(u, w). P u) (neighbours g v)) = (\<Sum>u<?n. if P u then ?L v u else 0)" if v: "v < ?n" for v P
  proof -
    have d: "distinct (map fst (filter (\<lambda>(u, w). P u) (neighbours g v)))"
      using ok v by (intro distinct_map_filter) (simp add: wg_ok_def strict_sorted_iff)
    have "length (filter (\<lambda>(u, w). P u) (neighbours g v)) = card (fst ` set (filter (\<lambda>(u, w). P u) (neighbours g v)))"
      using distinct_card [OF d] by simp
    also have "fst ` set (filter (\<lambda>(u, w). P u) (neighbours g v)) = {u. u < ?n \<and> P u \<and> u \<in> fst ` set (neighbours g v)}"
      using nbr_range [OF ok v] by force
    also have "card \<dots> = (\<Sum>u<?n. if P u \<and> u \<in> fst ` set (neighbours g v) then 1 else 0)"
      by (simp add: sum.If_cases Int_def)
    also have "\<dots> = (\<Sum>u<?n. if P u then ?L v u else 0)" by (intro sum.cong) auto
    finally show ?thesis .
  qed
  have diag: "?L v v = 0" if "v < ?n" for v
    using ok that unfolding wg_ok_def by fastforce
  have sym: "?L v u = ?L u v" if "v < ?n" "u < ?n" for v u
  proof -
    have "u \<in> fst ` set (neighbours g v) \<longleftrightarrow> v \<in> fst ` set (neighbours g u)"
      using nbr_sym [OF ok that(1)] nbr_sym [OF ok that(2)] by force
    then show ?thesis by simp
  qed
  have "length (upper_links g k) = (\<Sum>v<k. length (filter (\<lambda>(u, w). v \<le> u) (neighbours g v)))" for k
    by (induction k) (simp_all add: upper_links_Suc, simp add: upper_links_def)
  then have "length (upper_links g ?n) = (\<Sum>v<?n. \<Sum>u<?n. if v \<le> u then ?L v u else 0)"
    by (simp only:) (intro sum.cong refl row, simp)
  then have "2 * length (upper_links g ?n) = (\<Sum>v<?n. \<Sum>u<?n. if v \<le> u then 2 * ?L v u else 0)"
    by (simp only: sum_distrib_left) (intro sum.cong refl, simp)
  also have "\<dots> = (\<Sum>v<?n. \<Sum>u<?n. if v < u then ?L v u + ?L u v else 0)"
    using diag sym by (intro sum.cong refl) (auto simp: le_less)
  also have "\<dots> = (\<Sum>v<?n. \<Sum>u<?n. ?L v u)"
    using diag by (intro sym_sum [symmetric])
  also have "\<dots> = (\<Sum>v<?n. length (neighbours g v))"
    using row [where P = "\<lambda>_. True"] by simp
  finally show ?thesis .
qed

lemma quotient_sums:
  assumes "wg_ok g" and "length m = wg_len g" and "\<forall>l\<in>set m. l < k" and "k \<le> u32_max"
    and "(\<Sum>v<wg_len g. length (neighbours g v)) \<le> u32_max"
  shows "wg_len (wg_quotient g m k) = k \<and> wg_ok (wg_quotient g m k) \<and>
    wg_strengths (wg_quotient g m k) =
      map (\<lambda>c. sat64 (\<Sum>v\<leftarrow>filter (\<lambda>v. m ! v = c) [0..<wg_len g]. unat (wg_strength g v))) [0..<k] \<and>
    wg_total (wg_quotient g m k) = wg_total g"
proof -
  let ?n = "wg_len g" and ?q = "wg_quotient g m k"
  define ps where "ps = cross_pairs m (upper_links g ?n)"
  obtain s where s: "fold (quotient_node g m k) [0..<?n] (replicate k 0, []) = (s, ps)" "length s = k"
    "\<And>x. x < k \<Longrightarrow> s ! x = sat64 ((\<Sum>v<?n. if m ! v = x then unat (self_weight g v) else 0) +
       (\<Sum>(v, u, w)\<leftarrow>upper_links g ?n. if m ! v = x \<and> m ! u = x then 2 * unat w else 0))"
    using quotient_nodes [OF assms(1,2,3) order_refl] unfolding ps_def by blast
  have q: "?q = assemble_with (map of_nat [0..<k]) ps s u32_max"
    using assms(4) by (simp add: wg_quotient_def s(1))
  have links: "v < ?n \<and> u < ?n \<and> 0 < w" if "(v, u, w) \<in> set (upper_links g ?n)" for v u w
    using assms(1) that unfolding wg_ok_def upper_links_def by fastforce
  have ps: "pairs_in k ps" "\<forall>p\<in>set ps. 0 < snd (snd p)"
    using assms(2,3) links by (fastforce simp: ps_def cross_pairs_def pairs_in_def pair_key_def)+
  have "length ps \<le> length (upper_links g ?n)" by (simp add: ps_def cross_pairs_def)
  then have fit: "entries ps \<le> u32_max"
    using entries_le [of ps] length_upper [OF assms(1)] assms(5) by linarith
  have ok: "wg_ok ?q" unfolding q using ps s(2) by (intro wf_intros) simp_all
  note view = assemble_with_view [where ids = "map of_nat [0..<k]" and pairs = ps and self_w = s and cap = u32_max, folded q]
  have fits: "length (map of_nat [0..<k] :: node_id list) \<le> u32_max" using assms(4) by simp
  have psk: "pairs_in (length (map of_nat [0..<k] :: node_id list)) ps" using ps(1) by simp
  have sk: "length s = length (map of_nat [0..<k] :: node_id list)" using s(2) by simp
  note view = view [OF fits fit psk sk, unfolded length_map length_upt diff_zero]
  let ?f = "\<lambda>v. unat (self_weight g v) + (\<Sum>u<?n. edge_weight g v u)"
  have lists: "(\<Sum>v\<leftarrow>filter P [0..<j]. f v) = (\<Sum>v<j. if P v then f v else 0)" for P and f :: "nat \<Rightarrow> nat" and j
    by (induction j) auto
  have members: "sat64 (\<Sum>v\<leftarrow>filter (\<lambda>v. m ! v = c) [0..<?n]. unat (wg_strength g v)) =
      sat64 (\<Sum>v<?n. if m ! v = c then ?f v else 0)" for c
  proof -
    have "map (\<lambda>v. unat (wg_strength g v)) (filter (\<lambda>v. m ! v = c) [0..<?n]) =
        map (\<lambda>v. unat (sat64 (?f v))) (filter (\<lambda>v. m ! v = c) [0..<?n])"
      using strength_sum [OF assms(1)] by (intro map_cong) auto
    then have "(\<Sum>v\<leftarrow>filter (\<lambda>v. m ! v = c) [0..<?n]. unat (wg_strength g v)) =
        (\<Sum>v\<leftarrow>filter (\<lambda>v. m ! v = c) [0..<?n]. unat (sat64 (?f v)))" by (rule arg_cong)
    then show ?thesis
      using sat_list [of 0 ?f "filter (\<lambda>v. m ! v = c) [0..<?n]"] by (simp only: add_0 lists)
  qed
  have strength: "sat_sum (self_weight ?q c) (map snd (neighbours ?q c)) = sat64 (\<Sum>v<?n. if m ! v = c then ?f v else 0)"
    if c: "c < k" for c
  proof -
    let ?J = "joined (keys_of ps) c"
    have "(c, c) \<notin> keys_of ps" by (auto simp: ps_def cross_pairs_def pair_key_def min_def max_def split: if_splits)
    then have self: "self_weight ?q c = s ! c" using view(7) [OF c] wsum_absent [of "(c, c)" ps] by simp
    have J: "?J \<subseteq> {..<k} - {c}"
    proof
      fix y assume y: "y \<in> ?J"
      then have "snd (min c y, max c y) < k" using ps(1) unfolding pairs_in_def by blast
      then show "y \<in> {..<k} - {c}" using y by simp
    qed
    have "sat_sum (self_weight ?q c) (map snd (neighbours ?q c)) =
        sat64 (unat (s ! c) + (\<Sum>y\<leftarrow>sorted_list_of_set ?J. wsum ps (min c y, max c y)))"
      by (simp add: sat_sum_val self view(6) [OF c] o_def sat_list)
    also have "(\<Sum>y\<leftarrow>sorted_list_of_set ?J. wsum ps (min c y, max c y)) = (\<Sum>y\<in>?J. wsum ps (min c y, max c y))"
      using finite_subset [OF J] by (simp add: sum_list_distinct_conv_sum_set)
    also have "\<dots> = (\<Sum>y\<in>{..<k} - {c}. wsum ps (min c y, max c y))"
    proof (intro sum.mono_neutral_left J ballI)
      fix y assume "y \<in> {..<k} - {c} - ?J"
      then have "(min c y, max c y) \<notin> keys_of ps" by blast
      then show "wsum ps (min c y, max c y) = 0" by (rule wsum_absent)
    qed simp
    also have "\<dots> = (\<Sum>y\<in>{..<k} - {c}. \<Sum>v<?n. \<Sum>u<?n.
        if v < u \<and> (m ! v = c \<and> m ! u = y \<or> m ! v = y \<and> m ! u = c) then edge_weight g v u else 0)"
      unfolding ps_def by (intro sum.cong [OF refl] cross_sum [OF assms(1)]) auto
    finally have 1: "sat_sum (self_weight ?q c) (map snd (neighbours ?q c)) = sat64 (unat (s ! c) + \<dots>)" .
    have two: "(\<Sum>(v, u, w)\<leftarrow>ls. if P v u then 2 * unat w else 0) = 2 * (\<Sum>(v, u, w)\<leftarrow>ls. if P v u then unat w else 0)"
      for P and ls :: "(nat \<times> nat \<times> 64 word) list" by (induction ls) auto
    have 2: "s ! c = sat64 ((\<Sum>v<?n. if m ! v = c then unat (self_weight g v) else 0) +
        2 * (\<Sum>v<?n. \<Sum>u<?n. if v < u \<and> m ! v = c \<and> m ! u = c then edge_weight g v u else 0))"
      using s(3) [OF c] upper_sum [OF assms(1) order_refl, of "\<lambda>v u. m ! v = c \<and> m ! u = c"] by (simp add: two)
    have "(\<Sum>v<?n. if m ! v = c then \<Sum>u<?n. edge_weight g v u else 0) =
        2 * (\<Sum>v<?n. \<Sum>u<?n. if v < u \<and> m ! v = c \<and> m ! u = c then edge_weight g v u else 0) +
        (\<Sum>y\<in>{..<k} - {c}. \<Sum>v<?n. \<Sum>u<?n.
          if v < u \<and> (m ! v = c \<and> m ! u = y \<or> m ! v = y \<and> m ! u = c) then edge_weight g v u else 0)"
      using assms(2,3) by (intro member_weight edge_weight_sym [OF assms(1)]) auto
    then have 3: "2 * (\<Sum>v<?n. \<Sum>u<?n. if v < u \<and> m ! v = c \<and> m ! u = c then edge_weight g v u else 0) +
        (\<Sum>y\<in>{..<k} - {c}. \<Sum>v<?n. \<Sum>u<?n.
          if v < u \<and> (m ! v = c \<and> m ! u = y \<or> m ! v = y \<and> m ! u = c) then edge_weight g v u else 0) =
        (\<Sum>v<?n. if m ! v = c then \<Sum>u<?n. edge_weight g v u else 0)" by (rule sym)
    have "(\<Sum>v<?n. if m ! v = c then ?f v else 0) = (\<Sum>v<?n. if m ! v = c then unat (self_weight g v) else 0) +
        (\<Sum>v<?n. if m ! v = c then \<Sum>u<?n. edge_weight g v u else 0)"
      by (simp only: sum.distrib [symmetric]) (intro sum.cong, auto)
    then show ?thesis by (simp only: 1 2 sat64_absorb add.assoc 3)
  qed
  have strengths: "wg_strengths ?q = map (\<lambda>c. sat64 (\<Sum>v\<leftarrow>filter (\<lambda>v. m ! v = c) [0..<?n]. unat (wg_strength g v))) [0..<k]"
    unfolding view(3) members by (intro map_cong refl strength) simp
  have "wg_total ?q = sat64 (\<Sum>c\<leftarrow>[0..<k]. unat (sat64 (\<Sum>v\<leftarrow>filter (\<lambda>v. m ! v = c) [0..<?n]. unat (wg_strength g v))))"
    unfolding view(4) strengths sat_sum_val by (simp add: o_def)
  also have "\<dots> = sat64 (\<Sum>c\<leftarrow>[0..<k]. \<Sum>v\<leftarrow>filter (\<lambda>v. m ! v = c) [0..<?n]. unat (wg_strength g v))"
    using sat_list [of 0] by (simp only: add_0)
  also have "(\<Sum>c\<leftarrow>[0..<k]. \<Sum>v\<leftarrow>filter (\<lambda>v. m ! v = c) [0..<?n]. unat (wg_strength g v)) =
      (\<Sum>c<k. \<Sum>v<?n. if m ! v = c then unat (wg_strength g v) else 0)"
    using lists [where P = "\<lambda>_. True" and j = k] by (simp add: lists)
  also have "\<dots> = (\<Sum>v<?n. \<Sum>c<k. if m ! v = c then unat (wg_strength g v) else 0)" by (rule sum.swap)
  also have "\<dots> = (\<Sum>v<?n. unat (wg_strength g v))"
    using assms(2,3) by (intro sum.cong [OF refl]) (simp add: sum.delta')
  also have "\<dots> = (\<Sum>s\<leftarrow>wg_strengths g. unat s)"
  proof -
    have "length (wg_strengths g) = ?n" using assms(1) by (simp add: wg_ok_def)
    then show ?thesis
      by (simp add: wg_strength_def sum_list_sum_nth atLeast0LessThan)
  qed
  also have "sat64 \<dots> = wg_total g" using assms(1) by (simp add: wg_ok_def sat_sum_val)
  finally have tot: "wg_total ?q = wg_total g" .
  have "wg_len ?q = k" by (simp add: wg_len_def view(1))
  then show ?thesis using ok strengths tot by blast
qed

text \<open>
  C25: contracting a complete labelling of a view whose entries fit the index limit gives a view
  with one node per label, in which a label's strength is the (saturated) sum of its members'
  strengths, and whose total weight is the view's own.
\<close>

theorem quotient_preserves_strength:
  assumes "wg_ok g" and "length m = wg_len g" and "\<forall>l\<in>set m. l < k" and "k \<le> u32_max"
    and "(\<Sum>v<wg_len g. length (neighbours g v)) \<le> u32_max"
  shows "wg_len (wg_quotient g m k) = k \<and> wg_ok (wg_quotient g m k) \<and>
    wg_strengths (wg_quotient g m k) =
      map (\<lambda>c. sat64 (\<Sum>v\<leftarrow>filter (\<lambda>v. m ! v = c) [0..<wg_len g]. unat (wg_strength g v))) [0..<k] \<and>
    wg_total (wg_quotient g m k) = wg_total g"
  by (rule quotient_sums [OF assms])

lemma two_node_view:
  "wg_from_pairs 2 [(0, 1, 2)] = \<lparr>wg_ids = [0, 1], wg_start = [0, 1, 2], wg_nbr = [(1, 2), (0, 2)],
     wg_self = [0, 0], wg_strengths = [2, 2], wg_total = 4\<rparr>"
  by code_simp

theorem quotient_preserves_strength_witness:
  "wg_strengths (wg_quotient (wg_from_pairs 2 [(0, 1, 2)]) [0, 0] 1) = [4]"
proof -
  let ?g = "wg_from_pairs 2 [(0, 1, 2)]"
  note g = two_node_view [simplified]
  have len: "wg_len ?g = 2" by (simp add: g wg_len_def)
  have "{..<2} = {0, 1 :: nat}" by auto
  then have rows: "(\<Sum>v<wg_len ?g. length (neighbours ?g v)) \<le> u32_max"
    unfolding len by (simp add: g neighbours_def slice_def u32_max_def)
  have v: "[0..<wg_len ?g] = [0, 1]" unfolding len by (simp add: upt_rec)
  have w: "wg_strength ?g 0 = 2" "wg_strength ?g 1 = 2" by (simp_all add: g wg_strength_def)
  show ?thesis
    using quotient_preserves_strength [OF wg_ok_from_pairs [of 2 "[(0, 1, 2)]"], of "[0, 0]" 1] rows w
    unfolding v unfolding len by (simp add: u32_max_def sat64_def)
qed

end
