(* ===== verification/Labels.thy ===== *)
theory Labels
  imports WQuotient
begin

text \<open>
  The relabellings of \<open>activation/src/algo/community.rs\<close>: \<open>first_seen\<close>, \<open>canonical\<close> and
  \<open>split_disconnected\<close>. A slot the code fills with \<open>u32::MAX\<close> until it is numbered is \<open>None\<close>
  here: a view holds at most \<open>u32::MAX\<close> nodes, so no number reaches the sentinel.
\<close>

subsection \<open>First appearance\<close>

definition first_seen_step :: "nat \<Rightarrow> nat option list \<times> nat \<times> nat list \<Rightarrow> nat option list \<times> nat \<times> nat list" where
  "first_seen_step l st =
     (let (slots, nxt, out) = st in
      case slots ! l of
        None \<Rightarrow> (slots[l := Some nxt], nxt + 1, out @ [nxt])
      | Some c \<Rightarrow> (slots, nxt, out @ [c]))"

definition first_seen :: "nat list \<Rightarrow> nat list \<times> nat" where
  "first_seen labels =
     (let top = (if labels = [] then 0 else Max (set labels) + 1);
          (slots, nxt, out) = fold first_seen_step labels (replicate top None, 0, [])
      in (out, nxt))"

subsection \<open>Canonical numbering\<close>

text \<open>The groups: size, smallest member, offset in the sorted pairs.\<close>

fun group_bounds :: "(nat \<times> nat) list list \<Rightarrow> nat \<Rightarrow> (nat \<times> nat \<times> nat) list" where
  "group_bounds [] at = []"
| "group_bounds (c # cs) at = (length c, snd (hd c), at) # group_bounds cs (at + length c)"

definition number_group :: "(nat \<times> nat) list \<Rightarrow> nat \<times> nat \<times> nat \<times> nat \<Rightarrow> nat list \<Rightarrow> nat list" where
  "number_group by_label g out =
     (let (n, size, smallest, from) = g
      in fold (\<lambda>(l, ix) out. out[ix := n]) (slice by_label from (from + size)) out)"

definition canonical :: "nat list \<Rightarrow> nat list \<times> nat" where
  "canonical labels =
     (let by_label = sort (map (\<lambda>(i, l). (l, i)) (enumerate 0 labels));
          groups = group_bounds (chunk_by (\<lambda>a b. fst a = fst b) by_label) 0;
          groups = sort_key (\<lambda>(size, smallest, from). (- int size, smallest)) groups
      in (fold (number_group by_label) (enumerate 0 groups) (replicate (length labels) 0), length groups))"

subsection \<open>Connected components inside the communities\<close>

definition unmarked :: "nat option list \<Rightarrow> nat" where
  "unmarked out = length (filter (\<lambda>x. x = None) out)"

definition comp_push ::
  "nat list \<Rightarrow> nat \<Rightarrow> nat \<Rightarrow> nat \<times> 64 word \<Rightarrow> nat option list \<times> nat list \<Rightarrow> nat option list \<times> nat list" where
  "comp_push labels home nxt uw st =
     (let (out, queue) = st; u = fst uw in
      if u < length out \<and> out ! u = None \<and> labels ! u = home then (out[u := Some nxt], queue @ [u])
      else (out, queue))"

lemma unmarked_update:
  "u < length out \<Longrightarrow> out ! u = None \<Longrightarrow> Suc (unmarked (out[u := Some c])) = unmarked out"
proof (induction out arbitrary: u)
  case (Cons x out)
  then show ?case by (cases u) (auto simp: unmarked_def)
qed simp

lemma comp_push_measure:
  "2 * unmarked (fst (fold (comp_push labels home nxt) ns st)) + length (snd (fold (comp_push labels home nxt) ns st))
   \<le> 2 * unmarked (fst st) + length (snd st)"
proof (induction ns arbitrary: st)
  case (Cons uw ns)
  have "2 * unmarked (fst (comp_push labels home nxt uw st)) + length (snd (comp_push labels home nxt uw st))
      \<le> 2 * unmarked (fst st) + length (snd st)"
    using unmarked_update [of "fst uw" "fst st" nxt] by (auto simp: comp_push_def case_prod_beta)
  then show ?case using Cons [of "comp_push labels home nxt uw st"] by simp
qed simp

function comp_bfs :: "wgraph \<Rightarrow> nat list \<Rightarrow> nat \<Rightarrow> nat option list \<Rightarrow> nat list \<Rightarrow> nat option list" where
  "comp_bfs g labels nxt out [] = out"
| "comp_bfs g labels nxt out (v # queue) =
     (let (out, queue) = fold (comp_push labels (labels ! v) nxt) (neighbours g v) (out, queue)
      in comp_bfs g labels nxt out queue)"
  by pat_completeness auto
termination
proof (relation "measure (\<lambda>(g, labels, nxt, out, queue). 2 * unmarked out + length queue)", goal_cases)
  case (2 g labels nxt out v queue x out' queue')
  have f: "fold (comp_push labels (labels ! v) nxt) (neighbours g v) (out, queue) = (out', queue')"
    using 2 by simp
  show ?case
    using comp_push_measure [of labels "labels ! v" nxt "neighbours g v" "(out, queue)"] unfolding f by simp
qed simp

definition split_step :: "wgraph \<Rightarrow> nat list \<Rightarrow> nat \<Rightarrow> nat option list \<times> nat \<Rightarrow> nat option list \<times> nat" where
  "split_step g labels start st =
     (let (out, nxt) = st in
      if out ! start \<noteq> None then (out, nxt)
      else (comp_bfs g labels nxt (out[start := Some nxt]) [start], nxt + 1))"

definition split_disconnected :: "wgraph \<Rightarrow> nat list \<Rightarrow> nat list" where
  "split_disconnected g labels =
     (let n = min (wg_len g) (length labels)
      in map the (fst (fold (split_step g labels) [0..<n] (replicate n None, 0))))"

subsection \<open>Properties of the component split\<close>

definition home_links :: "wgraph \<Rightarrow> nat list \<Rightarrow> nat \<Rightarrow> (nat \<times> nat) set" where
  "home_links g labels n =
     {(v, u). v < n \<and> u < n \<and> u \<in> fst ` set (neighbours g v) \<and> labels ! u = labels ! v}"

lemma comp_push_fold:
  "\<exists>out' new. fold (comp_push labels home nxt) ns (out, queue) = (out', queue @ new) \<and> length out' = length out \<and>
    (\<forall>v < length out. out' ! v =
      (if out ! v = None \<and> labels ! v = home \<and> v \<in> fst ` set ns then Some nxt else out ! v)) \<and>
    set new = {v. v < length out \<and> out ! v = None \<and> labels ! v = home \<and> v \<in> fst ` set ns}"
proof (induction ns arbitrary: out queue)
  case (Cons uw ns)
  let ?u = "fst uw"
  show ?case
  proof (cases "?u < length out \<and> out ! ?u = None \<and> labels ! ?u = home")
    case True
    then have step: "comp_push labels home nxt uw (out, queue) = (out[?u := Some nxt], queue @ [?u])"
      by (simp add: comp_push_def)
    obtain out' new where r: "fold (comp_push labels home nxt) ns (out[?u := Some nxt], queue @ [?u]) = (out', (queue @ [?u]) @ new)"
      "length out' = length out"
      "\<forall>v < length out. out' ! v =
        (if out[?u := Some nxt] ! v = None \<and> labels ! v = home \<and> v \<in> fst ` set ns then Some nxt else out[?u := Some nxt] ! v)"
      "set new = {v. v < length out \<and> out[?u := Some nxt] ! v = None \<and> labels ! v = home \<and> v \<in> fst ` set ns}"
      using Cons [of "out[?u := Some nxt]" "queue @ [?u]"] by auto
    have "set (?u # new) = {v. v < length out \<and> out ! v = None \<and> labels ! v = home \<and> v \<in> fst ` set (uw # ns)}"
      unfolding list.set r(4) using True by (auto simp: nth_list_update)
    moreover have "\<forall>v < length out. out' ! v =
        (if out ! v = None \<and> labels ! v = home \<and> v \<in> fst ` set (uw # ns) then Some nxt else out ! v)"
    proof (intro allI impI)
      fix v assume v: "v < length out"
      show "out' ! v = (if out ! v = None \<and> labels ! v = home \<and> v \<in> fst ` set (uw # ns) then Some nxt else out ! v)"
        using r(3) [rule_format, OF v] True v by (cases "v = ?u") simp_all
    qed
    ultimately show ?thesis using step r(1,2) by (intro exI [of _ out'] exI [of _ "?u # new"]) simp
  next
    case False
    then have step: "comp_push labels home nxt uw (out, queue) = (out, queue)" by (auto simp: comp_push_def)
    have same: "v < length out \<and> out ! v = None \<and> labels ! v = home \<and> v \<in> fst ` set (uw # ns) \<longleftrightarrow>
        v < length out \<and> out ! v = None \<and> labels ! v = home \<and> v \<in> fst ` set ns" for v
      using False by auto
    obtain out' new where r: "fold (comp_push labels home nxt) ns (out, queue) = (out', queue @ new)"
      "length out' = length out"
      "\<forall>v < length out. out' ! v = (if out ! v = None \<and> labels ! v = home \<and> v \<in> fst ` set ns then Some nxt else out ! v)"
      "set new = {v. v < length out \<and> out ! v = None \<and> labels ! v = home \<and> v \<in> fst ` set ns}"
      using Cons [of out queue] by auto
    have "\<forall>v < length out. out' ! v =
        (if out ! v = None \<and> labels ! v = home \<and> v \<in> fst ` set (uw # ns) then Some nxt else out ! v)"
    proof (intro allI impI)
      fix v assume v: "v < length out"
      then show "out' ! v = (if out ! v = None \<and> labels ! v = home \<and> v \<in> fst ` set (uw # ns) then Some nxt else out ! v)"
        using r(3) [rule_format, OF v] same [of v] by presburger
    qed
    then show ?thesis
      using step r(1,2) unfolding same r(4) [symmetric] by (intro exI [of _ out'] exI [of _ new]) simp
  qed
qed simp

text \<open>One component: with everything marked before closed under the links, the walk from an
  unmarked node marks exactly its component.\<close>

definition comp_inv ::
  "wgraph \<Rightarrow> nat list \<Rightarrow> nat option list \<Rightarrow> nat \<Rightarrow> nat \<Rightarrow> nat option list \<Rightarrow> nat list \<Rightarrow> bool" where
  "comp_inv g labels out0 s nxt out queue \<longleftrightarrow>
     length out = length out0 \<and> s < length out0 \<and> out ! s \<noteq> None \<and>
     (\<forall>v < length out0. out0 ! v \<noteq> None \<longrightarrow> out ! v = out0 ! v) \<and>
     (\<forall>v < length out0. out0 ! v = None \<longrightarrow> out ! v \<noteq> None \<longrightarrow>
        out ! v = Some nxt \<and> (s, v) \<in> (home_links g labels (length out0))\<^sup>*) \<and>
     (\<forall>v \<in> set queue. v < length out0 \<and> out0 ! v = None \<and> out ! v \<noteq> None) \<and>
     (\<forall>(v, u) \<in> home_links g labels (length out0).
        out0 ! v = None \<longrightarrow> out ! v \<noteq> None \<longrightarrow> v \<notin> set queue \<longrightarrow> out ! u \<noteq> None)"

lemma comp_inv_step:
  assumes inv: "comp_inv g labels out0 s nxt out (v # queue)"
    and step: "fold (comp_push labels (labels ! v) nxt) (neighbours g v) (out, queue) = (out', queue')"
  shows "comp_inv g labels out0 s nxt out' queue'"
proof -
  let ?n = "length out0" and ?R = "home_links g labels (length out0)"
  have len: "length out = ?n" and s: "s < ?n" "out ! s \<noteq> None" and
    old: "\<And>x. x < ?n \<Longrightarrow> out0 ! x \<noteq> None \<Longrightarrow> out ! x = out0 ! x" and
    new: "\<And>x. x < ?n \<Longrightarrow> out0 ! x = None \<Longrightarrow> out ! x \<noteq> None \<Longrightarrow> out ! x = Some nxt \<and> (s, x) \<in> ?R\<^sup>*" and
    v: "v < ?n" "out0 ! v = None" "out ! v \<noteq> None" and
    q: "\<And>x. x \<in> set queue \<Longrightarrow> x < ?n \<and> out0 ! x = None \<and> out ! x \<noteq> None" and
    closed: "\<And>x u. (x, u) \<in> ?R \<Longrightarrow> out0 ! x = None \<Longrightarrow> out ! x \<noteq> None \<Longrightarrow> x \<notin> set (v # queue) \<Longrightarrow> out ! u \<noteq> None"
    using inv unfolding comp_inv_def by auto
  let ?hit = "\<lambda>x. out ! x = None \<and> labels ! x = labels ! v \<and> x \<in> fst ` set (neighbours g v)"
  obtain news where out': "length out' = ?n" "queue' = queue @ news"
    "\<And>x. x < ?n \<Longrightarrow> out' ! x = (if ?hit x then Some nxt else out ! x)"
    "set news = {x. x < ?n \<and> ?hit x}"
    using comp_push_fold [of labels "labels ! v" nxt "neighbours g v" out queue] step by (auto simp: len)
  have edge: "(v, x) \<in> ?R" if "x < ?n" "?hit x" for x using that v(1) by (simp add: home_links_def)
  have R: "u < ?n" "x < ?n" if "(x, u) \<in> ?R" for x u using that by (simp_all add: home_links_def)
  have keep: "out' ! x \<noteq> None" if "out ! x \<noteq> None" "x < ?n" for x using out'(3) [OF that(2)] that by simp
  have h3: "out' ! x = out0 ! x" if "x < ?n" "out0 ! x \<noteq> None" for x
    using old [OF that] out'(3) [OF that(1)] that by simp
  have h4: "out' ! x = Some nxt \<and> (s, x) \<in> ?R\<^sup>*" if x: "x < ?n" "out0 ! x = None" "out' ! x \<noteq> None" for x
  proof (cases "?hit x")
    case True
    have "(s, v) \<in> ?R\<^sup>*" using new v by blast
    then show ?thesis using True out'(3) [OF x(1)] edge [OF x(1) True] by (auto intro: rtrancl_into_rtrancl)
  next
    case False
    then have "out' ! x = out ! x" using out'(3) [OF x(1)] by (simp only: if_False)
    then show ?thesis using new [OF x(1,2)] x(3) by simp
  qed
  have h5: "x < ?n \<and> out0 ! x = None \<and> out' ! x \<noteq> None" if x: "x \<in> set queue'" for x
  proof (cases "x \<in> set queue")
    case True
    then show ?thesis using q [OF True] keep by blast
  next
    case False
    then have hit: "x < ?n" "?hit x" using x out'(2,4) by auto
    then show ?thesis using old [OF hit(1)] out'(3) [OF hit(1)] by (cases "out0 ! x") auto
  qed
  have h6: "out' ! u \<noteq> None" if xu: "(x, u) \<in> ?R" "out0 ! x = None" "out' ! x \<noteq> None" "x \<notin> set queue'" for x u
  proof -
    have "\<not> ?hit x" using xu(4) R(2) [OF xu(1)] R(1) [OF xu(1)] out'(2,4) by (auto simp: home_links_def)
    moreover have x: "x < ?n" using xu(1) by (simp add: home_links_def)
    ultimately have "out ! x \<noteq> None" using xu(3) out'(3) [OF x] by (simp split: if_splits)
    moreover have "x \<notin> set queue" using xu(4) out'(2) by simp
    moreover have u: "u < ?n" using xu(1) by (simp add: home_links_def)
    ultimately show ?thesis
    proof (cases "x = v")
      case True
      then have "?hit u" if "out ! u = None" using that xu(1) by (simp add: home_links_def)
      then show ?thesis using out'(3) [OF u] keep [OF _ u] by (cases "out ! u") auto
    qed (use closed [OF xu(1,2)] keep [OF _ u] in auto)
  qed
  have h2: "out' ! s \<noteq> None" using keep s by blast
  show ?thesis
    unfolding comp_inv_def using out'(1) s(1) h2 h3 h4 h5 h6 by blast
qed

lemma comp_bfs_inv:
  "comp_inv g labels out0 s nxt out queue \<Longrightarrow> comp_inv g labels out0 s nxt (comp_bfs g labels nxt out queue) []"
proof (induction g labels nxt out queue rule: comp_bfs.induct)
  case (2 g labels nxt out v queue)
  obtain out' queue' where f: "fold (comp_push labels (labels ! v) nxt) (neighbours g v) (out, queue) = (out', queue')"
    by (cases "fold (comp_push labels (labels ! v) nxt) (neighbours g v) (out, queue)")
  show ?case
    using "2.IH" [OF f [symmetric] refl comp_inv_step [OF "2.prems" f]] by (simp add: f)
qed simp

lemma home_links_sym:
  assumes "wg_ok g" and "n \<le> wg_len g"
  shows "sym (home_links g labels n)"
proof (rule symI)
  fix v u assume "(v, u) \<in> home_links g labels n"
  then obtain w where vu: "v < n" "u < n" "(u, w) \<in> set (neighbours g v)" "labels ! u = labels ! v"
    by (auto simp: home_links_def)
  then have "(v, w) \<in> set (neighbours g u)" using nbr_sym [OF assms(1), of v u w] assms(2) by simp
  then have "v \<in> fst ` set (neighbours g u)" by force
  then show "(u, v) \<in> home_links g labels n" using vu by (simp add: home_links_def)
qed

text \<open>What one component's walk returns, when the marks before it are closed under the links.\<close>

lemma comp_bfs_marks:
  fixes nxt
  assumes ok: "wg_ok g" and n: "length out0 = n" "n \<le> wg_len g" and s: "s < n" "out0 ! s = None"
    and old: "\<And>v u. (v, u) \<in> home_links g labels n \<Longrightarrow> out0 ! v \<noteq> None \<Longrightarrow> out0 ! u \<noteq> None"
  defines "out \<equiv> comp_bfs g labels nxt (out0[s := Some nxt]) [s]"
  shows "length out = n" and
    "\<And>v. v < n \<Longrightarrow> out ! v = (if (s, v) \<in> (home_links g labels n)\<^sup>* then Some nxt else out0 ! v)"
proof -
  let ?R = "home_links g labels n"
  have sym: "(u, v) \<in> ?R" if "(v, u) \<in> ?R" for v u
    using that home_links_sym [OF ok n(2)] by (blast dest: symD)
  have "comp_inv g labels out0 s nxt (out0[s := Some nxt]) [s]"
    using n s by (auto simp: comp_inv_def home_links_def nth_list_update intro: old)
  then have inv: "comp_inv g labels out0 s nxt out []" unfolding out_def by (rule comp_bfs_inv)
  then show "length out = n" using n by (simp add: comp_inv_def)
  have free: "out0 ! v = None" if "(s, v) \<in> ?R\<^sup>*" for v
    using that
  proof (induction rule: rtrancl_induct)
    case (step v u)
    then show ?case using old [OF sym [OF step(2)]] by blast
  qed (rule s(2))
  have hit: "out ! v \<noteq> None" if "(s, v) \<in> ?R\<^sup>*" for v
    using that
  proof (induction rule: rtrancl_induct)
    case (step v u)
    then show ?case using inv free [OF step(1)] n unfolding comp_inv_def by force
  qed (use inv in \<open>simp add: comp_inv_def\<close>)
  fix v assume v: "v < n"
  show "out ! v = (if (s, v) \<in> ?R\<^sup>* then Some nxt else out0 ! v)"
  proof (cases "(s, v) \<in> ?R\<^sup>*")
    case True
    then show ?thesis using inv free [OF True] hit [OF True] v n unfolding comp_inv_def by simp
  next
    case False
    then show ?thesis using inv v n unfolding comp_inv_def by (cases "out0 ! v") auto
  qed
qed

lemma split_fold:
  fixes g labels n
  assumes ok: "wg_ok g" and n: "n \<le> wg_len g"
  defines "R \<equiv> home_links g labels n"
  shows "k \<le> n \<Longrightarrow> \<exists>out c. fold (split_step g labels) [0..<k] (replicate n None, 0) = (out, c) \<and> length out = n \<and>
    (\<forall>v < n. out ! v \<noteq> None \<longleftrightarrow> (\<exists>s < k. (s, v) \<in> R\<^sup>*)) \<and>
    (\<forall>v < n. \<forall>u < n. out ! v \<noteq> None \<longrightarrow> out ! u \<noteq> None \<longrightarrow> (out ! v = out ! u \<longleftrightarrow> (v, u) \<in> R\<^sup>*)) \<and>
    (\<forall>v < n. \<forall>x. out ! v = Some x \<longrightarrow> x < c)"
proof (induction k)
  case (Suc k)
  have sym: "(u, v) \<in> R\<^sup>*" if "(v, u) \<in> R\<^sup>*" for v u
    using that sym_rtrancl [OF home_links_sym [OF ok n]] unfolding R_def by (blast dest: symD)
  obtain out c where IH: "fold (split_step g labels) [0..<k] (replicate n None, 0) = (out, c)" "length out = n"
    "\<And>v. v < n \<Longrightarrow> out ! v \<noteq> None \<longleftrightarrow> (\<exists>s < k. (s, v) \<in> R\<^sup>*)"
    "\<And>v u. v < n \<Longrightarrow> u < n \<Longrightarrow> out ! v \<noteq> None \<Longrightarrow> out ! u \<noteq> None \<Longrightarrow> out ! v = out ! u \<longleftrightarrow> (v, u) \<in> R\<^sup>*"
    "\<And>v x. v < n \<Longrightarrow> out ! v = Some x \<Longrightarrow> x < c"
    using Suc by auto
  have k: "k < n" using Suc.prems by simp
  show ?case
  proof (cases "out ! k = None")
    case False
    then obtain s where "s < k" "(s, k) \<in> R\<^sup>*" using IH(3) [OF k] by blast
    then have "(\<exists>s < Suc k. (s, v) \<in> R\<^sup>*) \<longleftrightarrow> (\<exists>s < k. (s, v) \<in> R\<^sup>*)" for v
      using less_Suc_eq rtrancl_trans [of s k R v] by blast
    moreover have "split_step g labels k (out, c) = (out, c)" using False by (simp add: split_step_def)
    ultimately show ?thesis
      using IH by (intro exI [of _ out] exI [of _ c]) simp
  next
    case True
    let ?out = "comp_bfs g labels c (out[k := Some c]) [k]"
    have closed: "out ! u \<noteq> None" if "(v, u) \<in> R" "out ! v \<noteq> None" for v u
    proof -
      have "v < n" "u < n" using that(1) by (simp_all add: R_def home_links_def)
      then show ?thesis using IH(3) that by (meson rtrancl.rtrancl_into_rtrancl)
    qed
    have marks: "length ?out = n" "\<And>v. v < n \<Longrightarrow> ?out ! v = (if (k, v) \<in> R\<^sup>* then Some c else out ! v)"
      unfolding R_def by (rule comp_bfs_marks [OF ok IH(2) n k True]; use closed in \<open>simp add: R_def\<close>)+
    have free: "out ! v = None" if "(k, v) \<in> R\<^sup>*" "v < n" for v
      using IH(3) [OF that(2)] IH(3) [OF k] True sym [OF that(1)] by (meson rtrancl_trans)
    have "fold (split_step g labels) [0..<Suc k] (replicate n None, 0) = (?out, Suc c)"
      using IH(1) True by (simp add: split_step_def)
    moreover have "?out ! v \<noteq> None \<longleftrightarrow> (\<exists>s < Suc k. (s, v) \<in> R\<^sup>*)" if "v < n" for v
      using marks(2) [OF that] IH(3) [OF that] by (auto simp: less_Suc_eq)
    moreover have "?out ! v = ?out ! u \<longleftrightarrow> (v, u) \<in> R\<^sup>*"
      if vu: "v < n" "u < n" "?out ! v \<noteq> None" "?out ! u \<noteq> None" for v u
    proof (cases "(k, v) \<in> R\<^sup>*"; cases "(k, u) \<in> R\<^sup>*")
      assume "(k, v) \<in> R\<^sup>*" "(k, u) \<in> R\<^sup>*"
      then show ?thesis using marks(2) vu sym by (simp, meson rtrancl_trans)
    next
      assume a: "(k, v) \<in> R\<^sup>*" "(k, u) \<notin> R\<^sup>*"
      then have "?out ! u \<noteq> Some c" using marks(2) [OF vu(2)] IH(5) [OF vu(2), of c] by auto
      then show ?thesis using a marks(2) [OF vu(1)] by (auto dest: rtrancl_trans)
    next
      assume a: "(k, v) \<notin> R\<^sup>*" "(k, u) \<in> R\<^sup>*"
      then have "?out ! v \<noteq> Some c" using marks(2) [OF vu(1)] IH(5) [OF vu(1), of c] by auto
      moreover have "(v, u) \<notin> R\<^sup>*" using a sym by (meson rtrancl_trans)
      ultimately show ?thesis using a marks(2) [OF vu(2)] by auto
    next
      assume "(k, v) \<notin> R\<^sup>*" "(k, u) \<notin> R\<^sup>*"
      then show ?thesis using marks(2) vu IH(4) by simp
    qed
    moreover have "x < Suc c" if "v < n" "?out ! v = Some x" for v x
      using marks(2) [OF that(1)] that(2) IH(5) [OF that(1)] by (fastforce split: if_splits)
    ultimately show ?thesis using marks(1) by blast
  qed
qed simp

lemma split_components:
  assumes "wg_ok g" and "length labels = wg_len g" and "v < wg_len g" and "u < wg_len g"
  shows "length (split_disconnected g labels) = wg_len g \<and>
    (split_disconnected g labels ! v = split_disconnected g labels ! u \<longleftrightarrow>
      (v, u) \<in> {(v, u). v < wg_len g \<and> u < wg_len g \<and> u \<in> fst ` set (neighbours g v) \<and> labels ! u = labels ! v}\<^sup>*)"
proof -
  let ?n = "wg_len g"
  obtain out c where r: "fold (split_step g labels) [0..<?n] (replicate ?n None, 0) = (out, c)" "length out = ?n"
    "\<And>v. v < ?n \<Longrightarrow> out ! v \<noteq> None \<longleftrightarrow> (\<exists>s < ?n. (s, v) \<in> (home_links g labels ?n)\<^sup>*)"
    "\<And>v u. v < ?n \<Longrightarrow> u < ?n \<Longrightarrow> out ! v \<noteq> None \<Longrightarrow> out ! u \<noteq> None \<Longrightarrow>
      out ! v = out ! u \<longleftrightarrow> (v, u) \<in> (home_links g labels ?n)\<^sup>*"
    using split_fold [OF assms(1) order_refl, of "wg_len g" labels] by blast
  have "out ! v \<noteq> None" "out ! u \<noteq> None" using r(3) assms(3,4) by blast+
  then show ?thesis
    using r(1,2) r(4) [OF assms(3,4)] assms
    by (auto simp: split_disconnected_def home_links_def [symmetric])
qed

text \<open>
  C28: the split labels two nodes alike exactly when a path of links inside their community joins
  them, so every community of the result is connected and refines the one given.
\<close>

theorem split_into_components:
  assumes "wg_ok g" and "length labels = wg_len g" and "v < wg_len g" and "u < wg_len g"
  shows "length (split_disconnected g labels) = wg_len g \<and>
    (split_disconnected g labels ! v = split_disconnected g labels ! u \<longleftrightarrow>
      (v, u) \<in> {(v, u). v < wg_len g \<and> u < wg_len g \<and> u \<in> fst ` set (neighbours g v) \<and> labels ! u = labels ! v}\<^sup>*)"
  by (rule split_components [OF assms])

subsection \<open>Properties of the renumberings\<close>

lemma first_seen_fold:
  assumes "\<forall>l\<in>set labels. l < length slots0" and "slots0 = replicate m None"
  shows "\<exists>slots out. fold first_seen_step labels (slots0, 0, []) = (slots, length (first_occ labels), out) \<and>
    length slots = length slots0 \<and>
    (\<forall>l < length slots0. slots ! l = None \<longleftrightarrow> l \<notin> set labels) \<and>
    (\<forall>l < length slots0. \<forall>c. slots ! l = Some c \<longrightarrow> c < length (first_occ labels) \<and> first_occ labels ! c = l) \<and>
    map (\<lambda>c. first_occ labels ! c) out = labels \<and> (\<forall>c\<in>set out. c < length (first_occ labels))"
  using assms(1)
proof (induction labels rule: rev_induct)
  case Nil
  then show ?case using assms(2) by simp
next
  case (snoc l labels)
  obtain slots out where IH: "fold first_seen_step labels (slots0, 0, []) = (slots, length (first_occ labels), out)"
    "length slots = length slots0"
    "\<And>l. l < length slots0 \<Longrightarrow> slots ! l = None \<longleftrightarrow> l \<notin> set labels"
    "\<And>l c. l < length slots0 \<Longrightarrow> slots ! l = Some c \<Longrightarrow> c < length (first_occ labels) \<and> first_occ labels ! c = l"
    "map (\<lambda>c. first_occ labels ! c) out = labels" "\<And>c. c \<in> set out \<Longrightarrow> c < length (first_occ labels)"
    using snoc by auto
  have l: "l < length slots0" using snoc.prems by simp
  show ?case
  proof (cases "slots ! l")
    case None
    then have "l \<notin> set labels" using IH(3) [OF l] by simp
    then have occ: "first_occ (labels @ [l]) = first_occ labels @ [l]" by (simp add: first_occ_snoc)
    let ?k = "length (first_occ labels)"
    have "map (\<lambda>c. first_occ (labels @ [l]) ! c) out = map (\<lambda>c. first_occ labels ! c) out"
      using IH(6) by (intro map_cong) (auto simp: occ nth_append)
    then have out: "map (\<lambda>c. first_occ (labels @ [l]) ! c) (out @ [?k]) = labels @ [l]"
      using IH(5) by (simp add: occ)
    have step: "fold first_seen_step (labels @ [l]) (slots0, 0, []) = (slots[l := Some ?k], Suc ?k, out @ [?k])"
      using IH(1) None by (simp add: first_seen_step_def)
    have slot: "c < Suc ?k \<and> first_occ (labels @ [l]) ! c = l'" if "l' < length slots0" "slots[l := Some ?k] ! l' = Some c" for l' c
      using IH(2) IH(4) [of l' c] that l by (cases "l' = l") (auto simp: occ nth_append)
    have dom: "slots[l := Some ?k] ! l' = None \<longleftrightarrow> l' \<notin> set (labels @ [l])" if "l' < length slots0" for l'
      using IH(2) IH(3) [OF that] that l by (cases "l' = l") auto
    have less: "c < Suc ?k" if "c \<in> set (out @ [?k])" for c using IH(6) that by fastforce
    show ?thesis
      using step out slot dom less IH(2)
      by (intro exI [of _ "slots[l := Some ?k]"] exI [of _ "out @ [?k]"]) (simp add: occ del: map_append)
  next
    case (Some c)
    then have "l \<in> set labels" using IH(3) [OF l] by auto
    then have occ: "first_occ (labels @ [l]) = first_occ labels" by (simp add: first_occ_snoc)
    show ?thesis
    proof -
      have "c < length (first_occ labels)" "first_occ labels ! c = l" using IH(4) [OF l Some] by blast+
      then have "map (\<lambda>c. first_occ labels ! c) (out @ [c]) = labels @ [l]"
        "\<forall>c\<in>set (out @ [c]). c < length (first_occ labels)" using IH(5,6) by auto
      moreover have "fold first_seen_step (labels @ [l]) (slots0, 0, []) = (slots, length (first_occ labels), out @ [c])"
        using IH(1) Some by (simp add: first_seen_step_def)
      moreover have "slots ! l' = None \<longleftrightarrow> l' \<notin> set (labels @ [l])" if "l' < length slots0" for l'
        using IH(3) [OF that] \<open>l \<in> set labels\<close> by auto
      ultimately show ?thesis
        using IH(2,4) unfolding occ by (intro exI [of _ slots] exI [of _ "out @ [c]"]) blast
    qed
  qed
qed

lemma first_seen_spec:
  "map (\<lambda>c. first_occ labels ! c) (fst (first_seen labels)) = labels \<and>
   snd (first_seen labels) = length (first_occ labels) \<and>
   set (fst (first_seen labels)) = {..<length (first_occ labels)}"
proof -
  let ?top = "if labels = [] then 0 else Max (set labels) + 1"
  have "\<forall>l\<in>set labels. l < length (replicate ?top (None :: nat option))"
    by (auto simp: less_Suc_eq_le)
  from first_seen_fold [OF this refl] obtain slots out where
    r: "fold first_seen_step labels (replicate ?top None, 0, []) = (slots, length (first_occ labels), out)"
    "map (\<lambda>c. first_occ labels ! c) out = labels" "\<forall>c\<in>set out. c < length (first_occ labels)"
    by blast
  have "{..<length (first_occ labels)} \<subseteq> set out"
  proof
    fix c assume c: "c \<in> {..<length (first_occ labels)}"
    then have "first_occ labels ! c \<in> set labels" using set_first_occ nth_mem by (metis lessThan_iff)
    then have "first_occ labels ! c \<in> set (map (\<lambda>c. first_occ labels ! c) out)" using r(2) by simp
    then obtain d where "d \<in> set out" "first_occ labels ! d = first_occ labels ! c" by auto
    then show "c \<in> set out"
      using r(3) c nth_eq_iff_index_eq [OF distinct_first_occ [of labels]] by fastforce
  qed
  then show ?thesis using r by (auto simp: first_seen_def)
qed

text \<open>
  \<open>first_seen\<close> renumbers a labelling by first appearance: its numbers index the distinct
  labels in the order they first appear, of which it returns the count.
\<close>

theorem first_seen_renumbers:
  "map (\<lambda>c. first_occ labels ! c) (fst (first_seen labels)) = labels \<and>
   snd (first_seen labels) = length (first_occ labels) \<and>
   set (fst (first_seen labels)) = {..<length (first_occ labels)}"
  by (rule first_seen_spec)

lemma group_bounds_slices:
  "map (\<lambda>(size, smallest, from). slice (pre @ concat cs @ post) from (from + size)) (group_bounds cs (length pre)) = cs"
proof (induction cs arbitrary: pre)
  case (Cons c cs)
  have "slice (pre @ concat (c # cs) @ post) (length pre) (length pre + length c) = c"
    by (simp add: slice_def)
  moreover have "pre @ concat (c # cs) @ post = (pre @ c) @ concat cs @ post" by simp
  ultimately show ?case using Cons [of "pre @ c"] by simp
qed simp

lemma group_bounds_shape:
  "map (\<lambda>(size, smallest, from). (size, smallest)) (group_bounds cs at) = map (\<lambda>c. (length c, snd (hd c))) cs"
  by (induction cs arbitrary: at) simp_all

definition positions :: "nat list \<Rightarrow> nat \<Rightarrow> nat list" where
  "positions labels l = filter (\<lambda>i. labels ! i = l) [0..<length labels]"

definition group_of :: "nat list \<Rightarrow> nat \<Rightarrow> (nat \<times> nat) list" where
  "group_of labels l = map (Pair l) (positions labels l)"

lemma positions_facts:
  "distinct (positions labels l)" "sorted (positions labels l)"
  "set (positions labels l) = {i. i < length labels \<and> labels ! i = l}"
  by (auto simp: positions_def sorted_wrt_filter)

lemma sorted_by_label:
  defines "by_label \<equiv> \<lambda>labels. sort (map (\<lambda>(i, l). (l, i)) (enumerate 0 labels))"
  shows "chunk_by (\<lambda>a b. fst a = fst b) (by_label labels) = map (group_of labels) (sorted_list_of_set (set labels))"
proof -
  have srt: "sorted (by_label labels)" by (simp add: by_label_def)
  have f: "sorted (map fst (by_label labels))"
    unfolding sorted_map by (rule sorted_wrt_mono_rel [OF _ srt]) (auto simp: less_eq_prod_def)
  have ms: "mset (by_label labels) = mset (map (\<lambda>i. (labels ! i, i)) [0..<length labels])"
    by (simp add: by_label_def enumerate_upt o_def)
  have srt_fst: "sort labels = map fst (by_label labels)"
  proof (rule properties_for_sort)
    have "image_mset fst (mset (by_label labels)) = mset (map (\<lambda>i. labels ! i) [0..<length labels])"
      unfolding ms by (simp add: image_mset.compositionality o_def)
    then show "mset (map fst (by_label labels)) = mset labels" by (simp add: map_nth)
  qed (rule f)
  then have keys: "remdups_adj (map fst (by_label labels)) = sorted_list_of_set (set labels)"
    using sort_dedup [of labels] by (simp only: srt_fst)
  have "filter (\<lambda>p. fst p = l) (by_label labels) = group_of labels l" for l
  proof (rule sorted_distinct_set_unique)
    show "sorted (filter (\<lambda>p. fst p = l) (by_label labels))" using srt by (rule sorted_wrt_filter)
  next
    have "distinct (map (\<lambda>i. (labels ! i, i)) [0..<length labels])" by (simp add: distinct_map inj_on_def)
    then show "distinct (filter (\<lambda>p. fst p = l) (by_label labels))"
      using mset_eq_imp_distinct_iff [OF ms] by simp
  next
    show "sorted (group_of labels l)"
      using positions_facts(2) [of labels l] by (simp add: group_of_def sorted_map sorted_wrt_map)
  next
    show "distinct (group_of labels l)" by (simp add: group_of_def distinct_map inj_on_def positions_facts)
  next
    have "set (by_label labels) = (\<lambda>i. (labels ! i, i)) ` {..<length labels}"
      using arg_cong [OF ms, of set_mset] by auto
    then show "set (filter (\<lambda>p. fst p = l) (by_label labels)) = set (group_of labels l)"
      by (auto simp: group_of_def positions_facts)
  qed
  then show ?thesis by (simp add: chunk_by_key [OF f] keys)
qed

lemma number_group_eq:
  "slice by_label from (from + sz) = group_of labels l \<Longrightarrow>
   number_group by_label (n, sz, smallest, from) out = fold (\<lambda>ix out. out[ix := n]) (positions labels l) out"
  by (simp add: number_group_def group_of_def fold_map o_def)

lemma fold_set_nth:
  "length (fold (\<lambda>ix out. out[ix := n]) ps out) = length out \<and>
   (v < length out \<longrightarrow> fold (\<lambda>ix out. out[ix := n]) ps out ! v = (if v \<in> set ps then n else out ! v))"
  by (induction ps arbitrary: out) (auto simp: nth_list_update)

lemma number_groups:
  assumes "\<forall>j < length gs. slice by_label (snd (snd (gs ! j))) (snd (snd (gs ! j)) + fst (gs ! j)) = group_of labels (ls ! j)"
    and "length ls = length gs" and "distinct ls" and "length out = length labels"
  shows "length (fold (number_group by_label) (enumerate k gs) out) = length labels \<and>
    (\<forall>j < length gs. \<forall>v < length labels. labels ! v = ls ! j \<longrightarrow>
       fold (number_group by_label) (enumerate k gs) out ! v = k + j) \<and>
    (\<forall>v < length labels. labels ! v \<notin> set ls \<longrightarrow> fold (number_group by_label) (enumerate k gs) out ! v = out ! v)"
  using assms
proof (induction gs arbitrary: ls k out)
  case (Cons g gs)
  obtain sz smallest "from" where g: "g = (sz, smallest, from)" by (cases g)
  obtain l ls' where ls: "ls = l # ls'" using Cons.prems(2) by (cases ls) auto
  have "slice by_label from (from + sz) = group_of labels l"
    using Cons.prems(1) by (auto simp: g ls dest: spec [where x = 0])
  then have step: "number_group by_label (k, g) out = fold (\<lambda>ix out. out[ix := k]) (positions labels l) out"
    by (simp add: g number_group_eq)
  let ?out = "fold (\<lambda>ix out. out[ix := k]) (positions labels l) out"
  have len: "length ?out = length labels" using fold_set_nth Cons.prems(4) by metis
  have nth: "?out ! v = (if labels ! v = l then k else out ! v)" if "v < length labels" for v
    using fold_set_nth [of k "positions labels l" out v] that Cons.prems(4) by (simp add: positions_facts)
  have "\<forall>j < length gs. slice by_label (snd (snd (gs ! j))) (snd (snd (gs ! j)) + fst (gs ! j)) = group_of labels (ls' ! j)"
    using Cons.prems(1) by (auto simp: ls dest: spec [where x = "Suc _"])
  moreover have "length ls' = length gs" "distinct ls'" "l \<notin> set ls'" using Cons.prems(2,3) by (simp_all add: ls)
  ultimately have IH: "length (fold (number_group by_label) (enumerate (Suc k) gs) ?out) = length labels"
    "\<And>j v. j < length gs \<Longrightarrow> v < length labels \<Longrightarrow> labels ! v = ls' ! j \<Longrightarrow>
       fold (number_group by_label) (enumerate (Suc k) gs) ?out ! v = Suc k + j"
    "\<And>v. v < length labels \<Longrightarrow> labels ! v \<notin> set ls' \<Longrightarrow>
       fold (number_group by_label) (enumerate (Suc k) gs) ?out ! v = ?out ! v"
    using Cons.IH [of ls' ?out "Suc k"] len by blast+
  have "fold (number_group by_label) (enumerate k (g # gs)) out ! v = k + j"
    if "j < length (g # gs)" "v < length labels" "labels ! v = ls ! j" for j v
  proof (cases j)
    case 0
    then show ?thesis using that IH(3) [of v] nth [of v] \<open>l \<notin> set ls'\<close> by (simp add: step ls)
  next
    case (Suc j')
    then show ?thesis using that IH(2) [of j' v] by (simp add: step ls)
  qed
  moreover have "fold (number_group by_label) (enumerate k (g # gs)) out ! v = out ! v"
    if "v < length labels" "labels ! v \<notin> set ls" for v
    using that IH(3) [of v] nth [of v] by (simp add: step ls)
  ultimately show ?case using IH(1) by (simp add: step)
qed simp

definition members :: "nat list \<Rightarrow> nat \<Rightarrow> nat set" where
  "members out c = {i. i < length out \<and> out ! i = c}"

lemma canonical_groups:
  fixes labels
  defines "by_label \<equiv> sort (map (\<lambda>(i, l). (l, i)) (enumerate 0 labels))"
  defines "gs \<equiv> sort_key (\<lambda>(size, smallest, from). (- int size, smallest))
    (group_bounds (chunk_by (\<lambda>a b. fst a = fst b) by_label) 0)"
  obtains ls where "length ls = length gs" "distinct ls" "set ls = set labels"
    "\<forall>j < length gs. slice by_label (snd (snd (gs ! j))) (snd (snd (gs ! j)) + fst (gs ! j)) = group_of labels (ls ! j)"
    "\<forall>j < length gs. fst (gs ! j) = card {i. i < length labels \<and> labels ! i = ls ! j} \<and>
       fst (snd (gs ! j)) = Min {i. i < length labels \<and> labels ! i = ls ! j}"
proof -
  let ?cs = "chunk_by (\<lambda>a b. fst a = fst b) by_label"
  let ?G = "group_bounds ?cs 0"
  let ?chunk = "\<lambda>g. slice by_label (snd (snd g)) (snd (snd g) + fst g)"
  have cs: "?cs = map (group_of labels) (sorted_list_of_set (set labels))"
    unfolding by_label_def by (rule sorted_by_label)
  have chunks: "map ?chunk ?G = ?cs"
    using group_bounds_slices [of "[]" ?cs "[]"] by (simp add: split_def)
  have shape: "map (\<lambda>g. (fst g, fst (snd g))) ?G = map (\<lambda>c. (length c, snd (hd c))) ?cs"
    using group_bounds_shape [of ?cs 0] by (simp add: split_def)
  have shapes: "(fst g, fst (snd g)) = (length (?chunk g), snd (hd (?chunk g)))" if "g \<in> set ?G" for g
  proof -
    have "map (\<lambda>g. (fst g, fst (snd g))) ?G = map (\<lambda>g. (length (?chunk g), snd (hd (?chunk g)))) ?G"
    proof -
      have "map (\<lambda>c. (length c, snd (hd c))) ?cs = map (\<lambda>c. (length c, snd (hd c))) (map ?chunk ?G)"
        by (simp only: chunks)
      then show ?thesis by (simp only: shape map_map o_def)
    qed
    then show ?thesis unfolding map_eq_conv using that by (rule bspec)
  qed
  have ne: "positions labels l \<noteq> []" if l: "l \<in> set labels" for l
  proof -
    obtain i where "i < length labels" "labels ! i = l" using l by (auto simp: in_set_conv_nth)
    then have "i \<in> set (positions labels l)" by (simp add: positions_facts)
    then show ?thesis by auto
  qed
  define lab where "lab = (\<lambda>g :: nat \<times> nat \<times> nat. fst (hd (?chunk g)))"
  have mem: "?chunk g = group_of labels (lab g) \<and> lab g \<in> set labels" if "g \<in> set ?G" for g
  proof -
    have "?chunk g \<in> set (map ?chunk ?G)" unfolding set_map using that by (rule imageI)
    then have "?chunk g \<in> set ?cs" by (simp only: chunks)
    then obtain l where "l \<in> set labels" "?chunk g = group_of labels l" by (auto simp: cs)
    then show ?thesis using ne [of l] by (cases "positions labels l") (auto simp: lab_def group_of_def)
  qed
  have "map lab ?G = map (\<lambda>c. fst (hd c)) ?cs"
  proof -
    have "map (\<lambda>c. fst (hd c)) ?cs = map (\<lambda>c. fst (hd c)) (map ?chunk ?G)" by (simp only: chunks)
    then show ?thesis by (simp only: lab_def map_map o_def)
  qed
  also have "\<dots> = map (\<lambda>l. l) (sorted_list_of_set (set labels))"
    unfolding cs map_map by (intro map_cong refl) (use ne in \<open>auto simp: group_of_def hd_map\<close>)
  finally have labs: "map lab ?G = sorted_list_of_set (set labels)" by simp
  have perm: "mset gs = mset ?G" by (simp add: gs_def)
  show thesis
  proof (rule that [of "map lab gs"])
    show "length (map lab gs) = length gs" by simp
    have ms: "mset (map lab gs) = mset (sorted_list_of_set (set labels))"
      unfolding labs [symmetric] mset_map perm by simp
    show "distinct (map lab gs)" using mset_eq_imp_distinct_iff [OF ms] by simp
    show "set (map lab gs) = set labels" using mset_eq_setD [OF ms] by simp
    have inG: "gs ! j \<in> set ?G" if "j < length gs" for j
      using mset_eq_setD [OF perm] nth_mem [OF that] by simp
    show "\<forall>j < length gs. ?chunk (gs ! j) = group_of labels (map lab gs ! j)"
      using mem inG by simp
    show "\<forall>j < length gs. fst (gs ! j) = card {i. i < length labels \<and> labels ! i = map lab gs ! j} \<and>
       fst (snd (gs ! j)) = Min {i. i < length labels \<and> labels ! i = map lab gs ! j}"
    proof (intro allI impI)
      fix j assume j: "j < length gs"
      let ?l = "lab (gs ! j)"
      have c: "?chunk (gs ! j) = group_of labels ?l" "?l \<in> set labels" using mem [OF inG [OF j]] by blast+
      have "hd (positions labels ?l) = Min (set (positions labels ?l))"
        using ne [OF c(2)] positions_facts(2) [of labels ?l]
        by (metis Min_eqI List.finite_set hd_in_set list.exhaust_sel sorted_simps(2) set_ConsD order_refl)
      moreover have "length (positions labels ?l) = card (set (positions labels ?l))"
        by (rule distinct_card [OF positions_facts(1), symmetric])
      ultimately show "fst (gs ! j) = card {i. i < length labels \<and> labels ! i = map lab gs ! j} \<and>
        fst (snd (gs ! j)) = Min {i. i < length labels \<and> labels ! i = map lab gs ! j}"
        using shapes [OF inG [OF j]] c ne [OF c(2)] j
        by (simp add: group_of_def hd_map positions_facts)
    qed
  qed
qed

lemma canonical_spec:
  "\<exists>f. inj_on f (set labels) \<and> fst (canonical labels) = map f labels \<and>
     set (fst (canonical labels)) = {..<snd (canonical labels)} \<and>
     sorted_wrt (\<lambda>c d. card (members (fst (canonical labels)) d) < card (members (fst (canonical labels)) c) \<or>
         card (members (fst (canonical labels)) d) = card (members (fst (canonical labels)) c) \<and>
         Min (members (fst (canonical labels)) c) < Min (members (fst (canonical labels)) d))
       [0..<snd (canonical labels)]"
proof -
  define by_label where "by_label = sort (map (\<lambda>(i, l). (l, i)) (enumerate 0 labels))"
  define gs where "gs = sort_key (\<lambda>(size, smallest, from). (- int size, smallest))
    (group_bounds (chunk_by (\<lambda>a b. fst a = fst b) by_label) 0)"
  obtain ls where ls: "length ls = length gs" "distinct ls" "set ls = set labels"
    "\<forall>j < length gs. slice by_label (snd (snd (gs ! j))) (snd (snd (gs ! j)) + fst (gs ! j)) = group_of labels (ls ! j)"
    "\<forall>j < length gs. fst (gs ! j) = card {i. i < length labels \<and> labels ! i = ls ! j} \<and>
       fst (snd (gs ! j)) = Min {i. i < length labels \<and> labels ! i = ls ! j}"
    using canonical_groups [of labels] unfolding by_label_def gs_def by blast
  let ?out = "fold (number_group by_label) (enumerate 0 gs) (replicate (length labels) 0)"
  have canon: "canonical labels = (?out, length gs)"
    by (simp add: canonical_def by_label_def gs_def)
  have out: "length ?out = length labels"
    "\<And>j v. j < length gs \<Longrightarrow> v < length labels \<Longrightarrow> labels ! v = ls ! j \<Longrightarrow> ?out ! v = j"
    using number_groups [OF ls(4,1,2), of "replicate (length labels) 0" 0] by auto
  define f where "f l = (THE j. j < length ls \<and> ls ! j = l)" for l
  have f: "f (ls ! j) = j" if "j < length ls" for j
    unfolding f_def using that ls(2) by (intro the_equality) (auto simp: nth_eq_iff_index_eq)
  have inj: "inj_on f (set labels)"
    unfolding ls(3) [symmetric] by (rule inj_onI) (metis f in_set_conv_nth)
  have nth: "?out ! v = f (labels ! v)" if "v < length labels" for v
  proof -
    have "labels ! v \<in> set ls" using that ls(3) by simp
    then obtain j where "j < length ls" "ls ! j = labels ! v" by (auto simp: in_set_conv_nth)
    then show ?thesis using out(2) [of j v] f [of j] that ls(1) by simp
  qed
  have map: "?out = map f labels" using out(1) nth by (intro nth_equalityI) simp_all
  have "f ` set labels = {..<length gs}"
  proof -
    have "f ` set labels = (\<lambda>j. f (ls ! j)) ` {..<length ls}"
    proof -
      have "set ls = (!) ls ` {..<length ls}" by (auto simp: in_set_conv_nth image_iff)
      then show ?thesis by (simp only: ls(3) [symmetric] image_image)
    qed
    then show ?thesis using f ls(1) by simp
  qed
  then have range: "set ?out = {..<length gs}" by (simp add: map)
  have memb: "members ?out j = {i. i < length labels \<and> labels ! i = ls ! j}" if "j < length gs" for j
  proof -
    have lj: "ls ! j \<in> set labels" "f (ls ! j) = j" using that f [of j] ls(1) nth_mem [of j ls] ls(3) by simp_all
    have "i < length labels \<and> ?out ! i = j \<longleftrightarrow> i < length labels \<and> labels ! i = ls ! j" for i
      using inj_onD [OF inj, of "labels ! i" "ls ! j"] lj nth [of i] by (cases "i < length labels") auto
    then show ?thesis by (simp only: members_def out(1))
  qed
  have "sorted (map (\<lambda>(size, smallest, from). (- int size, smallest)) gs)" by (simp add: gs_def)
  then have key: "(- int (fst (gs ! c)), fst (snd (gs ! c))) \<le> (- int (fst (gs ! d)), fst (snd (gs ! d)))"
    if "c < d" "d < length gs" for c d
    using that by (simp add: sorted_iff_nth_mono case_prod_beta)
  have "sorted_wrt (\<lambda>c d. card (members ?out d) < card (members ?out c) \<or>
      card (members ?out d) = card (members ?out c) \<and> Min (members ?out c) < Min (members ?out d)) [0..<length gs]"
  proof (simp only: sorted_wrt_iff_nth_less length_upt diff_zero, intro allI impI)
    fix c d assume cd: "c < d" "d < length gs"
    have "ls ! c \<noteq> ls ! d" using cd ls(1,2) by (simp add: nth_eq_iff_index_eq)
    have ne: "members ?out j \<noteq> {}" if "j < length gs" for j
      using nth_mem [of j ls] that ls(1,3) unfolding memb [OF that] by (auto simp: in_set_conv_nth)
    have fin: "finite (members ?out j)" for j by (simp add: members_def)
    have "Min (members ?out c) \<noteq> Min (members ?out d)"
    proof
      assume eq: "Min (members ?out c) = Min (members ?out d)"
      have c: "c < length gs" using cd by simp
      have "Min (members ?out c) \<in> members ?out c" "Min (members ?out d) \<in> members ?out d"
        using Min_in [OF fin ne [OF c]] Min_in [OF fin ne [OF cd(2)]] by blast+
      then show False using eq cd(1) by (simp add: members_def)
    qed
    then show "card (members ?out ([0..<length gs] ! d)) < card (members ?out ([0..<length gs] ! c)) \<or>
      card (members ?out ([0..<length gs] ! d)) = card (members ?out ([0..<length gs] ! c)) \<and>
      Min (members ?out ([0..<length gs] ! c)) < Min (members ?out ([0..<length gs] ! d))"
      using key [OF cd] ls(5) memb cd by (auto simp: less_eq_prod_def)
  qed
  then show ?thesis unfolding canon fst_conv snd_conv using inj map range by blast
qed

text \<open>
  C29: \<open>canonical\<close> keeps the partition and renumbers it from 0: a class with a smaller number is
  larger, or as large with a smaller least member.
\<close>

theorem canonical_orders_by_size:
  "\<exists>f. inj_on f (set labels) \<and> fst (canonical labels) = map f labels \<and>
     set (fst (canonical labels)) = {..<snd (canonical labels)} \<and>
     sorted_wrt (\<lambda>c d. card (members (fst (canonical labels)) d) < card (members (fst (canonical labels)) c) \<or>
         card (members (fst (canonical labels)) d) = card (members (fst (canonical labels)) c) \<and>
         Min (members (fst (canonical labels)) c) < Min (members (fst (canonical labels)) d))
       [0..<snd (canonical labels)]"
  by (rule canonical_spec)

text \<open>Concrete input for the component split.\<close>

theorem split_into_components_witness:
  "split_disconnected (wg_from_pairs 2 [(0, 1, 2)]) [5, 5] ! 0 = split_disconnected (wg_from_pairs 2 [(0, 1, 2)]) [5, 5] ! 1"
proof -
  let ?g = "wg_from_pairs 2 [(0, 1, 2)]"
  note g = two_node_view [simplified]
  have len: "wg_len ?g = 2" by (simp add: g wg_len_def)
  have "1 \<in> fst ` set (neighbours ?g 0)" by (simp add: g neighbours_def slice_def)
  then have "(0, 1) \<in> {(v, u). v < wg_len ?g \<and> u < wg_len ?g \<and> u \<in> fst ` set (neighbours ?g v) \<and> [5, 5 :: nat] ! u = [5, 5] ! v}\<^sup>*"
    by (intro r_into_rtrancl) (simp add: len [simplified])
  then show ?thesis
    using split_into_components [OF wg_ok_from_pairs [of 2 "[(0, 1, 2)]"], of "[5, 5]" 0 1] by (simp add: len [simplified])
qed

end
