(* ===== verification/Exact.thy ===== *)
theory Exact
  imports Prelude
begin

text \<open>
  The exact arithmetic Leiden decides with (\<open>activation/src/algo/community.rs\<close>: \<open>Resolution\<close>,
  \<open>Scale\<close>, \<open>Gain\<close>, \<open>U256\<close>). Words are kept at the code's widths; the lemmas show that nothing
  wraps, so that comparing two gains is comparing two integers.
\<close>

unbundle bit_operations_syntax

subsection \<open>256-bit naturals\<close>

record u256 =
  u_hi :: "128 word"
  u_lo :: "128 word"

definition overflowing_add :: "128 word \<Rightarrow> 128 word \<Rightarrow> 128 word \<times> bool" where
  "overflowing_add a b = (a + b, a + b < a)"

definition carry_word :: "bool \<Rightarrow> 128 word" where
  "carry_word c = (if c then 1 else 0)"

definition u256_mul :: "128 word \<Rightarrow> 64 word \<Rightarrow> u256" where
  "u256_mul a b =
     (let b = ucast b;
          low = (a AND ucast (- 1 :: 64 word)) * b;
          high = drop_bit 64 a * b;
          (lo, carry) = overflowing_add (push_bit 64 high) low
      in \<lparr>u_hi = drop_bit 64 high + carry_word carry, u_lo = lo\<rparr>)"

definition u256_add :: "u256 \<Rightarrow> u256 \<Rightarrow> u256" where
  "u256_add a b =
     (let (lo, carry) = overflowing_add (u_lo a) (u_lo b)
      in \<lparr>u_hi = u_hi a + u_hi b + carry_word carry, u_lo = lo\<rparr>)"

definition u256_cmp :: "u256 \<Rightarrow> u256 \<Rightarrow> ordering" where
  "u256_cmp a b = then_with (cmp_of (u_hi a) (u_hi b)) (cmp_of (u_lo a) (u_lo b))"

subsection \<open>Scale and gain\<close>

record resolution =
  res_num :: "32 word"
  res_den :: "32 word"

definition resolution_one :: resolution where
  "resolution_one = \<lparr>res_num = 1, res_den = 1\<rparr>"

definition res_ratio :: "resolution \<Rightarrow> 32 word \<times> 32 word" where
  "res_ratio r = (res_num r, max (res_den r) 1)"

record scale =
  sc_num :: "64 word"
  sc_den_total :: "128 word"

definition scale_new :: "resolution \<Rightarrow> 64 word \<Rightarrow> scale" where
  "scale_new res twom =
     (let (num, den) = res_ratio res in \<lparr>sc_num = ucast num, sc_den_total = ucast den * ucast twom\<rparr>)"

record gain =
  g_pos :: u256
  g_neg :: u256

definition scale_gain :: "scale \<Rightarrow> 64 word \<Rightarrow> 64 word \<Rightarrow> 64 word \<Rightarrow> gain" where
  "scale_gain sc link k tot =
     \<lparr>g_pos = u256_mul (sc_den_total sc) link, g_neg = u256_mul (ucast (sc_num sc) * ucast k) tot\<rparr>"

definition gain_compare :: "gain \<Rightarrow> gain \<Rightarrow> ordering" where
  "gain_compare a b = u256_cmp (u256_add (g_pos a) (g_neg b)) (u256_add (g_pos b) (g_neg a))"

definition non_negative :: "gain \<Rightarrow> bool" where
  "non_negative g \<longleftrightarrow> u256_cmp (g_pos g) (g_neg g) \<noteq> Less"

subsection \<open>The values the words stand for\<close>

definition u256_val :: "u256 \<Rightarrow> nat" where
  "u256_val u = unat (u_hi u) * 2 ^ 128 + unat (u_lo u)"

lemma unat_lt128: "unat (w :: 128 word) < 2 ^ 128"
  using unsigned_less [of w, where ?'a = nat] by simp

lemma unat_lt64: "unat (w :: 64 word) < 2 ^ 64"
  using unsigned_less [of w, where ?'a = nat] by simp

lemma unat_lt32: "unat (w :: 32 word) < 2 ^ 32"
  using unsigned_less [of w, where ?'a = nat] by simp

lemma unat_add128: "unat ((a :: 128 word) + b) = (unat a + unat b) mod 2 ^ 128"
  by (simp add: unat_word_ariths)

lemma unat_mul128: "unat (a :: 128 word) * unat b < 2 ^ 128 \<Longrightarrow> unat (a * b) = unat a * unat b"
  by (simp add: unat_word_ariths)

lemma unat_up:
  "unat (ucast (w :: 64 word) :: 128 word) = unat w" "unat (ucast (v :: 32 word) :: 128 word) = unat v"
  "unat (ucast (v :: 32 word) :: 64 word) = unat v"
  using unat_lt64 [of w] unat_lt32 [of v]
  by (simp_all add: unsigned_ucast_eq take_bit_nat_eq_self)

lemma overflowing_add_val:
  assumes "overflowing_add a b = (lo, carry)"
  shows "unat lo + (if carry then 2 ^ 128 else 0) = unat a + unat b"
proof -
  have "lo = a + b" and c: "carry \<longleftrightarrow> a + b < a" using assms by (auto simp: overflowing_add_def)
  then have lo: "unat lo = (unat a + unat b) mod 2 ^ 128" by (simp only: unat_add128)
  have lt: "unat a < 2 ^ 128" "unat b < 2 ^ 128" by (rule unat_lt128)+
  show ?thesis
  proof (cases "unat a + unat b < 2 ^ 128")
    case True
    then have "unat (a + b) = unat a + unat b" by (simp add: unat_add128)
    then show ?thesis using c lo True by (simp add: word_less_nat_alt)
  next
    case False
    then have "(unat a + unat b) mod 2 ^ 128 = unat a + unat b - 2 ^ 128"
      using lt by (simp add: le_mod_geq)
    moreover from this have "carry" using c lt False by (simp add: word_less_nat_alt unat_add128)
    ultimately show ?thesis using lo False by simp
  qed
qed

lemma u256_add_val:
  assumes "u256_val a + u256_val b < 2 ^ 256"
  shows "u256_val (u256_add a b) = u256_val a + u256_val b"
proof -
  obtain lo c where add: "overflowing_add (u_lo a) (u_lo b) = (lo, c)"
    by (cases "overflowing_add (u_lo a) (u_lo b)")
  have v: "unat lo + (if c then 2 ^ 128 else 0) = unat (u_lo a) + unat (u_lo b)"
    by (rule overflowing_add_val [OF add])
  let ?h = "unat (u_hi a) + unat (u_hi b) + (if c then 1 else 0)"
  have sum: "u256_val a + u256_val b = ?h * 2 ^ 128 + unat lo"
    using v by (simp add: u256_val_def algebra_simps split: if_splits)
  then have "?h * 2 ^ 128 < 2 ^ 128 * 2 ^ 128" using assms by simp
  then have h: "?h < 2 ^ 128" by simp
  have "unat (u_hi a + u_hi b + carry_word c) = ?h"
    using h by (cases c) (simp_all add: carry_word_def unat_add128)
  then show ?thesis using sum by (simp add: u256_val_def u256_add_def add)
qed

lemma u256_mul_val: "u256_val (u256_mul a b) = unat a * unat b"
proof -
  let ?b = "ucast b :: 128 word"
  define low where "low = (a AND ucast (- 1 :: 64 word)) * ?b"
  define high where "high = drop_bit 64 a * ?b"
  obtain lo c where add: "overflowing_add (push_bit 64 high) low = (lo, c)"
    by (cases "overflowing_add (push_bit 64 high) low")
  have b: "unat ?b = unat b" "unat b < 2 ^ 64" by (rule unat_up) (rule unat_lt64)
  have "a AND ucast (- 1 :: 64 word) = take_bit 64 a"
    by (rule bit_word_eqI) (auto simp: bit_simps)
  then have "unat (a AND ucast (- 1 :: 64 word)) = unat a mod 2 ^ 64"
    by (simp only: unsigned_take_bit_eq) (simp only: take_bit_eq_mod)
  moreover have "unat a mod 2 ^ 64 * unat b < 2 ^ 64 * 2 ^ 64"
    using b(2) by (intro mult_strict_mono) auto
  ultimately have low: "unat low = unat a mod 2 ^ 64 * unat b"
    unfolding low_def by (subst unat_mul128) (simp_all add: b)
  have "unat a div 2 ^ 64 < 2 ^ 64" using unat_lt128 [of a] by (simp add: div_less_iff_less_mult)
  then have hb: "unat a div 2 ^ 64 * unat b \<le> (2 ^ 64 - 1) * (2 ^ 64 - 1)"
    using b(2) by (intro mult_le_mono) auto
  have "unat (drop_bit 64 a) = unat a div 2 ^ 64"
    by (simp only: unat_drop_bit_eq) (simp only: drop_bit_eq_div)
  then have high: "unat high = unat a div 2 ^ 64 * unat b"
    unfolding high_def using hb by (subst unat_mul128) (simp_all add: b)
  have shl: "unat (push_bit 64 high) = unat high mod 2 ^ 64 * 2 ^ 64"
  proof -
    have "unat (push_bit 64 high) = (unat high * 2 ^ 64) mod (2 ^ 64 * 2 ^ 64)"
      by (simp only: unsigned_push_bit_eq) (simp add: take_bit_eq_mod push_bit_eq_mult)
    then show ?thesis by (simp only: mod_mult_mult2)
  qed
  have shr: "unat (drop_bit 64 high) = unat high div 2 ^ 64"
    by (simp only: unat_drop_bit_eq) (simp only: drop_bit_eq_div)
  have "unat high div 2 ^ 64 + 1 < 2 ^ 128" using hb high by (simp add: div_less_iff_less_mult)
  then have hi: "unat (drop_bit 64 high + carry_word c) = unat high div 2 ^ 64 + (if c then 1 else 0)"
    by (cases c) (simp_all add: carry_word_def unat_add128 shr)
  have v: "unat lo + (if c then 2 ^ 128 else 0) = unat high mod 2 ^ 64 * 2 ^ 64 + unat low"
    using overflowing_add_val [OF add] by (simp only: shl)
  have "u256_val (u256_mul a b) = (unat high div 2 ^ 64 + (if c then 1 else 0)) * 2 ^ 128 + unat lo"
    using add hi by (simp add: u256_mul_def u256_val_def low_def high_def)
  also have "\<dots> = unat high * 2 ^ 64 + unat low"
  proof -
    have "unat high = unat high div 2 ^ 64 * 2 ^ 64 + unat high mod 2 ^ 64" by (simp only: div_mult_mod_eq)
    moreover have "(q + (if c then 1 else 0)) * 2 ^ 128 + l = (q * 2 ^ 64 + r) * 2 ^ 64 + w"
      if "l + (if c then 2 ^ 128 else 0) = r * 2 ^ 64 + w" for q r l w :: nat
      using that by (cases c) simp_all
    ultimately show ?thesis using v by metis
  qed
  also have "\<dots> = (unat a div 2 ^ 64 * 2 ^ 64 + unat a mod 2 ^ 64) * unat b"
    unfolding high low by (simp only: algebra_simps)
  also have "\<dots> = unat a * unat b" by (simp only: div_mult_mod_eq)
  finally show ?thesis .
qed

lemma u256_cmp_val: "u256_cmp a b = cmp_of (u256_val a) (u256_val b)"
proof -
  have "unat (u_lo a) < 2 ^ 128" "unat (u_lo b) < 2 ^ 128" by (rule unat_lt128)+
  moreover have "unat (u_hi a) < unat (u_hi b) \<Longrightarrow> (unat (u_hi a) + 1) * 2 ^ 128 \<le> unat (u_hi b) * 2 ^ 128"
    "unat (u_hi b) < unat (u_hi a) \<Longrightarrow> (unat (u_hi b) + 1) * 2 ^ 128 \<le> unat (u_hi a) * 2 ^ 128"
    by (intro mult_right_mono; simp)+
  ultimately show ?thesis
    by (cases "unat (u_hi a)" "unat (u_hi b)" rule: linorder_cases;
        cases "unat (u_lo a)" "unat (u_lo b)" rule: linorder_cases)
       (simp_all add: u256_cmp_def cmp_of_def u256_val_def word_less_nat_alt word_unat_eq_iff)
qed

subsection \<open>Gains are integers\<close>

text \<open>What \<open>scale_gain\<close> stands for: \<open>den * 2m * link - num * k * tot\<close>.\<close>

definition gain_int :: "resolution \<Rightarrow> 64 word \<Rightarrow> 64 word \<Rightarrow> 64 word \<Rightarrow> 64 word \<Rightarrow> int" where
  "gain_int res twom link k tot =
     int (max (unat (res_den res)) 1) * int (unat twom) * int (unat link)
     - int (unat (res_num res)) * int (unat k) * int (unat tot)"

lemma gain_vals:
  shows "u256_val (g_pos (scale_gain (scale_new res twom) link k tot)) =
      max (unat (res_den res)) 1 * unat twom * unat link"
    and "u256_val (g_neg (scale_gain (scale_new res twom) link k tot)) = unat (res_num res) * unat k * unat tot"
    and "u256_val (g_pos (scale_gain (scale_new res twom) link k tot)) < 2 ^ 160"
    and "u256_val (g_neg (scale_gain (scale_new res twom) link k tot)) < 2 ^ 160"
proof -
  let ?den = "max (res_den res) 1"
  have den: "unat ?den = max (unat (res_den res)) 1"
    by (simp add: max_def word_le_nat_alt)
  have b: "unat (v :: 32 word) * unat (w :: 64 word) < 2 ^ 32 * 2 ^ 64" for v w
    using unat_lt32 [of v] unat_lt64 [of w] by (intro mult_strict_mono) auto
  have b3: "unat (v :: 32 word) * unat (w :: 64 word) * unat (x :: 64 word) < 2 ^ 32 * 2 ^ 64 * 2 ^ 64" for v w x
    by (rule mult_strict_mono [OF b unat_lt64]) simp_all
  have m: "unat (ucast v * ucast w :: 128 word) = unat v * unat w" for v :: "32 word" and w :: "64 word"
    using b [of v w] by (subst unat_mul128) (simp_all add: unat_up)
  have m2: "unat (ucast (ucast v :: 64 word) * ucast w :: 128 word) = unat v * unat w" for v :: "32 word" and w :: "64 word"
    using b [of v w] by (subst unat_mul128) (simp_all add: unat_up)
  show p: "u256_val (g_pos (scale_gain (scale_new res twom) link k tot)) =
      max (unat (res_den res)) 1 * unat twom * unat link"
    by (simp add: scale_gain_def scale_new_def res_ratio_def u256_mul_val m den)
  show n: "u256_val (g_neg (scale_gain (scale_new res twom) link k tot)) = unat (res_num res) * unat k * unat tot"
    by (simp add: scale_gain_def scale_new_def res_ratio_def u256_mul_val m2)
  show "u256_val (g_pos (scale_gain (scale_new res twom) link k tot)) < 2 ^ 160"
    unfolding p den [symmetric] using b3 [of ?den twom link] by simp
  show "u256_val (g_neg (scale_gain (scale_new res twom) link k tot)) < 2 ^ 160"
    unfolding n using b3 [of "res_num res" k tot] by simp
qed

lemma cmp_of_int_nat: "cmp_of (a + d) (c + b :: nat) = cmp_of (int a - int b) (int c - int d)"
  by (auto simp: cmp_of_def)

lemma gain_exact:
  "gain_compare (scale_gain (scale_new res twom) l k t) (scale_gain (scale_new res twom) l' k' t') =
     cmp_of (gain_int res twom l k t) (gain_int res twom l' k' t')
   \<and> non_negative (scale_gain (scale_new res twom) l k t) = (0 \<le> gain_int res twom l k t)"
proof
  let ?g = "scale_gain (scale_new res twom) l k t" and ?h = "scale_gain (scale_new res twom) l' k' t'"
  have add: "u256_val (u256_add (g_pos a) (g_neg b)) = u256_val (g_pos a) + u256_val (g_neg b)"
    if "u256_val (g_pos a) < 2 ^ 160" "u256_val (g_neg b) < 2 ^ 160" for a b
    using that by (intro u256_add_val) simp
  have "gain_compare ?g ?h =
      cmp_of (u256_val (g_pos ?g) + u256_val (g_neg ?h)) (u256_val (g_pos ?h) + u256_val (g_neg ?g))"
    by (simp only: gain_compare_def u256_cmp_val add gain_vals(3,4))
  also have "\<dots> = cmp_of (gain_int res twom l k t) (gain_int res twom l' k' t')"
    unfolding cmp_of_int_nat by (simp only: gain_vals(1,2) gain_int_def of_nat_mult)
  finally show "gain_compare ?g ?h = cmp_of (gain_int res twom l k t) (gain_int res twom l' k' t')" .
  have "int (u256_val (g_pos ?g)) - int (u256_val (g_neg ?g)) = gain_int res twom l k t"
    by (simp only: gain_vals(1,2) gain_int_def of_nat_mult)
  then show "non_negative ?g = (0 \<le> gain_int res twom l k t)"
    by (auto simp: non_negative_def u256_cmp_val cmp_of_def)
qed

text \<open>
  C24: comparing two gains in 256 bits is comparing the two integers they stand for, and
  \<open>non_negative\<close> is the sign of that integer, for every resolution, total weight, link weight
  and strengths: no product or sum wraps.
\<close>

theorem gain_is_exact:
  "gain_compare (scale_gain (scale_new res twom) l k t) (scale_gain (scale_new res twom) l' k' t') =
     cmp_of (gain_int res twom l k t) (gain_int res twom l' k' t')
   \<and> non_negative (scale_gain (scale_new res twom) l k t) = (0 \<le> gain_int res twom l k t)"
  by (rule gain_exact)

end
