(* ===== verification/Propagation.thy ===== *)
theory Propagation
  imports Labels Rng Exact
begin

text \<open>
  Label propagation of \<open>activation/src/algo/community.rs\<close> with the options, the partition it
  returns and the integer terms of \<open>modularity\<close>. The generator's rejection loop makes the steps
  partial; that they return is proved. The per-node vote buffers (\<open>score\<close>, \<open>touched\<close>) are the
  code's: filled from the neighbours, read, and cleared again.
\<close>

subsection \<open>Votes\<close>

definition tally_step :: "nat list \<Rightarrow> nat \<times> 64 word \<Rightarrow> 64 word list \<times> nat list \<Rightarrow> 64 word list \<times> nat list" where
  "tally_step label uw st =
     (let (u, w) = uw; (score, touched) = st; l = label ! u
      in (score[l := sat_add (score ! l) w], if score ! l = 0 then touched @ [l] else touched))"

definition tally :: "nat list \<Rightarrow> (nat \<times> 64 word) list \<Rightarrow> 64 word list \<Rightarrow> 64 word list \<times> nat list" where
  "tally label ns score = fold (tally_step label) ns (score, [])"

definition untally :: "nat list \<Rightarrow> 64 word list \<Rightarrow> 64 word list" where
  "untally touched score = fold (\<lambda>l s. s[l := 0]) touched score"

definition votes :: "nat list \<Rightarrow> (nat \<times> 64 word) list \<Rightarrow> nat \<Rightarrow> nat" where
  "votes label ns l = (\<Sum>(u, w)\<leftarrow>ns. if label ! u = l then unat w else 0)"

lemma votes_snoc: "votes label (ns @ [(u, w)]) l = votes label ns l + (if label ! u = l then unat w else 0)"
  by (simp add: votes_def)

lemma votes_pos_iff:
  "\<forall>(u, w)\<in>set ns. 0 < w \<Longrightarrow> 0 < votes label ns l \<longleftrightarrow> l \<in> (\<lambda>(u, w). label ! u) ` set ns"
  by (induction ns) (auto simp: votes_def unat_gt_0 word_neq_0_conv)

lemma tally_spec:
  assumes "\<forall>(u, w)\<in>set ns. label ! u < m \<and> 0 < w"
  shows "\<exists>score touched. tally label ns (replicate m 0) = (score, touched) \<and> length score = m \<and>
    (\<forall>l < m. score ! l = sat64 (votes label ns l)) \<and> distinct touched \<and>
    set touched = (\<lambda>(u, w). label ! u) ` set ns \<and> untally touched score = replicate m 0"
  using assms
proof (induction ns rule: rev_induct)
  case Nil
  then show ?case by (simp add: tally_def votes_def untally_def sat64_def)
next
  case (snoc uw ns)
  obtain u w where uw: "uw = (u, w)" by (cases uw)
  let ?l = "label ! u"
  obtain score touched where IH: "tally label ns (replicate m 0) = (score, touched)" "length score = m"
    "\<And>l. l < m \<Longrightarrow> score ! l = sat64 (votes label ns l)" "distinct touched"
    "set touched = (\<lambda>(u, w). label ! u) ` set ns"
    using snoc by auto
  have l: "?l < m" and w: "0 < w" using snoc.prems by (auto simp: uw)
  have pos: "\<forall>(u, w)\<in>set ns. 0 < w" using snoc.prems by auto
  have zero: "score ! ?l = 0 \<longleftrightarrow> ?l \<notin> set touched"
    unfolding IH(3) [OF l] IH(5) sat64_0_iff using votes_pos_iff [OF pos, of label ?l] by (metis neq0_conv)
  let ?score = "score[?l := sat_add (score ! ?l) w]" and ?touched = "if score ! ?l = 0 then touched @ [?l] else touched"
  have step: "tally label (ns @ [uw]) (replicate m 0) = (?score, ?touched)"
    using IH(1) by (simp add: tally_def tally_step_def uw)
  have nth: "?score ! l = sat64 (votes label (ns @ [uw]) l)" if "l < m" for l
    using IH(2,3) that by (auto simp: uw votes_snoc nth_list_update sat_add_def sat64_absorb)
  have set: "set ?touched = (\<lambda>(u, w). label ! u) ` set (ns @ [uw])"
    using zero IH(5) by (auto simp: uw)
  have clear: "length (untally ts s) = length s \<and>
      (\<forall>l < length s. untally ts s ! l = (if l \<in> set ts then 0 else s ! l))" for ts s
    by (induction ts arbitrary: s) (auto simp: untally_def nth_list_update)
  have "untally ?touched ?score = replicate m 0"
  proof (rule nth_equalityI)
    fix l assume "l < length (untally ?touched ?score)"
    then have l': "l < m" using clear IH(2) by simp
    show "untally ?touched ?score ! l = replicate m 0 ! l"
    proof (cases "l \<in> set ?touched")
      case False
      have "\<forall>(u, w)\<in>set (ns @ [uw]). 0 < w" using snoc.prems by auto
      then have "votes label (ns @ [uw]) l = 0"
        using votes_pos_iff [of "ns @ [uw]" label l] False set by (simp only: set neq0_conv [symmetric]) blast
      then show ?thesis using clear [of ?touched ?score] nth [OF l'] False l' IH(2) by simp
    qed (use clear [of ?touched ?score] l' IH(2) in simp)
  qed (use clear IH(2) in simp)
  then show ?case using step nth set IH(2,4) zero by simp
qed

subsection \<open>Options, partition and modularity\<close>

datatype comm_method = Leiden | LabelPropagation

definition method_name :: "comm_method \<Rightarrow> string" where
  "method_name m = (case m of Leiden \<Rightarrow> ''leiden'' | LabelPropagation \<Rightarrow> ''label_propagation'')"

record comm_options =
  co_seed :: "64 word"
  co_resolution :: resolution
  co_max_levels :: nat
  co_max_rounds :: nat
  co_leiden_edge_cap :: nat

definition comm_options_default :: comm_options where
  "comm_options_default = \<lparr>co_seed = 0, co_resolution = resolution_one, co_max_levels = 10, co_max_rounds = 20,
     co_leiden_edge_cap = 20000000\<rparr>"

text \<open>
  \<open>modularity\<close> up to its conversion to \<open>f64\<close>: NaN, zero, or the integers the code accumulates,
  which it then combines to \<open>inside / 2m - num / den * (squares / (2m * 2m))\<close>.
\<close>

datatype modularity_terms = Mod_NaN | Mod_Zero | Mod_Terms "128 word" "128 word" "64 word" "32 word \<times> 32 word"

definition sat_add128 :: "128 word \<Rightarrow> 128 word \<Rightarrow> 128 word" where
  "sat_add128 a b = (if a + b < a then - 1 else a + b)"

definition sat_mul128 :: "128 word \<Rightarrow> 128 word \<Rightarrow> 128 word" where
  "sat_mul128 a b = (if unat a * unat b < 2 ^ 128 then a * b else - 1)"

definition inside_weight :: "wgraph \<Rightarrow> nat list \<Rightarrow> 128 word" where
  "inside_weight g m =
     fold (\<lambda>v inside.
       fold (\<lambda>(u, w) inside. if m ! u = m ! v then inside + ucast w else inside) (neighbours g v)
         (inside + ucast (self_weight g v))) [0..<wg_len g] 0"

definition square_strengths :: "wgraph \<Rightarrow> nat list \<Rightarrow> 128 word" where
  "square_strengths g m =
     (let ks = sort_key fst (zip m (wg_strengths g))
      in fold (\<lambda>grp squares. let k = (\<Sum>(c, k)\<leftarrow>grp. ucast k) in sat_add128 squares (sat_mul128 k k))
           (chunk_by (\<lambda>a b. fst a = fst b) ks) 0)"

definition modularity :: "wgraph \<Rightarrow> nat list \<Rightarrow> resolution \<Rightarrow> modularity_terms" where
  "modularity g m res =
     (if length m \<noteq> wg_len g then Mod_NaN
      else if wg_total g = 0 then Mod_Zero
      else Mod_Terms (inside_weight g m) (square_strengths g m) (wg_total g) (res_ratio res))"

record partition =
  p_membership :: "nat list"
  p_communities :: nat
  p_modularity :: modularity_terms
  p_levels :: nat
  p_method :: comm_method

subsection \<open>Label propagation\<close>

type_synonym lp_state = "nat list \<times> 64 word list \<times> rng \<times> bool"

definition lp_pick :: "nat list \<Rightarrow> rng \<Rightarrow> (nat \<times> rng) option" where
  "lp_pick ties r =
     (if length ties = 1 then Some (ties ! 0, r)
      else map_option (\<lambda>(pick, r). (ties ! unat pick, r)) (below (of_nat (length ties)) r))"

definition lp_node :: "wgraph \<Rightarrow> nat \<Rightarrow> lp_state \<Rightarrow> lp_state option" where
  "lp_node g v st =
     (let (label, score, r, changed) = st;
          (score, touched) = tally label (neighbours g v) score;
          best = (if touched = [] then 0 else Max (set (map (\<lambda>l. score ! l) touched)))
      in if 0 < best \<and> score ! (label ! v) \<noteq> best then
           map_option (\<lambda>(l, r). (label[v := l], untally touched score, r, True))
             (lp_pick (sort (filter (\<lambda>l. score ! l = best) touched)) r)
         else Some (label, untally touched score, r, changed))"

definition lp_round :: "wgraph \<Rightarrow> nat list \<Rightarrow> 64 word list \<Rightarrow> rng \<Rightarrow> lp_state option" where
  "lp_round g label score r =
     (case shuffle_rng [0..<wg_len g] r of
        None \<Rightarrow> None
      | Some (order, r) \<Rightarrow> fold_opt (lp_node g) order (label, score, r, False))"

text \<open>The first argument counts the rounds left; \<open>rounds\<close> those run.\<close>

fun lp_loop :: "nat \<Rightarrow> wgraph \<Rightarrow> nat \<Rightarrow> nat list \<Rightarrow> 64 word list \<Rightarrow> rng \<Rightarrow> (nat list \<times> nat) option" where
  "lp_loop 0 g rounds label score r = Some (label, rounds)"
| "lp_loop (Suc left) g rounds label score r =
     (case lp_round g label score r of
        None \<Rightarrow> None
      | Some (label, score, r, changed) \<Rightarrow>
          if \<not> changed then Some (label, rounds + 1) else lp_loop left g (rounds + 1) label score r)"

definition label_propagation :: "wgraph \<Rightarrow> comm_options \<Rightarrow> partition option" where
  "label_propagation g opts =
     (let n = wg_len g in
      case lp_loop (co_max_rounds opts) g 0 [0..<n] (replicate n 0) (co_seed opts) of
        None \<Rightarrow> None
      | Some (label, rounds) \<Rightarrow>
          let (membership, cs) = canonical label
          in Some \<lparr>p_membership = membership, p_communities = cs,
               p_modularity = modularity g membership (co_resolution opts), p_levels = rounds,
               p_method = LabelPropagation\<rparr>)"

subsection \<open>Rounds\<close>

lemma wg_ok_row:
  assumes "wg_ok g" and "v < wg_len g"
  shows "\<forall>(u, w)\<in>set (neighbours g v). u < wg_len g \<and> u \<noteq> v \<and> 0 < w"
  using assms unfolding wg_ok_def by fast

lemma lp_pick_mem:
  assumes "ties \<noteq> []" and "length ties < 2 ^ 64"
  shows "\<exists>l r'. lp_pick ties r = Some (l, r') \<and> l \<in> set ties"
proof (cases "length ties = 1")
  case False
  obtain p r' where b: "below (of_nat (length ties)) r = Some (p, r')"
    "if (of_nat (length ties) :: 64 word) = 0 then p = 0 \<and> r' = r else p < of_nat (length ties)"
    using below_spec [of "of_nat (length ties)" r] by blast
  have u: "unat (of_nat (length ties) :: 64 word) = length ties" using assms(2) by (simp add: unat_of_nat)
  then have "(of_nat (length ties) :: 64 word) \<noteq> 0" using assms(1) by (metis length_0_conv unat_0)
  then have "unat p < length ties" using b(2) u by (simp add: word_less_nat_alt)
  then show ?thesis using b(1) False by (auto simp: lp_pick_def)
qed (use assms in \<open>auto simp: lp_pick_def\<close>)

text \<open>A node's step returns; it keeps its label, or takes one of its neighbours' with the most votes.\<close>

lemma lp_node_step:
  assumes ok: "wg_ok g" and v: "v < wg_len g" and label: "length label = wg_len g" "\<forall>l\<in>set label. l < wg_len g"
    and n: "wg_len g < 2 ^ 64"
  shows "\<exists>label' r' changed'. lp_node g v (label, replicate (wg_len g) 0, r, changed) =
      Some (label', replicate (wg_len g) 0, r', changed') \<and>
    length label' = wg_len g \<and> (\<forall>l\<in>set label'. l < wg_len g) \<and>
    (changed' \<or> \<not> changed \<and> label' = label \<and>
       (\<forall>c < wg_len g. sat64 (votes label (neighbours g v) c) \<le> sat64 (votes label (neighbours g v) (label ! v))))"
proof -
  let ?n = "wg_len g" and ?ns = "neighbours g v"
  have ns: "\<forall>(u, w)\<in>set ?ns. label ! u < ?n \<and> 0 < w"
    using wg_ok_row [OF ok v] label by fastforce
  obtain score touched where t: "tally label ?ns (replicate ?n 0) = (score, touched)" "length score = ?n"
    "\<And>l. l < ?n \<Longrightarrow> score ! l = sat64 (votes label ?ns l)" "distinct touched"
    "set touched = (\<lambda>(u, w). label ! u) ` set ?ns" "untally touched score = replicate ?n 0"
    using tally_spec [OF ns] by auto
  let ?best = "if touched = [] then 0 else Max (set (map (\<lambda>l. score ! l) touched))"
  have lt: "l < ?n" if "l \<in> set touched" for l using that ns t(5) by auto
  show ?thesis
  proof (cases "0 < ?best \<and> score ! (label ! v) \<noteq> ?best")
    case True
    let ?ties = "sort (filter (\<lambda>l. score ! l = ?best) touched)"
    have ne: "touched \<noteq> []" using True by auto
    have "Max (set (map (\<lambda>l. score ! l) touched)) \<in> set (map (\<lambda>l. score ! l) touched)"
      using ne by (intro Max_in) auto
    then obtain l where "l \<in> set touched" "Max (set (map (\<lambda>l. score ! l) touched)) = score ! l"
      unfolding set_map by (rule imageE)
    then have "l \<in> set ?ties" using ne by simp
    then have "?ties \<noteq> []" by force
    moreover have "length ?ties < 2 ^ 64"
    proof -
      have "length ?ties \<le> length touched" by simp
      also have "\<dots> = card (set touched)" by (simp add: distinct_card t(4))
      also have "\<dots> \<le> card {..<?n}" by (rule card_mono) (use lt in auto)
      finally show ?thesis using n by simp
    qed
    ultimately obtain l r' where pick: "lp_pick ?ties r = Some (l, r')" "l \<in> set ?ties"
      using lp_pick_mem by blast
    have "\<forall>l'\<in>set (label[v := l]). l' < ?n"
      using label lt pick(2) set_update_subset_insert [of label v l] by fastforce
    then show ?thesis
      using True pick(1) label(1)
      by (intro exI [of _ "label[v := l]"] exI [of _ r'] exI [of _ True]) (simp add: lp_node_def t(1,6))
  next
    case False
    have "sat64 (votes label ?ns c) \<le> sat64 (votes label ?ns (label ! v))" if c: "c < ?n" for c
    proof (cases "c \<in> set touched")
      case True
      then have "score ! c \<le> ?best" by (auto intro!: Max_ge)
      moreover have "0 < score ! c"
        using True votes_pos_iff [of ?ns label c] ns t(3) [OF c] t(5) by (auto simp: word_gt_0)
      ultimately have "score ! (label ! v) = ?best" using False by auto
      moreover have "label ! v < ?n" using label v by simp
      ultimately show ?thesis
        using \<open>score ! c \<le> ?best\<close> t(3) [OF c] t(3) [of "label ! v"] by (simp del: Max.bounded_iff)
    next
      case False
      then have "votes label ?ns c = 0" using votes_pos_iff [of ?ns label c] ns t(5) by auto
      then show ?thesis by (simp add: sat64_def)
    qed
    moreover have "lp_node g v (label, replicate ?n 0, r, changed) = Some (label, replicate ?n 0, r, changed)"
      using False by (simp only: lp_node_def t(1,6) Let_def prod.case if_False)
    ultimately show ?thesis using label by blast
  qed
qed

definition settled :: "wgraph \<Rightarrow> nat list \<Rightarrow> nat \<Rightarrow> bool" where
  "settled g label v \<longleftrightarrow>
     (\<forall>c < wg_len g. sat64 (votes label (neighbours g v) c) \<le> sat64 (votes label (neighbours g v) (label ! v)))"

lemma lp_nodes:
  assumes ok: "wg_ok g" and n: "wg_len g < 2 ^ 64"
  shows "\<forall>v\<in>set order. v < wg_len g \<Longrightarrow> length label = wg_len g \<Longrightarrow> \<forall>l\<in>set label. l < wg_len g \<Longrightarrow>
    \<exists>label' r' changed'. fold_opt (lp_node g) order (label, replicate (wg_len g) 0, r, changed) =
        Some (label', replicate (wg_len g) 0, r', changed') \<and>
      length label' = wg_len g \<and> (\<forall>l\<in>set label'. l < wg_len g) \<and>
      (changed' \<or> \<not> changed \<and> label' = label \<and> (\<forall>v\<in>set order. settled g label v))"
proof (induction order arbitrary: label r changed)
  case (Cons v order)
  obtain label1 r1 changed1 where 1: "lp_node g v (label, replicate (wg_len g) 0, r, changed) =
      Some (label1, replicate (wg_len g) 0, r1, changed1)"
    "length label1 = wg_len g" "\<forall>l\<in>set label1. l < wg_len g"
    "changed1 \<or> \<not> changed \<and> label1 = label \<and> settled g label v"
    using lp_node_step [OF ok _ Cons.prems(2,3) n, of v r changed] Cons.prems(1) unfolding settled_def by auto
  obtain label2 r2 changed2 where 2: "fold_opt (lp_node g) order (label1, replicate (wg_len g) 0, r1, changed1) =
      Some (label2, replicate (wg_len g) 0, r2, changed2)"
    "length label2 = wg_len g" "\<forall>l\<in>set label2. l < wg_len g"
    "changed2 \<or> \<not> changed1 \<and> label2 = label1 \<and> (\<forall>v\<in>set order. settled g label1 v)"
    using Cons.IH [OF _ 1(2,3), of r1 changed1] Cons.prems(1) by auto
  show ?case using 1 2 by (intro exI [of _ label2] exI [of _ r2] exI [of _ changed2]) auto
qed simp

lemma lp_round_returns:
  assumes ok: "wg_ok g" and n: "wg_len g < 2 ^ 64" and label: "length label = wg_len g" "\<forall>l\<in>set label. l < wg_len g"
  shows "\<exists>label' r' changed'. lp_round g label (replicate (wg_len g) 0) r =
        Some (label', replicate (wg_len g) 0, r', changed') \<and>
      length label' = wg_len g \<and> (\<forall>l\<in>set label'. l < wg_len g) \<and>
      (changed' \<or> label' = label \<and> (\<forall>v < wg_len g. settled g label v))"
proof -
  obtain order r1 where s: "shuffle_rng [0..<wg_len g] r = Some (order, r1)" "mset order = mset [0..<wg_len g]"
  proof -
    have "length [0..<wg_len g] < 2 ^ 64" using n by simp
    from shuffle_spec [OF this, of r] show ?thesis by (elim exE conjE) (rule that)
  qed
  have set: "set order = {..<wg_len g}" using mset_eq_setD [OF s(2)] by (simp add: lessThan_atLeast0)
  then have "\<forall>v\<in>set order. v < wg_len g" by simp
  from lp_nodes [OF ok n this label, of r1 False] obtain label' r' changed' where
    f: "fold_opt (lp_node g) order (label, replicate (wg_len g) 0, r1, False) = Some (label', replicate (wg_len g) 0, r', changed')"
      "length label' = wg_len g" "\<forall>l\<in>set label'. l < wg_len g"
      "changed' \<or> \<not> False \<and> label' = label \<and> (\<forall>v\<in>set order. settled g label v)" by (elim exE conjE) (rule that)
  have "lp_round g label (replicate (wg_len g) 0) r = Some (label', replicate (wg_len g) 0, r', changed')"
    by (simp only: lp_round_def s(1) option.case prod.case f(1))
  then show ?thesis using f(2-4) unfolding set by blast
qed

lemma lp_loop_returns:
  assumes ok: "wg_ok g" and n: "wg_len g < 2 ^ 64"
  shows "length label = wg_len g \<Longrightarrow> \<forall>l\<in>set label. l < wg_len g \<Longrightarrow>
    \<exists>label' rounds'. lp_loop left g rounds label (replicate (wg_len g) 0) r = Some (label', rounds') \<and>
      length label' = wg_len g \<and> (\<forall>l\<in>set label'. l < wg_len g) \<and> rounds' \<le> rounds + left \<and>
      (rounds' < rounds + left \<longrightarrow> (\<forall>v < wg_len g. settled g label' v))"
proof (induction left arbitrary: label rounds r)
  case (Suc left)
  obtain label1 r1 changed where 1: "lp_round g label (replicate (wg_len g) 0) r =
        Some (label1, replicate (wg_len g) 0, r1, changed)"
    "length label1 = wg_len g" "\<forall>l\<in>set label1. l < wg_len g"
    "changed \<or> label1 = label \<and> (\<forall>v < wg_len g. settled g label v)"
    using lp_round_returns [OF ok n Suc.prems] by blast
  show ?case
  proof (cases changed)
    case True
    then show ?thesis using 1 Suc.IH [OF 1(2,3), of "rounds + 1" r1] by auto
  qed (use 1 in auto)
qed simp

lemma votes_relabel:
  assumes "inj_on f (set label)" and "\<forall>(u, w)\<in>set ns. u < length label" and "c \<in> set label"
  shows "votes (map f label) ns (f c) = votes label ns c"
proof -
  have "f (label ! u) = f c \<longleftrightarrow> label ! u = c" if "u < length label" for u
    using inj_onD [OF assms(1), of "label ! u" c] assms(3) that by auto
  then show ?thesis
    using assms(2) unfolding votes_def by (intro arg_cong [where f = sum_list] map_cong) auto
qed

lemma lp_spec:
  assumes ok: "wg_ok g" and n: "wg_len g < 2 ^ 64"
  obtains p label where "label_propagation g opts = Some p"
    "length label = wg_len g" "\<forall>l\<in>set label. l < wg_len g" "p_levels p \<le> co_max_rounds opts"
    "p_membership p = fst (canonical label)" "p_communities p = snd (canonical label)"
    "p_levels p < co_max_rounds opts \<longrightarrow> (\<forall>v < wg_len g. settled g label v)"
proof -
  obtain label rounds where l: "lp_loop (co_max_rounds opts) g 0 [0..<wg_len g] (replicate (wg_len g) 0) (co_seed opts) = Some (label, rounds)"
    "length label = wg_len g" "\<forall>l\<in>set label. l < wg_len g" "rounds \<le> co_max_rounds opts"
    "rounds < co_max_rounds opts \<longrightarrow> (\<forall>v < wg_len g. settled g label v)"
    using lp_loop_returns [OF ok n, of "[0..<wg_len g]" "co_max_rounds opts" 0 "co_seed opts"] by auto
  let ?p = "\<lparr>p_membership = fst (canonical label), p_communities = snd (canonical label),
    p_modularity = modularity g (fst (canonical label)) (co_resolution opts), p_levels = rounds, p_method = LabelPropagation\<rparr>"
  have "label_propagation g opts = Some ?p"
    by (simp add: label_propagation_def l(1) case_prod_beta)
  then show ?thesis by (rule that [of ?p label]) (use l in simp_all)
qed

subsection \<open>Properties\<close>

text \<open>
  C30: label propagation returns on every well-formed view: a community for each node, numbered
  without gaps, after at most \<open>max_rounds\<close> rounds.
\<close>

theorem label_propagation_returns:
  assumes "wg_ok g" and "wg_len g < 2 ^ 64"
  shows "\<exists>p. label_propagation g opts = Some p \<and> length (p_membership p) = wg_len g \<and>
    set (p_membership p) = {..<p_communities p} \<and> p_levels p \<le> co_max_rounds opts"
proof -
  obtain p label where p: "label_propagation g opts = Some p"
    "length label = wg_len g" "\<forall>l\<in>set label. l < wg_len g" "p_levels p \<le> co_max_rounds opts"
    "p_membership p = fst (canonical label)" "p_communities p = snd (canonical label)" by (rule lp_spec [OF assms, where opts = opts])
  then show ?thesis using canonical_spec [of label] by auto
qed

theorem label_propagation_returns_witness:
  "\<exists>p. label_propagation (wg_from_pairs 2 [(0, 1, 2)]) comm_options_default = Some p \<and> length (p_membership p) = 2 \<and>
    set (p_membership p) = {..<p_communities p} \<and> p_levels p \<le> 20"
proof -
  have "wg_len (wg_from_pairs 2 [(0, 1, 2)]) = 2" by (simp add: two_node_view [simplified] wg_len_def)
  then show ?thesis
    using label_propagation_returns [OF wg_ok_from_pairs [of 2 "[(0, 1, 2)]"], of comm_options_default]
    by (simp add: comm_options_default_def)
qed

text \<open>
  C31: label propagation that stops before its round limit has settled: no label gets more of a
  node's neighbours' weight than the node's own.
\<close>

theorem label_propagation_settles:
  assumes "wg_ok g" and "wg_len g < 2 ^ 64" and "label_propagation g opts = Some p"
    and "p_levels p < co_max_rounds opts" and "v < wg_len g"
  shows "sat64 (votes (p_membership p) (neighbours g v) c) \<le>
    sat64 (votes (p_membership p) (neighbours g v) (p_membership p ! v))"
proof -
  obtain p' label where p': "label_propagation g opts = Some p'"
    "length label = wg_len g" "\<forall>l\<in>set label. l < wg_len g" "p_levels p' \<le> co_max_rounds opts"
    "p_membership p' = fst (canonical label)" "p_communities p' = snd (canonical label)"
    "p_levels p' < co_max_rounds opts \<longrightarrow> (\<forall>v < wg_len g. settled g label v)" by (rule lp_spec [OF assms(1,2), where opts = opts])
  have settled: "settled g label v" using p' assms(3-5) by auto
  obtain f where f: "inj_on f (set label)" "p_membership p = map f label"
    using canonical_spec [of label] p' assms(3) by auto
  have range: "\<forall>(u, w)\<in>set (neighbours g v). u < length label"
    using wg_ok_row [OF assms(1,5)] p'(2) by auto
  have own: "p_membership p ! v = f (label ! v)" "label ! v \<in> set label"
    using f(2) p'(2) assms(5) by simp_all
  have nth: "p_membership p ! u = f (label ! u)" if "u < wg_len g" for u using f(2) p'(2) that by simp
  show ?thesis
  proof (cases "c \<in> f ` set label")
    case True
    then obtain c' where c': "c' \<in> set label" "c = f c'" by blast
    have "c' < wg_len g" using c'(1) p'(3) by blast
    then have "sat64 (votes label (neighbours g v) c') \<le> sat64 (votes label (neighbours g v) (label ! v))"
      using settled unfolding settled_def by blast
    then show ?thesis
      unfolding own(1) c'(2) unfolding f(2) votes_relabel [OF f(1) range c'(1)] votes_relabel [OF f(1) range own(2)] .
  next
    case False
    have "votes (p_membership p) (neighbours g v) c = 0"
    proof -
      have "p_membership p ! u \<noteq> c" if "(u, w) \<in> set (neighbours g v)" for u w
        using that range nth [of u] False p'(2) by fastforce
      moreover have "votes m ns c = 0" if "\<forall>u w. (u, w) \<in> set ns \<longrightarrow> m ! u \<noteq> c" for m and ns :: "(nat \<times> 64 word) list"
        using that by (induction ns) (auto simp: votes_def)
      ultimately show ?thesis by blast
    qed
    then show ?thesis by (simp add: sat64_def)
  qed
qed

lemma one_node_view:
  "wg_from_pairs 1 [] = \<lparr>wg_ids = [0], wg_start = [0, 0], wg_nbr = [], wg_self = [0], wg_strengths = [0], wg_total = 0\<rparr>"
  by (simp add: wg_from_pairs_def assemble_def assemble_with_def keep_pairs_def merge_pairs_def both_ends_def
      csr_prefix_def slice_def sat_add_def sat64_def u32_max_def)

theorem label_propagation_settles_witness:
  "\<exists>p. label_propagation (wg_from_pairs 1 []) comm_options_default = Some p \<and> p_levels p = 1 \<and>
     sat64 (votes (p_membership p) (neighbours (wg_from_pairs 1 []) 0) 7) \<le>
     sat64 (votes (p_membership p) (neighbours (wg_from_pairs 1 []) 0) (p_membership p ! 0))"
proof -
  let ?g = "wg_from_pairs 1 []"
  note g = one_node_view [simplified]
  have len: "wg_len ?g = 1" by (simp add: g wg_len_def)
  have loop: "lp_loop 20 ?g 0 [0] [0] 0 = Some ([0], 1)"
    by (simp add: eval_nat_numeral lp_round_def shuffle_rng_def lp_node_def tally_def untally_def g wg_len_def neighbours_def slice_def)
  obtain p where p: "label_propagation ?g comm_options_default = Some p" "p_levels p = 1"
    using loop by (simp add: label_propagation_def comm_options_default_def len [simplified] case_prod_beta)
  show ?thesis
    using label_propagation_settles [OF wg_ok_from_pairs [of 1 "[]"] _ p(1), of 0 7] p
    by (simp add: len [simplified] comm_options_default_def)
qed

end
