(* ===== verification/Tiers.thy ===== *)
theory Tiers
  imports Prelude
begin

text \<open>
  The evidence tiers of \<open>activation/src/profile.rs\<close> and the id blocks of \<open>core/src/ids.rs\<close>: the
  two small tables every crate reads. A \<open>u16\<close> is a 16-bit word, a \<open>u8\<close> level a natural.
\<close>

unbundle bit_operations_syntax

subsection \<open>Tiers\<close>

datatype tier = Fact | Derived | Heuristic

definition tier_level :: "tier \<Rightarrow> nat" where
  "tier_level t = (case t of Fact \<Rightarrow> 0 | Derived \<Rightarrow> 1 | Heuristic \<Rightarrow> 2)"

instantiation tier :: linorder
begin

definition less_eq_tier :: "tier \<Rightarrow> tier \<Rightarrow> bool" where
  "less_eq_tier a b \<longleftrightarrow> tier_level a \<le> tier_level b"

definition less_tier :: "tier \<Rightarrow> tier \<Rightarrow> bool" where
  "less_tier a b \<longleftrightarrow> tier_level a < tier_level b"

instance
  by standard (auto simp: less_eq_tier_def less_tier_def tier_level_def split: tier.splits)

end

definition tier_all :: "tier list" where
  "tier_all = [Fact, Derived, Heuristic]"

definition tier_str :: "tier \<Rightarrow> string" where
  "tier_str t = (case t of Fact \<Rightarrow> ''fact'' | Derived \<Rightarrow> ''derived'' | Heuristic \<Rightarrow> ''heuristic'')"

definition tier_upper :: "tier \<Rightarrow> string" where
  "tier_upper t = (case t of Fact \<Rightarrow> ''FACT'' | Derived \<Rightarrow> ''DERIVED'' | Heuristic \<Rightarrow> ''HEURISTIC'')"

definition ascii_lower :: "char \<Rightarrow> char" where
  "ascii_lower c = (let n = of_char c :: nat in if 65 \<le> n \<and> n \<le> 90 then char_of (n + 32) else c)"

definition eq_ignore_ascii_case :: "string \<Rightarrow> string \<Rightarrow> bool" where
  "eq_ignore_ascii_case a b \<longleftrightarrow> map ascii_lower a = map ascii_lower b"

definition tier_parse :: "string \<Rightarrow> tier option" where
  "tier_parse s = find (\<lambda>t. eq_ignore_ascii_case (tier_str t) s) tier_all"

definition tier_weakest :: "tier \<Rightarrow> tier \<Rightarrow> tier" where
  "tier_weakest a b = max a b"

definition tier_best :: "tier \<Rightarrow> tier \<Rightarrow> tier" where
  "tier_best a b = min a b"

definition tier_from_level :: "nat \<Rightarrow> tier option" where
  "tier_from_level l = (if l < length tier_all then Some (tier_all ! l) else None)"

definition tier_collapses :: "tier \<Rightarrow> bool" where
  "tier_collapses t \<longleftrightarrow> t \<noteq> Heuristic"

lemma tier_level_inj [simp]: "tier_level a = tier_level b \<longleftrightarrow> a = b"
  by (auto simp: tier_level_def split: tier.splits)

text \<open>
  A tier is recovered from its lower-case name, its upper-case name and its level, and only
  those words, up to ASCII case, name one.
\<close>

theorem tier_names_roundtrip:
  "tier_parse (tier_str t) = Some t \<and> tier_parse (tier_upper t) = Some t \<and>
   tier_from_level (tier_level t) = Some t \<and>
   (tier_parse s = Some t) = (map ascii_lower s = tier_str t)"
proof -
  have low: "map ascii_lower (tier_str u) = tier_str u" "map ascii_lower (tier_upper u) = tier_str u" for u
    by (cases u; simp add: tier_str_def tier_upper_def ascii_lower_def; code_simp)+
  have inj: "tier_str a = tier_str b \<longleftrightarrow> a = b" for a b
    by (cases a; cases b) (simp_all add: tier_str_def)
  have parse: "tier_parse s = Some t \<longleftrightarrow> map ascii_lower s = tier_str t" for s t
  proof -
    have "(if tier_str Fact = l then Some Fact else if tier_str Derived = l then Some Derived
        else if tier_str Heuristic = l then Some Heuristic else None) = Some t \<longleftrightarrow> l = tier_str t" for l
      using inj by (cases t) auto
    then show ?thesis
      unfolding tier_parse_def tier_all_def eq_ignore_ascii_case_def find.simps low .
  qed
  show ?thesis
    by (cases t) (simp_all add: parse low tier_from_level_def tier_all_def tier_level_def)
qed

subsection \<open>Id blocks\<close>

type_synonym u16 = "16 word"

definition block_shift :: nat where
  "block_shift = 16"

definition block_of :: "32 word \<Rightarrow> u16" where
  "block_of i = ucast (drop_bit block_shift i)"

definition position_of :: "32 word \<Rightarrow> u16" where
  "position_of i = ucast (i AND 0xFFFF)"

definition id_in :: "u16 \<Rightarrow> u16 \<Rightarrow> 32 word" where
  "id_in block n = push_bit block_shift (ucast block) OR ucast n"

definition CODE_block :: u16 where "CODE_block = 0"
definition CORE_block :: u16 where "CORE_block = 1"
definition BUILD_block :: u16 where "BUILD_block = 2"
definition GOAL_block :: u16 where "GOAL_block = 3"
definition NEVER_block :: u16 where "NEVER_block = 0xFFFF"

definition in_private :: "u16 \<Rightarrow> bool" where
  "in_private b \<longleftrightarrow> 0x8000 \<le> b \<and> b \<le> 0xFFFE"

definition is_private :: "32 word \<Rightarrow> bool" where
  "is_private i = in_private (block_of i)"

datatype block_status = Registered | Shared | Reserved | Private

definition status_str :: "block_status \<Rightarrow> string" where
  "status_str s = (case s of Registered \<Rightarrow> ''registered'' | Shared \<Rightarrow> ''shared''
     | Reserved \<Rightarrow> ''reserved'' | Private \<Rightarrow> ''private'')"

record id_block =
  b_number :: u16
  b_name :: string
  b_graph_types :: "string list"
  b_status :: block_status
  b_since :: string

definition id_blocks :: "id_block list" where
  "id_blocks =
     [\<lparr>b_number = CODE_block, b_name = ''code'', b_graph_types = [''code''], b_status = Registered, b_since = ''0.4.3b''\<rparr>,
      \<lparr>b_number = CORE_block, b_name = ''core'', b_graph_types = [], b_status = Shared, b_since = ''0.5.7''\<rparr>,
      \<lparr>b_number = BUILD_block, b_name = ''build'', b_graph_types = [''build-targets''], b_status = Registered, b_since = ''0.5.7''\<rparr>,
      \<lparr>b_number = GOAL_block, b_name = ''goal'', b_graph_types = [], b_status = Reserved, b_since = ''0.5.7''\<rparr>]"

definition private_block :: id_block where
  "private_block = \<lparr>b_number = 0x8000, b_name = ''private'', b_graph_types = [], b_status = Private, b_since = ''0.5.7''\<rparr>"

definition find_block :: "u16 \<Rightarrow> id_block option" where
  "find_block n = (if in_private n then Some private_block else find (\<lambda>b. b_number b = n) id_blocks)"

text \<open>\<open>{:0wX}\<close> and \<open>{:0wx}\<close>: at least \<open>w\<close> hexadecimal digits, zero padded.\<close>

definition hex_digit :: "nat \<Rightarrow> nat \<Rightarrow> char" where
  "hex_digit letter d = (if d < 10 then char_of (48 + d) else char_of (letter + (d - 10)))"

fun hex_digits :: "nat \<Rightarrow> nat \<Rightarrow> string" where
  "hex_digits letter n = (if n < 16 then [hex_digit letter n] else hex_digits letter (n div 16) @ [hex_digit letter (n mod 16)])"

declare hex_digits.simps [simp del]

definition pad_left :: "nat \<Rightarrow> string \<Rightarrow> string" where
  "pad_left w s = replicate (w - length s) CHR ''0'' @ s"

definition hex4 :: "u16 \<Rightarrow> string" where
  "hex4 b = pad_left 4 (hex_digits 65 (unat b))"

definition hex8 :: "32 word \<Rightarrow> string" where
  "hex8 i = pad_left 8 (hex_digits 97 (unat i))"

definition block_name :: "32 word \<Rightarrow> string" where
  "block_name i =
     (let b = block_of i in
      case find_block b of Some row \<Rightarrow> b_name row | None \<Rightarrow> ''0x'' @ hex4 b @ ''?'')"

fun join_with :: "string \<Rightarrow> string list \<Rightarrow> string" where
  "join_with sep [] = []"
| "join_with sep [s] = s"
| "join_with sep (s # t # ts) = s @ sep @ join_with sep (t # ts)"

text \<open>The problems of one registry row, and of a table.\<close>

definition check_id :: "string \<Rightarrow> string \<Rightarrow> 32 word \<Rightarrow> string \<Rightarrow> string list" where
  "check_id graph_type table i name =
     (let at = table @ '' 0x'' @ hex8 i @ '' '' @ name; b = block_of i in
      if i = 0 then [at @ '': id 0 is never allocated'']
      else
        (if position_of i = 0
         then [at @ '': position 0 of a block is never allocated (a block starts at 1)''] else []) @
        (if b = NEVER_block then [at @ '': block 0xFFFF is never allocated'']
         else (case find_block b of
             None \<Rightarrow> [at @ '': block 0x'' @ hex4 b @
               '' is unassigned (take your domain's block, or a private one 0x8000-0xFFFE)'']
           | Some row \<Rightarrow>
               (case b_status row of
                  Registered \<Rightarrow>
                    if graph_type \<in> set (b_graph_types row) then []
                    else [at @ '': block '' @ b_name row @ '' belongs to graph_type '' @
                      join_with '', '' (b_graph_types row) @ '', not '' @ graph_type]
                | Reserved \<Rightarrow> [at @ '': block '' @ b_name row @ '' is reserved; nothing is allocated there yet'']
                | _ \<Rightarrow> []))))"

definition check_table :: "string \<Rightarrow> string \<Rightarrow> (32 word \<times> string) list \<Rightarrow> string list" where
  "check_table graph_type table ids = concat (map (\<lambda>(i, name). check_id graph_type table i name) ids)"

lemma position_of_mask: "position_of i = ucast (i AND mask 16)"
  by (simp add: position_of_def mask_eq_decr_exp)

text \<open>
  An id is the block and the position it was made of, and every id is made of its own block
  and position.
\<close>

theorem id_parts_roundtrip:
  "block_of (id_in b n) = b \<and> position_of (id_in b n) = n \<and> id_in (block_of i) (position_of i) = i"
proof (intro conjI)
  show "block_of (id_in b n) = b"
    by (rule bit_word_eqI) (auto simp: block_of_def id_in_def block_shift_def bit_simps dest: bit_imp_le_length)
  show "position_of (id_in b n) = n"
  proof (rule bit_word_eqI)
    fix k assume "k < LENGTH(16)"
    then show "bit (position_of (id_in b n)) k = bit n k"
      by (auto simp: position_of_mask id_in_def block_shift_def bit_simps)
  qed
  show "id_in (block_of i) (position_of i) = i"
  proof (rule bit_word_eqI)
    fix k assume "k < LENGTH(32)"
    then show "bit (id_in (block_of i) (position_of i)) k = bit i k"
      by (cases "k < 16") (auto simp: position_of_mask id_in_def block_of_def block_shift_def bit_simps)
  qed
qed

text \<open>
  C37: a table check is empty exactly when every id has a position and lies in a block its graph
  type may use: one registered to it, a shared one or a private one.
\<close>

theorem check_table_errors:
  "(check_table graph_type table ids = []) =
   list_all (\<lambda>(i, name). position_of i \<noteq> 0 \<and>
     (in_private (block_of i) \<or> block_of i = CORE_block \<or>
      block_of i = CODE_block \<and> graph_type = ''code'' \<or>
      block_of i = BUILD_block \<and> graph_type = ''build-targets'')) ids"
proof -
  have one: "check_id graph_type table i name = [] \<longleftrightarrow> position_of i \<noteq> 0 \<and>
     (in_private (block_of i) \<or> block_of i = CORE_block \<or>
      block_of i = CODE_block \<and> graph_type = ''code'' \<or>
      block_of i = BUILD_block \<and> graph_type = ''build-targets'')" for i name
  proof (cases "i = 0")
    case True
    then show ?thesis by (simp add: check_id_def position_of_def)
  next
    case False
    then show ?thesis
      by (auto simp: check_id_def find_block_def id_blocks_def private_block_def NEVER_block_def in_private_def
          CODE_block_def CORE_block_def BUILD_block_def GOAL_block_def split: if_splits)
  qed
  show ?thesis
    by (induction ids) (auto simp: check_table_def one split: prod.splits)
qed

end
