(* ===== verification/Utext.thy ===== *)
theory Utext
  imports Tiers
begin

text \<open>
  Unicode text as the rules crate reads it: a text is the list of its scalar values, an offset
  counts the bytes of their UTF-8 encoding. \<open>lit\<close> is an ASCII literal of the source; the
  character classes are those of Rust's \<open>char\<close>.
\<close>

type_synonym uchar = nat
type_synonym utext = "uchar list"

definition lit :: "string \<Rightarrow> utext" where
  "lit s = map of_char s"

lemma lit_simps [simp]: "lit [] = []" "lit (c # cs) = of_char c # lit cs"
  by (simp_all add: lit_def)

lemma lit_append [simp]: "lit (s @ t) = lit s @ lit t"
  by (simp add: lit_def)

definition len_utf8 :: "uchar \<Rightarrow> nat" where
  "len_utf8 c = (if c < 0x80 then 1 else if c < 0x800 then 2 else if c < 0x10000 then 3 else 4)"

lemma len_utf8_pos [simp]: "0 < len_utf8 c"
  by (simp add: len_utf8_def)

definition byte_len :: "utext \<Rightarrow> nat" where
  "byte_len t = sum_list (map len_utf8 t)"

lemma byte_len_simps [simp]:
  "byte_len [] = 0" "byte_len (c # t) = len_utf8 c + byte_len t" "byte_len (s @ t) = byte_len s + byte_len t"
  by (simp_all add: byte_len_def)

text \<open>\<open>text.get(n..)\<close> and \<open>text.get(..n)\<close>, empty where \<open>n\<close> is not on a char boundary.\<close>

fun text_from :: "nat \<Rightarrow> utext \<Rightarrow> utext" where
  "text_from n [] = []"
| "text_from n (c # t) =
     (if n = 0 then c # t else if len_utf8 c \<le> n then text_from (n - len_utf8 c) t else [])"

fun text_to :: "nat \<Rightarrow> utext \<Rightarrow> utext" where
  "text_to n [] = []"
| "text_to n (c # t) =
     (if n = 0 then [] else if len_utf8 c \<le> n then c # text_to (n - len_utf8 c) t else [])"

lemma text_from_0 [simp]: "text_from 0 t = t"
  by (cases t) simp_all

lemma text_to_0 [simp]: "text_to 0 t = []"
  by (cases t) simp_all

lemma text_from_append [simp]: "text_from (byte_len s) (s @ t) = t"
  by (induction s) auto

lemma text_to_append [simp]: "text_to (byte_len s) (s @ t) = s"
  by (induction s) auto

lemma text_from_next: "text_from n t = c # r \<Longrightarrow> text_from (n + len_utf8 c) t = r"
  by (induction n t rule: text_from.induct) (auto split: if_splits)

subsection \<open>Character classes\<close>

definition is_whitespace :: "uchar \<Rightarrow> bool" where
  "is_whitespace c \<longleftrightarrow>
     9 \<le> c \<and> c \<le> 13 \<or> c = 32 \<or> c = 0x85 \<or> c = 0xA0 \<or> c = 0x1680 \<or> 0x2000 \<le> c \<and> c \<le> 0x200A \<or>
     c = 0x2028 \<or> c = 0x2029 \<or> c = 0x202F \<or> c = 0x205F \<or> c = 0x3000"

definition is_control :: "uchar \<Rightarrow> bool" where
  "is_control c \<longleftrightarrow> c < 32 \<or> 0x7F \<le> c \<and> c < 0xA0"

definition is_ascii_digit :: "uchar \<Rightarrow> bool" where
  "is_ascii_digit c \<longleftrightarrow> 48 \<le> c \<and> c \<le> 57"

definition is_ascii_alphabetic :: "uchar \<Rightarrow> bool" where
  "is_ascii_alphabetic c \<longleftrightarrow> 65 \<le> c \<and> c \<le> 90 \<or> 97 \<le> c \<and> c \<le> 122"

definition is_ascii_alphanumeric :: "uchar \<Rightarrow> bool" where
  "is_ascii_alphanumeric c \<longleftrightarrow> is_ascii_alphabetic c \<or> is_ascii_digit c"

subsection \<open>Numbers as text\<close>

text \<open>\<open>to_string\<close> of an unsigned integer and of an \<open>i64\<close>.\<close>

fun dec_digits :: "nat \<Rightarrow> string" where
  "dec_digits n = (if n < 10 then [char_of (48 + n)] else dec_digits (n div 10) @ [char_of (48 + n mod 10)])"

declare dec_digits.simps [simp del]

definition i64_str :: "64 word \<Rightarrow> string" where
  "i64_str w = (if sint w < 0 then CHR ''-'' # dec_digits (nat (- sint w)) else dec_digits (nat (sint w)))"

definition nat_text :: "nat \<Rightarrow> utext" where
  "nat_text n = lit (dec_digits n)"

definition i64_text :: "64 word \<Rightarrow> utext" where
  "i64_text w = lit (i64_str w)"

text \<open>\<open>char::escape_default\<close>.\<close>

definition escape_default :: "uchar \<Rightarrow> utext" where
  "escape_default c =
     (if c = 9 then lit [CHR 0x5C, CHR ''t''] else if c = 13 then lit [CHR 0x5C, CHR ''r'']
      else if c = 10 then lit [CHR 0x5C, CHR ''n'']
      else if c = 39 \<or> c = 34 \<or> c = 92 then [92, c]
      else if 0x20 \<le> c \<and> c \<le> 0x7E then [c]
      else lit (CHR 0x5C # ''u{'') @ lit (hex_digits 97 c) @ lit ''}'')"

text \<open>Saturating \<open>u32\<close> and \<open>u16\<close> values.\<close>

definition u32_sat :: "nat \<Rightarrow> nat" where
  "u32_sat n = min n 0xFFFFFFFF"

definition u16_sat :: "nat \<Rightarrow> nat" where
  "u16_sat n = min n 0xFFFF"

text \<open>\<open>items.join(sep)\<close>.\<close>

fun join_text :: "utext \<Rightarrow> utext list \<Rightarrow> utext" where
  "join_text sep [] = []"
| "join_text sep [s] = s"
| "join_text sep (s # t # ts) = s @ sep @ join_text sep (t # ts)"

end
