(* ===== verification/Values.thy ===== *)
theory Values
  imports Utext Rng
begin

text \<open>
  The value interner of \<open>rules/src/value.rs\<close>: values, the open-addressing \<open>SlotIndex\<close> and the
  \<open>ValueTable\<close> over it, with the output order \<open>cmp_rendered\<close>. A slot holding \<open>EMPTY_SLOT\<close> is
  \<open>None\<close>; a handle is a natural number, in the code a \<open>u32\<close> below \<open>EMPTY_SLOT\<close> (\<open>u32::MAX\<close>), which is so
  while the table holds at most \<open>u32::MAX\<close> values. Probing is a partial
  function; the load factor makes it return. An \<open>i64\<close> is a 64-bit word read with \<open>sint\<close>.
\<close>

subsection \<open>Values\<close>

datatype rvalue = VNode node_id | VStr string | VInt "64 word"

definition type_rank :: "rvalue \<Rightarrow> nat" where
  "type_rank v = (case v of VInt _ \<Rightarrow> 0 | VStr _ \<Rightarrow> 1 | VNode _ \<Rightarrow> 2)"

text \<open>\<open>mix64\<close> of this file is one step of the SplitMix64 stream.\<close>

definition value_mix64 :: "64 word \<Rightarrow> 64 word" where
  "value_mix64 x = (let z = x + golden in mix64 z)"

fun chunks8 :: "byte list \<Rightarrow> byte list list" where
  "chunks8 [] = []"
| "chunks8 (b # bs) = take 8 (b # bs) # chunks8 (drop 7 bs)"

text \<open>\<open>u64::from_le_bytes\<close> of a chunk padded with zero bytes.\<close>

fun le_word :: "byte list \<Rightarrow> 64 word" where
  "le_word [] = 0"
| "le_word (b # bs) = ucast b OR push_bit 8 (le_word bs)"

definition value_digest :: "rvalue \<Rightarrow> 64 word" where
  "value_digest v =
     (case v of
        VNode n \<Rightarrow> value_mix64 (n XOR 0x4E4F4445)
      | VInt i \<Rightarrow> value_mix64 (i XOR 0x494E540000000000)
      | VStr s \<Rightarrow>
          let bytes = as_bytes s
          in fold (\<lambda>chunk h. value_mix64 (h XOR le_word chunk)) (chunks8 bytes)
               (value_mix64 (0x53545200 XOR of_nat (length bytes))))"

subsection \<open>The slot index\<close>

record slot_index =
  si_slots :: "nat option list"
  si_len :: nat

definition slot_index_empty :: slot_index where
  "slot_index_empty = \<lparr>si_slots = [], si_len = 0\<rparr>"

partial_function (option) probe :: "nat option list \<Rightarrow> (nat \<Rightarrow> bool) \<Rightarrow> nat \<Rightarrow> nat option option" where
  "probe slots is i =
     (case slots ! i of
        None \<Rightarrow> Some None
      | Some e \<Rightarrow> if is e then Some (Some e) else probe slots is ((i + 1) AND (length slots - 1)))"

definition slot_find :: "slot_index \<Rightarrow> 64 word \<Rightarrow> (nat \<Rightarrow> bool) \<Rightarrow> nat option option" where
  "slot_find si d is =
     (if si_slots si = [] then Some None
      else probe (si_slots si) is (unat d AND (length (si_slots si) - 1)))"

partial_function (option) place_at :: "nat option list \<Rightarrow> nat \<Rightarrow> nat \<Rightarrow> nat option list option" where
  "place_at slots e i =
     (case slots ! i of
        None \<Rightarrow> Some (slots[i := Some e])
      | Some _ \<Rightarrow> place_at slots e ((i + 1) AND (length slots - 1)))"

definition slot_place :: "64 word \<Rightarrow> nat \<Rightarrow> nat option list \<Rightarrow> nat option list option" where
  "slot_place d e slots = place_at slots e (unat d AND (length slots - 1))"

definition slot_grow :: "(nat \<Rightarrow> 64 word) \<Rightarrow> nat option list \<Rightarrow> nat option list option" where
  "slot_grow digest_of old =
     fold_opt (\<lambda>e slots. slot_place (digest_of e) e slots) (map the (filter (\<lambda>h. h \<noteq> None) old))
       (replicate (max (length old * 2) 16) None)"

definition slot_insert :: "slot_index \<Rightarrow> 64 word \<Rightarrow> nat \<Rightarrow> (nat \<Rightarrow> 64 word) \<Rightarrow> slot_index option" where
  "slot_insert si d e digest_of =
     (case (if (si_len si + 1) * 4 > length (si_slots si) * 3 then slot_grow digest_of (si_slots si)
            else Some (si_slots si)) of
        None \<Rightarrow> None
      | Some slots \<Rightarrow> map_option (\<lambda>slots. \<lparr>si_slots = slots, si_len = si_len si + 1\<rparr>) (slot_place d e slots))"

subsection \<open>The value table\<close>

record value_table =
  vt_data :: "rvalue list"
  vt_index :: slot_index
  vt_digest :: "rvalue \<Rightarrow> 64 word"
  vt_rendered :: "string option list"

definition value_table_new :: value_table where
  "value_table_new = \<lparr>vt_data = [], vt_index = slot_index_empty, vt_digest = value_digest, vt_rendered = []\<rparr>"

definition vt_find_at :: "value_table \<Rightarrow> 64 word \<Rightarrow> rvalue \<Rightarrow> nat option option" where
  "vt_find_at t d v = slot_find (vt_index t) d (\<lambda>h. vt_data t ! h = v)"

definition vt_find :: "value_table \<Rightarrow> rvalue \<Rightarrow> nat option option" where
  "vt_find t v = vt_find_at t (vt_digest t v) v"

definition vt_intern :: "value_table \<Rightarrow> rvalue \<Rightarrow> (nat \<times> value_table) option" where
  "vt_intern t v =
     (let d = vt_digest t v in
      case vt_find_at t d v of
        None \<Rightarrow> None
      | Some (Some h) \<Rightarrow> Some (h, t)
      | Some None \<Rightarrow>
          let h = length (vt_data t); data = vt_data t @ [v]
          in map_option (\<lambda>ix. (h, t\<lparr>vt_data := data, vt_index := ix\<rparr>))
               (slot_insert (vt_index t) d h (\<lambda>e. vt_digest t (data ! e))))"

definition vt_get :: "value_table \<Rightarrow> nat \<Rightarrow> rvalue" where
  "vt_get t h = vt_data t ! h"

definition vt_len :: "value_table \<Rightarrow> nat" where
  "vt_len t = length (vt_data t)"

definition render_value :: "(node_id \<Rightarrow> string) \<Rightarrow> rvalue \<Rightarrow> string" where
  "render_value render v = (case v of VStr s \<Rightarrow> s | VNode n \<Rightarrow> render n | VInt x \<Rightarrow> i64_str x)"

definition vt_rendered_key :: "value_table \<Rightarrow> nat \<Rightarrow> (node_id \<Rightarrow> string) \<Rightarrow> string \<times> value_table" where
  "vt_rendered_key t i render =
     (let cache = (if length (vt_rendered t) \<le> i
            then vt_rendered t @ replicate (max (length (vt_data t)) (i + 1) - length (vt_rendered t)) None
            else vt_rendered t)
      in case vt_data t ! i of
           VStr s \<Rightarrow> (s, t\<lparr>vt_rendered := cache\<rparr>)
         | v \<Rightarrow>
             (case cache ! i of
                Some s \<Rightarrow> (s, t\<lparr>vt_rendered := cache\<rparr>)
              | None \<Rightarrow> (render_value render v, t\<lparr>vt_rendered := cache[i := Some (render_value render v)]\<rparr>)))"

definition cmp_i64 :: "64 word \<Rightarrow> 64 word \<Rightarrow> ordering" where
  "cmp_i64 x y = cmp_of (sint x) (sint y)"

definition cmp_str :: "string \<Rightarrow> string \<Rightarrow> ordering" where
  "cmp_str a b = cmp_of (as_bytes a) (as_bytes b)"

definition cmp_cached :: "string option \<Rightarrow> string option \<Rightarrow> ordering" where
  "cmp_cached a b =
     (case (a, b) of
        (None, None) \<Rightarrow> Equal | (None, Some _) \<Rightarrow> Less | (Some _, None) \<Rightarrow> Greater
      | (Some x, Some y) \<Rightarrow> cmp_str x y)"

definition vt_cmp_rendered :: "value_table \<Rightarrow> nat \<Rightarrow> nat \<Rightarrow> (node_id \<Rightarrow> string) \<Rightarrow> ordering \<times> value_table" where
  "vt_cmp_rendered t a b render =
     (if a = b then (Equal, t)
      else case (vt_get t a, vt_get t b) of
          (VInt x, VInt y) \<Rightarrow> (cmp_i64 x y, t)
        | (VStr x, VStr y) \<Rightarrow> (cmp_str x y, t)
        | (VNode x, VNode y) \<Rightarrow>
            let (_, t) = vt_rendered_key t a render; (_, t) = vt_rendered_key t b render
            in (then_with (cmp_cached (vt_rendered t ! a) (vt_rendered t ! b)) (cmp_of x y), t)
        | (va, vb) \<Rightarrow> (cmp_of (type_rank va) (type_rank vb), t))"

definition vt_cmp_values :: "value_table \<Rightarrow> nat \<Rightarrow> nat \<Rightarrow> ordering option" where
  "vt_cmp_values t a b =
     (case (vt_get t a, vt_get t b) of
        (VInt x, VInt y) \<Rightarrow> Some (cmp_i64 x y)
      | (VStr x, VStr y) \<Rightarrow> Some (cmp_str x y)
      | _ \<Rightarrow> None)"

subsection \<open>Probing a slot table\<close>

definition occupied :: "nat option list \<Rightarrow> nat" where
  "occupied slots = length (filter (\<lambda>s. s \<noteq> None) slots)"

definition held :: "nat option list \<Rightarrow> nat set" where
  "held slots = {e. Some e \<in> set slots}"

definition home :: "nat option list \<Rightarrow> 64 word \<Rightarrow> nat" where
  "home slots d = unat d mod length slots"

definition pow2_len :: "nat option list \<Rightarrow> bool" where
  "pow2_len slots \<longleftrightarrow> (\<exists>k \<ge> 4. length slots = 2 ^ k)"

lemma nat_mask: "(i :: nat) AND (2 ^ k - 1) = i mod 2 ^ k"
  by (simp only: mask_eq_exp_minus_1 [symmetric] take_bit_eq_mask [symmetric] take_bit_eq_mod)

lemma pow2_mask: "pow2_len slots \<Longrightarrow> i AND (length slots - 1) = i mod length slots"
  using nat_mask by (auto simp: pow2_len_def)

lemma pow2_pos: "pow2_len slots \<Longrightarrow> 0 < length slots"
  by (auto simp: pow2_len_def)

text \<open>Every entry is reached from its home slot through occupied slots.\<close>

definition slots_ok :: "(nat \<Rightarrow> 64 word) \<Rightarrow> nat option list \<Rightarrow> bool" where
  "slots_ok h slots \<longleftrightarrow>
     (\<forall>p < length slots. \<forall>e. slots ! p = Some e \<longrightarrow>
        (\<exists>j. p = (home slots (h e) + j) mod length slots \<and>
             (\<forall>i < j. slots ! ((home slots (h e) + i) mod length slots) \<noteq> None)))"

lemma step_mod: "pow2_len slots \<Longrightarrow> (i mod length slots + 1) AND (length slots - 1) = (i + 1) mod length slots"
  by (simp only: pow2_mask mod_add_left_eq)

lemma probe_none:
  assumes "pow2_len slots"
  shows "\<forall>t < j. \<exists>e. slots ! ((i + t) mod length slots) = Some e \<and> \<not> is e \<Longrightarrow>
    slots ! ((i + j) mod length slots) = None \<Longrightarrow> probe slots is (i mod length slots) = Some None"
proof (induction j arbitrary: i)
  case 0
  then show ?case by (subst probe.simps) simp
next
  case (Suc j)
  have "\<forall>t < j. \<exists>e. slots ! ((i + 1 + t) mod length slots) = Some e \<and> \<not> is e"
    using Suc.prems(1) by (metis Suc_less_eq add.assoc plus_1_eq_Suc)
  then have "probe slots is ((i + 1) mod length slots) = Some None"
    using Suc.IH [of "i + 1"] Suc.prems(2) by simp
  moreover obtain e where "slots ! (i mod length slots) = Some e" "\<not> is e"
    using Suc.prems(1) by (auto dest: spec [where x = 0])
  ultimately show ?case using step_mod [OF assms, of i] by (subst probe.simps) simp
qed

lemma probe_hit:
  assumes "pow2_len slots"
  shows "\<forall>t < j. \<exists>e. slots ! ((i + t) mod length slots) = Some e \<and> \<not> is e \<Longrightarrow>
    slots ! ((i + j) mod length slots) = Some e \<Longrightarrow> is e \<Longrightarrow> probe slots is (i mod length slots) = Some (Some e)"
proof (induction j arbitrary: i)
  case 0
  then show ?case by (subst probe.simps) simp
next
  case (Suc j)
  have "\<forall>t < j. \<exists>e. slots ! ((i + 1 + t) mod length slots) = Some e \<and> \<not> is e"
    using Suc.prems(1) by (metis Suc_less_eq add.assoc plus_1_eq_Suc)
  then have "probe slots is ((i + 1) mod length slots) = Some (Some e)"
    using Suc.IH [of "i + 1"] Suc.prems(2,3) by simp
  moreover obtain e where "slots ! (i mod length slots) = Some e" "\<not> is e"
    using Suc.prems(1) by (auto dest: spec [where x = 0])
  ultimately show ?case using step_mod [OF assms, of i] by (subst probe.simps) simp
qed

lemma place_at_free:
  assumes "pow2_len slots"
  shows "\<forall>t < j. slots ! ((i + t) mod length slots) \<noteq> None \<Longrightarrow> slots ! ((i + j) mod length slots) = None \<Longrightarrow>
    place_at slots e (i mod length slots) = Some (slots[(i + j) mod length slots := Some e])"
proof (induction j arbitrary: i)
  case 0
  then show ?case by (subst place_at.simps) simp
next
  case (Suc j)
  have "\<forall>t < j. slots ! ((i + 1 + t) mod length slots) \<noteq> None"
    using Suc.prems(1) by (metis Suc_less_eq add.assoc plus_1_eq_Suc)
  then have "place_at slots e ((i + 1) mod length slots) = Some (slots[(i + 1 + j) mod length slots := Some e])"
    using Suc.IH [of "i + 1"] Suc.prems(2) by simp
  moreover obtain e' where "slots ! (i mod length slots) = Some e'"
    using Suc.prems(1) by (auto dest: spec [where x = 0])
  ultimately show ?case using step_mod [OF assms, of i] by (subst place_at.simps) simp
qed

lemma free_slot:
  assumes "occupied slots < length slots"
  shows "\<exists>j. slots ! ((i + j) mod length slots) = None"
proof -
  have "None \<in> set slots"
  proof (rule ccontr)
    assume none: "None \<notin> set slots"
    have "s \<noteq> None" if "s \<in> set slots" for s using that none by metis
    then have "filter (\<lambda>s. s \<noteq> None) slots = slots" by (intro filter_True ballI)
    then show False using assms by (simp add: occupied_def)
  qed
  then obtain p where p: "p < length slots" "slots ! p = None" by (auto simp: in_set_conv_nth)
  let ?n = "length slots"
  have "(i + (p + (?n - i mod ?n))) mod ?n = p"
  proof -
    have "i mod ?n < ?n" by (rule mod_less_divisor) (use p(1) in linarith)
    then have "i mod ?n + (p + (?n - i mod ?n)) = p + ?n" by linarith
    then have "(i mod ?n + (p + (?n - i mod ?n))) mod ?n = p" using p(1) by (simp only: mod_add_self2 mod_less)
    then show ?thesis by (simp only: mod_add_left_eq)
  qed
  then show ?thesis using p(2) by metis
qed

subsection \<open>Placing and growing\<close>

lemma held_update:
  assumes "p < length slots" and "slots ! p = None"
  shows "held (slots[p := Some e]) = insert e (held slots)"
proof -
  have "Some x \<in> set (slots[p := Some e])" if x: "Some x \<in> set slots" for x
  proof -
    obtain i where i: "i < length slots" "slots ! i = Some x" using x by (auto simp: in_set_conv_nth)
    then have "slots[p := Some e] ! i = Some x" using assms(2) by (cases "i = p") simp_all
    then show ?thesis using i(1) by (metis length_list_update nth_mem)
  qed
  moreover have "Some e \<in> set (slots[p := Some e])" using assms(1) by (rule set_update_memI)
  moreover have "set (slots[p := Some e]) \<subseteq> insert (Some e) (set slots)" by (rule set_update_subset_insert)
  ultimately show ?thesis by (auto simp: held_def)
qed

lemma occupied_update:
  assumes "p < length slots" and "slots ! p = None"
  shows "occupied (slots[p := Some e]) = Suc (occupied slots)"
proof -
  have "slots = take p slots @ None # drop (Suc p) slots"
    using id_take_nth_drop [OF assms(1)] assms(2) by simp
  moreover have "occupied (a @ None # b) = occupied a + occupied b" for a b by (simp add: occupied_def)
  ultimately have "occupied slots = occupied (take p slots) + occupied (drop (Suc p) slots)" by metis
  moreover have "occupied (slots[p := Some e]) = occupied (take p slots) + Suc (occupied (drop (Suc p) slots))"
    using assms(1) by (simp add: upd_conv_take_nth_drop occupied_def)
  ultimately show ?thesis by simp
qed

lemma slots_ok_cong:
  assumes "slots_ok h slots" and "\<And>e. e \<in> held slots \<Longrightarrow> h e = h' e"
  shows "slots_ok h' slots"
  unfolding slots_ok_def
proof (intro allI impI)
  fix p e assume p: "p < length slots" and e: "slots ! p = Some e"
  then have "e \<in> held slots" by (auto simp: held_def in_set_conv_nth intro: exI [of _ p])
  then show "\<exists>j. p = (home slots (h' e) + j) mod length slots \<and>
      (\<forall>i < j. slots ! ((home slots (h' e) + i) mod length slots) \<noteq> None)"
    using assms(1) p e assms(2) [of e] by (auto simp: slots_ok_def)
qed

lemma slots_ok_update:
  assumes ok: "slots_ok h slots" and p: "p = (home slots (h e) + j) mod length slots"
    and path: "\<forall>i < j. slots ! ((home slots (h e) + i) mod length slots) \<noteq> None"
    and free: "p < length slots"
  shows "slots_ok h (slots[p := Some e])"
  unfolding slots_ok_def
proof (intro allI impI)
  let ?s = "slots[p := Some e]"
  have keep: "?s ! q \<noteq> None" if "slots ! q \<noteq> None" "q < length slots" for q
    using that by (cases "q = p") simp_all
  have home: "home ?s d = home slots d" for d by (simp add: home_def)
  fix q e' assume q: "q < length ?s" and e': "?s ! q = Some e'"
  have "\<exists>i. q = (home slots (h e') + i) mod length slots \<and>
      (\<forall>t < i. slots ! ((home slots (h e') + t) mod length slots) \<noteq> None)"
  proof (cases "q = p")
    case True
    then show ?thesis using e' q p path by auto
  next
    case False
    then show ?thesis using ok q e' by (simp add: slots_ok_def)
  qed
  then obtain i where "q = (home slots (h e') + i) mod length slots"
      "\<forall>t < i. slots ! ((home slots (h e') + t) mod length slots) \<noteq> None" by (elim exE conjE) (rule that)
  moreover have "0 < length slots" using free by linarith
  ultimately show "\<exists>i. q = (home ?s (h e') + i) mod length ?s \<and>
      (\<forall>t < i. ?s ! ((home ?s (h e') + t) mod length ?s) \<noteq> None)"
    using keep by (intro exI [of _ i]) (simp add: home)
qed

lemma slot_place_spec:
  assumes "pow2_len slots" and "slots_ok h slots" and "occupied slots < length slots"
  shows "\<exists>slots'. slot_place (h e) e slots = Some slots' \<and> length slots' = length slots \<and> slots_ok h slots' \<and>
    held slots' = insert e (held slots) \<and> occupied slots' = Suc (occupied slots)"
proof -
  let ?free = "\<lambda>j. slots ! ((home slots (h e) + j) mod length slots) = None"
  define j where "j = (LEAST j. ?free j)"
  have "\<exists>j. ?free j" using free_slot [OF assms(3)] by blast
  then have j: "?free j" unfolding j_def by (rule LeastI_ex)
  have before: "\<forall>t < j. \<not> ?free t" unfolding j_def using not_less_Least by blast
  define p where "p = (home slots (h e) + j) mod length slots"
  have p: "p < length slots" "slots ! p = None"
    using pow2_pos [OF assms(1)] j by (simp_all add: p_def)
  have "place_at slots e (home slots (h e) mod length slots) = Some (slots[p := Some e])"
    unfolding p_def by (rule place_at_free [OF assms(1)]) (use before j in simp_all)
  moreover have "unat (h e) AND (length slots - 1) = home slots (h e) mod length slots"
    by (simp only: pow2_mask [OF assms(1)] home_def mod_mod_trivial)
  ultimately have "slot_place (h e) e slots = Some (slots[p := Some e])" by (simp only: slot_place_def)
  moreover have "slots_ok h (slots[p := Some e])"
    using assms(2) p_def before p(1) by (rule slots_ok_update)
  ultimately show ?thesis using held_update [OF p] occupied_update [OF p] by simp
qed

lemma pow2_len_cong: "length a = length b \<Longrightarrow> pow2_len a = pow2_len b"
  by (simp add: pow2_len_def)

lemma place_all_spec:
  "pow2_len slots \<Longrightarrow> slots_ok h slots \<Longrightarrow> occupied slots + length es \<le> length slots \<Longrightarrow>
   \<exists>slots'. fold_opt (\<lambda>e slots. slot_place (h e) e slots) es slots = Some slots' \<and>
     length slots' = length slots \<and> slots_ok h slots' \<and> held slots' = set es \<union> held slots \<and>
     occupied slots' = occupied slots + length es"
proof (induction es arbitrary: slots)
  case Nil
  then show ?case by simp
next
  case (Cons e es)
  have room: "occupied slots < length slots" using Cons.prems(3) by simp
  obtain s where s: "slot_place (h e) e slots = Some s" "length s = length slots" "slots_ok h s"
      "held s = insert e (held slots)" "occupied s = Suc (occupied slots)"
    using slot_place_spec [OF Cons.prems(1,2) room, of e] by (elim exE conjE) (rule that)
  have "pow2_len s" using pow2_len_cong [OF s(2)] Cons.prems(1) by simp
  from Cons.IH [OF this s(3)] show ?case using s Cons.prems(3) by auto
qed

lemma occupied_replicate [simp]: "occupied (replicate n None) = 0"
  by (simp add: occupied_def)

lemma held_replicate [simp]: "held (replicate n None) = {}"
  by (simp add: held_def)

lemma slots_ok_replicate [simp]: "slots_ok h (replicate n None)"
  by (simp add: slots_ok_def)

lemma held_list: "set (map the (filter (\<lambda>h. h \<noteq> None) slots)) = held slots"
  by (auto simp: held_def image_iff) force

text \<open>The index at rest: at most three quarters full, or not allocated yet.\<close>

definition index_ok :: "(nat \<Rightarrow> 64 word) \<Rightarrow> slot_index \<Rightarrow> bool" where
  "index_ok h si \<longleftrightarrow>
     occupied (si_slots si) = si_len si \<and> si_len si * 4 \<le> length (si_slots si) * 3 \<and>
     slots_ok h (si_slots si) \<and> (si_slots si = [] \<or> pow2_len (si_slots si))"

lemma slot_grow_spec:
  assumes "slots = [] \<or> pow2_len slots"
  shows "\<exists>slots'. slot_grow h slots = Some slots' \<and> length slots' = max (length slots * 2) 16 \<and> pow2_len slots' \<and>
    slots_ok h slots' \<and> held slots' = held slots \<and> occupied slots' = occupied slots"
proof -
  let ?n = "max (length slots * 2) 16"
  let ?new = "replicate ?n (None :: nat option)"
  have pow: "pow2_len ?new"
  proof -
    consider "slots = []" | k where "4 \<le> k" "length slots = 2 ^ k" using assms by (auto simp: pow2_len_def)
    then show ?thesis
    proof cases
      case 1
      then have "length ?new = 2 ^ 4" by simp
      then show ?thesis unfolding pow2_len_def by blast
    next
      case 2
      have "(2::nat) ^ 4 \<le> 2 ^ Suc k" by (rule power_increasing) (use 2(1) in simp_all)
      then have "length ?new = 2 ^ Suc k" using 2(2) by simp
      moreover have "4 \<le> Suc k" using 2(1) by simp
      ultimately show ?thesis unfolding pow2_len_def by blast
    qed
  qed
  let ?es = "map the (filter (\<lambda>h. h \<noteq> None) slots)"
  have "length ?es = occupied slots" by (simp add: occupied_def)
  moreover have "occupied slots \<le> length slots" by (simp add: occupied_def)
  ultimately have "occupied ?new + length ?es \<le> length ?new" by simp
  from place_all_spec [OF pow slots_ok_replicate this, where h = h]
  obtain s where grow: "fold_opt (\<lambda>e slots. slot_place (h e) e slots) ?es ?new = Some s"
      and s: "length s = length ?new" "slots_ok h s" "held s = set ?es \<union> held ?new"
        "occupied s = occupied ?new + length ?es"
    by (elim exE conjE) (rule that)
  have "slot_grow h slots = Some s" using grow by (simp only: slot_grow_def)
  moreover have "pow2_len s" using pow2_len_cong [OF s(1)] pow by simp
  moreover have "held s = held slots" using s(3) held_list by simp
  moreover have "occupied s = occupied slots" using s(4) by (simp add: occupied_def)
  ultimately show ?thesis using s by auto
qed

lemma slot_insert_spec:
  assumes "index_ok h si"
  shows "\<exists>si'. slot_insert si (h e) e h = Some si' \<and> index_ok h si' \<and>
    held (si_slots si') = insert e (held (si_slots si)) \<and> si_len si' = Suc (si_len si)"
proof -
  let ?start = "if (si_len si + 1) * 4 > length (si_slots si) * 3 then slot_grow h (si_slots si) else Some (si_slots si)"
  have "\<exists>s. ?start = Some s \<and> pow2_len s \<and> slots_ok h s \<and> held s = held (si_slots si) \<and>
      occupied s = si_len si \<and> (si_len si + 1) * 4 \<le> length s * 3"
  proof (cases "(si_len si + 1) * 4 > length (si_slots si) * 3")
    case True
    have shape: "si_slots si = [] \<or> pow2_len (si_slots si)" using assms by (simp add: index_ok_def)
    obtain s where s: "slot_grow h (si_slots si) = Some s" "length s = max (length (si_slots si) * 2) 16"
        "pow2_len s" "slots_ok h s" "held s = held (si_slots si)" "occupied s = occupied (si_slots si)"
      using slot_grow_spec [OF shape, of h] by (elim exE conjE) (rule that)
    have "(si_len si + 1) * 4 \<le> length (si_slots si) * 3 + 4" using assms by (simp add: index_ok_def)
    also have "\<dots> \<le> length s * 3" using s(2) by simp
    finally show ?thesis using True s assms by (simp add: index_ok_def)
  next
    case False
    moreover from False have "si_slots si \<noteq> []" by auto
    ultimately show ?thesis using assms by (auto simp: index_ok_def)
  qed
  then obtain s where s: "?start = Some s" "pow2_len s" "slots_ok h s" "held s = held (si_slots si)"
      "occupied s = si_len si" "(si_len si + 1) * 4 \<le> length s * 3" by (elim exE conjE) (rule that)
  have room: "occupied s < length s" using s(5,6) by simp
  obtain s' where s': "slot_place (h e) e s = Some s'" "length s' = length s" "slots_ok h s'"
      "held s' = insert e (held s)" "occupied s' = Suc (occupied s)"
    using slot_place_spec [OF s(2,3) room, of e] by (elim exE conjE) (rule that)
  have "slot_insert si (h e) e h = Some \<lparr>si_slots = s', si_len = si_len si + 1\<rparr>"
    using s(1) s'(1) by (simp add: slot_insert_def)
  moreover have "pow2_len s'" using pow2_len_cong [OF s'(2)] s(2) by simp
  ultimately show ?thesis using s s' by (simp add: index_ok_def)
qed

subsection \<open>Finding\<close>

lemma slot_find_spec:
  assumes ok: "index_ok h si" and digest: "\<And>e. e \<in> held (si_slots si) \<Longrightarrow> is e \<Longrightarrow> h e = d"
  shows "\<exists>r. slot_find si d is = Some r \<and>
    (case r of None \<Rightarrow> (\<forall>e \<in> held (si_slots si). \<not> is e) | Some e \<Rightarrow> e \<in> held (si_slots si) \<and> is e)"
proof (cases "si_slots si = []")
  case True
  then show ?thesis by (simp add: slot_find_def held_def)
next
  case False
  let ?s = "si_slots si"
  have pow: "pow2_len ?s" using ok False by (simp add: index_ok_def)
  have pos: "0 < length ?s" using False by simp
  have occ: "occupied ?s < length ?s" using ok pos unfolding index_ok_def by linarith
  let ?at = "\<lambda>j. ?s ! ((home ?s d + j) mod length ?s)"
  let ?stop = "\<lambda>j. case ?at j of None \<Rightarrow> True | Some e \<Rightarrow> is e"
  define j where "j = (LEAST j. ?stop j)"
  obtain j0 where "?at j0 = None" using free_slot [OF occ, of "home ?s d"] by blast
  then have "?stop j0" by simp
  then have j: "?stop j" unfolding j_def by (rule LeastI)
  have least: "\<not> ?stop t" if "t < j" for t using that unfolding j_def by (rule not_less_Least)
  have path: "\<forall>t < j. \<exists>e. ?at t = Some e \<and> \<not> is e"
  proof (intro allI impI)
    fix t assume "t < j"
    from least [OF this] show "\<exists>e. ?at t = Some e \<and> \<not> is e" by (cases "?at t") auto
  qed
  have start: "slot_find si d is = probe ?s is (home ?s d mod length ?s)"
    using False by (simp only: slot_find_def pow2_mask [OF pow] home_def mod_mod_trivial if_False)
  show ?thesis
  proof (cases "?at j")
    case (Some e)
    have "probe ?s is (home ?s d mod length ?s) = Some (Some e)"
      by (rule probe_hit [OF pow path Some]) (use j Some in simp)
    moreover have "e \<in> held ?s"
      unfolding held_def using Some pos by (metis mem_Collect_eq mod_less_divisor nth_mem)
    ultimately show ?thesis using start j Some by simp
  next
    case None
    have probe: "probe ?s is (home ?s d mod length ?s) = Some None"
      by (rule probe_none [OF pow path None])
    have "\<not> is e" if e: "e \<in> held ?s" for e
    proof
      assume "is e"
      with e have he: "h e = d" by (rule digest)
      obtain p where p: "p < length ?s" "?s ! p = Some e" using e by (auto simp: held_def in_set_conv_nth)
      then obtain i where i: "p = (home ?s d + i) mod length ?s" "\<forall>t < i. ?at t \<noteq> None"
        using ok he by (auto simp: index_ok_def slots_ok_def)
      have "\<not> j < i" using i(2) None by blast
      moreover have "i \<noteq> j" using p i(1) None by auto
      ultimately have "i < j" by simp
      from least [OF this] show False using p i(1) \<open>is e\<close> by simp
    qed
    then show ?thesis using start probe by simp
  qed
qed

subsection \<open>The table\<close>

definition entry_digest :: "value_table \<Rightarrow> nat \<Rightarrow> 64 word" where
  "entry_digest t e = vt_digest t (vt_data t ! e)"

definition table_ok :: "value_table \<Rightarrow> bool" where
  "table_ok t \<longleftrightarrow>
     distinct (vt_data t) \<and> held (si_slots (vt_index t)) = {..<length (vt_data t)} \<and>
     index_ok (entry_digest t) (vt_index t)"

lemma vt_find_spec:
  assumes "table_ok t"
  shows "\<exists>r. vt_find t v = Some r \<and>
    (case r of None \<Rightarrow> v \<notin> set (vt_data t) | Some e \<Rightarrow> e < length (vt_data t) \<and> vt_data t ! e = v)"
proof -
  have ix: "index_ok (entry_digest t) (vt_index t)" and held: "held (si_slots (vt_index t)) = {..<length (vt_data t)}"
    using assms by (simp_all add: table_ok_def)
  have "\<exists>r. slot_find (vt_index t) (vt_digest t v) (\<lambda>h. vt_data t ! h = v) = Some r \<and>
      (case r of None \<Rightarrow> (\<forall>e \<in> held (si_slots (vt_index t)). vt_data t ! e \<noteq> v)
       | Some e \<Rightarrow> e \<in> held (si_slots (vt_index t)) \<and> vt_data t ! e = v)"
    by (rule slot_find_spec [OF ix]) (simp add: entry_digest_def)
  then obtain r where find: "slot_find (vt_index t) (vt_digest t v) (\<lambda>h. vt_data t ! h = v) = Some r"
      and r: "case r of None \<Rightarrow> (\<forall>e \<in> held (si_slots (vt_index t)). vt_data t ! e \<noteq> v)
       | Some e \<Rightarrow> e \<in> held (si_slots (vt_index t)) \<and> vt_data t ! e = v"
    by (elim exE conjE) (rule that)
  have "vt_find t v = Some r" using find by (simp only: vt_find_def vt_find_at_def)
  then show ?thesis using r by (cases r) (auto simp: held in_set_conv_nth)
qed

lemma vt_intern_spec:
  assumes "table_ok t"
  shows "\<exists>h t'. vt_intern t v = Some (h, t') \<and> table_ok t' \<and> h < length (vt_data t') \<and> vt_data t' ! h = v \<and>
    vt_digest t' = vt_digest t \<and> vt_rendered t' = vt_rendered t \<and>
    vt_data t' = (if v \<in> set (vt_data t) then vt_data t else vt_data t @ [v])"
proof -
  obtain r where r: "vt_find t v = Some r"
      "case r of None \<Rightarrow> v \<notin> set (vt_data t) | Some e \<Rightarrow> e < length (vt_data t) \<and> vt_data t ! e = v"
    using vt_find_spec [OF assms] by blast
  show ?thesis
  proof (cases r)
    case (Some e)
    then have "vt_intern t v = Some (e, t)" using r(1) by (simp add: vt_intern_def vt_find_def)
    then show ?thesis using assms r(2) Some by (auto simp: in_set_conv_nth)
  next
    case None
    let ?n = "length (vt_data t)" and ?data = "vt_data t @ [v]"
    define h where "h = (\<lambda>e. vt_digest t (?data ! e))"
    have held: "held (si_slots (vt_index t)) = {..<?n}" and ix: "index_ok (entry_digest t) (vt_index t)"
      using assms by (simp_all add: table_ok_def)
    have "slots_ok h (si_slots (vt_index t))"
      by (rule slots_ok_cong [of "entry_digest t"])
        (use ix held in \<open>simp_all add: index_ok_def h_def entry_digest_def nth_append\<close>)
    then have "index_ok h (vt_index t)" using ix by (simp add: index_ok_def)
    from slot_insert_spec [OF this, of ?n]
    obtain ix' where ix': "slot_insert (vt_index t) (h ?n) ?n h = Some ix'" "index_ok h ix'"
        "held (si_slots ix') = insert ?n (held (si_slots (vt_index t)))" by (elim exE conjE) (rule that)
    define t' where "t' = t\<lparr>vt_data := ?data, vt_index := ix'\<rparr>"
    have "h ?n = vt_digest t v" by (simp add: h_def nth_append)
    then have run: "vt_intern t v = Some (?n, t')"
      using r(1) None ix'(1) by (simp add: vt_intern_def vt_find_def t'_def h_def)
    have "entry_digest t' = h" by (rule ext) (simp add: entry_digest_def t'_def h_def)
    then have "table_ok t'"
      using assms ix'(2,3) held r(2) None by (auto simp: table_ok_def t'_def)
    then show ?thesis using run r(2) None by (auto simp: t'_def)
  qed
qed

lemma table_ok_new: "table_ok value_table_new"
  by (simp add: table_ok_def value_table_new_def slot_index_empty_def index_ok_def slots_ok_def occupied_def held_def)

subsection \<open>What an interner promises\<close>

locale interner =
  fixes intern :: "'t \<Rightarrow> 'v \<Rightarrow> (nat \<times> 't) option" and find :: "'t \<Rightarrow> 'v \<Rightarrow> nat option option"
    and vals :: "'t \<Rightarrow> 'v list" and inv :: "'t \<Rightarrow> bool"
  assumes intern_law: "inv t \<Longrightarrow> \<exists>h t'. intern t v = Some (h, t') \<and> inv t' \<and> h < length (vals t') \<and> vals t' ! h = v \<and>
      vals t' = (if v \<in> set (vals t) then vals t else vals t @ [v])"
    and find_law: "inv t \<Longrightarrow> \<exists>r. find t v = Some r \<and>
      (case r of None \<Rightarrow> v \<notin> set (vals t) | Some e \<Rightarrow> e < length (vals t) \<and> vals t ! e = v)"
    and vals_distinct: "inv t \<Longrightarrow> distinct (vals t)"
begin

definition intern_all :: "'v list \<Rightarrow> nat list \<times> 't \<Rightarrow> (nat list \<times> 't) option" where
  "intern_all vs st = fold_opt (\<lambda>v (hs, t). map_option (\<lambda>(h, t). (hs @ [h], t)) (intern t v)) vs st"

lemma intern_all_spec:
  "inv t \<Longrightarrow> \<exists>hs' t'. intern_all vs (hs, t) = Some (hs @ hs', t') \<and> inv t' \<and>
     map (\<lambda>h. vals t' ! h) hs' = vs \<and> (\<forall>h \<in> set hs'. h < length (vals t')) \<and>
     (\<exists>more. vals t' = vals t @ more) \<and> set (vals t') = set (vals t) \<union> set vs"
proof (induction vs arbitrary: hs t)
  case Nil
  then show ?case by (auto simp: intern_all_def)
next
  case (Cons v vs)
  obtain h t1 where t1: "intern t v = Some (h, t1)" "inv t1" "h < length (vals t1)" "vals t1 ! h = v"
      "vals t1 = (if v \<in> set (vals t) then vals t else vals t @ [v])"
    using intern_law [OF Cons.prems, of v] by (elim exE conjE) (rule that)
  obtain hs' t' where t': "intern_all vs (hs @ [h], t1) = Some ((hs @ [h]) @ hs', t')" "inv t'"
      "map (\<lambda>h. vals t' ! h) hs' = vs" "\<forall>h \<in> set hs'. h < length (vals t')"
      "\<exists>more. vals t' = vals t1 @ more" "set (vals t') = set (vals t1) \<union> set vs"
    using Cons.IH [OF t1(2), of "hs @ [h]"] by (elim exE conjE) (rule that, blast+)
  have run: "intern_all (v # vs) (hs, t) = Some (hs @ (h # hs'), t')"
    using t1(1) t'(1) by (simp add: intern_all_def)
  obtain more where more: "vals t' = vals t1 @ more" using t'(5) by blast
  have "h < length (vals t')" "vals t' ! h = v" using more t1(3,4) by (simp_all add: nth_append)
  then have "map (\<lambda>h. vals t' ! h) (h # hs') = v # vs" "\<forall>x \<in> set (h # hs'). x < length (vals t')"
    using t'(3,4) by simp_all
  moreover have "\<exists>more. vals t' = vals t @ more" using more t1(5) by (cases "v \<in> set (vals t)") simp_all
  moreover have "set (vals t') = set (vals t) \<union> set (v # vs)" using t'(6) t1(5) by auto
  ultimately show ?case using run t'(2) by (intro exI [of _ "h # hs'"] exI [of _ t'] conjI)
qed

lemma find_inverts:
  assumes "inv t" and "h < length (vals t)"
  shows "find t (vals t ! h) = Some (Some h)"
proof -
  obtain r where r: "find t (vals t ! h) = Some r"
      "case r of None \<Rightarrow> vals t ! h \<notin> set (vals t) | Some e \<Rightarrow> e < length (vals t) \<and> vals t ! e = vals t ! h"
    using find_law [OF assms(1)] by blast
  then show ?thesis using assms vals_distinct [OF assms(1)] by (cases r) (auto simp: nth_eq_iff_index_eq)
qed

end

interpretation vt: interner vt_intern vt_find vt_data table_ok
proof (unfold_locales, goal_cases)
  case (1 t v)
  then show ?case using vt_intern_spec [OF 1, of v] by blast
next
  case (2 t v)
  then show ?case by (rule vt_find_spec)
next
  case (3 t)
  then show ?case by (simp add: table_ok_def)
qed

definition intern_values :: "rvalue list \<Rightarrow> (nat list \<times> value_table) option" where
  "intern_values vs =
     fold_opt (\<lambda>v (hs, t). map_option (\<lambda>(h, t). (hs @ [h], t)) (vt_intern t v)) vs ([], value_table_new)"

lemma intern_values_spec:
  "\<exists>hs t. intern_values vs = Some (hs, t) \<and> table_ok t \<and> map (\<lambda>h. vt_data t ! h) hs = vs \<and>
     set (vt_data t) = set vs \<and> (\<forall>h \<in> set hs. h < length (vt_data t)) \<and> vt_rendered t = []"
proof -
  have keep: "fold_opt (\<lambda>v (hs, t). map_option (\<lambda>(h, t). (hs @ [h], t)) (vt_intern t v)) vs (hs0, t0) = Some (hs, t) \<Longrightarrow>
      vt_rendered t = vt_rendered t0" for hs0 t0 hs t
    by (induction vs arbitrary: hs0 t0)
      (force simp: vt_intern_def split: option.splits)+
  obtain hs t where t: "intern_values vs = Some (hs, t)" "table_ok t" "map (\<lambda>h. vt_data t ! h) hs = vs"
      "set (vt_data t) = set vs" "\<forall>h \<in> set hs. h < length (vt_data t)"
    using vt.intern_all_spec [OF table_ok_new, of vs "[]"]
    unfolding intern_values_def vt.intern_all_def by (auto simp: value_table_new_def)
  moreover have "vt_rendered t = []"
    using keep t(1) by (auto simp: intern_values_def value_table_new_def)
  ultimately show ?thesis by blast
qed

text \<open>
  C32: interning any list of values returns, whatever digests collide and however often the slot
  table grows: each value reads back through its handle, the table holds each distinct value
  once, and every stored value is found again under its own handle. Handles are below the number of
  distinct values, so while that is at most \<open>u32::MAX\<close> the code's \<open>as Handle\<close> loses nothing and no
  handle is \<open>EMPTY_SLOT\<close>.
\<close>

theorem interning_returns_and_reads_back:
  "\<exists>hs t. intern_values vs = Some (hs, t) \<and> map (vt_get t) hs = vs \<and>
     distinct (vt_data t) \<and> set (vt_data t) = set vs \<and> vt_len t = card (set vs) \<and> list_all (\<lambda>h. h < card (set vs)) hs \<and>
     map (vt_find t) (vt_data t) = map (\<lambda>h. Some (Some h)) [0..<vt_len t]"
proof -
  obtain hs t where t: "intern_values vs = Some (hs, t)" "table_ok t" "map (\<lambda>h. vt_data t ! h) hs = vs"
      "set (vt_data t) = set vs" "\<forall>h \<in> set hs. h < length (vt_data t)"
    using intern_values_spec by blast
  have distinct: "distinct (vt_data t)" using t(2) by (rule vt.vals_distinct)
  moreover have "list_all (\<lambda>h. h < card (set vs)) hs"
    using t(5) unfolding list_all_iff t(4) [symmetric] distinct_card [OF distinct] .
  moreover have "map (vt_find t) (vt_data t) = map (\<lambda>h. Some (Some h)) [0..<vt_len t]"
    by (rule nth_equalityI) (simp_all add: vt_len_def vt.find_inverts [OF t(2)])
  ultimately show ?thesis
    using t by (auto simp: vt_get_def vt_len_def distinct_card [symmetric])
qed

subsection \<open>The output order\<close>

text \<open>
  The order of the values themselves: a node by its rendered key, then its id. The type rank
  comes first.
\<close>

definition value_cmp :: "(node_id \<Rightarrow> string) \<Rightarrow> rvalue \<Rightarrow> rvalue \<Rightarrow> ordering" where
  "value_cmp render a b =
     (case (a, b) of
        (VInt x, VInt y) \<Rightarrow> cmp_i64 x y
      | (VStr x, VStr y) \<Rightarrow> cmp_str x y
      | (VNode x, VNode y) \<Rightarrow> then_with (cmp_str (render x) (render y)) (cmp_of x y)
      | _ \<Rightarrow> cmp_of (type_rank a) (type_rank b))"

definition cache_ok :: "(node_id \<Rightarrow> string) \<Rightarrow> value_table \<Rightarrow> bool" where
  "cache_ok render t \<longleftrightarrow>
     (\<forall>i < length (vt_rendered t). \<forall>s. vt_rendered t ! i = Some s \<longrightarrow> i < length (vt_data t) \<and>
        (case vt_data t ! i of VStr _ \<Rightarrow> False | v \<Rightarrow> s = render_value render v))"

lemma rendered_key_spec:
  assumes "cache_ok render t" and "i < length (vt_data t)"
  shows "fst (vt_rendered_key t i render) = render_value render (vt_data t ! i)"
    and "cache_ok render (snd (vt_rendered_key t i render))"
    and "vt_data (snd (vt_rendered_key t i render)) = vt_data t"
    and "i < length (vt_rendered (snd (vt_rendered_key t i render)))"
    and "vt_data t ! i = VNode n \<Longrightarrow> vt_rendered (snd (vt_rendered_key t i render)) ! i = Some (render n)"
    and "j < length (vt_rendered t) \<Longrightarrow> vt_rendered t ! j = Some s \<Longrightarrow>
      j < length (vt_rendered (snd (vt_rendered_key t i render))) \<and>
      vt_rendered (snd (vt_rendered_key t i render)) ! j = Some s"
proof -
  define cache where "cache = (if length (vt_rendered t) \<le> i
    then vt_rendered t @ replicate (max (length (vt_data t)) (i + 1) - length (vt_rendered t)) None
    else vt_rendered t)"
  have len: "i < length cache" by (auto simp: cache_def)
  have keep: "cache ! k = Some s \<longleftrightarrow> k < length (vt_rendered t) \<and> vt_rendered t ! k = Some s"
    if "k < length cache" for k s
    using that by (auto simp: cache_def nth_append split: if_splits)
  have grown: "length (vt_rendered t) \<le> length cache" by (auto simp: cache_def)
  have key: "vt_rendered_key t i render =
      (case vt_data t ! i of
         VStr s \<Rightarrow> (s, t\<lparr>vt_rendered := cache\<rparr>)
       | v \<Rightarrow> (case cache ! i of
             Some s \<Rightarrow> (s, t\<lparr>vt_rendered := cache\<rparr>)
           | None \<Rightarrow> (render_value render v, t\<lparr>vt_rendered := cache[i := Some (render_value render v)]\<rparr>)))"
    by (simp only: vt_rendered_key_def Let_def cache_def)
  have val: "s = render_value render (vt_data t ! i) \<and> (\<forall>x. vt_data t ! i \<noteq> VStr x)" if "cache ! i = Some s" for s
  proof -
    have "i < length (vt_rendered t) \<and> vt_rendered t ! i = Some s" using keep [OF len, of s] that by simp
    then have "case vt_data t ! i of VStr _ \<Rightarrow> False | v \<Rightarrow> s = render_value render v"
      using assms(1) by (auto simp: cache_ok_def)
    then show ?thesis by (cases "vt_data t ! i") simp_all
  qed
  have ok: "cache_ok render (t\<lparr>vt_rendered := cache\<rparr>)"
    using assms(1) keep by (auto simp: cache_ok_def)
  have ok': "cache_ok render (t\<lparr>vt_rendered := cache[i := Some (render_value render (vt_data t ! i))]\<rparr>)"
    if str: "\<forall>x. vt_data t ! i \<noteq> VStr x"
    unfolding cache_ok_def
  proof (intro allI impI)
    let ?t = "t\<lparr>vt_rendered := cache[i := Some (render_value render (vt_data t ! i))]\<rparr>"
    fix k s assume k: "k < length (vt_rendered ?t)" "vt_rendered ?t ! k = Some s"
    show "k < length (vt_data ?t) \<and> (case vt_data ?t ! k of VStr _ \<Rightarrow> False | v \<Rightarrow> s = render_value render v)"
    proof (cases "k = i")
      case True
      then show ?thesis using k str assms(2) by (cases "vt_data t ! i") simp_all
    next
      case False
      then show ?thesis using k ok by (simp add: cache_ok_def)
    qed
  qed
  show "fst (vt_rendered_key t i render) = render_value render (vt_data t ! i)"
    using val by (auto simp: key render_value_def split: rvalue.splits option.splits)
  show "cache_ok render (snd (vt_rendered_key t i render))"
    using ok ok' by (auto simp: key split: rvalue.splits option.splits)
  show "vt_data (snd (vt_rendered_key t i render)) = vt_data t"
    by (simp add: key split: rvalue.splits option.splits)
  show "i < length (vt_rendered (snd (vt_rendered_key t i render)))"
    using len by (simp add: key split: rvalue.splits option.splits)
  show "vt_data t ! i = VNode n \<Longrightarrow> vt_rendered (snd (vt_rendered_key t i render)) ! i = Some (render n)"
    using val len by (auto simp: key render_value_def split: option.splits)
  show "j < length (vt_rendered (snd (vt_rendered_key t i render))) \<and>
      vt_rendered (snd (vt_rendered_key t i render)) ! j = Some s"
    if "j < length (vt_rendered t)" "vt_rendered t ! j = Some s"
  proof -
    have "j < length cache" using that(1) grown by linarith
    moreover from this have "cache ! j = Some s" using that keep by blast
    ultimately show ?thesis
      by (cases "j = i") (auto simp: key split: rvalue.splits option.splits)
  qed
qed

text \<open>Every value has a sort key, so its order is total.\<close>

definition value_key :: "(node_id \<Rightarrow> string) \<Rightarrow> rvalue \<Rightarrow> nat \<times> int \<times> byte list \<times> node_id" where
  "value_key render v =
     (case v of
        VInt x \<Rightarrow> (0, sint x, [], 0)
      | VStr s \<Rightarrow> (1, 0, as_bytes s, 0)
      | VNode n \<Rightarrow> (2, 0, as_bytes (render n), n))"

lemma value_cmp_key: "value_cmp render a b = cmp_of (value_key render a) (value_key render b)"
  by (cases a; cases b)
    (auto simp: value_cmp_def value_key_def cmp_i64_def cmp_str_def type_rank_def cmp_of_def)

lemma value_key_inj: "value_key render a = value_key render b \<longleftrightarrow> a = b"
  by (cases a; cases b) (auto simp: value_key_def dest: signed_word_eqI)

interpretation by_value: total_cmp "value_cmp render"
proof (unfold_locales, goal_cases)
  case (1 a b)
  show ?case by (simp add: value_cmp_key value_key_inj)
next
  case (2 b a)
  show ?case unfolding value_cmp_key by (rule raw.cmp_flip)
next
  case (3 a b c)
  then show ?case unfolding value_cmp_key by (rule raw.cmp_trans)
qed

lemma cmp_rendered_spec:
  assumes t: "table_ok t" "cache_ok render t" and a: "a < length (vt_data t)" and b: "b < length (vt_data t)"
  shows "fst (vt_cmp_rendered t a b render) = value_cmp render (vt_get t a) (vt_get t b)"
    and "cache_ok render (snd (vt_cmp_rendered t a b render))"
    and "vt_data (snd (vt_cmp_rendered t a b render)) = vt_data t"
    and "vt_index (snd (vt_cmp_rendered t a b render)) = vt_index t"
    and "vt_digest (snd (vt_cmp_rendered t a b render)) = vt_digest t"
proof -
  define t1 where "t1 = snd (vt_rendered_key t a render)"
  define t2 where "t2 = snd (vt_rendered_key t1 b render)"
  have frame: "vt_index (snd (vt_rendered_key u i render)) = vt_index u"
      "vt_digest (snd (vt_rendered_key u i render)) = vt_digest u" for u i
    by (simp_all add: vt_rendered_key_def split: rvalue.splits option.splits)
  have t1: "cache_ok render t1" "vt_data t1 = vt_data t" "a < length (vt_rendered t1)"
    using rendered_key_spec(2,3,4) [OF t(2) a] by (simp_all add: t1_def)
  have b1: "b < length (vt_data t1)" using b t1(2) by simp
  have t2: "cache_ok render t2" "vt_data t2 = vt_data t"
    using rendered_key_spec(2,3) [OF t1(1) b1] t1(2) by (simp_all add: t2_def)
  have node: "vt_rendered t2 ! a = Some (render x) \<and> vt_rendered t2 ! b = Some (render y)"
    if v: "vt_data t ! a = VNode x" "vt_data t ! b = VNode y" for x y
  proof
    have "vt_rendered t1 ! a = Some (render x)"
      using rendered_key_spec(5) [OF t(2) a] v(1) by (simp add: t1_def)
    then show "vt_rendered t2 ! a = Some (render x)"
      using rendered_key_spec(6) [OF t1(1) b1 t1(3)] by (simp add: t2_def)
    show "vt_rendered t2 ! b = Some (render y)"
      using rendered_key_spec(5) [OF t1(1) b1] v(2) t1(2) by (simp add: t2_def)
  qed
  have cmp: "vt_cmp_rendered t a b render =
     (if a = b then (Equal, t)
      else case (vt_data t ! a, vt_data t ! b) of
          (VInt x, VInt y) \<Rightarrow> (cmp_i64 x y, t)
        | (VStr x, VStr y) \<Rightarrow> (cmp_str x y, t)
        | (VNode x, VNode y) \<Rightarrow> (then_with (cmp_cached (vt_rendered t2 ! a) (vt_rendered t2 ! b)) (cmp_of x y), t2)
        | (va, vb) \<Rightarrow> (cmp_of (type_rank va) (type_rank vb), t))"
    by (cases "vt_data t ! a"; cases "vt_data t ! b")
      (simp_all add: vt_cmp_rendered_def t1_def t2_def vt_get_def case_prod_unfold)
  show "fst (vt_cmp_rendered t a b render) = value_cmp render (vt_get t a) (vt_get t b)"
  proof (cases "a = b")
    case True
    have "fst (vt_cmp_rendered t a b render) = Equal" unfolding cmp using True by simp
    then show ?thesis using True by_value.cmp_Equal [of render "vt_get t a" "vt_get t a"] by simp
  next
    case False
    then show ?thesis using node
      by (cases "vt_data t ! a"; cases "vt_data t ! b")
        (simp_all add: cmp value_cmp_def vt_get_def cmp_cached_def)
  qed
  show "cache_ok render (snd (vt_cmp_rendered t a b render))"
    and "vt_data (snd (vt_cmp_rendered t a b render)) = vt_data t"
    and "vt_index (snd (vt_cmp_rendered t a b render)) = vt_index t"
    and "vt_digest (snd (vt_cmp_rendered t a b render)) = vt_digest t"
    using t2 t frame by (auto simp: cmp t1_def t2_def split: rvalue.splits)
qed

lemma product_map_map: "List.product (map f xs) (map g ys) = map (\<lambda>(a, b). (f a, g b)) (List.product xs ys)"
  by (induction xs) simp_all

text \<open>A run of comparisons, each leaving its cache to the next.\<close>

fun cmp_many :: "(node_id \<Rightarrow> string) \<Rightarrow> (nat \<times> nat) list \<Rightarrow> value_table \<Rightarrow> ordering list" where
  "cmp_many render [] t = []"
| "cmp_many render ((a, b) # ps) t =
     (let (c, t) = vt_cmp_rendered t a b render in c # cmp_many render ps t)"

lemma cmp_many_spec:
  "table_ok t \<Longrightarrow> cache_ok render t \<Longrightarrow> \<forall>(a, b) \<in> set ps. a < length (vt_data t) \<and> b < length (vt_data t) \<Longrightarrow>
   cmp_many render ps t = map (\<lambda>(a, b). value_cmp render (vt_data t ! a) (vt_data t ! b)) ps"
proof (induction ps arbitrary: t)
  case Nil
  then show ?case by simp
next
  case (Cons p ps)
  obtain a b where p: "p = (a, b)" by (cases p)
  have ab: "a < length (vt_data t)" "b < length (vt_data t)" using Cons.prems(3) p by auto
  note spec = cmp_rendered_spec [OF Cons.prems(1,2) ab]
  define t' where "t' = snd (vt_cmp_rendered t a b render)"
  have "entry_digest t' = entry_digest t" by (rule ext) (simp add: entry_digest_def t'_def spec)
  then have "table_ok t'" using Cons.prems(1) by (simp add: table_ok_def t'_def spec)
  from Cons.IH [OF this] have "cmp_many render ps t' = map (\<lambda>(a, b). value_cmp render (vt_data t' ! a) (vt_data t' ! b)) ps"
    using spec Cons.prems(3) by (simp add: t'_def)
  then show ?case using spec by (simp add: p t'_def case_prod_unfold vt_get_def)
qed

text \<open>
  C33: comparing handles in any order, the render cache filling up on the way, gives each time the
  total order of the values behind them: it depends on neither the handles nor the cache.
\<close>

theorem handles_compare_as_values:
  "map_option (\<lambda>(hs, t). cmp_many render (List.product hs hs) t) (intern_values vs) =
     Some (map (\<lambda>(v, w). value_cmp render v w) (List.product vs vs))"
proof -
  obtain hs t where t: "intern_values vs = Some (hs, t)" "table_ok t" "map (\<lambda>h. vt_data t ! h) hs = vs"
      "\<forall>h \<in> set hs. h < length (vt_data t)" "vt_rendered t = []"
    using intern_values_spec by blast
  have "cmp_many render (List.product hs hs) t =
      map (\<lambda>(a, b). value_cmp render (vt_data t ! a) (vt_data t ! b)) (List.product hs hs)"
    by (rule cmp_many_spec) (use t in \<open>auto simp: cache_ok_def\<close>)
  also have "\<dots> = map (\<lambda>(v, w). value_cmp render v w) (map (\<lambda>(a, b). (vt_data t ! a, vt_data t ! b)) (List.product hs hs))"
    by (simp add: case_prod_unfold)
  also have "map (\<lambda>(a, b). (vt_data t ! a, vt_data t ! b)) (List.product hs hs) = List.product vs vs"
    unfolding t(3) [symmetric] by (simp add: product_map_map)
  finally show ?thesis using t(1) by simp
qed

end
