(* ===== verification/Diag.thy ===== *)
theory Diag
  imports Utext
begin

text \<open>
  Spans, diagnostics and \<open>RulesError\<close> of \<open>rules/src/diag.rs\<close>, with the text each one prints.
  A \<open>u16\<close> source id and the \<open>u32\<close> positions are naturals, saturated where the code saturates.
\<close>

subsection \<open>Spans and diagnostics\<close>

record span =
  sp_source :: nat
  sp_start :: nat
  sp_end :: nat
  sp_line :: nat
  sp_col :: nat

definition span_default :: span where
  "span_default = \<lparr>sp_source = 0, sp_start = 0, sp_end = 0, sp_line = 0, sp_col = 0\<rparr>"

datatype severity = SevError | SevWarning

definition severity_text :: "severity \<Rightarrow> utext" where
  "severity_text s = (case s of SevError \<Rightarrow> lit ''error'' | SevWarning \<Rightarrow> lit ''warning'')"

record diagnostic =
  dg_severity :: severity
  dg_span :: span
  dg_source_name :: utext
  dg_predicate :: "utext option"
  dg_message :: utext

definition diag_new :: "severity \<Rightarrow> span \<Rightarrow> utext \<Rightarrow> utext option \<Rightarrow> utext \<Rightarrow> diagnostic" where
  "diag_new severity span source_name predicate message =
     \<lparr>dg_severity = severity, dg_span = span, dg_source_name = source_name, dg_predicate = predicate,
      dg_message = message\<rparr>"

definition diag_error :: "span \<Rightarrow> utext \<Rightarrow> utext option \<Rightarrow> utext \<Rightarrow> diagnostic" where
  "diag_error = diag_new SevError"

definition diag_warning :: "span \<Rightarrow> utext \<Rightarrow> utext option \<Rightarrow> utext \<Rightarrow> diagnostic" where
  "diag_warning = diag_new SevWarning"

definition diagnostic_text :: "diagnostic \<Rightarrow> utext" where
  "diagnostic_text d =
     dg_source_name d @ lit '':'' @ nat_text (sp_line (dg_span d)) @ lit '':'' @ nat_text (sp_col (dg_span d)) @
     lit '': '' @ severity_text (dg_severity d) @ lit '': '' @ dg_message d @
     (case dg_predicate d of Some p \<Rightarrow> lit '' (in the rule for `'' @ p @ lit ''`)'' | None \<Rightarrow> [])"

subsection \<open>Errors\<close>

datatype rules_error =
  EParse "diagnostic list"
| EInvalid "diagnostic list"
| EBudget utext utext nat nat nat
| EMemoryBudget utext utext nat nat nat nat
| EBuiltin utext utext
| EType utext utext
| EUnknown utext "utext list"

definition error_diagnostics :: "rules_error \<Rightarrow> diagnostic list" where
  "error_diagnostics e = (case e of EParse d \<Rightarrow> d | EInvalid d \<Rightarrow> d | _ \<Rightarrow> [])"

definition mib :: nat where
  "mib = 2 ^ 20"

text \<open>
  \<open>{:.places}\<close> of \<open>b as f64 / MIB as f64\<close>: the quotient is exact below \<open>2^53\<close> bytes, and printed
  rounded half to even.
\<close>

definition round_half_even :: "nat \<Rightarrow> nat \<Rightarrow> nat" where
  "round_half_even n d =
     (let q = n div d; r = n mod d
      in if 2 * r > d \<or> (2 * r = d \<and> odd q) then q + 1 else q)"

definition fixed_text :: "nat \<Rightarrow> nat \<Rightarrow> utext" where
  "fixed_text places b =
     (let v = round_half_even (b * 10 ^ places) mib
      in nat_text (v div 10 ^ places) @ lit ''.'' @ lit (pad_left places (dec_digits (v mod 10 ^ places))))"

definition mb_show :: "nat \<Rightarrow> nat \<Rightarrow> utext" where
  "mb_show b places = (if b mod mib = 0 then nat_text (b div mib) else fixed_text places b)"

function mb_loop :: "nat \<Rightarrow> nat \<Rightarrow> nat \<Rightarrow> utext \<times> utext" where
  "mb_loop bytes cap places =
     (let b = mb_show bytes places; c = mb_show cap places
      in if b \<noteq> c \<or> places \<ge> 6 then (b, c) else mb_loop bytes cap (places + 1))"
  by pat_completeness auto
termination
  by (relation "measure (\<lambda>(bytes, cap, places). 6 - places)") auto

declare mb_loop.simps [simp del]

definition mb_pair :: "nat \<Rightarrow> nat \<Rightarrow> utext \<times> utext" where
  "mb_pair bytes cap = mb_loop bytes cap 1"

text \<open>\<open>rsplit_once('/')\<close> and \<open>parse::<usize>\<close>.\<close>

fun rsplit_slash :: "utext \<Rightarrow> (utext \<times> utext) option" where
  "rsplit_slash [] = None"
| "rsplit_slash (c # cs) =
     (case rsplit_slash cs of
        Some (a, b) \<Rightarrow> Some (c # a, b)
      | None \<Rightarrow> if c = of_char CHR ''/'' then Some ([], cs) else None)"

definition parse_usize :: "utext \<Rightarrow> nat option" where
  "parse_usize t =
     (let digits = (case t of c # cs \<Rightarrow> if c = of_char CHR ''+'' then cs else t | [] \<Rightarrow> [])
      in if digits = [] \<or> \<not> list_all is_ascii_digit digits then None
         else let n = foldl (\<lambda>n d. n * 10 + (d - 48)) 0 digits
              in if n < 2 ^ 64 then Some n else None)"

definition hint_vars :: "utext list" where
  "hint_vars = [lit ''x'', lit ''y'', lit ''z'', lit ''w'']"

definition hint_head :: "utext \<Rightarrow> utext" where
  "hint_head predicate =
     (let (name, arity) =
        (case rsplit_slash predicate of
           Some (n, a) \<Rightarrow> (case parse_usize a of Some a \<Rightarrow> (n, a) | None \<Rightarrow> (predicate, 2))
         | None \<Rightarrow> (predicate, 2))
      in if arity = 0 then name
         else name @ lit ''('' @
           join_text (lit '', '')
             (map (\<lambda>i. if i < length hint_vars then hint_vars ! i else lit ''x'' @ nat_text (i + 1)) [0..<arity]) @
           lit '')'')"

text \<open>\<open>sort_by_key\<close> on the span, stable.\<close>

definition diag_key :: "diagnostic \<Rightarrow> nat \<times> nat \<times> nat" where
  "diag_key d = (sp_source (dg_span d), sp_start (dg_span d), sp_end (dg_span d))"

definition error_text :: "rules_error \<Rightarrow> utext" where
  "error_text e =
     (case e of
        EParse ds \<Rightarrow> join_text [10] (map diagnostic_text (sort_key diag_key ds))
      | EInvalid ds \<Rightarrow> join_text [10] (map diagnostic_text (sort_key diag_key ds))
      | EBudget predicate source line rows cap \<Rightarrow>
          lit ''rule evaluation stopped: `'' @ predicate @ lit ''` ('' @ source @ lit '':'' @ nat_text line @ lit '') '' @
          (if rows = cap then lit ''reached '' @ nat_text rows @ lit '' bindings, the row budget.''
           else lit ''reached '' @ nat_text rows @ lit '' bindings against a row budget of '' @ nat_text cap @ lit ''.'') @
          lit '' Its recursion is probably unseeded: bind an argument from a small relation (`'' @ hint_head predicate @
          lit '' :- seed(x), ...`), use reaches(x, y, \"CATS\") for reachability, or raise the budget.''
      | EMemoryBudget predicate source line col bytes cap \<Rightarrow>
          let (b, c) = mb_pair bytes cap in
          source @ lit '':'' @ nat_text line @ lit '':'' @ nat_text col @ lit '': error: memory budget: '' @ predicate @
          lit '' grew the evaluation to '' @ b @ lit '' MB, over the '' @ c @ lit '' MB budget. Seed its recursion (`'' @
          hint_head predicate @
          lit '' :- seed(x), ...`), use reaches(x, y, \"CATS\") for reachability, or raise the budget.''
      | EBuiltin name message \<Rightarrow> lit ''builtin `'' @ name @ lit ''` failed: '' @ message
      | EType _ message \<Rightarrow> message
      | EUnknown predicate known \<Rightarrow>
          if known = [] then lit ''unknown output `'' @ predicate @ lit ''`; the program defines no predicate''
          else lit ''unknown output `'' @ predicate @ lit ''`; the program defines '' @
            join_text (lit '', '') (sort known))"

end
