(* ===== verification/Ir.thy ===== *)
theory Ir
  imports Diag
begin

text \<open>
  The rule IR of \<open>rules/src/ir.rs\<close>: programs, rules, heads, literals, atoms and terms with their
  spans, the canonical text each prints, and the catalog of predicates and builtins a program may
  read. \<open>erase\<close> functions replace every span by the default one.
\<close>

subsection \<open>Terms, atoms, rules\<close>

datatype tm =
  Var utext span
| Wild span
| StrC utext span
| IntC "64 word" span

datatype aggop = AggCount | AggMin | AggMax | AggSum

record aggregate =
  ag_op :: aggop
  ag_vars :: "utext list"
  ag_span :: span

datatype head_arg = HTerm tm | HAgg aggregate

record head =
  hd_pred :: utext
  hd_args :: "head_arg list"
  hd_span :: span

record atom =
  at_pred :: utext
  at_args :: "tm list"
  at_span :: span

datatype cmpop = CEq | CNe | CLt | CLe | CGt | CGe

record comparison =
  cp_op :: cmpop
  cp_left :: tm
  cp_right :: tm
  cp_span :: span

datatype literal = LPos atom | LNeg atom | LCmp comparison

record rule =
  rl_head :: head
  rl_body :: "literal list"
  rl_span :: span

record program =
  pg_sources :: "utext list"
  pg_rules :: "rule list"

subsection \<open>Constructors\<close>

definition program_new :: program where
  "program_new = \<lparr>pg_sources = [], pg_rules = []\<rparr>"

definition add_source :: "program \<Rightarrow> utext \<Rightarrow> nat \<times> program" where
  "add_source p name = (u16_sat (length (pg_sources p)), p\<lparr>pg_sources := pg_sources p @ [name]\<rparr>)"

definition unnamed_source :: utext where
  "unnamed_source = lit ''<program>''"

definition source_name :: "program \<Rightarrow> nat \<Rightarrow> utext" where
  "source_name p s = (if s < length (pg_sources p) then pg_sources p ! s else unnamed_source)"

definition tm_var :: "utext \<Rightarrow> tm" where
  "tm_var name = Var name span_default"

definition tm_wild :: tm where
  "tm_wild = Wild span_default"

definition tm_str :: "utext \<Rightarrow> tm" where
  "tm_str value = StrC value span_default"

definition tm_int :: "64 word \<Rightarrow> tm" where
  "tm_int value = IntC value span_default"

definition tm_span :: "tm \<Rightarrow> span" where
  "tm_span t = (case t of Var _ s \<Rightarrow> s | Wild s \<Rightarrow> s | StrC _ s \<Rightarrow> s | IntC _ s \<Rightarrow> s)"

definition tm_map_span :: "(span \<Rightarrow> span) \<Rightarrow> tm \<Rightarrow> tm" where
  "tm_map_span f t =
     (case t of Var n s \<Rightarrow> Var n (f s) | Wild s \<Rightarrow> Wild (f s) | StrC v s \<Rightarrow> StrC v (f s) | IntC v s \<Rightarrow> IntC v (f s))"

definition atom_new :: "utext \<Rightarrow> tm list \<Rightarrow> atom" where
  "atom_new pred args = \<lparr>at_pred = pred, at_args = args, at_span = span_default\<rparr>"

definition literal_pos :: "atom \<Rightarrow> literal" where
  "literal_pos a = LPos a"

definition literal_neg :: "atom \<Rightarrow> literal" where
  "literal_neg a = LNeg a"

definition literal_cmp :: "cmpop \<Rightarrow> tm \<Rightarrow> tm \<Rightarrow> literal" where
  "literal_cmp op left right = LCmp \<lparr>cp_op = op, cp_left = left, cp_right = right, cp_span = span_default\<rparr>"

definition literal_span :: "literal \<Rightarrow> span" where
  "literal_span l = (case l of LPos a \<Rightarrow> at_span a | LNeg a \<Rightarrow> at_span a | LCmp c \<Rightarrow> cp_span c)"

definition head_arg_agg :: "aggop \<Rightarrow> utext list \<Rightarrow> head_arg" where
  "head_arg_agg op vars = HAgg \<lparr>ag_op = op, ag_vars = vars, ag_span = span_default\<rparr>"

definition rule_new :: "utext \<Rightarrow> head_arg list \<Rightarrow> literal list \<Rightarrow> rule" where
  "rule_new head_pred head_args body =
     \<lparr>rl_head = \<lparr>hd_pred = head_pred, hd_args = head_args, hd_span = span_default\<rparr>,
      rl_body = body, rl_span = span_default\<rparr>"

definition rule_fact :: "utext \<Rightarrow> tm list \<Rightarrow> rule" where
  "rule_fact pred consts = rule_new pred (map HTerm consts) []"

definition is_fact :: "rule \<Rightarrow> bool" where
  "is_fact r \<longleftrightarrow> rl_body r = []"

definition head_arity :: "head \<Rightarrow> nat" where
  "head_arity h = length (hd_args h)"

definition signature_text :: "utext \<Rightarrow> nat \<Rightarrow> utext" where
  "signature_text pred n = pred @ lit ''/'' @ nat_text n"

definition head_signature :: "head \<Rightarrow> utext" where
  "head_signature h = signature_text (hd_pred h) (length (hd_args h))"

definition atom_signature :: "atom \<Rightarrow> utext" where
  "atom_signature a = signature_text (at_pred a) (length (at_args a))"

subsection \<open>Spans of a rule\<close>

definition head_arg_visit :: "(span \<Rightarrow> span) \<Rightarrow> head_arg \<Rightarrow> head_arg" where
  "head_arg_visit f a =
     (case a of HTerm t \<Rightarrow> HTerm (tm_map_span f t) | HAgg g \<Rightarrow> HAgg (g\<lparr>ag_span := f (ag_span g)\<rparr>))"

definition atom_visit :: "(span \<Rightarrow> span) \<Rightarrow> atom \<Rightarrow> atom" where
  "atom_visit f a = a\<lparr>at_args := map (tm_map_span f) (at_args a), at_span := f (at_span a)\<rparr>"

definition literal_visit :: "(span \<Rightarrow> span) \<Rightarrow> literal \<Rightarrow> literal" where
  "literal_visit f l =
     (case l of
        LPos a \<Rightarrow> LPos (atom_visit f a)
      | LNeg a \<Rightarrow> LNeg (atom_visit f a)
      | LCmp c \<Rightarrow> LCmp (c\<lparr>cp_left := tm_map_span f (cp_left c), cp_right := tm_map_span f (cp_right c),
          cp_span := f (cp_span c)\<rparr>))"

definition visit_spans :: "(span \<Rightarrow> span) \<Rightarrow> rule \<Rightarrow> rule" where
  "visit_spans f r =
     \<lparr>rl_head = \<lparr>hd_pred = hd_pred (rl_head r), hd_args = map (head_arg_visit f) (hd_args (rl_head r)),
        hd_span = f (hd_span (rl_head r))\<rparr>,
      rl_body = map (literal_visit f) (rl_body r), rl_span = f (rl_span r)\<rparr>"

definition program_append :: "program \<Rightarrow> program \<Rightarrow> program" where
  "program_append p other =
     (let offset = u16_sat (length (pg_sources p))
      in \<lparr>pg_sources = pg_sources p @ pg_sources other,
          pg_rules = pg_rules p @
            map (visit_spans (\<lambda>s. s\<lparr>sp_source := u16_sat (sp_source s + offset)\<rparr>)) (pg_rules other)\<rparr>)"

subsection \<open>Canonical text\<close>

definition aggop_name :: "aggop \<Rightarrow> utext" where
  "aggop_name op = (case op of AggCount \<Rightarrow> lit ''count'' | AggMin \<Rightarrow> lit ''min'' | AggMax \<Rightarrow> lit ''max'' | AggSum \<Rightarrow> lit ''sum'')"

definition cmpop_symbol :: "cmpop \<Rightarrow> utext" where
  "cmpop_symbol op =
     (case op of CEq \<Rightarrow> lit ''='' | CNe \<Rightarrow> lit ''!='' | CLt \<Rightarrow> lit ''<'' | CLe \<Rightarrow> lit ''<=''
      | CGt \<Rightarrow> lit ''>'' | CGe \<Rightarrow> lit ''>='')"

definition str_char :: "uchar \<Rightarrow> utext" where
  "str_char c =
     (if c = 92 then [92, 92] else if c = 34 then [92, 34] else if c = 10 then [92, of_char CHR ''n'']
      else if c = 9 then [92, of_char CHR ''t''] else [c])"

definition str_literal :: "utext \<Rightarrow> utext" where
  "str_literal value = [34] @ concat (map str_char value) @ [34]"

definition list_text :: "utext list \<Rightarrow> utext" where
  "list_text items = join_text (lit '', '') items"

definition tm_text :: "tm \<Rightarrow> utext" where
  "tm_text t = (case t of Var name _ \<Rightarrow> name | Wild _ \<Rightarrow> lit ''_'' | StrC value _ \<Rightarrow> str_literal value | IntC value _ \<Rightarrow> i64_text value)"

definition aggregate_text :: "aggregate \<Rightarrow> utext" where
  "aggregate_text a = aggop_name (ag_op a) @ lit ''('' @ list_text (ag_vars a) @ lit '')''"

definition head_arg_text :: "head_arg \<Rightarrow> utext" where
  "head_arg_text a = (case a of HTerm t \<Rightarrow> tm_text t | HAgg g \<Rightarrow> aggregate_text g)"

definition head_text :: "head \<Rightarrow> utext" where
  "head_text h =
     hd_pred h @ (if hd_args h = [] then [] else lit ''('' @ list_text (map head_arg_text (hd_args h)) @ lit '')'')"

definition atom_text :: "atom \<Rightarrow> utext" where
  "atom_text a = at_pred a @ lit ''('' @ list_text (map tm_text (at_args a)) @ lit '')''"

definition comparison_text :: "comparison \<Rightarrow> utext" where
  "comparison_text c = tm_text (cp_left c) @ lit '' '' @ cmpop_symbol (cp_op c) @ lit '' '' @ tm_text (cp_right c)"

definition literal_text :: "literal \<Rightarrow> utext" where
  "literal_text l =
     (case l of LPos a \<Rightarrow> atom_text a | LNeg a \<Rightarrow> lit ''!'' @ atom_text a | LCmp c \<Rightarrow> comparison_text c)"

definition rule_text :: "rule \<Rightarrow> utext" where
  "rule_text r =
     head_text (rl_head r) @
     (if rl_body r = [] then [] else lit '' :- '' @ list_text (map literal_text (rl_body r))) @ lit ''.''"

definition program_text :: "program \<Rightarrow> utext" where
  "program_text p = concat (map (\<lambda>r. rule_text r @ [10]) (pg_rules p))"

subsection \<open>The catalog\<close>

datatype col_type = CTNode | CTKind | CTCategory | CTCellType | CTCategorySet | CTStr | CTInt | CTAny

datatype bind_req = BMay | BMust | BConst

record pred_decl =
  pd_name :: utext
  pd_cols :: "col_type list"

record attr_decl =
  ad_name :: utext
  ad_ty :: col_type

datatype builtin_kind = BReaches | BScc | BStartsWith | BEndsWith | BContains | BDomain

record builtin_decl =
  bd_name :: utext
  bd_cols :: "col_type list"
  bd_bind :: "bind_req list"
  bd_tiered :: bool
  bd_kind :: builtin_kind

text \<open>The domain's registries are carried, not read here: a type parameter.\<close>

record 'reg catalog =
  ct_registries :: 'reg
  ct_carry :: "category list"
  ct_edb :: "pred_decl list"
  ct_builtins :: "builtin_decl list"

definition pred_signature :: "pred_decl \<Rightarrow> utext" where
  "pred_signature p = signature_text (pd_name p) (length (pd_cols p))"

definition builtin_signature :: "builtin_decl \<Rightarrow> utext" where
  "builtin_signature b = signature_text (bd_name b) (length (bd_cols b))"

definition core_pred :: "string \<Rightarrow> col_type list \<Rightarrow> pred_decl" where
  "core_pred name cols = \<lparr>pd_name = lit name, pd_cols = cols\<rparr>"

definition core_builtin :: "string \<Rightarrow> col_type list \<Rightarrow> bind_req list \<Rightarrow> bool \<Rightarrow> builtin_kind \<Rightarrow> builtin_decl" where
  "core_builtin name cols bind tiered kind =
     \<lparr>bd_name = lit name, bd_cols = cols, bd_bind = bind, bd_tiered = tiered, bd_kind = kind\<rparr>"

definition catalog_core :: "'reg \<Rightarrow> category list \<Rightarrow> 'reg catalog" where
  "catalog_core registries carry =
     \<lparr>ct_registries = registries, ct_carry = carry,
      ct_edb =
        [core_pred ''node'' [CTNode, CTKind],
         core_pred ''edge'' [CTNode, CTNode, CTCategory],
         core_pred ''edge_conf'' [CTNode, CTNode, CTCategory, CTStr],
         core_pred ''cell'' [CTNode, CTCellType, CTStr],
         core_pred ''edge_cell'' [CTNode, CTNode, CTCategory, CTCellType, CTStr],
         core_pred ''kind'' [CTKind],
         core_pred ''category'' [CTCategory],
         core_pred ''carry_category'' [CTCategory]],
      ct_builtins =
        [core_builtin ''reaches'' [CTNode, CTNode] [BMay, BMay] True BReaches,
         core_builtin ''reaches'' [CTNode, CTNode, CTCategorySet] [BMay, BMay, BConst] True BReaches,
         core_builtin ''reaches'' [CTNode, CTNode, CTCategorySet, CTInt] [BMay, BMay, BConst, BConst] True BReaches,
         core_builtin ''scc'' [CTNode, CTNode] [BMay, BMay] True BScc,
         core_builtin ''scc'' [CTNode, CTNode, CTCategorySet] [BMay, BMay, BConst] True BScc,
         core_builtin ''starts_with'' [CTStr, CTStr] [BMust, BMust] False BStartsWith,
         core_builtin ''ends_with'' [CTStr, CTStr] [BMust, BMust] False BEndsWith,
         core_builtin ''contains'' [CTStr, CTStr] [BMust, BMust] False BContains]\<rparr>"

definition catalog_edb :: "'reg catalog \<Rightarrow> utext \<Rightarrow> pred_decl option" where
  "catalog_edb c name = find (\<lambda>p. pd_name p = name) (ct_edb c)"

definition catalog_builtin :: "'reg catalog \<Rightarrow> utext \<Rightarrow> nat \<Rightarrow> builtin_decl option" where
  "catalog_builtin c name arity = find (\<lambda>b. bd_name b = name \<and> length (bd_cols b) = arity) (ct_builtins c)"

definition add_attr :: "attr_decl \<Rightarrow> 'reg catalog \<Rightarrow> 'reg catalog" where
  "add_attr a c =
     (if catalog_edb c (ad_name a) \<noteq> None \<or> (\<exists>b \<in> set (ct_builtins c). bd_name b = ad_name a) then c
      else c\<lparr>ct_edb := ct_edb c @ [\<lparr>pd_name = ad_name a, pd_cols = [CTNode, ad_ty a]\<rparr>]\<rparr>)"

definition with_attrs :: "'reg catalog \<Rightarrow> attr_decl list \<Rightarrow> 'reg catalog" where
  "with_attrs c attrs = fold add_attr attrs c"

definition add_builtin :: "builtin_decl \<Rightarrow> 'reg catalog \<Rightarrow> 'reg catalog" where
  "add_builtin d c =
     (if catalog_edb c (bd_name d) \<noteq> None \<or> catalog_builtin c (bd_name d) (length (bd_cols d)) \<noteq> None then c
      else c\<lparr>ct_builtins := ct_builtins c @ [d]\<rparr>)"

definition with_builtins :: "'reg catalog \<Rightarrow> builtin_decl list \<Rightarrow> 'reg catalog" where
  "with_builtins c decls = fold add_builtin decls c"

subsection \<open>The catalog's invariant\<close>

text \<open>
  Names have one owner: EDB names are distinct, no builtin takes one, and a builtin is alone under
  its name and arity.
\<close>

definition builtin_key :: "builtin_decl \<Rightarrow> utext \<times> nat" where
  "builtin_key b = (bd_name b, length (bd_cols b))"

definition one_owner :: "'reg catalog \<Rightarrow> bool" where
  "one_owner c \<longleftrightarrow>
     distinct (map pd_name (ct_edb c)) \<and> distinct (map builtin_key (ct_builtins c)) \<and>
     pd_name ` set (ct_edb c) \<inter> bd_name ` set (ct_builtins c) = {}"

lemma catalog_edb_None: "catalog_edb c n = None \<longleftrightarrow> n \<notin> pd_name ` set (ct_edb c)"
  by (auto simp: catalog_edb_def find_None_iff)

lemma catalog_builtin_None: "catalog_builtin c n a = None \<longleftrightarrow> (n, a) \<notin> builtin_key ` set (ct_builtins c)"
  by (auto simp: catalog_builtin_def find_None_iff builtin_key_def)

lemma one_owner_core: "one_owner (catalog_core reg carry)"
  by (simp add: one_owner_def catalog_core_def core_pred_def core_builtin_def builtin_key_def)

lemma one_owner_add_attr: "one_owner c \<Longrightarrow> one_owner (add_attr a c)"
  by (auto simp: one_owner_def add_attr_def catalog_edb_None)

lemma one_owner_add_builtin: "one_owner c \<Longrightarrow> one_owner (add_builtin d c)"
  by (auto simp: one_owner_def add_builtin_def catalog_edb_None catalog_builtin_None builtin_key_def)

lemma one_owner_fold:
  assumes "\<And>d c. one_owner c \<Longrightarrow> one_owner (f d c)"
  shows "one_owner c \<Longrightarrow> one_owner (fold f ds c)"
  by (induction ds arbitrary: c) (simp_all add: assms)

lemma core_kept:
  "set (ct_edb c) \<subseteq> set (ct_edb (with_builtins (with_attrs c attrs) decls)) \<and>
   set (ct_builtins c) \<subseteq> set (ct_builtins (with_builtins (with_attrs c attrs) decls))"
proof -
  have "set (ct_edb c) \<subseteq> set (ct_edb (fold add_attr attrs c)) \<and>
      set (ct_builtins c) \<subseteq> set (ct_builtins (fold add_attr attrs c))" for c :: "'a catalog"
    by (induction attrs arbitrary: c) (fastforce simp: add_attr_def)+
  moreover have "set (ct_edb c) \<subseteq> set (ct_edb (fold add_builtin decls c)) \<and>
      set (ct_builtins c) \<subseteq> set (ct_builtins (fold add_builtin decls c))" for c :: "'a catalog"
    by (induction decls arbitrary: c) (fastforce simp: add_builtin_def)+
  ultimately show ?thesis unfolding with_attrs_def with_builtins_def by (meson order_trans)
qed

lemma find_unique:
  assumes "distinct (map f xs)" and "x \<in> set xs"
  shows "find (\<lambda>y. f y = f x) xs = Some x"
  using assms by (induction xs) (auto simp: image_iff)

text \<open>
  C35: whatever attributes and builtins a domain declares, every core declaration is still the one
  its name (and arity) looks up, and no name is owned twice.
\<close>

theorem catalog_core_wins:
  "one_owner (with_builtins (with_attrs (catalog_core reg carry) attrs) decls) \<and>
   map (\<lambda>p. catalog_edb (with_builtins (with_attrs (catalog_core reg carry) attrs) decls) (pd_name p))
     (ct_edb (catalog_core reg carry)) = map Some (ct_edb (catalog_core reg carry)) \<and>
   map (\<lambda>b. catalog_builtin (with_builtins (with_attrs (catalog_core reg carry) attrs) decls) (bd_name b) (length (bd_cols b)))
     (ct_builtins (catalog_core reg carry)) = map Some (ct_builtins (catalog_core reg carry))"
proof -
  let ?core = "catalog_core reg carry"
  let ?c = "with_builtins (with_attrs ?core attrs) decls"
  have ok: "one_owner ?c"
    unfolding with_builtins_def with_attrs_def
    by (intro one_owner_fold one_owner_add_builtin one_owner_add_attr one_owner_core)
  have "catalog_edb ?c (pd_name p) = Some p" if "p \<in> set (ct_edb ?core)" for p
    using find_unique [of pd_name "ct_edb ?c" p] ok that core_kept [of ?core attrs decls]
    by (auto simp: one_owner_def catalog_edb_def)
  moreover have "catalog_builtin ?c (bd_name b) (length (bd_cols b)) = Some b" if "b \<in> set (ct_builtins ?core)" for b
    using find_unique [of builtin_key "ct_builtins ?c" b] ok that core_kept [of ?core attrs decls]
    by (auto simp: one_owner_def catalog_builtin_def builtin_key_def)
  ultimately show ?thesis using ok by simp
qed

end
