(* ===== verification/Lexer.thy ===== *)
theory Lexer
  imports Ir
begin

text \<open>
  The shared lexer of \<open>rules/src/lexer.rs\<close>: the cursor walks a text one scalar value at a time and
  counts bytes, lines and columns; the lexer collects tokens and at most 20 diagnostics. Each loop
  of the code is a recursive function, terminating because the unread text gets shorter.
\<close>

definition max_diagnostics :: nat where
  "max_diagnostics = 20"

datatype token_kind =
  TIdent utext | TStr utext | TInt "64 word"
| TLParen | TRParen | TLBracket | TRBracket | TLBrace | TRBrace | TComma | TDot | TDotDot | TColon | TColonDash
| TSemicolon | TPipe | TStar | TPlus | TMinus | TQuestion | TArrow | TLeftArrow | TBang | TEq | TNe | TLt | TLe
| TGt | TGe | TDollar | TEof

definition token_kind_text :: "token_kind \<Rightarrow> utext" where
  "token_kind_text k =
     (case k of
        TIdent s \<Rightarrow> s
      | TStr s \<Rightarrow> tm_text (tm_str s)
      | TInt v \<Rightarrow> i64_text v
      | TLParen \<Rightarrow> lit ''('' | TRParen \<Rightarrow> lit '')'' | TLBracket \<Rightarrow> lit ''['' | TRBracket \<Rightarrow> lit '']''
      | TLBrace \<Rightarrow> lit ''{'' | TRBrace \<Rightarrow> lit ''}'' | TComma \<Rightarrow> lit '','' | TDot \<Rightarrow> lit ''.'' | TDotDot \<Rightarrow> lit ''..''
      | TColon \<Rightarrow> lit '':'' | TColonDash \<Rightarrow> lit '':-'' | TSemicolon \<Rightarrow> lit '';'' | TPipe \<Rightarrow> lit ''|''
      | TStar \<Rightarrow> lit ''*'' | TPlus \<Rightarrow> lit ''+'' | TMinus \<Rightarrow> lit ''-'' | TQuestion \<Rightarrow> lit ''?''
      | TArrow \<Rightarrow> lit ''->'' | TLeftArrow \<Rightarrow> lit ''<-'' | TBang \<Rightarrow> lit ''!'' | TEq \<Rightarrow> lit ''='' | TNe \<Rightarrow> lit ''!=''
      | TLt \<Rightarrow> lit ''<'' | TLe \<Rightarrow> lit ''<='' | TGt \<Rightarrow> lit ''>'' | TGe \<Rightarrow> lit ''>='' | TDollar \<Rightarrow> lit ''$''
      | TEof \<Rightarrow> lit ''end of input'')"

record token =
  tk_kind :: token_kind
  tk_span :: span

subsection \<open>The cursor\<close>

record mark =
  mk_pos :: nat
  mk_line :: nat
  mk_col :: nat

record cursor =
  cu_text :: utext
  cu_at :: mark

definition byte_order_mark :: uchar where
  "byte_order_mark = 0xFEFF"

definition cursor_new :: "utext \<Rightarrow> cursor" where
  "cursor_new text =
     (let pos = (case text of c # _ \<Rightarrow> if c = byte_order_mark then len_utf8 byte_order_mark else 0 | [] \<Rightarrow> 0)
      in \<lparr>cu_text = text, cu_at = \<lparr>mk_pos = pos, mk_line = 1, mk_col = 1\<rparr>\<rparr>)"

definition cu_rest :: "cursor \<Rightarrow> utext" where
  "cu_rest c = text_from (mk_pos (cu_at c)) (cu_text c)"

definition peek :: "cursor \<Rightarrow> uchar option" where
  "peek c = (case cu_rest c of [] \<Rightarrow> None | x # _ \<Rightarrow> Some x)"

definition peek2 :: "cursor \<Rightarrow> uchar option" where
  "peek2 c = (case cu_rest c of _ # y # _ \<Rightarrow> Some y | _ \<Rightarrow> None)"

definition bump :: "cursor \<Rightarrow> uchar option \<times> cursor" where
  "bump c =
     (case peek c of
        None \<Rightarrow> (None, c)
      | Some x \<Rightarrow>
          let at = cu_at c;
              pos = mk_pos at + len_utf8 x
          in (Some x,
              if x = 10 then c\<lparr>cu_at := \<lparr>mk_pos = pos, mk_line = u32_sat (mk_line at + 1), mk_col = 1\<rparr>\<rparr>
              else c\<lparr>cu_at := \<lparr>mk_pos = pos, mk_line = mk_line at, mk_col = u32_sat (mk_col at + 1)\<rparr>\<rparr>))"

definition skip1 :: "cursor \<Rightarrow> cursor" where
  "skip1 c = snd (bump c)"

definition eat :: "cursor \<Rightarrow> uchar \<Rightarrow> bool \<times> cursor" where
  "eat c want = (if peek c = Some want then (True, skip1 c) else (False, c))"

definition since :: "cursor \<Rightarrow> mark \<Rightarrow> utext" where
  "since c from = text_to (mk_pos (cu_at c) - mk_pos from) (text_from (mk_pos from) (cu_text c))"

text \<open>What is left to read.\<close>

definition left :: "cursor \<Rightarrow> nat" where
  "left c = length (cu_rest c)"

lemma peek_None: "peek c = None \<longleftrightarrow> cu_rest c = []"
  by (simp add: peek_def split: list.splits)

lemma peek_Some: "peek c = Some x \<longleftrightarrow> (\<exists>r. cu_rest c = x # r)"
  by (simp add: peek_def split: list.splits)

lemma rest_skip1: "cu_rest (skip1 c) = tl (cu_rest c)"
proof (cases "cu_rest c")
  case Nil
  then show ?thesis by (simp add: skip1_def bump_def peek_def)
next
  case (Cons x r)
  then have "text_from (mk_pos (cu_at c) + len_utf8 x) (cu_text c) = r"
    by (intro text_from_next) (simp add: cu_rest_def)
  then show ?thesis using Cons by (auto simp: skip1_def bump_def peek_def cu_rest_def)
qed

lemma bump_eq: "bump c = (peek c, skip1 c)"
  by (simp add: bump_def skip1_def split: option.splits)

lemma left_skip1: "left (skip1 c) = left c - 1"
  by (simp add: left_def rest_skip1)

lemma left_pos: "peek c = Some x \<Longrightarrow> 0 < left c"
  by (auto simp: left_def peek_Some)

lemma left_skip1_less [simp]: "peek c = Some x \<Longrightarrow> left (skip1 c) < left c"
  using left_pos by (simp add: left_skip1)

subsection \<open>The lexer\<close>

record lexer =
  lx_cur :: cursor
  lx_source :: nat
  lx_name :: utext
  lx_tokens :: "token list"
  lx_diags :: "diagnostic list"

definition offset :: "nat \<Rightarrow> nat" where
  "offset pos = u32_sat pos"

definition shown :: "uchar \<Rightarrow> utext" where
  "shown c = (if is_control c then escape_default c else [c])"

definition span_from :: "lexer \<Rightarrow> mark \<Rightarrow> span" where
  "span_from l from =
     \<lparr>sp_source = lx_source l, sp_start = offset (mk_pos from), sp_end = offset (mk_pos (cu_at (lx_cur l))),
      sp_line = mk_line from, sp_col = mk_col from\<rparr>"

definition lx_error :: "lexer \<Rightarrow> mark \<Rightarrow> utext \<Rightarrow> lexer" where
  "lx_error l from message =
     (if length (lx_diags l) < max_diagnostics
      then l\<lparr>lx_diags := lx_diags l @ [diag_error (span_from l from) (lx_name l) None message]\<rparr>
      else l)"

definition lx_push :: "lexer \<Rightarrow> mark \<Rightarrow> token_kind \<Rightarrow> lexer" where
  "lx_push l from kind = l\<lparr>lx_tokens := lx_tokens l @ [\<lparr>tk_kind = kind, tk_span = span_from l from\<rparr>]\<rparr>"

text \<open>The line comment's and the block comment's inner loops.\<close>

function skip_line :: "cursor \<Rightarrow> cursor" where
  "skip_line c = (case peek c of None \<Rightarrow> c | Some x \<Rightarrow> if x \<noteq> 10 then skip_line (skip1 c) else c)"
  by pat_completeness auto
termination by (relation "measure left") auto

declare skip_line.simps [simp del]

function skip_block :: "cursor \<Rightarrow> bool \<times> cursor" where
  "skip_block c =
     (case peek c of
        None \<Rightarrow> (False, c)
      | Some x \<Rightarrow>
          (if x = of_char CHR ''*'' \<and> peek (skip1 c) = Some (of_char CHR ''/'') then (True, skip1 (skip1 c))
           else skip_block (skip1 c)))"
  by pat_completeness auto
termination by (relation "measure left") auto

declare skip_block.simps [simp del]

lemma left_skip_line: "left (skip_line c) \<le> left c"
proof (induction c rule: skip_line.induct)
  case (1 c)
  then show ?case by (subst skip_line.simps) (force split: option.splits dest: left_skip1_less)
qed

lemma left_skip1_le: "left (skip1 c) \<le> left c"
  by (simp add: left_skip1)

lemma left_skip_block: "left (snd (skip_block c)) \<le> left c"
proof (induction c rule: skip_block.induct)
  case (1 c)
  then show ?case
    by (subst skip_block.simps)
      (auto split: option.splits intro: order_trans [OF left_skip1_le left_skip1_le] order_trans [OF _ left_skip1_le])
qed

function skip_trivia :: "lexer \<Rightarrow> lexer" where
  "skip_trivia l =
     (let c = lx_cur l in
      case peek c of
        None \<Rightarrow> l
      | Some x \<Rightarrow>
          if is_whitespace x then skip_trivia (l\<lparr>lx_cur := skip1 c\<rparr>)
          else if x = of_char CHR ''/'' \<and> peek2 c = Some (of_char CHR ''/'') then
            skip_trivia (l\<lparr>lx_cur := skip_line c\<rparr>)
          else if x = of_char CHR ''/'' \<and> peek2 c = Some (of_char CHR ''*'') then
            (let (closed, c') = skip_block (skip1 (skip1 c)); l' = l\<lparr>lx_cur := c'\<rparr>
             in if closed then skip_trivia l' else lx_error l' (cu_at c) (lit ''unterminated block comment''))
          else l)"
  by pat_completeness auto
termination
proof (relation "measure (\<lambda>l. left (lx_cur l))", goal_cases)
  case 1
  show ?case by simp
next
  case (2 l c x)
  then show ?case by simp
next
  case (3 l c x)
  then have "skip_line c = skip_line (skip1 c)" by (subst skip_line.simps) simp
  then have "left (skip_line c) \<le> left (skip1 c)" using left_skip_line [of "skip1 c"] by simp
  also have "left (skip1 c) < left c" using 3(2) by (rule left_skip1_less)
  finally have "left (skip_line c) < left c" .
  then show ?case using 3(1) by simp
next
  case (4 l c x p closed c' l')
  then have "c' = snd (skip_block (skip1 (skip1 c)))" by (metis snd_conv)
  then have "left c' \<le> left (skip1 (skip1 c))" using left_skip_block [of "skip1 (skip1 c)"] by simp
  also have "\<dots> \<le> left (skip1 c)" by (rule left_skip1_le)
  also have "\<dots> < left c" using 4 by simp
  finally show ?case using 4 by simp
qed

declare skip_trivia.simps [simp del]

text \<open>
  The rest of a string opened by \<open>quote\<close> at \<open>from\<close>: its value, or nothing after an error.
\<close>

definition is_escape :: "uchar \<Rightarrow> bool" where
  "is_escape e \<longleftrightarrow> e = 92 \<or> e = 34 \<or> e = 39"

definition escape_char :: "uchar \<Rightarrow> uchar option" where
  "escape_char e =
     (if is_escape e then Some e else if e = of_char CHR ''n'' then Some 10 else if e = of_char CHR ''t'' then Some 9 else None)"

function string_loop :: "uchar \<Rightarrow> utext \<Rightarrow> uchar option \<Rightarrow> cursor \<Rightarrow> (utext \<times> uchar option) option \<times> cursor" where
  "string_loop quote value bad c =
     (case peek c of
        None \<Rightarrow> (None, c)
      | Some x \<Rightarrow>
          if x = 10 then (None, c)
          else
            let c1 = skip1 c in
            if x = quote then (Some (value, bad), c1)
            else if x \<noteq> 92 then string_loop quote (value @ [x]) bad c1
            else
              (case peek c1 of
                 None \<Rightarrow> string_loop quote value bad c1
               | Some e \<Rightarrow>
                   if e = 10 then string_loop quote value bad c1
                   else
                     (case escape_char e of
                        Some v \<Rightarrow> string_loop quote (value @ [v]) bad (skip1 c1)
                      | None \<Rightarrow> string_loop quote value (case bad of None \<Rightarrow> Some e | Some b \<Rightarrow> Some b) (skip1 c1))))"
  by pat_completeness auto
termination
  by (relation "measure (\<lambda>(quote, value, bad, c). left c)")
    (auto intro: le_less_trans [OF left_skip1_le left_skip1_less])

declare string_loop.simps [simp del]

definition unknown_escape :: "uchar \<Rightarrow> utext" where
  "unknown_escape e =
     lit ''unknown escape `'' @ [92] @ shown e @ lit ''` in string (escapes: '' @
     [92, 92, 32, 92, 34, 32, 92, 39, 32, 92, of_char CHR ''n'', 32, 92, of_char CHR ''t''] @ lit '')''"

definition lx_string :: "lexer \<Rightarrow> uchar \<Rightarrow> mark \<Rightarrow> utext option \<times> lexer" where
  "lx_string l quote from =
     (let (r, c) = string_loop quote [] None (lx_cur l); l = l\<lparr>lx_cur := c\<rparr> in
      case r of
        None \<Rightarrow> (None, lx_error l from (lit ''unterminated string''))
      | Some (value, Some e) \<Rightarrow> (None, lx_error l from (unknown_escape e))
      | Some (value, None) \<Rightarrow> (Some value, l))"

text \<open>The digits of an integer: \<open>checked_mul\<close> and \<open>checked_add\<close> on a \<open>u64\<close>.\<close>

definition checked_digit :: "nat \<Rightarrow> nat \<Rightarrow> nat option" where
  "checked_digit v d = (if v * 10 + d < 2 ^ 64 then Some (v * 10 + d) else None)"

function digits_loop :: "nat \<Rightarrow> bool \<Rightarrow> cursor \<Rightarrow> nat \<times> bool \<times> cursor" where
  "digits_loop v in_range c =
     (case peek c of
        Some x \<Rightarrow>
          if is_ascii_digit x then
            (case checked_digit v (x - 48) of
               Some v' \<Rightarrow> digits_loop v' in_range (skip1 c)
             | None \<Rightarrow> digits_loop v False (skip1 c))
          else (v, in_range, c)
      | None \<Rightarrow> (v, in_range, c))"
  by pat_completeness auto
termination
  by (relation "measure (\<lambda>(v, in_range, c). left c)") auto

declare digits_loop.simps [simp del]

definition after_minus :: "lexer \<Rightarrow> bool" where
  "after_minus l \<longleftrightarrow> lx_tokens l \<noteq> [] \<and> tk_kind (last (lx_tokens l)) = TMinus"

definition i64_min :: "64 word" where
  "i64_min = 0x8000000000000000"

definition lx_integer :: "lexer \<Rightarrow> uchar \<Rightarrow> mark \<Rightarrow> lexer" where
  "lx_integer l first_digit from =
     (let (v, in_range, c) = digits_loop (first_digit - 48) True (lx_cur l); l = l\<lparr>lx_cur := c\<rparr> in
      if v < 2 ^ 63 \<and> in_range then lx_push l from (TInt (of_nat v))
      else if in_range \<and> v = 2 ^ 63 \<and> after_minus l then
        (let minus = tk_span (last (lx_tokens l));
             first = \<lparr>mk_pos = sp_start minus, mk_line = sp_line minus, mk_col = sp_col minus\<rparr>
         in lx_push (l\<lparr>lx_tokens := butlast (lx_tokens l)\<rparr>) first (TInt i64_min))
      else lx_error l from (lit ''integer out of range''))"

function ident_loop :: "cursor \<Rightarrow> cursor" where
  "ident_loop c =
     (case peek c of
        Some x \<Rightarrow> if x = of_char CHR ''_'' \<or> is_ascii_alphanumeric x then ident_loop (skip1 c) else c
      | None \<Rightarrow> c)"
  by pat_completeness auto
termination by (relation "measure left") auto

declare ident_loop.simps [simp del]

text \<open>One fixed token whose first char was read: greedy on the second.\<close>

definition second :: "cursor \<Rightarrow> (char \<times> token_kind) list \<Rightarrow> token_kind \<Rightarrow> token_kind \<times> cursor" where
  "second c alts otherwise =
     (case find (\<lambda>(x, k). fst (eat c (of_char x))) alts of
        Some (x, k) \<Rightarrow> (k, snd (eat c (of_char x)))
      | None \<Rightarrow> (otherwise, c))"

definition fixed_token :: "uchar \<Rightarrow> cursor \<Rightarrow> (token_kind \<times> cursor) option" where
  "fixed_token x c =
     (if x = of_char CHR ''('' then Some (TLParen, c)
      else if x = of_char CHR '')'' then Some (TRParen, c)
      else if x = of_char CHR ''['' then Some (TLBracket, c)
      else if x = of_char CHR '']'' then Some (TRBracket, c)
      else if x = of_char CHR ''{'' then Some (TLBrace, c)
      else if x = of_char CHR ''}'' then Some (TRBrace, c)
      else if x = of_char CHR '','' then Some (TComma, c)
      else if x = of_char CHR '';'' then Some (TSemicolon, c)
      else if x = of_char CHR ''|'' then Some (TPipe, c)
      else if x = of_char CHR ''*'' then Some (TStar, c)
      else if x = of_char CHR ''+'' then Some (TPlus, c)
      else if x = of_char CHR ''?'' then Some (TQuestion, c)
      else if x = of_char CHR ''='' then Some (TEq, c)
      else if x = of_char CHR ''$'' then Some (TDollar, c)
      else if x = of_char CHR ''.'' then Some (second c [(CHR ''.'', TDotDot)] TDot)
      else if x = of_char CHR '':'' then Some (second c [(CHR ''-'', TColonDash)] TColon)
      else if x = of_char CHR ''-'' then Some (second c [(CHR ''>'', TArrow)] TMinus)
      else if x = of_char CHR ''!'' then Some (second c [(CHR ''='', TNe)] TBang)
      else if x = of_char CHR ''<'' then Some (second c [(CHR ''-'', TLeftArrow), (CHR ''='', TLe), (CHR ''>'', TNe)] TLt)
      else if x = of_char CHR ''>'' then Some (second c [(CHR ''='', TGe)] TGt)
      else None)"

text \<open>The token that starts with the char \<open>x\<close> just read at \<open>from\<close>.\<close>

definition lx_token :: "lexer \<Rightarrow> uchar \<Rightarrow> mark \<Rightarrow> lexer" where
  "lx_token l x from =
     (case fixed_token x (lx_cur l) of
        Some (kind, c) \<Rightarrow> lx_push (l\<lparr>lx_cur := c\<rparr>) from kind
      | None \<Rightarrow>
          if x = 34 \<or> x = 39 then
            (case lx_string l x from of (Some s, l) \<Rightarrow> lx_push l from (TStr s) | (None, l) \<Rightarrow> l)
          else if is_ascii_digit x then lx_integer l x from
          else if x = of_char CHR ''_'' \<or> is_ascii_alphabetic x then
            (let c = ident_loop (lx_cur l) in lx_push (l\<lparr>lx_cur := c\<rparr>) from (TIdent (since c from)))
          else lx_error l from (lit ''unexpected character `'' @ shown x @ lit ''`''))"

subsection \<open>Nothing is read twice\<close>

lemma cur_lx_error [simp]: "lx_cur (lx_error l from m) = lx_cur l"
  by (simp add: lx_error_def)

lemma cur_lx_push [simp]: "lx_cur (lx_push l from k) = lx_cur l"
  by (simp add: lx_push_def)

lemma left_skip_trivia: "left (lx_cur (skip_trivia l)) \<le> left (lx_cur l)"
proof (induction l rule: skip_trivia.induct)
  case (1 l)
  have "left (skip1 (lx_cur l)) \<le> left (lx_cur l)" by (rule left_skip1_le)
  moreover have "left (skip_line (lx_cur l)) \<le> left (lx_cur l)" by (rule left_skip_line)
  moreover have "left (snd (skip_block (skip1 (skip1 (lx_cur l))))) \<le> left (lx_cur l)"
    by (meson left_skip_block left_skip1_le order_trans)
  ultimately show ?case using 1
    by (subst skip_trivia.simps) (fastforce split: option.splits prod.splits)
qed

lemma left_string_loop: "left (snd (string_loop q s b c)) \<le> left c"
proof (induction "left c" arbitrary: q s b c rule: less_induct)
  case less
  show ?case
  proof (cases "peek c")
    case None
    then show ?thesis by (subst string_loop.simps) simp
  next
    case (Some x)
    have one: "left (snd (string_loop q s b (skip1 c))) \<le> left c" for q s b
      using less [of "skip1 c" q s b] left_skip1_less [OF Some] by linarith
    have two: "left (snd (string_loop q s b (skip1 (skip1 c)))) \<le> left c" for q s b
      using less [of "skip1 (skip1 c)" q s b] left_skip1_less [OF Some] left_skip1_le [of "skip1 c"] by linarith
    show ?thesis using Some
      by (subst string_loop.simps) (auto simp: one two left_skip1_le split: option.splits)
  qed
qed

lemma left_digits_loop: "left (snd (snd (digits_loop v r c))) \<le> left c"
proof (induction v r c rule: digits_loop.induct)
  case (1 v r c)
  have "left (skip1 c) \<le> left c" by (rule left_skip1_le)
  then show ?case using 1 by (subst digits_loop.simps) (fastforce split: option.splits)
qed

lemma left_ident_loop: "left (ident_loop c) \<le> left c"
proof (induction c rule: ident_loop.induct)
  case (1 c)
  have "left (skip1 c) \<le> left c" by (rule left_skip1_le)
  then show ?case using 1 by (subst ident_loop.simps) (fastforce split: option.splits)
qed

lemma left_second: "left (snd (second c alts k)) \<le> left c"
  by (auto simp: second_def eat_def left_skip1_le split: option.splits)

lemma left_fixed_token: "fixed_token x c = Some (k, c') \<Longrightarrow> left c' \<le> left c"
  using left_second by (simp add: fixed_token_def split: if_splits) (metis snd_conv)+

lemma left_lx_token: "left (lx_cur (lx_token l x from)) \<le> left (lx_cur l)"
proof (cases "fixed_token x (lx_cur l)")
  case (Some a)
  then show ?thesis using left_fixed_token [of x "lx_cur l" "fst a" "snd a"]
    by (simp add: lx_token_def case_prod_unfold)
next
  case None
  have "left (lx_cur (snd (lx_string l x from))) \<le> left (lx_cur l)"
    using left_string_loop [of x "[]" None "lx_cur l"]
    by (simp add: lx_string_def case_prod_unfold split: option.splits)
  moreover have "left (lx_cur (lx_integer l x from)) \<le> left (lx_cur l)"
    using left_digits_loop [of "x - 48" True "lx_cur l"] by (simp add: lx_integer_def case_prod_unfold)
  moreover have "left (ident_loop (lx_cur l)) \<le> left (lx_cur l)" by (rule left_ident_loop)
  ultimately show ?thesis using None
    by (auto simp: lx_token_def case_prod_unfold split: option.splits)
qed

function lx_run :: "lexer \<Rightarrow> lexer" where
  "lx_run l =
     (if length (lx_diags l) < max_diagnostics then
        let l = skip_trivia l; from = cu_at (lx_cur l) in
        (case bump (lx_cur l) of
           (None, c) \<Rightarrow> lx_push (l\<lparr>lx_cur := c\<rparr>) from TEof
         | (Some x, c) \<Rightarrow> lx_run (lx_token (l\<lparr>lx_cur := c\<rparr>) x from))
      else l)"
  by pat_completeness auto
termination
proof (relation "measure (\<lambda>l. left (lx_cur l))", goal_cases)
  case 1
  show ?case by simp
next
  case (2 l l' f y c x)
  then have "peek (lx_cur l') = Some x" "c = skip1 (lx_cur l')" by (simp_all add: bump_eq)
  then have "left c < left (lx_cur l')" by (simp only: left_skip1_less)
  also have "\<dots> \<le> left (lx_cur l)" using 2 left_skip_trivia by simp
  finally have "left c < left (lx_cur l)" .
  then show ?case using left_lx_token [of "l'\<lparr>lx_cur := c\<rparr>" x f] by simp
qed

declare lx_run.simps [simp del]

definition lexer_new :: "nat \<Rightarrow> utext \<Rightarrow> utext \<Rightarrow> lexer" where
  "lexer_new source name text =
     \<lparr>lx_cur = cursor_new text, lx_source = source, lx_name = name, lx_tokens = [], lx_diags = []\<rparr>"

definition lex :: "nat \<Rightarrow> utext \<Rightarrow> utext \<Rightarrow> rules_error + token list" where
  "lex source name text =
     (let l = lx_run (lexer_new source name text)
      in if lx_diags l = [] then Inr (lx_tokens l) else Inl (EParse (lx_diags l)))"

end
