(* ===== verification/LexText.thy ===== *)
theory LexText
  imports Lexer
begin

text \<open>
  What the lexer reads in canonical text: \<open>lexes s ks r\<close> says that the run over \<open>s\<close>, followed by
  \<open>r\<close>, adds exactly the token kinds \<open>ks\<close> and goes on at \<open>r\<close>, with no diagnostic.
\<close>

definition kinds :: "lexer \<Rightarrow> token_kind list" where
  "kinds l = map tk_kind (lx_tokens l)"

definition lexes :: "utext \<Rightarrow> token_kind list \<Rightarrow> utext \<Rightarrow> bool" where
  "lexes s ks r \<longleftrightarrow>
     (\<forall>l. lx_diags l = [] \<longrightarrow> cu_rest (lx_cur l) = s @ r \<longrightarrow>
        (\<exists>l'. lx_run l = lx_run l' \<and> lx_diags l' = [] \<and> cu_rest (lx_cur l') = r \<and> kinds l' = kinds l @ ks))"

named_theorems lex_intros "texts and the tokens they lex to"

lemma lexes_Nil [lex_intros]: "lexes [] [] r"
  by (auto simp: lexes_def)

lemma lexes_append [lex_intros]: "lexes s ks (t @ r) \<Longrightarrow> lexes t ks' r \<Longrightarrow> lexes (s @ t) (ks @ ks') r"
  unfolding lexes_def by (metis append.assoc)

lemma lexes_Cons: "lexes [c] ks (t @ r) \<Longrightarrow> lexes t ks' r \<Longrightarrow> lexes (c # t) (ks @ ks') r"
  using lexes_append [of "[c]" ks t r ks'] by simp

subsection \<open>One turn of the loop\<close>

lemma skip_trivia_stay:
  "peek (lx_cur l) = Some x \<Longrightarrow> \<not> is_whitespace x \<Longrightarrow> x \<noteq> of_char CHR ''/'' \<Longrightarrow> skip_trivia l = l"
  by (subst skip_trivia.simps) simp

lemma lx_run_token:
  assumes "lx_diags l = []" and "cu_rest (lx_cur l) = x # t" and "\<not> is_whitespace x" and "x \<noteq> of_char CHR ''/''"
  shows "lx_run l = lx_run (lx_token (l\<lparr>lx_cur := skip1 (lx_cur l)\<rparr>) x (cu_at (lx_cur l)))"
proof -
  have "peek (lx_cur l) = Some x" using assms(2) by (simp add: peek_Some)
  then show ?thesis using skip_trivia_stay [of l x] assms
    by (subst lx_run.simps) (simp add: bump_eq max_diagnostics_def)
qed

lemma lexes_white [lex_intros]:
  assumes "is_whitespace x"
  shows "lexes [x] [] r"
  unfolding lexes_def
proof (intro allI impI)
  fix l :: lexer assume l: "lx_diags l = []" "cu_rest (lx_cur l) = [x] @ r"
  let ?l = "l\<lparr>lx_cur := skip1 (lx_cur l)\<rparr>"
  have "peek (lx_cur l) = Some x" using l(2) by (simp add: peek_Some)
  then have "skip_trivia l = skip_trivia ?l" using assms by (subst skip_trivia.simps) simp
  then have "lx_run l = lx_run ?l"
    using l(1) by (simp add: lx_run.simps [of l] lx_run.simps [of ?l] max_diagnostics_def)
  moreover have "cu_rest (lx_cur ?l) = r" using l(2) by (simp add: rest_skip1)
  ultimately show "\<exists>l'. lx_run l = lx_run l' \<and> lx_diags l' = [] \<and> cu_rest (lx_cur l') = r \<and> kinds l' = kinds l @ []"
    using l(1) by (intro exI [of _ ?l]) (simp add: kinds_def)
qed

lemma lexes_token:
  assumes "\<not> is_whitespace x" and "x \<noteq> of_char CHR ''/''"
    and "\<And>l from. lx_diags l = [] \<Longrightarrow> cu_rest (lx_cur l) = t @ r \<Longrightarrow>
      mk_pos (cu_at (lx_cur l)) = mk_pos from + len_utf8 x \<Longrightarrow> text_from (mk_pos from) (cu_text (lx_cur l)) = x # t @ r \<Longrightarrow>
      lx_diags (lx_token l x from) = [] \<and> cu_rest (lx_cur (lx_token l x from)) = r \<and>
      kinds (lx_token l x from) = kinds l @ ks"
  shows "lexes (x # t) ks r"
  unfolding lexes_def
proof (intro allI impI)
  fix l :: lexer assume l: "lx_diags l = []" "cu_rest (lx_cur l) = (x # t) @ r"
  let ?l = "l\<lparr>lx_cur := skip1 (lx_cur l)\<rparr>" and ?from = "cu_at (lx_cur l)"
  have peek: "peek (lx_cur l) = Some x" using l(2) by (simp add: peek_Some)
  have "mk_pos (cu_at (skip1 (lx_cur l))) = mk_pos ?from + len_utf8 x"
      "cu_text (skip1 (lx_cur l)) = cu_text (lx_cur l)"
    using peek by (auto simp: skip1_def bump_def)
  then have "lx_diags (lx_token ?l x ?from) = [] \<and> cu_rest (lx_cur (lx_token ?l x ?from)) = r \<and>
      kinds (lx_token ?l x ?from) = kinds ?l @ ks"
    by (intro assms(3)) (use l in \<open>simp_all add: rest_skip1 cu_rest_def [symmetric]\<close>)
  moreover have "lx_run l = lx_run (lx_token ?l x ?from)"
    using l(1) _ assms(1,2) by (rule lx_run_token) (use l(2) in simp)
  ultimately show "\<exists>l'. lx_run l = lx_run l' \<and> lx_diags l' = [] \<and> cu_rest (lx_cur l') = r \<and> kinds l' = kinds l @ ks"
    by (intro exI [of _ "lx_token ?l x ?from"]) (simp add: kinds_def)
qed

subsection \<open>Fixed tokens\<close>

definition starts :: "char list \<Rightarrow> utext \<Rightarrow> bool" where
  "starts cs r \<longleftrightarrow> (case r of [] \<Rightarrow> False | x # _ \<Rightarrow> x \<in> of_char ` set cs)"

lemma eat_eq: "eat c w = (if peek c = Some w then (True, skip1 c) else (False, c))"
  by (simp add: eat_def)

lemma push_facts [simp]:
  "lx_diags (lx_push l from k) = lx_diags l" "kinds (lx_push l from k) = kinds l @ [k]"
  by (simp_all add: lx_push_def kinds_def)

lemma lexes_fixed:
  assumes "\<not> is_whitespace x" and "x \<noteq> of_char CHR ''/''"
    and "\<And>c. cu_rest c = t @ r \<Longrightarrow> \<exists>c'. fixed_token x c = Some (k, c') \<and> cu_rest c' = r"
  shows "lexes (x # t) [k] r"
proof (rule lexes_token [OF assms(1,2)])
  fix l :: lexer and "from" :: mark assume l: "lx_diags l = []" "cu_rest (lx_cur l) = t @ r"
  obtain c' where c': "fixed_token x (lx_cur l) = Some (k, c')" "cu_rest c' = r" using assms(3) [OF l(2)] by blast
  then show "lx_diags (lx_token l x from) = [] \<and> cu_rest (lx_cur (lx_token l x from)) = r \<and>
      kinds (lx_token l x from) = kinds l @ [k]"
    using l(1) by (simp add: lx_token_def kinds_def lx_push_def)
qed

lemma lexes_one [lex_intros]:
  "lexes (lit ''('') [TLParen] r" "lexes (lit '')'') [TRParen] r" "lexes (lit '','') [TComma] r" "lexes (lit ''='') [TEq] r"
  by (simp_all, (rule lexes_fixed; simp add: is_whitespace_def fixed_token_def)+)

lemma lexes_greedy [lex_intros]:
  "\<not> starts ''.'' r \<Longrightarrow> lexes (lit ''.'') [TDot] r"
  "\<not> starts ''='' r \<Longrightarrow> lexes (lit ''!'') [TBang] r"
  "\<not> starts ''>'' r \<Longrightarrow> lexes (lit ''-'') [TMinus] r"
  "\<not> starts ''-=>'' r \<Longrightarrow> lexes (lit ''<'') [TLt] r"
  "\<not> starts ''='' r \<Longrightarrow> lexes (lit ''>'') [TGt] r"
  by (simp_all, (rule lexes_fixed;
    simp add: is_whitespace_def fixed_token_def second_def eat_eq peek_def starts_def split: list.splits)+)

lemma lexes_two [lex_intros]:
  "lexes (lit '':-'') [TColonDash] r" "lexes (lit ''!='') [TNe] r" "lexes (lit ''<='') [TLe] r" "lexes (lit ''>='') [TGe] r"
  by (simp_all, (rule lexes_fixed;
    simp add: is_whitespace_def fixed_token_def second_def eat_eq peek_def rest_skip1 split: list.splits)+)

subsection \<open>Identifiers\<close>

definition ident_char :: "uchar \<Rightarrow> bool" where
  "ident_char x \<longleftrightarrow> x = of_char CHR ''_'' \<or> is_ascii_alphanumeric x"

definition is_ident :: "utext \<Rightarrow> bool" where
  "is_ident s \<longleftrightarrow>
     (case s of [] \<Rightarrow> False | x # t \<Rightarrow> (x = of_char CHR ''_'' \<or> is_ascii_alphabetic x) \<and> list_all ident_char t)"

definition stops :: "(uchar \<Rightarrow> bool) \<Rightarrow> utext \<Rightarrow> bool" where
  "stops P r \<longleftrightarrow> (case r of [] \<Rightarrow> True | x # _ \<Rightarrow> \<not> P x)"

lemma stops_Cons [simp]: "stops P (x # r) \<longleftrightarrow> \<not> P x" "stops P []"
  by (simp_all add: stops_def)

lemma pos_skip1: "peek c = Some x \<Longrightarrow> mk_pos (cu_at (skip1 c)) = mk_pos (cu_at c) + len_utf8 x"
  and text_skip1 [simp]: "cu_text (skip1 c) = cu_text c"
  by (auto simp: skip1_def bump_def split: option.splits)

lemma ident_loop_spec:
  "cu_rest c = s @ r \<Longrightarrow> list_all ident_char s \<Longrightarrow> stops ident_char r \<Longrightarrow>
   cu_rest (ident_loop c) = r \<and> cu_text (ident_loop c) = cu_text c \<and>
   mk_pos (cu_at (ident_loop c)) = mk_pos (cu_at c) + byte_len s"
proof (induction s arbitrary: c)
  case Nil
  then have "ident_loop c = c"
    by (subst ident_loop.simps) (auto simp: peek_def ident_char_def split: list.splits)
  then show ?case using Nil by simp
next
  case (Cons x s)
  have peek: "peek c = Some x" using Cons.prems(1) by (simp add: peek_Some)
  have "ident_char x" using Cons.prems(2) by simp
  then have "ident_loop c = ident_loop (skip1 c)"
    using peek by (subst ident_loop.simps) (simp add: ident_char_def)
  moreover have "cu_rest (skip1 c) = s @ r" using Cons.prems(1) by (simp add: rest_skip1)
  ultimately show ?case using Cons.IH [of "skip1 c"] Cons.prems pos_skip1 [OF peek] by simp
qed

lemma lexes_ident [lex_intros]:
  assumes "is_ident s" and "stops ident_char r"
  shows "lexes s [TIdent s] r"
proof (cases s)
  case Nil
  then show ?thesis using assms(1) by (simp add: is_ident_def)
next
  case (Cons x t)
  have x: "x = of_char CHR ''_'' \<or> is_ascii_alphabetic x" and t: "list_all ident_char t"
    using assms(1) Cons by (simp_all add: is_ident_def)
  have cls: "\<not> is_whitespace x" "x \<noteq> of_char CHR ''/''" "x \<noteq> 34 \<and> x \<noteq> 39" "\<not> is_ascii_digit x" "fixed_token x c = None" for c
    using x by (auto simp: is_whitespace_def is_ascii_alphabetic_def is_ascii_digit_def fixed_token_def)
  show ?thesis unfolding Cons
  proof (rule lexes_token [OF cls(1,2)])
    fix l :: lexer and "from" :: mark
    assume l: "lx_diags l = []" "cu_rest (lx_cur l) = t @ r"
        "mk_pos (cu_at (lx_cur l)) = mk_pos from + len_utf8 x" "text_from (mk_pos from) (cu_text (lx_cur l)) = x # t @ r"
    note loop = ident_loop_spec [OF l(2) t assms(2)]
    have "since (ident_loop (lx_cur l)) from = text_to (byte_len (x # t)) ((x # t) @ r)"
      using loop l(3,4) by (simp add: since_def)
    then have "since (ident_loop (lx_cur l)) from = x # t" by (simp only: text_to_append)
    then have "lx_token l x from = lx_push (l\<lparr>lx_cur := ident_loop (lx_cur l)\<rparr>) from (TIdent (x # t))"
      using cls x by (auto simp: lx_token_def)
    then show "lx_diags (lx_token l x from) = [] \<and> cu_rest (lx_cur (lx_token l x from)) = r \<and>
        kinds (lx_token l x from) = kinds l @ [TIdent (x # t)]"
      using l(1) loop by (simp add: kinds_def lx_push_def)
  qed
qed

subsection \<open>Strings\<close>

lemma string_loop_plain:
  "peek c = Some x \<Longrightarrow> x \<noteq> 10 \<Longrightarrow> x \<noteq> q \<Longrightarrow> x \<noteq> 92 \<Longrightarrow> string_loop q v b c = string_loop q (v @ [x]) b (skip1 c)"
  by (subst string_loop.simps) simp

lemma string_loop_escape:
  "peek c = Some 92 \<Longrightarrow> q \<noteq> 92 \<Longrightarrow> peek (skip1 c) = Some e \<Longrightarrow> e \<noteq> 10 \<Longrightarrow> escape_char e = Some x \<Longrightarrow>
   string_loop q v b c = string_loop q (v @ [x]) b (skip1 (skip1 c))"
  by (subst string_loop.simps) simp

lemma string_loop_spec:
  "cu_rest c = concat (map str_char s) @ 34 # r \<Longrightarrow>
   \<exists>c'. string_loop 34 v None c = (Some (v @ s, None), c') \<and> cu_rest c' = r"
proof (induction s arbitrary: c v)
  case Nil
  then have "peek c = Some 34" by (simp add: peek_Some)
  then show ?case using Nil by (subst string_loop.simps) (simp add: rest_skip1)
next
  case (Cons x s)
  let ?rest = "concat (map str_char s) @ 34 # r"
  have "\<exists>c'. string_loop 34 v None c = string_loop 34 (v @ [x]) None c' \<and> cu_rest c' = ?rest"
  proof (cases "str_char x = [x]")
    case True
    then have x: "x \<noteq> 92" "x \<noteq> 34" "x \<noteq> 10" by (auto simp: str_char_def split: if_splits)
    have rest: "cu_rest c = x # ?rest" using Cons.prems True by simp
    then have "peek c = Some x" by (simp add: peek_Some)
    then have "string_loop 34 v None c = string_loop 34 (v @ [x]) None (skip1 c)"
      using x by (rule_tac string_loop_plain) simp_all
    then show ?thesis using rest by (auto simp: rest_skip1)
  next
    case False
    then obtain e where e: "str_char x = [92, e]" "escape_char e = Some x" "e \<noteq> 10"
      by (auto simp: str_char_def escape_char_def is_escape_def split: if_splits)
    have rest: "cu_rest c = 92 # e # ?rest" using Cons.prems e by simp
    then have "peek c = Some 92" "peek (skip1 c) = Some e" by (simp_all add: peek_Some rest_skip1)
    then have "string_loop 34 v None c = string_loop 34 (v @ [x]) None (skip1 (skip1 c))"
      using e by (rule_tac string_loop_escape) simp_all
    then show ?thesis using rest by (auto simp: rest_skip1)
  qed
  then obtain c' where c': "string_loop 34 v None c = string_loop 34 (v @ [x]) None c'" "cu_rest c' = ?rest" by blast
  show ?case using Cons.IH [OF c'(2), of "v @ [x]"] c'(1) by simp
qed

lemma lexes_str [lex_intros]: "lexes (str_literal s) [TStr s] r"
proof -
  have "lexes (34 # (concat (map str_char s) @ [34])) [TStr s] r"
  proof (rule lexes_token)
    fix l :: lexer and "from" :: mark
    assume l: "lx_diags l = []" "cu_rest (lx_cur l) = (concat (map str_char s) @ [34]) @ r"
    obtain c' where c': "string_loop 34 [] None (lx_cur l) = (Some ([] @ s, None), c')" "cu_rest c' = r"
      using string_loop_spec [of "lx_cur l" s r "[]"] l(2) by auto
    have "lx_token l 34 from = lx_push (l\<lparr>lx_cur := c'\<rparr>) from (TStr s)"
      using c'(1) by (simp add: lx_token_def lx_string_def fixed_token_def)
    then show "lx_diags (lx_token l 34 from) = [] \<and> cu_rest (lx_cur (lx_token l 34 from)) = r \<and>
        kinds (lx_token l 34 from) = kinds l @ [TStr s]"
      using l(1) c'(2) by (simp add: kinds_def lx_push_def)
  qed (simp_all add: is_whitespace_def)
  then show ?thesis by (simp add: str_literal_def)
qed

subsection \<open>Integers\<close>

definition digits_value :: "nat \<Rightarrow> utext \<Rightarrow> nat" where
  "digits_value v ds = foldl (\<lambda>v d. v * 10 + (d - 48)) v ds"

lemma digits_value_simps [simp]:
  "digits_value v [] = v" "digits_value v (d # ds) = digits_value (v * 10 + (d - 48)) ds"
  "digits_value v (ds @ es) = digits_value (digits_value v ds) es"
  by (simp_all add: digits_value_def)

lemma digits_value_ge: "v \<le> digits_value v ds"
proof (induction ds arbitrary: v)
  case (Cons d ds)
  have "v \<le> v * 10 + (d - 48)" by simp
  also have "\<dots> \<le> digits_value (v * 10 + (d - 48)) ds" by (rule Cons)
  finally show ?case by simp
qed simp

lemma digits_loop_spec:
  "cu_rest c = ds @ r \<Longrightarrow> list_all is_ascii_digit ds \<Longrightarrow> stops is_ascii_digit r \<Longrightarrow> digits_value v ds < 2 ^ 64 \<Longrightarrow>
   \<exists>c'. digits_loop v True c = (digits_value v ds, True, c') \<and> cu_rest c' = r"
proof (induction ds arbitrary: v c)
  case Nil
  then show ?case
    by (subst digits_loop.simps) (auto simp: peek_def split: list.splits)
next
  case (Cons d ds)
  have peek: "peek c = Some d" using Cons.prems(1) by (simp add: peek_Some)
  have "v * 10 + (d - 48) \<le> digits_value (v * 10 + (d - 48)) ds" by (rule digits_value_ge)
  also have "\<dots> < 2 ^ 64" using Cons.prems(4) by simp
  finally have "checked_digit v (d - 48) = Some (v * 10 + (d - 48))" by (simp add: checked_digit_def)
  then have "digits_loop v True c = digits_loop (v * 10 + (d - 48)) True (skip1 c)"
    using peek Cons.prems(2) by (subst digits_loop.simps) simp
  moreover have "cu_rest (skip1 c) = ds @ r" using Cons.prems(1) by (simp add: rest_skip1)
  ultimately show ?case using Cons.IH [of "skip1 c" "v * 10 + (d - 48)"] Cons.prems by simp
qed

lemma nat_text_digits: "list_all is_ascii_digit (nat_text n) \<and> nat_text n \<noteq> [] \<and> digits_value 0 (nat_text n) = n"
proof (induction n rule: dec_digits.induct)
  case (1 n)
  have digit: "of_char (char_of (48 + d) :: char) = 48 + d" if "d < 10" for d :: nat
    using that by (simp add: of_char_of)
  show ?case
  proof (cases "n < 10")
    case True
    then have "nat_text n = [48 + n]" by (simp add: nat_text_def dec_digits.simps [of n] digit)
    then show ?thesis using True by (simp add: is_ascii_digit_def)
  next
    case False
    then have "nat_text n = nat_text (n div 10) @ [48 + n mod 10]"
      by (simp add: nat_text_def dec_digits.simps [of n] digit)
    then show ?thesis using 1 False by (simp add: is_ascii_digit_def)
  qed
qed

lemma integer_token:
  assumes "list_all is_ascii_digit (x # t)" and "digits_value 0 (x # t) < 2 ^ 64" and "stops is_ascii_digit r"
    and "lx_diags l = []" and "cu_rest (lx_cur l) = t @ r"
  shows "\<exists>c. cu_rest c = r \<and> lx_token l x from =
    (let l = l\<lparr>lx_cur := c\<rparr>; n = digits_value 0 (x # t) in
     if n < 2 ^ 63 then lx_push l from (TInt (of_nat n))
     else if n = 2 ^ 63 \<and> after_minus l then
       (let minus = tk_span (last (lx_tokens l))
        in lx_push (l\<lparr>lx_tokens := butlast (lx_tokens l)\<rparr>)
          \<lparr>mk_pos = sp_start minus, mk_line = sp_line minus, mk_col = sp_col minus\<rparr> (TInt i64_min))
     else lx_error l from (lit ''integer out of range''))"
proof -
  have "digits_value 0 (x # t) = digits_value (x - 48) t" by simp
  then obtain c where c: "digits_loop (x - 48) True (lx_cur l) = (digits_value 0 (x # t), True, c)" "cu_rest c = r"
    using digits_loop_spec [of "lx_cur l" t r "x - 48"] assms by auto
  have "is_ascii_digit x" using assms(1) by simp
  then have "lx_token l x from = lx_integer l x from"
    by (auto simp: lx_token_def is_ascii_digit_def fixed_token_def)
  then show ?thesis using c by (intro exI [of _ c]) (simp add: lx_integer_def)
qed

lemma digit_class: "is_ascii_digit x \<Longrightarrow> \<not> is_whitespace x \<and> x \<noteq> of_char CHR ''/''"
  by (auto simp: is_ascii_digit_def is_whitespace_def)

lemma lexes_nat:
  assumes "n < 2 ^ 63" and "stops is_ascii_digit r"
  shows "lexes (nat_text n) [TInt (of_nat n)] r"
proof -
  obtain x t where ds: "nat_text n = x # t" "list_all is_ascii_digit (x # t)" "digits_value 0 (x # t) = n"
    using nat_text_digits [of n] by (cases "nat_text n") auto
  have "n < 2 ^ 64" using assms(1) by simp
  have cls: "\<not> is_whitespace x" "x \<noteq> of_char CHR ''/''" using digit_class [of x] ds(2) by simp_all
  show ?thesis unfolding ds(1)
  proof (rule lexes_token [OF cls])
    fix l :: lexer and "from" :: mark
    assume l: "lx_diags l = []" "cu_rest (lx_cur l) = t @ r"
    obtain c where "cu_rest c = r" "lx_token l x from = lx_push (l\<lparr>lx_cur := c\<rparr>) from (TInt (of_nat n))"
      using integer_token [OF ds(2) _ assms(2) l, of "from"] assms(1) \<open>n < 2 ^ 64\<close> unfolding ds(3) by auto
    then show "lx_diags (lx_token l x from) = [] \<and> cu_rest (lx_cur (lx_token l x from)) = r \<and>
        kinds (lx_token l x from) = kinds l @ [TInt (of_nat n)]"
      using l(1) by (simp add: kinds_def lx_push_def)
  qed
qed

lemma lexes_min:
  assumes "stops is_ascii_digit r"
  shows "lexes (of_char CHR ''-'' # nat_text (2 ^ 63)) [TInt i64_min] r"
  unfolding lexes_def
proof (intro allI impI)
  fix l :: lexer assume l: "lx_diags l = []" "cu_rest (lx_cur l) = (of_char CHR ''-'' # nat_text (2 ^ 63)) @ r"
  obtain x t where ds: "nat_text (2 ^ 63) = x # t" "list_all is_ascii_digit (x # t)" "digits_value 0 (x # t) = 2 ^ 63"
    using nat_text_digits [of "2 ^ 63"] by (cases "nat_text (2 ^ 63)") auto
  have cls: "\<not> is_whitespace x" "x \<noteq> of_char CHR ''/''" using digit_class [of x] ds(2) by simp_all
  have "x \<noteq> of_char CHR ''>''" using ds(2) by (auto simp: is_ascii_digit_def)
  then have "lexes (lit ''-'') [TMinus] ((x # t) @ r)" by (intro lex_intros) (simp add: starts_def)
  moreover have "cu_rest (lx_cur l) = lit ''-'' @ (x # t) @ r" using l(2) ds(1) by simp
  ultimately obtain l1 where l1: "lx_run l = lx_run l1" "lx_diags l1 = []" "cu_rest (lx_cur l1) = x # (t @ r)"
      "kinds l1 = kinds l @ [TMinus]"
    using l(1) unfolding lexes_def by fastforce
  let ?l = "l1\<lparr>lx_cur := skip1 (lx_cur l1)\<rparr>"
  have l2: "lx_diags ?l = []" "cu_rest (lx_cur ?l) = t @ r" using l1 by (simp_all add: rest_skip1)
  have "kinds l1 \<noteq> []" "last (kinds l1) = TMinus" using l1(4) by simp_all
  then have minus: "lx_tokens l1 \<noteq> []" "tk_kind (last (lx_tokens l1)) = TMinus"
    by (auto simp: kinds_def last_map)
  obtain c m where "cu_rest c = r" "lx_token ?l x (cu_at (lx_cur l1)) =
      lx_push (?l\<lparr>lx_cur := c, lx_tokens := butlast (lx_tokens l1)\<rparr>) m (TInt i64_min)"
    using integer_token [OF ds(2) _ assms l2, of "cu_at (lx_cur l1)"] minus unfolding ds(3)
    by (auto simp: after_minus_def)
  moreover have "lx_run l1 = lx_run (lx_token ?l x (cu_at (lx_cur l1)))"
    using l1(2,3) cls by (rule lx_run_token)
  moreover have "map tk_kind (butlast (lx_tokens l1)) = kinds l"
    using l1(4) by (simp add: kinds_def map_butlast)
  ultimately show "\<exists>l'. lx_run l = lx_run l' \<and> lx_diags l' = [] \<and> cu_rest (lx_cur l') = r \<and>
      kinds l' = kinds l @ [TInt i64_min]"
    using l1(1) l2(1)
    by (intro exI [of _ "lx_token ?l x (cu_at (lx_cur l1))"]) (simp add: kinds_def lx_push_def)
qed

text \<open>The tokens of an integer constant.\<close>

definition int_toks :: "64 word \<Rightarrow> token_kind list" where
  "int_toks w = (if w = i64_min then [TInt i64_min] else if sint w < 0 then [TMinus, TInt (- w)] else [TInt w])"

lemma sint_i64_min: "sint i64_min = - (2 ^ 63)"
  by (simp add: i64_min_def)

lemma lexes_int [lex_intros]:
  assumes "stops is_ascii_digit r"
  shows "lexes (i64_text w) (int_toks w) r"
proof (cases "sint w < 0")
  case False
  then have ne: "w \<noteq> i64_min" by (auto simp: sint_i64_min)
  have "sint w < 2 ^ 63" using sint_lt [of w] by simp
  then have "nat (sint w) < 2 ^ 63" using False by simp
  moreover have "(of_nat (nat (sint w)) :: 64 word) = w" using False by simp
  ultimately show ?thesis
    using lexes_nat [of "nat (sint w)", OF _ assms] False ne
    by (simp add: i64_text_def i64_str_def int_toks_def nat_text_def)
next
  case True
  let ?n = "nat (- sint w)"
  have txt_w: "i64_text w = of_char CHR ''-'' # nat_text ?n" using True by (simp add: i64_text_def i64_str_def nat_text_def)
  show ?thesis
  proof (cases "w = i64_min")
    case min: True
    then have "?n = 2 ^ 63" by (simp add: sint_i64_min)
    then show ?thesis using lexes_min [OF assms] min txt_w by (simp add: int_toks_def)
  next
    case False
    have "- (2 ^ 63) \<le> sint w" using sint_ge [of w] by simp
    moreover have "sint w \<noteq> - (2 ^ 63)"
      using False sint_i64_min by (metis signed_word_eqI)
    ultimately have n: "?n < 2 ^ 63" by simp
    have w: "(of_nat ?n :: 64 word) = - w" using True by simp
    have "lexes (nat_text ?n) [TInt (of_nat ?n)] r" using n assms by (rule lexes_nat)
    moreover have "lexes (lit ''-'') [TMinus] (nat_text ?n @ r)"
    proof (rule lexes_greedy(3))
      obtain x t where "nat_text ?n = x # t" "is_ascii_digit x"
        using nat_text_digits [of ?n] by (cases "nat_text ?n") auto
      then show "\<not> starts ''>'' (nat_text ?n @ r)" by (auto simp: starts_def is_ascii_digit_def)
    qed
    ultimately have "lexes (lit ''-'' @ nat_text ?n) ([TMinus] @ [TInt (of_nat ?n)]) r" by (intro lexes_append)
    then show ?thesis using False True txt_w w by (simp add: int_toks_def)
  qed
qed

subsection \<open>The end of the text\<close>

lemma lexes_end:
  assumes "lexes s ks []" and "cu_rest (cursor_new s) = s"
  shows "\<exists>tokens. lex source name s = Inr tokens \<and> map tk_kind tokens = ks @ [TEof]"
proof -
  let ?l = "lexer_new source name s"
  have l: "lx_diags ?l = []" "cu_rest (lx_cur ?l) = s @ []" "kinds ?l = []"
    using assms(2) by (simp_all add: lexer_new_def kinds_def)
  then obtain l' where l': "lx_run ?l = lx_run l'" "lx_diags l' = []" "cu_rest (lx_cur l') = []" "kinds l' = ks"
    using assms(1) unfolding lexes_def by (metis append_Nil)
  have "peek (lx_cur l') = None" using l'(3) by (simp add: peek_None)
  moreover from this have "skip_trivia l' = l'" by (subst skip_trivia.simps) simp
  ultimately have "lx_run l' = lx_push (l'\<lparr>lx_cur := skip1 (lx_cur l')\<rparr>) (cu_at (lx_cur l')) TEof"
    using l'(2) by (subst lx_run.simps) (simp add: max_diagnostics_def bump_eq)
  then have "lx_diags (lx_run ?l) = []" "map tk_kind (lx_tokens (lx_run ?l)) = ks @ [TEof]"
    using l' by (simp_all add: lx_push_def kinds_def)
  then show ?thesis by (simp add: lex_def)
qed

end
