(* ===== verification/Parser.thy ===== *)
theory Parser
  imports Lexer
begin

text \<open>
  The Datalog parser of \<open>rules/src/parser.rs\<close>: recursive descent over the lexer's tokens. A parser
  step returns its result (\<open>Inl\<close> a failure, \<open>Inr\<close> a value) with the parser it leaves; \<open>None\<close> is
  a loop that does not end. \<open>and_then\<close> is the code's \<open>?\<close>: a failure is passed on, with the parser
  where it stopped, so that recovery starts from there.
\<close>

record failure =
  fl_span :: span
  fl_message :: utext

record parser =
  pr_tokens :: "token list"
  pr_pos :: nat
  pr_predicate :: "utext option"
  pr_open :: nat

type_synonym 'a parsed = "((failure + 'a) \<times> parser) option"

definition and_then :: "'a parsed \<Rightarrow> ('a \<Rightarrow> parser \<Rightarrow> 'b parsed) \<Rightarrow> 'b parsed" where
  "and_then m f =
     (case m of
        None \<Rightarrow> None
      | Some (Inl e, p) \<Rightarrow> Some (Inl e, p)
      | Some (Inr a, p) \<Rightarrow> f a p)"

definition ok :: "'a \<Rightarrow> parser \<Rightarrow> 'a parsed" where
  "ok a p = Some (Inr a, p)"

definition fail_at :: "span \<Rightarrow> utext \<Rightarrow> parser \<Rightarrow> 'a parsed" where
  "fail_at s message p = Some (Inl \<lparr>fl_span = s, fl_message = message\<rparr>, p)"

lemma and_then_simps [simp]:
  "and_then (Some (Inl e, p)) f = Some (Inl e, p)"
  "and_then (Some (Inr a, p)) f = f a p"
  by (simp_all add: and_then_def)

subsection \<open>Tokens\<close>

definition END_token :: token where
  "END_token = \<lparr>tk_kind = TEof, tk_span = \<lparr>sp_source = 0, sp_start = 0, sp_end = 0, sp_line = 0, sp_col = 0\<rparr>\<rparr>"

definition join :: "span \<Rightarrow> span \<Rightarrow> span" where
  "join from to = from\<lparr>sp_end := max (sp_end to) (sp_start from)\<rparr>"

definition describe :: "token_kind \<Rightarrow> utext" where
  "describe k = (if k = TEof then lit ''end of input'' else lit ''`'' @ token_kind_text k @ lit ''`'')"

definition aggop_of :: "utext \<Rightarrow> aggop option" where
  "aggop_of name =
     (if name = lit ''count'' then Some AggCount else if name = lit ''min'' then Some AggMin
      else if name = lit ''max'' then Some AggMax else if name = lit ''sum'' then Some AggSum else None)"

definition is_cmpop :: "token_kind \<Rightarrow> bool" where
  "is_cmpop k \<longleftrightarrow> k \<in> {TEq, TNe, TLt, TLe, TGt, TGe, TLeftArrow}"

definition head_only :: "aggop \<Rightarrow> utext" where
  "head_only op = lit ''an aggregate ('' @ aggop_name op @ lit '') may appear only in a head''"

definition peek_tok :: "parser \<Rightarrow> token" where
  "peek_tok p = (if pr_pos p < length (pr_tokens p) then pr_tokens p ! pr_pos p else END_token)"

definition peek_kind :: "parser \<Rightarrow> nat \<Rightarrow> token_kind" where
  "peek_kind p ahead =
     (if pr_pos p + ahead < length (pr_tokens p) then tk_kind (pr_tokens p ! (pr_pos p + ahead)) else tk_kind END_token)"

definition advance :: "parser \<Rightarrow> token \<times> parser" where
  "advance p =
     (let t = peek_tok p in
      if tk_kind t = TEof then (t, p)
      else
        let p = (if tk_kind t = TLParen then p\<lparr>pr_open := pr_open p + 1\<rparr>
                 else if tk_kind t = TRParen then p\<lparr>pr_open := pr_open p - 1\<rparr>
                 else p)
        in (t, p\<lparr>pr_pos := pr_pos p + 1\<rparr>))"

definition step_tok :: "parser \<Rightarrow> parser" where
  "step_tok p = snd (advance p)"

definition eat_tok :: "parser \<Rightarrow> token_kind \<Rightarrow> token option \<times> parser" where
  "eat_tok p kind = (if tk_kind (peek_tok p) = kind then (Some (fst (advance p)), step_tok p) else (None, p))"

definition fail :: "parser \<Rightarrow> utext \<Rightarrow> 'a parsed" where
  "fail p message = fail_at (tk_span (peek_tok p)) message p"

definition found :: "parser \<Rightarrow> utext" where
  "found p = describe (tk_kind (peek_tok p))"

subsection \<open>Lists\<close>

partial_function (option) list_loop :: "(parser \<Rightarrow> 'a parsed) \<Rightarrow> 'a list \<Rightarrow> parser \<Rightarrow> ('a list \<times> span) parsed" where
  "list_loop item items p =
     (case item p of
        None \<Rightarrow> None
      | Some (r, p) \<Rightarrow>
          (case r of
             Inl e \<Rightarrow> Some (Inl e, p)
           | Inr a \<Rightarrow>
               (if tk_kind (peek_tok p) = TComma then list_loop item (items @ [a]) (step_tok p)
                else if tk_kind (peek_tok p) = TRParen then
                  ok (items @ [a], tk_span (fst (advance p))) (step_tok p)
                else fail p (lit ''expected `,` or `)`, found '' @ found p))))"

declare list_loop.simps [code]

definition list_of :: "bool \<Rightarrow> (parser \<Rightarrow> 'a parsed) \<Rightarrow> parser \<Rightarrow> ('a list \<times> span) parsed" where
  "list_of allow_empty item p =
     (if allow_empty \<and> tk_kind (peek_tok p) = TRParen then
        (case eat_tok p TRParen of
           (Some close, p) \<Rightarrow> ok ([], tk_span close) p
         | (None, p) \<Rightarrow> list_loop item [] p)
      else list_loop item [] p)"

subsection \<open>Terms\<close>

definition i64_checked_neg :: "64 word \<Rightarrow> 64 word option" where
  "i64_checked_neg v = (if v = i64_min then None else Some (- v))"

definition parse_term :: "parser \<Rightarrow> tm parsed" where
  "parse_term p =
     (let tok = peek_tok p; span = tk_span tok in
      case tk_kind tok of
        TIdent name \<Rightarrow>
          if peek_kind p 1 = TLParen then
            (case aggop_of name of
               Some op \<Rightarrow> fail p (head_only op)
             | None \<Rightarrow> fail p (lit ''expected a term, found `'' @ name @ lit ''(`; atoms do not nest''))
          else if name = lit ''_'' then ok (Wild span) (step_tok p)
          else ok (Var name span) (step_tok p)
      | TStr s \<Rightarrow> ok (StrC s span) (step_tok p)
      | TInt v \<Rightarrow> ok (IntC v span) (step_tok p)
      | TMinus \<Rightarrow>
          let p = step_tok p; next_tok = peek_tok p in
          (case tk_kind next_tok of
             TInt v \<Rightarrow>
               let p = step_tok p; span = join span (tk_span next_tok) in
               (case i64_checked_neg v of
                  Some v \<Rightarrow> ok (IntC v span) p
                | None \<Rightarrow> fail_at span (lit ''integer out of range'') p)
           | _ \<Rightarrow> fail p (lit ''expected an integer after `-`, found '' @ found p))
      | k \<Rightarrow> fail p (lit ''expected a term, found '' @ describe k))"

subsection \<open>Heads\<close>

definition agg_var :: "parser \<Rightarrow> utext parsed" where
  "agg_var p =
     (case tk_kind (peek_tok p) of
        TIdent name \<Rightarrow>
          if name \<noteq> lit ''_'' then ok name (step_tok p)
          else fail p (lit ''expected a variable, found '' @ describe (TIdent name))
      | k \<Rightarrow> fail p (lit ''expected a variable, found '' @ describe k))"

definition parse_head_arg :: "parser \<Rightarrow> head_arg parsed" where
  "parse_head_arg p =
     (let tok = peek_tok p in
      case (tk_kind tok, peek_kind p 1) of
        (TIdent name, TLParen) \<Rightarrow>
          (case aggop_of name of
             None \<Rightarrow> fail p (lit ''unknown aggregate `'' @ name @ lit ''`'')
           | Some op \<Rightarrow>
               and_then (list_of False agg_var (step_tok (step_tok p))) (\<lambda>(vars, close) p.
                 ok (HAgg \<lparr>ag_op = op, ag_vars = vars, ag_span = join (tk_span tok) close\<rparr>) p))
      | _ \<Rightarrow> and_then (parse_term p) (\<lambda>t p. ok (HTerm t) p))"

definition parse_head :: "parser \<Rightarrow> head parsed" where
  "parse_head p =
     (let tok = peek_tok p;
          read = (\<lambda>name.
            let p = step_tok p; span = tk_span tok in
            (case eat_tok p TLParen of
               (Some _, p) \<Rightarrow>
                 and_then (list_of True parse_head_arg p) (\<lambda>(items, close) p.
                   ok \<lparr>hd_pred = name, hd_args = items, hd_span = join span close\<rparr> p)
             | (None, p) \<Rightarrow> ok \<lparr>hd_pred = name, hd_args = [], hd_span = span\<rparr> p))
      in case tk_kind tok of
           TIdent name \<Rightarrow>
             if name \<noteq> lit ''_'' then read name
             else fail p (lit ''expected a rule head, found '' @ describe (TIdent name))
         | TColonDash \<Rightarrow>
             fail p (lit ''expected a rule head, found `:-`; a rule needs a head, as in `violation(x) :- ...`'')
         | k \<Rightarrow> fail p (lit ''expected a rule head, found '' @ describe k))"

subsection \<open>Bodies\<close>

definition parse_atom :: "utext option \<Rightarrow> parser \<Rightarrow> atom parsed" where
  "parse_atom negation p =
     (let tok = peek_tok p;
          not_a_name = (\<lambda>k. case negation of
             Some neg \<Rightarrow> fail p (lit ''expected an atom after `'' @ neg @ lit ''`, found '' @ describe k)
           | None \<Rightarrow> fail p (lit ''expected a predicate name, found '' @ describe k))
      in case tk_kind tok of
           TIdent pred \<Rightarrow>
             if pred = lit ''_'' then not_a_name (TIdent pred)
             else if peek_kind p 1 \<noteq> TLParen then
               (let p = step_tok p in
                fail p (lit ''expected `('' @ lit ''` after `'' @ pred @ lit ''`, found '' @ found p @
                  lit ''; a body atom takes parentheses even at arity 0: write `'' @ pred @ lit ''()`''))
             else
               (case aggop_of pred of
                  Some op \<Rightarrow> fail p (head_only op)
                | None \<Rightarrow>
                    and_then (list_of True parse_term (step_tok (step_tok p))) (\<lambda>(args, close) p.
                      ok \<lparr>at_pred = pred, at_args = args, at_span = join (tk_span tok) close\<rparr> p))
         | k \<Rightarrow> not_a_name k)"

definition cmpop_of :: "token_kind \<Rightarrow> cmpop option" where
  "cmpop_of k =
     (case k of TEq \<Rightarrow> Some CEq | TNe \<Rightarrow> Some CNe | TLt \<Rightarrow> Some CLt | TLe \<Rightarrow> Some CLe | TGt \<Rightarrow> Some CGt
      | TGe \<Rightarrow> Some CGe | _ \<Rightarrow> None)"

definition parse_comparison :: "parser \<Rightarrow> comparison parsed" where
  "parse_comparison p =
     and_then (parse_term p) (\<lambda>left p.
       case cmpop_of (tk_kind (peek_tok p)) of
         Some op \<Rightarrow>
           and_then (parse_term (step_tok p)) (\<lambda>right p.
             ok \<lparr>cp_op = op, cp_left = left, cp_right = right, cp_span = join (tm_span left) (tm_span right)\<rparr> p)
       | None \<Rightarrow>
           if tk_kind (peek_tok p) = TLeftArrow then
             (let hint = (case peek_kind p 1 of
                 TInt n \<Rightarrow> lit ''write `'' @ tm_text left @ lit '' < -'' @ i64_text n @ lit ''`''
               | _ \<Rightarrow> lit ''write `<` and `-` apart, as in `'' @ tm_text left @ lit '' < -1`'')
              in fail p (lit ''`<-` here reads as an arrow; '' @ hint))
           else
             (let hint = (case left of
                 Var name _ \<Rightarrow> lit ''; if `'' @ name @ lit ''` is a 0-arity atom, write `'' @ name @ lit ''()`''
               | _ \<Rightarrow> [])
              in fail p (lit ''expected a comparison operator after `'' @ tm_text left @ lit ''`, found '' @ found p @ hint)))"

definition parse_literal :: "parser \<Rightarrow> literal parsed" where
  "parse_literal p =
     (let next_kind = peek_kind p 1;
          compare = and_then (parse_comparison p) (\<lambda>c p. ok (LCmp c) p)
      in case tk_kind (peek_tok p) of
           TBang \<Rightarrow> and_then (parse_atom (Some (lit ''!'')) (step_tok p)) (\<lambda>a p. ok (LNeg a) p)
         | TIdent name \<Rightarrow>
             if name = lit ''not'' \<and> next_kind \<noteq> TLParen \<and> \<not> is_cmpop next_kind then
               and_then (parse_atom (Some (lit ''not'')) (step_tok p)) (\<lambda>a p. ok (LNeg a) p)
             else if next_kind = TLParen then and_then (parse_atom None p) (\<lambda>a p. ok (LPos a) p)
             else compare
         | TStr _ \<Rightarrow> compare
         | TInt _ \<Rightarrow> compare
         | TMinus \<Rightarrow> compare
         | k \<Rightarrow> fail p (lit ''expected a body literal, found '' @ describe k))"

partial_function (option) body_loop :: "literal list \<Rightarrow> parser \<Rightarrow> literal list parsed" where
  "body_loop body p =
     (case parse_literal p of
        None \<Rightarrow> None
      | Some (r, p) \<Rightarrow>
          (case r of
             Inl e \<Rightarrow> Some (Inl e, p)
           | Inr l \<Rightarrow>
               (case eat_tok p TComma of
                  (c, p) \<Rightarrow> (case c of None \<Rightarrow> ok (body @ [l]) p | Some _ \<Rightarrow> body_loop (body @ [l]) p))))"

declare body_loop.simps [code]

subsection \<open>Clauses\<close>

definition first_wild :: "head_arg list \<Rightarrow> span option" where
  "first_wild args =
     (case find (\<lambda>a. case a of HTerm (Wild _) \<Rightarrow> True | _ \<Rightarrow> False) args of
        Some (HTerm t) \<Rightarrow> Some (tm_span t)
      | _ \<Rightarrow> None)"

definition finish_clause :: "head \<Rightarrow> literal list \<Rightarrow> parser \<Rightarrow> rule parsed" where
  "finish_clause h body p =
     (let dot = fst (advance p)
      in ok \<lparr>rl_head = h, rl_body = body, rl_span = join (hd_span h) (tk_span dot)\<rparr> (step_tok p))"

text \<open>A clause with a body, its \<open>:-\<close> just read, and one without.\<close>

definition clause_body :: "head \<Rightarrow> utext \<Rightarrow> parser \<Rightarrow> rule parsed" where
  "clause_body h sig p =
     and_then (body_loop [] p) (\<lambda>body p.
       if tk_kind (peek_tok p) \<noteq> TDot then
         (let hint = (if tk_kind (peek_tok p) = TSemicolon
              then lit ''; there is no `;` (or): write one rule per case'' else [])
          in fail p (lit ''expected `.` after the rule for `'' @ sig @ lit ''`, found '' @ found p @ hint))
       else finish_clause h body p)"

definition clause_fact :: "head \<Rightarrow> utext \<Rightarrow> parser \<Rightarrow> rule parsed" where
  "clause_fact h sig p =
     (if tk_kind (peek_tok p) = TDot then
        (case first_wild (hd_args h) of
           Some s \<Rightarrow> fail_at s (lit ''a fact may not contain `_`'') p
         | None \<Rightarrow> finish_clause h [] p)
      else
        (let hint = (if tk_kind (peek_tok p) = TLeftArrow
             then lit ''; a rule is written `head :- body.`'' else [])
         in fail p (lit ''expected `:-` or `.` after the head `'' @ sig @ lit ''`, found '' @ found p @ hint)))"

definition parse_clause :: "parser \<Rightarrow> rule parsed" where
  "parse_clause p =
     and_then (parse_head (p\<lparr>pr_predicate := None, pr_open := 0\<rparr>)) (\<lambda>h p.
       let sig = head_signature h; p = p\<lparr>pr_predicate := Some sig\<rparr> in
       case eat_tok p TColonDash of
         (Some _, p) \<Rightarrow> clause_body h sig p
       | (None, p) \<Rightarrow> clause_fact h sig p)"

text \<open>\<open>dot_inside_brackets\<close> scans the tokens after the dot.\<close>

fun closes_before_boundary :: "nat \<Rightarrow> token list \<Rightarrow> bool" where
  "closes_before_boundary depth [] = False"
| "closes_before_boundary depth (t # ts) =
     (case tk_kind t of
        TLParen \<Rightarrow> closes_before_boundary (depth + 1) ts
      | TRParen \<Rightarrow> if depth = 0 then True else closes_before_boundary (depth - 1) ts
      | TDot \<Rightarrow> if depth = 0 then False else closes_before_boundary depth ts
      | TColonDash \<Rightarrow> False
      | TEof \<Rightarrow> False
      | _ \<Rightarrow> closes_before_boundary depth ts)"

definition dot_inside_brackets :: "parser \<Rightarrow> bool" where
  "dot_inside_brackets p = closes_before_boundary 0 (drop (pr_pos p + 1) (pr_tokens p))"

partial_function (option) recover_loop :: "nat \<Rightarrow> parser \<Rightarrow> parser option" where
  "recover_loop depth p =
     (let k = tk_kind (peek_tok p); p' = p\<lparr>pr_pos := pr_pos p + 1\<rparr> in
      if k = TEof then Some p
      else if k = TLParen then recover_loop (depth + 1) p'
      else if k = TRParen then recover_loop (depth - 1) p'
      else if k = TColonDash then recover_loop 0 p'
      else if k = TDot \<and> (depth = 0 \<or> \<not> dot_inside_brackets p) then Some p'
      else recover_loop depth p')"

declare recover_loop.simps [code]

definition recover :: "parser \<Rightarrow> parser option" where
  "recover p = recover_loop (pr_open p) p"

partial_function (option) clauses :: "utext \<Rightarrow> rule list \<Rightarrow> diagnostic list \<Rightarrow> parser \<Rightarrow> (rule list \<times> diagnostic list) option" where
  "clauses name rules diags p =
     (if length diags < max_diagnostics \<and> tk_kind (peek_tok p) \<noteq> TEof then
        (case parse_clause p of
           None \<Rightarrow> None
         | Some (r, p) \<Rightarrow>
             (case r of
                Inr rl \<Rightarrow> clauses name (rules @ [rl]) diags p
              | Inl e \<Rightarrow>
                  (case recover p of
                     None \<Rightarrow> None
                   | Some p' \<Rightarrow>
                       clauses name rules
                         (diags @ [diag_error (fl_span e) name (pr_predicate p) (fl_message e)]) p')))
      else Some (rules, diags))"

declare clauses.simps [code]

definition parse_program :: "utext \<Rightarrow> utext \<Rightarrow> (rules_error + program) option" where
  "parse_program name text =
     (let (source, program) = add_source program_new name in
      case lex source name text of
        Inl e \<Rightarrow> Some (Inl e)
      | Inr tokens \<Rightarrow>
          (case clauses name [] [] \<lparr>pr_tokens = tokens, pr_pos = 0, pr_predicate = None, pr_open = 0\<rparr> of
             None \<Rightarrow> None
           | Some (rules, diags) \<Rightarrow>
               Some (if diags = [] then Inr (program\<lparr>pg_rules := rules\<rparr>) else Inl (EParse diags))))"

end
