(* ===== verification/ParseRuns.thy ===== *)
theory ParseRuns
  imports Parser
begin

text \<open>
  The parser returns on every text. No step moves back, a list or a body goes on only past a
  comma, a clause ends past its dot, and recovery moves past at least one token.
\<close>

declare lit_simps [simp del] lit_append [simp del]

definition forward :: "parser \<Rightarrow> parser \<Rightarrow> bool" where
  "forward p q \<longleftrightarrow> pr_tokens q = pr_tokens p \<and> pr_pos p \<le> pr_pos q"

definition runs :: "parser \<Rightarrow> 'a parsed \<Rightarrow> bool" where
  "runs p m \<longleftrightarrow> (\<exists>r q. m = Some (r, q) \<and> forward p q)"

named_theorems run_intros "parsing steps that return"

lemma forward_refl [simp]: "forward p p"
  by (simp add: forward_def)

lemma forward_trans: "forward p q \<Longrightarrow> forward q r \<Longrightarrow> forward p r"
  by (simp add: forward_def)

lemma forward_step [simp]: "forward p (step_tok p)"
  by (simp add: forward_def step_tok_def advance_def)

lemma forward_steps [simp]: "forward p (step_tok (step_tok p))"
  by (rule forward_trans) (rule forward_step)+

lemma runs_simps [simp]:
  "runs p (ok a q) = forward p q" "runs p (fail_at s m q) = forward p q" "runs p (fail q m) = forward p q"
  by (simp_all add: runs_def ok_def fail_at_def fail_def)

lemma runs_and_then:
  assumes "runs p m" and "\<And>a q. forward p q \<Longrightarrow> runs q (f a q)"
  shows "runs p (and_then m f)"
proof -
  obtain r q where m: "m = Some (r, q)" "forward p q" using assms(1) by (auto simp: runs_def)
  show ?thesis
  proof (cases r)
    case (Inl e)
    then show ?thesis using m by (simp add: runs_def)
  next
    case (Inr a)
    then show ?thesis using m assms(2) [OF m(2), of a] by (auto simp: runs_def intro: forward_trans)
  qed
qed

lemma runs_from: "forward p q \<Longrightarrow> runs q m \<Longrightarrow> runs p m"
  by (auto simp: runs_def intro: forward_trans)

lemma step_moves: "tk_kind (peek_tok p) \<noteq> TEof \<Longrightarrow> pr_pos (step_tok p) = Suc (pr_pos p)"
  by (simp add: step_tok_def advance_def)

lemma peek_in_range: "tk_kind (peek_tok p) \<noteq> TEof \<Longrightarrow> pr_pos p < length (pr_tokens p)"
  by (auto simp: peek_tok_def END_token_def split: if_splits)

definition unread :: "parser \<Rightarrow> nat" where
  "unread p = length (pr_tokens p) - pr_pos p"

lemma unread_step: "forward p q \<Longrightarrow> tk_kind (peek_tok q) \<noteq> TEof \<Longrightarrow> unread (step_tok q) < unread p"
  using peek_in_range [of q] step_moves [of q] by (auto simp: unread_def forward_def step_tok_def advance_def)

lemma eat_tok_eq: "eat_tok p k = (if tk_kind (peek_tok p) = k then (Some (peek_tok p), step_tok p) else (None, p))"
  by (simp add: eat_tok_def advance_def)

lemma runs_list_loop:
  assumes "\<And>p. runs p (item p)"
  shows "runs p (list_loop item items p)"
proof (induction "unread p" arbitrary: items p rule: less_induct)
  case less
  obtain r q where q: "item p = Some (r, q)" "forward p q" using assms [of p] by (auto simp: runs_def)
  show ?case
  proof (cases r)
    case (Inl e)
    then show ?thesis using q by (subst list_loop.simps) (simp add: runs_def)
  next
    case (Inr a)
    have "runs p (list_loop item (items @ [a]) (step_tok q))" if "tk_kind (peek_tok q) = TComma"
      by (rule runs_from [OF forward_trans [OF q(2) forward_step] less]) (use unread_step [OF q(2)] that in simp)
    then show ?thesis using q(1) Inr forward_trans [OF q(2) forward_step] q(2) by (subst list_loop.simps) simp
  qed
qed

lemma runs_list_of [run_intros]:
  assumes "\<And>p. runs p (item p)" and "forward p q"
  shows "runs p (list_of b item q)"
proof (rule runs_from [OF assms(2)])
  have "runs q (list_loop item [] q)" by (rule runs_list_loop) (rule assms(1))
  then show "runs q (list_of b item q)" by (simp add: list_of_def eat_tok_eq)
qed

lemma runs_term [run_intros]: "runs p (parse_term p)"
  by (simp add: parse_term_def split: token_kind.split option.split)

lemma runs_agg_var [run_intros]: "runs p (agg_var p)"
  by (simp add: agg_var_def split: token_kind.split)

lemma runs_head_arg [run_intros]: "runs p (parse_head_arg p)"
proof -
  have "runs p (and_then (parse_term p) (\<lambda>t. ok (HTerm t)))"
    by (rule runs_and_then [OF runs_term]) simp
  moreover have "runs p (and_then (list_of False agg_var (step_tok (step_tok p))) (\<lambda>(vars, close). ok (f vars close)))"
    for f :: "utext list \<Rightarrow> span \<Rightarrow> head_arg"
    by (rule runs_and_then [OF runs_list_of [OF runs_agg_var forward_steps]]) (simp split: prod.split)
  ultimately show ?thesis
    by (simp add: parse_head_arg_def split: token_kind.split option.split)
qed

lemma runs_head: "runs p (parse_head p)"
proof -
  have "runs p (and_then (list_of True parse_head_arg (step_tok (step_tok p))) (\<lambda>(items, close). ok (f items close)))"
    for f :: "head_arg list \<Rightarrow> span \<Rightarrow> head"
    by (rule runs_and_then [OF runs_list_of [OF runs_head_arg forward_steps]]) (simp split: prod.split)
  then show ?thesis by (simp add: parse_head_def eat_tok_eq split: token_kind.split)
qed

lemma runs_atom: "forward p q \<Longrightarrow> runs p (parse_atom neg q)"
proof (rule runs_from [of p q])
  have "runs q (and_then (list_of True parse_term (step_tok (step_tok q))) (\<lambda>(args, close). ok (f args close)))"
    for f :: "tm list \<Rightarrow> span \<Rightarrow> atom"
    by (rule runs_and_then [OF runs_list_of [OF runs_term forward_steps]]) (simp split: prod.split)
  then show "runs q (parse_atom neg q)" by (simp add: parse_atom_def split: token_kind.split option.split)
qed

lemma runs_comparison: "runs p (parse_comparison p)"
  unfolding parse_comparison_def
proof (rule runs_and_then [OF runs_term], goal_cases)
  case (1 l q)
  have "runs q (and_then (parse_term (step_tok q)) (\<lambda>r. ok (f r)))" for f :: "tm \<Rightarrow> comparison"
    by (rule runs_and_then [OF runs_from [OF forward_step runs_term]]) simp
  then show ?case by (simp split: option.split)
qed

lemma runs_literal: "runs p (parse_literal p)"
proof -
  have "runs p (and_then (parse_atom n p) (\<lambda>a. ok (f a)))" "runs p (and_then (parse_atom n (step_tok p)) (\<lambda>a. ok (f a)))"
    "runs p (and_then (parse_comparison p) (\<lambda>c. ok (LCmp c)))" for n and f :: "atom \<Rightarrow> literal"
    by (rule runs_and_then, simp_all add: runs_atom runs_comparison)+
  then show ?thesis by (simp add: parse_literal_def split: token_kind.split)
qed

lemma runs_body_loop: "runs p (body_loop body p)"
proof (induction "unread p" arbitrary: body p rule: less_induct)
  case less
  obtain r q where q: "parse_literal p = Some (r, q)" "forward p q" using runs_literal [of p] by (auto simp: runs_def)
  show ?case
  proof (cases r)
    case (Inl e)
    then show ?thesis using q by (subst body_loop.simps) (simp add: runs_def)
  next
    case (Inr a)
    have "runs p (body_loop (body @ [a]) (step_tok q))" if "tk_kind (peek_tok q) = TComma"
      by (rule runs_from [OF forward_trans [OF q(2) forward_step] less]) (use unread_step [OF q(2)] that in simp)
    then show ?thesis using q Inr by (subst body_loop.simps) (simp add: eat_tok_eq)
  qed
qed

lemma forward_set: "forward (p\<lparr>pr_predicate := a, pr_open := b\<rparr>) q = forward p q" "forward (p\<lparr>pr_predicate := a\<rparr>) q = forward p q"
  "forward p (q\<lparr>pr_predicate := a\<rparr>) = forward p q"
  by (simp_all add: forward_def)

text \<open>A clause that is read moved past its dot.\<close>

definition past :: "parser \<Rightarrow> 'a parsed \<Rightarrow> bool" where
  "past p m \<longleftrightarrow>
     (\<exists>r q. m = Some (r, q) \<and> forward p q \<and> (case r of Inl _ \<Rightarrow> True | Inr _ \<Rightarrow> unread q < unread p))"

lemma past_and_then:
  assumes "runs p m" and "\<And>a q. forward p q \<Longrightarrow> past p (f a q)"
  shows "past p (and_then m f)"
proof -
  obtain r q where m: "m = Some (r, q)" "forward p q" using assms(1) by (auto simp: runs_def)
  then show ?thesis using assms(2) [OF m(2)] by (cases r) (simp_all add: past_def)
qed

lemma past_fail: "forward p q \<Longrightarrow> past p (fail q m)" "forward p q \<Longrightarrow> past p (fail_at s m q)"
  by (simp_all add: past_def fail_def fail_at_def)

lemma past_finish: "forward p q \<Longrightarrow> tk_kind (peek_tok q) = TDot \<Longrightarrow> past p (finish_clause h body q)"
  using unread_step [of p q] by (auto simp: past_def finish_clause_def ok_def intro: forward_trans)

lemma past_body: "past p (clause_body h sig p)"
  unfolding clause_body_def by (rule past_and_then [OF runs_body_loop]) (simp add: past_fail past_finish)

lemma past_fact: "past p (clause_fact h sig p)"
  by (simp add: clause_fact_def past_fail past_finish split: option.split)

lemma past_from: "forward p q \<Longrightarrow> past q m \<Longrightarrow> past p m"
proof -
  assume pq: "forward p q" and "past q m"
  then obtain r q' where m: "m = Some (r, q')" "forward q q'" "case r of Inl _ \<Rightarrow> True | Inr _ \<Rightarrow> unread q' < unread q"
    by (auto simp: past_def)
  have "unread q \<le> unread p" using pq by (auto simp: unread_def forward_def)
  then show ?thesis using m forward_trans [OF pq m(2)] by (cases r) (simp_all add: past_def)
qed

lemma past_clause: "past p (parse_clause p)"
proof -
  let ?p = "p\<lparr>pr_predicate := None, pr_open := 0\<rparr>"
  have head: "runs p (parse_head ?p)"
    by (rule runs_from [of p ?p]) (auto simp: forward_def runs_head)
  show ?thesis unfolding parse_clause_def
  proof (rule past_and_then [OF head])
    fix h q assume pq: "forward p q"
    define q1 where "q1 = q\<lparr>pr_predicate := Some (head_signature h)\<rparr>"
    have q1: "forward p q1" using pq by (simp add: q1_def forward_def)
    have "past p (clause_body h (head_signature h) (step_tok q1))"
      by (rule past_from [OF forward_trans [OF q1 forward_step] past_body])
    moreover have "past p (clause_fact h (head_signature h) q1)" by (rule past_from [OF q1 past_fact])
    ultimately show "past p (let sig = head_signature h; p = q\<lparr>pr_predicate := Some sig\<rparr> in
       case eat_tok p TColonDash of
         (Some _, p) \<Rightarrow> clause_body h sig p
       | (None, p) \<Rightarrow> clause_fact h sig p)"
      by (simp add: q1_def eat_tok_eq)
  qed
qed

lemma recover_loop_returns:
  "\<exists>q. recover_loop depth p = Some q \<and> forward p q \<and> (tk_kind (peek_tok p) \<noteq> TEof \<longrightarrow> unread q < unread p)"
proof (induction "unread p" arbitrary: depth p rule: less_induct)
  case less
  show ?case
  proof (cases "tk_kind (peek_tok p) = TEof")
    case True
    then show ?thesis by (subst recover_loop.simps) simp
  next
    case False
    let ?p = "p\<lparr>pr_pos := pr_pos p + 1\<rparr>"
    have step: "unread ?p < unread p" using peek_in_range [OF False] by (simp add: unread_def)
    have p: "forward p ?p" by (simp add: forward_def)
    have "\<exists>q. recover_loop d ?p = Some q \<and> forward p q \<and> unread q < unread p" for d
    proof -
      obtain q where q: "recover_loop d ?p = Some q" "forward ?p q" using less [OF step, of d] by blast
      then have "unread q \<le> unread ?p" by (auto simp: unread_def forward_def)
      then show ?thesis using q step p by (auto intro: forward_trans)
    qed
    then show ?thesis using False step p by (subst recover_loop.simps) auto
  qed
qed

lemma clauses_return: "\<exists>rules' diags'. clauses name rules diags p = Some (rules', diags')"
proof (induction "unread p" arbitrary: rules diags p rule: less_induct)
  case less
  show ?case
  proof (cases "length diags < max_diagnostics \<and> tk_kind (peek_tok p) \<noteq> TEof")
    case False
    then show ?thesis by (subst clauses.simps) auto
  next
    case True
    obtain r q where q: "parse_clause p = Some (r, q)" "forward p q" "case r of Inl _ \<Rightarrow> True | Inr _ \<Rightarrow> unread q < unread p"
      using past_clause [of p] by (auto simp: past_def)
    show ?thesis
    proof (cases r)
      case (Inr rl)
      then show ?thesis using True q less [of q] by (subst clauses.simps) simp
    next
      case (Inl e)
      obtain q' where q': "recover q = Some q'" "forward q q'" "tk_kind (peek_tok q) \<noteq> TEof \<longrightarrow> unread q' < unread q"
        using recover_loop_returns [of "pr_open q" q] by (auto simp: recover_def)
      let ?diags = "diags @ [diag_error (fl_span e) name (pr_predicate q) (fl_message e)]"
      have "\<exists>rules' diags'. clauses name rules ?diags q' = Some (rules', diags')"
      proof (cases "tk_kind (peek_tok q) = TEof")
        case True
        then have "q' = q" using q'(1) by (simp add: recover_def recover_loop.simps)
        then show ?thesis using True by (subst clauses.simps) simp
      next
        case False
        have "unread q \<le> unread p" using q(2) by (auto simp: unread_def forward_def)
        then show ?thesis using less [of q'] q'(3) False by auto
      qed
      then show ?thesis using True q(1) q'(1) Inl by (subst clauses.simps) simp
    qed
  qed
qed

text \<open>
  C34: parsing returns on every text, with a program or with at least one diagnostic.
\<close>

theorem parse_program_returns:
  "case parse_program name text of
     None \<Rightarrow> False
   | Some (Inl e) \<Rightarrow> error_diagnostics e \<noteq> []
   | Some (Inr p) \<Rightarrow> pg_sources p = [name]"
proof (cases "lex 0 name text")
  case (Inl e)
  then have "error_diagnostics e \<noteq> []" by (auto simp: lex_def error_diagnostics_def split: if_splits)
  then show ?thesis using Inl by (simp add: parse_program_def add_source_def program_new_def u16_sat_def)
next
  case (Inr tokens)
  obtain rules diags where "clauses name [] [] \<lparr>pr_tokens = tokens, pr_pos = 0, pr_predicate = None, pr_open = 0\<rparr> =
      Some (rules, diags)" using clauses_return by blast
  then show ?thesis using Inr
    by (simp add: parse_program_def add_source_def program_new_def u16_sat_def error_diagnostics_def)
qed

end
