(* ===== verification/RoundTrip.thy ===== *)
theory RoundTrip
  imports LexText ParseRuns "HOL-Library.Code_Target_Numeral"
begin

text \<open>
  The canonical text of a program parses back to it, up to spans. The two halves meet at the token
  kinds: the text lexes to the tokens of the program, and the parser reads those tokens back.
\<close>

declare lit_simps [simp] lit_append [simp]

subsection \<open>The tokens of a program\<close>

fun commas :: "token_kind list list \<Rightarrow> token_kind list" where
  "commas [] = []"
| "commas [x] = x"
| "commas (x # y # ys) = x @ [TComma] @ commas (y # ys)"

definition tm_toks :: "tm \<Rightarrow> token_kind list" where
  "tm_toks t =
     (case t of Var n _ \<Rightarrow> [TIdent n] | Wild _ \<Rightarrow> [TIdent (lit ''_'')] | StrC s _ \<Rightarrow> [TStr s] | IntC w _ \<Rightarrow> int_toks w)"

definition aggregate_toks :: "aggregate \<Rightarrow> token_kind list" where
  "aggregate_toks a =
     [TIdent (aggop_name (ag_op a)), TLParen] @ commas (map (\<lambda>v. [TIdent v]) (ag_vars a)) @ [TRParen]"

definition head_arg_toks :: "head_arg \<Rightarrow> token_kind list" where
  "head_arg_toks a = (case a of HTerm t \<Rightarrow> tm_toks t | HAgg g \<Rightarrow> aggregate_toks g)"

definition head_toks :: "head \<Rightarrow> token_kind list" where
  "head_toks h =
     [TIdent (hd_pred h)] @
     (if hd_args h = [] then [] else [TLParen] @ commas (map head_arg_toks (hd_args h)) @ [TRParen])"

definition atom_toks :: "atom \<Rightarrow> token_kind list" where
  "atom_toks a = [TIdent (at_pred a), TLParen] @ commas (map tm_toks (at_args a)) @ [TRParen]"

definition cmpop_tok :: "cmpop \<Rightarrow> token_kind" where
  "cmpop_tok op = (case op of CEq \<Rightarrow> TEq | CNe \<Rightarrow> TNe | CLt \<Rightarrow> TLt | CLe \<Rightarrow> TLe | CGt \<Rightarrow> TGt | CGe \<Rightarrow> TGe)"

definition literal_toks :: "literal \<Rightarrow> token_kind list" where
  "literal_toks l =
     (case l of
        LPos a \<Rightarrow> atom_toks a
      | LNeg a \<Rightarrow> [TBang] @ atom_toks a
      | LCmp c \<Rightarrow> tm_toks (cp_left c) @ [cmpop_tok (cp_op c)] @ tm_toks (cp_right c))"

definition rule_toks :: "rule \<Rightarrow> token_kind list" where
  "rule_toks r =
     head_toks (rl_head r) @
     (if rl_body r = [] then [] else [TColonDash] @ commas (map literal_toks (rl_body r))) @ [TDot]"

subsection \<open>Programs whose text is canonical\<close>

definition name_ok :: "utext \<Rightarrow> bool" where
  "name_ok n \<longleftrightarrow> is_ident n \<and> n \<noteq> lit ''_''"

definition tm_ok :: "tm \<Rightarrow> bool" where
  "tm_ok t = (case t of Var n _ \<Rightarrow> name_ok n | _ \<Rightarrow> True)"

definition head_arg_ok :: "head_arg \<Rightarrow> bool" where
  "head_arg_ok a =
     (case a of HTerm t \<Rightarrow> tm_ok t | HAgg g \<Rightarrow> ag_vars g \<noteq> [] \<and> list_all name_ok (ag_vars g))"

definition atom_ok :: "atom \<Rightarrow> bool" where
  "atom_ok a \<longleftrightarrow> name_ok (at_pred a) \<and> aggop_of (at_pred a) = None \<and> list_all tm_ok (at_args a)"

definition literal_ok :: "literal \<Rightarrow> bool" where
  "literal_ok l = (case l of LPos a \<Rightarrow> atom_ok a | LNeg a \<Rightarrow> atom_ok a | LCmp c \<Rightarrow> tm_ok (cp_left c) \<and> tm_ok (cp_right c))"

definition rule_ok :: "rule \<Rightarrow> bool" where
  "rule_ok r \<longleftrightarrow>
     name_ok (hd_pred (rl_head r)) \<and> list_all head_arg_ok (hd_args (rl_head r)) \<and> list_all literal_ok (rl_body r) \<and>
     (rl_body r = [] \<longrightarrow> first_wild (hd_args (rl_head r)) = None)"

text \<open>
  The two things it takes: every predicate and variable name is an identifier (and not \<open>_\<close>), and the
  rule is one the grammar has. The IR holds rules the grammar has not: a body atom named like an
  aggregate, an aggregate over no variable, a fact with a wildcard.
\<close>

definition names_ok :: "rule \<Rightarrow> bool" where
  "names_ok r \<longleftrightarrow>
     name_ok (hd_pred (rl_head r)) \<and>
     list_all (\<lambda>a. case a of HTerm t \<Rightarrow> tm_ok t | HAgg g \<Rightarrow> list_all name_ok (ag_vars g)) (hd_args (rl_head r)) \<and>
     list_all (\<lambda>l. case l of
         LPos a \<Rightarrow> name_ok (at_pred a) \<and> list_all tm_ok (at_args a)
       | LNeg a \<Rightarrow> name_ok (at_pred a) \<and> list_all tm_ok (at_args a)
       | LCmp c \<Rightarrow> tm_ok (cp_left c) \<and> tm_ok (cp_right c)) (rl_body r)"

definition grammatical :: "rule \<Rightarrow> bool" where
  "grammatical r \<longleftrightarrow>
     list_all (\<lambda>a. case a of HTerm t \<Rightarrow> True | HAgg g \<Rightarrow> ag_vars g \<noteq> []) (hd_args (rl_head r)) \<and>
     list_all (\<lambda>l. case l of
         LPos a \<Rightarrow> aggop_of (at_pred a) = None
       | LNeg a \<Rightarrow> aggop_of (at_pred a) = None
       | LCmp c \<Rightarrow> True) (rl_body r) \<and>
     (rl_body r = [] \<longrightarrow> first_wild (hd_args (rl_head r)) = None)"

lemma rule_ok_iff: "rule_ok r \<longleftrightarrow> names_ok r \<and> grammatical r"
  by (auto simp: rule_ok_def names_ok_def grammatical_def head_arg_ok_def literal_ok_def atom_ok_def list_all_iff
      split: head_arg.splits literal.splits)

definition erase_rule :: "rule \<Rightarrow> rule" where
  "erase_rule = visit_spans (\<lambda>s. span_default)"

subsection \<open>The text lexes to the tokens\<close>

lemma delim_digit: "stops ident_char r \<Longrightarrow> stops is_ascii_digit r"
  by (auto simp: stops_def ident_char_def is_ascii_alphanumeric_def split: list.splits)

lemma not_ident_char [simp]:
  "\<not> ident_char 40" "\<not> ident_char 41" "\<not> ident_char 44" "\<not> ident_char 46" "\<not> ident_char 32" "\<not> ident_char 10"
  by (simp_all add: ident_char_def is_ascii_alphanumeric_def is_ascii_alphabetic_def is_ascii_digit_def)

lemma name_is_ident: "name_ok n \<Longrightarrow> is_ident n"
  by (simp add: name_ok_def)

lemma lexes_tm: "tm_ok t \<Longrightarrow> stops ident_char r \<Longrightarrow> lexes (tm_text t) (tm_toks t) r"
  by (cases t)
    (auto simp: tm_text_def tm_toks_def tm_ok_def is_ident_def name_ok_def is_ascii_alphabetic_def
      intro: lexes_ident lexes_str lexes_int delim_digit intro!: lexes_ident [of "[95]", simplified])

lemma lexes_comma: "lexes (lit '', '') [TComma] r"
proof -
  have "lexes (lit '','' @ lit '' '') ([TComma] @ []) r"
    by (intro lexes_append lexes_one) (simp add: lexes_white is_whitespace_def)
  then show ?thesis by simp
qed

lemma lexes_list:
  assumes "\<And>x r. x \<in> set xs \<Longrightarrow> stops ident_char r \<Longrightarrow> lexes (f x) (g x) r" and "stops ident_char r"
  shows "lexes (list_text (map f xs)) (commas (map g xs)) r"
  using assms
proof (induction xs rule: induct_list012)
  case 1
  then show ?case by (simp add: list_text_def lexes_Nil)
next
  case (2 x)
  then show ?case by (simp add: list_text_def)
next
  case (3 x y xs)
  have rest: "lexes (list_text (map f (y # xs))) (commas (map g (y # xs))) r" using 3 by simp
  have "lexes (f x) (g x) ((lit '', '' @ list_text (map f (y # xs))) @ r)" by (rule 3) simp_all
  then have "lexes (f x @ (lit '', '' @ list_text (map f (y # xs)))) (g x @ ([TComma] @ commas (map g (y # xs)))) r"
    by (rule lexes_append) (rule lexes_append [OF lexes_comma rest])
  then show ?case by (simp add: list_text_def)
qed

text \<open>A name and a parenthesised list.\<close>

lemma lexes_call:
  assumes "is_ident n" and "\<And>x r. x \<in> set xs \<Longrightarrow> stops ident_char r \<Longrightarrow> lexes (f x) (g x) r"
  shows "lexes (n @ lit ''('' @ list_text (map f xs) @ lit '')'') ([TIdent n] @ [TLParen] @ commas (map g xs) @ [TRParen]) r"
  by (intro lexes_append lexes_ident lexes_one lexes_list assms) simp_all

lemma ident_aggop: "is_ident (aggop_name op)"
  by (cases op) (simp_all add: aggop_name_def is_ident_def ident_char_def is_ascii_alphanumeric_def is_ascii_alphabetic_def)

lemma lexes_head_arg:
  assumes "head_arg_ok a" and "stops ident_char r"
  shows "lexes (head_arg_text a) (head_arg_toks a) r"
proof (cases a)
  case (HTerm t)
  then show ?thesis using assms by (simp add: head_arg_ok_def head_arg_text_def head_arg_toks_def lexes_tm)
next
  case (HAgg g)
  then have vars: "\<And>v. v \<in> set (ag_vars g) \<Longrightarrow> is_ident v"
    using assms(1) by (auto simp: head_arg_ok_def list_all_iff name_ok_def)
  have "lexes (aggop_name (ag_op g) @ lit ''('' @ list_text (map (\<lambda>v. v) (ag_vars g)) @ lit '')'')
      ([TIdent (aggop_name (ag_op g))] @ [TLParen] @ commas (map (\<lambda>v. [TIdent v]) (ag_vars g)) @ [TRParen]) r"
    by (rule lexes_call [OF ident_aggop lexes_ident]) (auto intro: vars)
  then show ?thesis using HAgg by (simp add: head_arg_text_def head_arg_toks_def aggregate_text_def aggregate_toks_def)
qed

lemma lexes_head:
  assumes "name_ok (hd_pred h)" and "list_all head_arg_ok (hd_args h)" and "stops ident_char r"
  shows "lexes (head_text h) (head_toks h) r"
proof (cases "hd_args h = []")
  case True
  then show ?thesis using assms by (simp add: head_text_def head_toks_def lexes_ident name_is_ident)
next
  case False
  have "lexes (hd_pred h @ lit ''('' @ list_text (map head_arg_text (hd_args h)) @ lit '')'')
      ([TIdent (hd_pred h)] @ [TLParen] @ commas (map head_arg_toks (hd_args h)) @ [TRParen]) r"
    by (rule lexes_call [OF name_is_ident [OF assms(1)] lexes_head_arg]) (use assms(2) in \<open>auto simp: list_all_iff\<close>)
  then show ?thesis using False by (simp add: head_text_def head_toks_def)
qed

lemma lexes_atom:
  assumes "atom_ok a"
  shows "lexes (atom_text a) (atom_toks a) r"
proof -
  have "lexes (at_pred a @ lit ''('' @ list_text (map tm_text (at_args a)) @ lit '')'')
      ([TIdent (at_pred a)] @ [TLParen] @ commas (map tm_toks (at_args a)) @ [TRParen]) r"
    by (rule lexes_call [OF name_is_ident lexes_tm]) (use assms in \<open>auto simp: atom_ok_def list_all_iff\<close>)
  then show ?thesis by (simp add: atom_text_def atom_toks_def)
qed

lemma lexes_cmpop: "lexes (cmpop_symbol op) [cmpop_tok op] (lit '' '' @ r)"
proof -
  have "\<not> starts cs (lit '' '' @ r)" if "CHR '' '' \<notin> set cs" for cs
  proof -
    have "x = CHR '' ''" if x: "of_char x = (32 :: nat)" for x
    proof -
      have "(of_char x :: nat) = of_char CHR '' ''" using x by simp
      then show ?thesis by (rule of_char_eqI)
    qed
    then show ?thesis using that by (auto simp: starts_def)
  qed
  then show ?thesis
    using lexes_one(4) lexes_two(2,3,4) lexes_greedy(4,5) by (cases op) (simp_all add: cmpop_symbol_def cmpop_tok_def)
qed

lemma lexes_space: "lexes (lit '' '') [] r"
  by (simp add: lexes_white is_whitespace_def)

lemma lexes_literal:
  assumes "literal_ok l" and "stops ident_char r"
  shows "lexes (literal_text l) (literal_toks l) r"
proof (cases l)
  case (LPos a)
  then show ?thesis using assms(1) by (simp add: literal_ok_def literal_text_def literal_toks_def lexes_atom)
next
  case (LNeg a)
  then have a: "atom_ok a" using assms(1) by (simp add: literal_ok_def)
  then have "\<not> starts ''='' (atom_text a @ r)"
    by (auto simp: atom_text_def atom_ok_def name_ok_def is_ident_def starts_def is_ascii_alphabetic_def split: list.splits)
  then have "lexes (lit ''!'' @ atom_text a) ([TBang] @ atom_toks a) r"
    by (intro lexes_append lexes_greedy lexes_atom a)
  then show ?thesis using LNeg by (simp add: literal_text_def literal_toks_def)
next
  case (LCmp c)
  then have c: "tm_ok (cp_left c)" "tm_ok (cp_right c)" using assms(1) by (simp_all add: literal_ok_def)
  have "lexes (tm_text (cp_left c) @ lit '' '' @ cmpop_symbol (cp_op c) @ lit '' '' @ tm_text (cp_right c))
      (tm_toks (cp_left c) @ [] @ [cmpop_tok (cp_op c)] @ [] @ tm_toks (cp_right c)) r"
    by (intro lexes_append lexes_tm lexes_space c assms(2))
      (use lexes_cmpop [of "cp_op c" "tm_text (cp_right c) @ r"] in \<open>simp_all\<close>)
  then show ?thesis using LCmp by (simp add: literal_text_def literal_toks_def comparison_text_def)
qed

lemma lexes_rule:
  assumes "rule_ok r"
  shows "lexes (rule_text r @ [10]) (rule_toks r) t"
proof -
  have h: "name_ok (hd_pred (rl_head r))" "list_all head_arg_ok (hd_args (rl_head r))"
    and lits: "\<And>l. l \<in> set (rl_body r) \<Longrightarrow> literal_ok l"
    using assms by (simp_all add: rule_ok_def list_all_iff)
  have dot: "lexes (lit ''.'' @ [10]) ([TDot] @ []) t"
    by (intro lexes_append lexes_greedy lexes_white) (simp_all add: starts_def is_whitespace_def)
  show ?thesis
  proof (cases "rl_body r = []")
    case True
    have "lexes (head_text (rl_head r) @ (lit ''.'' @ [10])) (head_toks (rl_head r) @ ([TDot] @ [])) t"
      by (intro lexes_append [OF lexes_head [OF h] dot]) simp
    then show ?thesis using True by (simp add: rule_text_def rule_toks_def)
  next
    case False
    have "lexes (head_text (rl_head r) @ lit '' '' @ lit '':-'' @ lit '' '' @
          (list_text (map literal_text (rl_body r)) @ (lit ''.'' @ [10])))
        (head_toks (rl_head r) @ [] @ [TColonDash] @ [] @ (commas (map literal_toks (rl_body r)) @ ([TDot] @ []))) t"
      by (intro lexes_append lexes_head h lexes_space lexes_two lexes_list lexes_literal lits lexes_greedy lexes_white)
        (simp_all add: starts_def is_whitespace_def)
    then show ?thesis using False by (simp add: rule_text_def rule_toks_def)
  qed
qed

lemma lexes_rules:
  "list_all rule_ok rs \<Longrightarrow> lexes (concat (map (\<lambda>r. rule_text r @ [10]) rs)) (concat (map rule_toks rs)) t"
proof (induction rs)
  case Nil
  then show ?case by (simp add: lexes_Nil)
next
  case (Cons r rs)
  then have "lexes ((rule_text r @ [10]) @ concat (map (\<lambda>r. rule_text r @ [10]) rs))
      (rule_toks r @ concat (map rule_toks rs)) t"
    by (intro lexes_append lexes_rule) simp_all
  then show ?case by simp
qed

lemma program_lexes:
  assumes "list_all rule_ok (pg_rules pg)"
  shows "\<exists>tokens. lex source name (program_text pg) = Inr tokens \<and>
    map tk_kind tokens = concat (map rule_toks (pg_rules pg)) @ [TEof]"
proof (rule lexes_end)
  show "lexes (program_text pg) (concat (map rule_toks (pg_rules pg))) []"
    unfolding program_text_def using assms by (rule lexes_rules)
  have "program_text pg = [] \<or> hd (program_text pg) \<noteq> byte_order_mark"
  proof (cases "pg_rules pg")
    case (Cons r rs)
    then show ?thesis using assms
      by (auto simp: program_text_def rule_text_def head_text_def rule_ok_def name_ok_def is_ident_def
          is_ascii_alphabetic_def byte_order_mark_def split: list.splits)
  qed (simp add: program_text_def)
  then show "cu_rest (cursor_new (program_text pg)) = program_text pg"
    by (cases "program_text pg") (simp_all add: cursor_new_def cu_rest_def)
qed

subsection \<open>The parser reads the tokens back\<close>

definition pk :: "parser \<Rightarrow> token_kind list" where
  "pk p = map tk_kind (drop (pr_pos p) (pr_tokens p))"

definition reads :: "(parser \<Rightarrow> 'a parsed) \<Rightarrow> token_kind list \<Rightarrow> ('a \<Rightarrow> bool) \<Rightarrow> token_kind list \<Rightarrow> bool" where
  "reads f ks Q r \<longleftrightarrow> (\<forall>p. pk p = ks @ r \<longrightarrow> (\<exists>a q. f p = Some (Inr a, q) \<and> Q a \<and> pk q = r))"

lemma peek_pk: "tk_kind (peek_tok p) = (case pk p of [] \<Rightarrow> TEof | k # _ \<Rightarrow> k)"
  by (cases "pr_pos p < length (pr_tokens p)")
    (simp_all add: peek_tok_def pk_def END_token_def Cons_nth_drop_Suc [symmetric])

lemma peek1_pk: "peek_kind p (Suc 0) = (case pk p of _ # k # _ \<Rightarrow> k | _ \<Rightarrow> TEof)"
proof -
  let ?ts = "pr_tokens p" and ?n = "pr_pos p"
  consider "Suc ?n < length ?ts" | "Suc ?n = length ?ts" | "length ?ts \<le> ?n" by linarith
  then show ?thesis
    by cases (simp_all add: peek_kind_def pk_def END_token_def Cons_nth_drop_Suc [symmetric])
qed

lemma pk_step: "pk p = k # ks \<Longrightarrow> k \<noteq> TEof \<Longrightarrow> pk (step_tok p) = ks"
  by (cases "pr_pos p < length (pr_tokens p)")
    (auto simp: pk_def step_tok_def advance_def peek_tok_def Cons_nth_drop_Suc [symmetric])

lemma readsI: "(\<And>p. pk p = ks @ r \<Longrightarrow> \<exists>a q. f p = Some (Inr a, q) \<and> Q a \<and> pk q = r) \<Longrightarrow> reads f ks Q r"
  by (simp add: reads_def)

lemma readsD: "reads f ks Q r \<Longrightarrow> pk p = ks @ r \<Longrightarrow> \<exists>a q. f p = Some (Inr a, q) \<and> Q a \<and> pk q = r"
  by (simp add: reads_def)

definition erase_tm :: "tm \<Rightarrow> tm" where
  "erase_tm = tm_map_span (\<lambda>s. span_default)"

definition erase_head_arg :: "head_arg \<Rightarrow> head_arg" where
  "erase_head_arg = head_arg_visit (\<lambda>s. span_default)"

definition erase_atom :: "atom \<Rightarrow> atom" where
  "erase_atom = atom_visit (\<lambda>s. span_default)"

definition erase_literal :: "literal \<Rightarrow> literal" where
  "erase_literal = literal_visit (\<lambda>s. span_default)"

definition no_paren :: "token_kind list \<Rightarrow> bool" where
  "no_paren r \<longleftrightarrow> (case r of [] \<Rightarrow> True | k # _ \<Rightarrow> k \<noteq> TLParen)"

lemma reads_tm:
  assumes "tm_ok t" and "no_paren r"
  shows "reads parse_term (tm_toks t) (\<lambda>a. erase_tm a = erase_tm t) r"
proof (rule readsI)
  fix p assume p: "pk p = tm_toks t @ r"
  have next_tok: "peek_kind p 1 \<noteq> TLParen" if "pk p = k # r" for k
    using that assms(2) by (cases r) (simp_all add: peek1_pk no_paren_def)
  show "\<exists>a q. parse_term p = Some (Inr a, q) \<and> erase_tm a = erase_tm t \<and> pk q = r"
  proof (cases t)
    case (Var n s)
    then have "pk p = TIdent n # r" "n \<noteq> lit ''_''" using p assms(1) by (simp_all add: tm_toks_def tm_ok_def name_ok_def)
    then show ?thesis using next_tok [of "TIdent n"] pk_step [of p] Var
      by (simp add: parse_term_def peek_pk ok_def erase_tm_def tm_map_span_def)
  next
    case (Wild s)
    then have "pk p = TIdent (lit ''_'') # r" using p by (simp add: tm_toks_def)
    then show ?thesis using next_tok [of "TIdent (lit ''_'')"] pk_step [of p] Wild
      by (simp add: parse_term_def peek_pk ok_def erase_tm_def tm_map_span_def)
  next
    case (StrC v s)
    then have "pk p = TStr v # r" using p by (simp add: tm_toks_def)
    then show ?thesis using pk_step [of p] StrC
      by (simp add: parse_term_def peek_pk ok_def erase_tm_def tm_map_span_def)
  next
    case (IntC w s)
    show ?thesis
    proof (cases "w = i64_min \<or> \<not> sint w < 0")
      case True
      then have "pk p = TInt w # r" using p IntC by (auto simp: tm_toks_def int_toks_def)
      then show ?thesis using pk_step [of p] IntC
        by (simp add: parse_term_def peek_pk ok_def erase_tm_def tm_map_span_def)
    next
      case False
      then have pk: "pk p = TMinus # TInt (- w) # r" using p IntC by (simp add: tm_toks_def int_toks_def)
      have p1: "pk (step_tok p) = TInt (- w) # r" using pk_step [OF pk] by simp
      have p2: "pk (step_tok (step_tok p)) = r" using pk_step [OF p1] by simp
      have "- w \<noteq> i64_min" using False by (auto simp: i64_min_def minus_equation_iff [of w])
      then show ?thesis using pk p1 p2 IntC
        by (simp add: parse_term_def peek_pk ok_def erase_tm_def tm_map_span_def i64_checked_neg_def)
    qed
  qed
qed

subsection \<open>Lists\<close>

definition ends_item :: "token_kind list \<Rightarrow> bool" where
  "ends_item r \<longleftrightarrow> (case r of k # _ \<Rightarrow> k = TComma \<or> k = TRParen | [] \<Rightarrow> False)"

lemma ends_no_paren: "ends_item r \<Longrightarrow> no_paren r"
  by (auto simp: ends_item_def no_paren_def split: list.splits)

lemma list_loop_reads:
  assumes "\<And>x r. x \<in> set xs \<Longrightarrow> ends_item r \<Longrightarrow> reads item (g x) (Q x) r" and "xs \<noteq> []"
  shows "pk p = commas (map g xs) @ TRParen # r \<Longrightarrow>
    \<exists>ys s q. list_loop item acc p = Some (Inr (acc @ ys, s), q) \<and> list_all2 Q xs ys \<and> pk q = r"
  using assms
proof (induction xs arbitrary: acc p rule: induct_list012)
  case 1
  then show ?case by simp
next
  case (2 x)
  then obtain a q where q: "item p = Some (Inr a, q)" "Q x a" "pk q = TRParen # r"
    using readsD [of item "g x" "Q x" "TRParen # r" p] by (auto simp: ends_item_def)
  then show ?case using pk_step [OF q(3)]
    by (subst list_loop.simps) (simp add: peek_pk ok_def)
next
  case (3 x y xs)
  let ?r = "commas (map g (y # xs)) @ TRParen # r"
  obtain a q where q: "item p = Some (Inr a, q)" "Q x a" "pk q = TComma # ?r"
    using readsD [of item "g x" "Q x" "TComma # ?r" p] 3 by (auto simp: ends_item_def)
  have "pk (step_tok q) = ?r" using pk_step [OF q(3)] by simp
  then obtain ys s q' where ys: "list_loop item (acc @ [a]) (step_tok q) = Some (Inr ((acc @ [a]) @ ys, s), q')"
      "list_all2 Q (y # xs) ys" "pk q' = r"
    using "3.IH"(2) [of "step_tok q" "acc @ [a]"] "3.prems"(2) by auto
  have "list_loop item acc p = Some (Inr (acc @ (a # ys), s), q')"
    using q ys(1) by (subst list_loop.simps) (simp add: peek_pk)
  then show ?case using ys q(2) by blast
qed

lemma commas_hd: "(\<And>x. x \<in> set xs \<Longrightarrow> g x \<noteq> [] \<and> hd (g x) \<noteq> k) \<Longrightarrow> xs \<noteq> [] \<Longrightarrow> commas (map g xs) \<noteq> [] \<and> hd (commas (map g xs)) \<noteq> k"
  by (cases xs rule: remdups_adj.cases) auto

lemma list_of_reads:
  assumes items: "\<And>x r. x \<in> set xs \<Longrightarrow> ends_item r \<Longrightarrow> reads item (g x) (Q x) r"
    and head: "\<And>x. x \<in> set xs \<Longrightarrow> g x \<noteq> [] \<and> hd (g x) \<noteq> TRParen" and empty: "xs \<noteq> [] \<or> b"
    and pk: "pk p = commas (map g xs) @ TRParen # r"
  shows "\<exists>ys s q. list_of b item p = Some (Inr (ys, s), q) \<and> list_all2 Q xs ys \<and> pk q = r"
proof (cases "xs = []")
  case True
  then have "pk p = TRParen # r" using pk by simp
  moreover from pk_step [OF this] have "pk (step_tok p) = r" by simp
  ultimately show ?thesis using True empty by (simp add: list_of_def eat_tok_eq peek_pk ok_def)
next
  case False
  have "tk_kind (peek_tok p) \<noteq> TRParen"
    using pk commas_hd [of xs g TRParen, OF head False] by (cases "commas (map g xs)") (auto simp: peek_pk)
  then have "list_of b item p = list_loop item [] p" by (simp add: list_of_def)
  then show ?thesis using list_loop_reads [OF items False pk, of "[]"] by simp
qed

lemma tm_toks_hd: "tm_toks t \<noteq> [] \<and> hd (tm_toks t) \<noteq> TRParen"
  by (cases t) (simp_all add: tm_toks_def int_toks_def)

lemma head_arg_toks_hd: "head_arg_toks a \<noteq> [] \<and> hd (head_arg_toks a) \<noteq> TRParen"
  using tm_toks_hd by (cases a) (simp_all add: head_arg_toks_def aggregate_toks_def)

lemma erased_list: "list_all2 (\<lambda>x y. e y = e x) xs ys \<Longrightarrow> map e ys = map e xs"
  by (induction rule: list_all2_induct) simp_all

subsection \<open>Heads, atoms and literals\<close>

lemma aggop_of_name: "aggop_of (aggop_name op) = Some op"
  by (cases op) (simp_all add: aggop_of_def aggop_name_def)

lemma reads_agg_var: "name_ok v \<Longrightarrow> reads agg_var [TIdent v] (\<lambda>w. w = v) r"
proof (rule readsI)
  fix p assume "name_ok v" and p: "pk p = [TIdent v] @ r"
  then show "\<exists>a q. agg_var p = Some (Inr a, q) \<and> a = v \<and> pk q = r"
    using pk_step [of p] by (simp add: agg_var_def peek_pk ok_def name_ok_def)
qed

lemma reads_head_arg:
  assumes "head_arg_ok a" and "ends_item r"
  shows "reads parse_head_arg (head_arg_toks a) (\<lambda>b. erase_head_arg b = erase_head_arg a) r"
proof (rule readsI)
  fix p assume p: "pk p = head_arg_toks a @ r"
  show "\<exists>b q. parse_head_arg p = Some (Inr b, q) \<and> erase_head_arg b = erase_head_arg a \<and> pk q = r"
  proof (cases a)
    case (HTerm t)
    then have t: "pk p = tm_toks t @ r" "tm_ok t" using p assms(1) by (simp_all add: head_arg_toks_def head_arg_ok_def)
    obtain b q where b: "parse_term p = Some (Inr b, q)" "erase_tm b = erase_tm t" "pk q = r"
      using readsD [OF reads_tm [OF t(2) ends_no_paren [OF assms(2)]] t(1)] by blast
    have "peek_kind p (Suc 0) \<noteq> TLParen"
      using t(1) ends_no_paren [OF assms(2)]
      by (cases t; cases r) (auto simp: peek1_pk tm_toks_def int_toks_def no_paren_def)
    then have "parse_head_arg p = Some (Inr (HTerm b), q)"
      using b(1) by (simp add: parse_head_arg_def ok_def split: token_kind.split)
    then show ?thesis using b HTerm by (simp add: erase_head_arg_def head_arg_visit_def erase_tm_def)
  next
    case (HAgg g)
    then have pk: "pk p = TIdent (aggop_name (ag_op g)) # TLParen # commas (map (\<lambda>v. [TIdent v]) (ag_vars g)) @ TRParen # r"
      and vars: "ag_vars g \<noteq> []" "\<And>v. v \<in> set (ag_vars g) \<Longrightarrow> name_ok v"
      using p assms(1) by (auto simp: head_arg_toks_def aggregate_toks_def head_arg_ok_def list_all_iff)
    have p1: "pk (step_tok p) = TLParen # commas (map (\<lambda>v. [TIdent v]) (ag_vars g)) @ TRParen # r"
      using pk_step [OF pk] by simp
    have p2: "pk (step_tok (step_tok p)) = commas (map (\<lambda>v. [TIdent v]) (ag_vars g)) @ TRParen # r"
      using pk_step [OF p1] by simp
    obtain ys s q where ys: "list_of False agg_var (step_tok (step_tok p)) = Some (Inr (ys, s), q)"
        "list_all2 (\<lambda>v w. w = v) (ag_vars g) ys" "pk q = r"
      using list_of_reads [OF reads_agg_var [OF vars(2)] _ _ p2, of False] vars(1) by auto
    have "ys = ag_vars g" using erased_list [of "\<lambda>x. x" "ag_vars g" ys] ys(2) by simp
    then have "parse_head_arg p = Some (Inr (HAgg \<lparr>ag_op = ag_op g, ag_vars = ag_vars g, ag_span = join (tk_span (peek_tok p)) s\<rparr>), q)"
      using pk ys(1) by (simp add: parse_head_arg_def peek_pk peek1_pk aggop_of_name ok_def)
    then show ?thesis using ys(3) HAgg by (simp add: erase_head_arg_def head_arg_visit_def)
  qed
qed

lemma reads_head:
  assumes "name_ok (hd_pred h)" and "list_all head_arg_ok (hd_args h)" and "no_paren r"
  shows "reads parse_head (head_toks h)
    (\<lambda>h'. hd_pred h' = hd_pred h \<and> map erase_head_arg (hd_args h') = map erase_head_arg (hd_args h)) r"
proof (rule readsI)
  fix p assume p: "pk p = head_toks h @ r"
  have name: "hd_pred h \<noteq> lit ''_''" using assms(1) by (simp add: name_ok_def)
  have k: "pk p = TIdent (hd_pred h) # tl (head_toks h) @ r" using p by (simp add: head_toks_def)
  have p1: "pk (step_tok p) = tl (head_toks h) @ r" using pk_step [OF k] by simp
  show "\<exists>h' q. parse_head p = Some (Inr h', q) \<and>
      (hd_pred h' = hd_pred h \<and> map erase_head_arg (hd_args h') = map erase_head_arg (hd_args h)) \<and> pk q = r"
  proof (cases "hd_args h = []")
    case True
    then have "pk (step_tok p) = r" using p1 by (simp add: head_toks_def)
    moreover from this have "tk_kind (peek_tok (step_tok p)) \<noteq> TLParen"
      using assms(3) by (simp add: peek_pk no_paren_def split: list.splits)
    ultimately show ?thesis using k name True by (simp add: parse_head_def peek_pk [of p] eat_tok_eq ok_def)
  next
    case False
    then have k1: "pk (step_tok p) = TLParen # commas (map head_arg_toks (hd_args h)) @ TRParen # r"
      using p1 by (simp add: head_toks_def)
    have p2: "pk (step_tok (step_tok p)) = commas (map head_arg_toks (hd_args h)) @ TRParen # r"
      using pk_step [OF k1] by simp
    have args: "\<And>a. a \<in> set (hd_args h) \<Longrightarrow> head_arg_ok a" using assms(2) by (simp add: list_all_iff)
    obtain ys s q where ys: "list_of True parse_head_arg (step_tok (step_tok p)) = Some (Inr (ys, s), q)"
        "list_all2 (\<lambda>a b. erase_head_arg b = erase_head_arg a) (hd_args h) ys" "pk q = r"
      using list_of_reads [OF reads_head_arg [OF args] head_arg_toks_hd _ p2, of True] by auto
    then show ?thesis using k k1 name erased_list [OF ys(2)]
      by (simp add: parse_head_def peek_pk eat_tok_eq ok_def)
  qed
qed

lemma reads_atom:
  assumes "atom_ok a"
  shows "reads (parse_atom neg) (atom_toks a)
    (\<lambda>b. erase_atom b = erase_atom a) r"
proof (rule readsI)
  fix p assume p: "pk p = atom_toks a @ r"
  have name: "at_pred a \<noteq> lit ''_''" "aggop_of (at_pred a) = None" and args: "\<And>t. t \<in> set (at_args a) \<Longrightarrow> tm_ok t"
    using assms by (simp_all add: atom_ok_def name_ok_def list_all_iff)
  have k: "pk p = TIdent (at_pred a) # TLParen # commas (map tm_toks (at_args a)) @ TRParen # r"
    using p by (simp add: atom_toks_def)
  have p1: "pk (step_tok p) = TLParen # commas (map tm_toks (at_args a)) @ TRParen # r" using pk_step [OF k] by simp
  have p2: "pk (step_tok (step_tok p)) = commas (map tm_toks (at_args a)) @ TRParen # r" using pk_step [OF p1] by simp
  obtain ys s q where ys: "list_of True parse_term (step_tok (step_tok p)) = Some (Inr (ys, s), q)"
      "list_all2 (\<lambda>a b. erase_tm b = erase_tm a) (at_args a) ys" "pk q = r"
    using list_of_reads [OF reads_tm [OF args ends_no_paren] tm_toks_hd _ p2, of True] by auto
  then have "parse_atom neg p = Some (Inr \<lparr>at_pred = at_pred a, at_args = ys, at_span = join (tk_span (peek_tok p)) s\<rparr>, q)"
    using k name by (simp add: parse_atom_def peek_pk peek1_pk ok_def)
  then show "\<exists>b q. parse_atom neg p = Some (Inr b, q) \<and> erase_atom b = erase_atom a \<and> pk q = r"
    using erased_list [OF ys(2)] ys(3) by (simp add: erase_atom_def atom_visit_def erase_tm_def)
qed

lemma reads_comparison:
  assumes "tm_ok (cp_left c)" and "tm_ok (cp_right c)" and "no_paren r"
  shows "reads parse_comparison (tm_toks (cp_left c) @ [cmpop_tok (cp_op c)] @ tm_toks (cp_right c))
    (\<lambda>d. erase_literal (LCmp d) = erase_literal (LCmp c)) r"
proof (rule readsI)
  fix p assume p: "pk p = (tm_toks (cp_left c) @ [cmpop_tok (cp_op c)] @ tm_toks (cp_right c)) @ r"
  let ?r = "cmpop_tok (cp_op c) # tm_toks (cp_right c) @ r"
  have "no_paren ?r" by (cases "cp_op c") (simp_all add: no_paren_def cmpop_tok_def)
  then obtain a q where a: "parse_term p = Some (Inr a, q)" "erase_tm a = erase_tm (cp_left c)" "pk q = ?r"
    using readsD [OF reads_tm [OF assms(1)], of ?r p] p by auto
  have "cmpop_tok (cp_op c) \<noteq> TEof" by (cases "cp_op c") (simp_all add: cmpop_tok_def)
  then have "pk (step_tok q) = tm_toks (cp_right c) @ r" by (rule pk_step [OF a(3)])
  then obtain b q' where b: "parse_term (step_tok q) = Some (Inr b, q')" "erase_tm b = erase_tm (cp_right c)" "pk q' = r"
    using readsD [OF reads_tm [OF assms(2,3)]] by blast
  have "cmpop_of (tk_kind (peek_tok q)) = Some (cp_op c)"
    using a(3) by (cases "cp_op c") (simp_all add: peek_pk cmpop_of_def cmpop_tok_def)
  then show "\<exists>d q. parse_comparison p = Some (Inr d, q) \<and> erase_literal (LCmp d) = erase_literal (LCmp c) \<and> pk q = r"
    using a(1,2) b by (simp add: parse_comparison_def ok_def erase_literal_def literal_visit_def erase_tm_def)
qed

lemma reads_literal:
  assumes "literal_ok l" and "no_paren r"
  shows "reads parse_literal (literal_toks l) (\<lambda>m. erase_literal m = erase_literal l) r"
proof (rule readsI)
  fix p assume p: "pk p = literal_toks l @ r"
  show "\<exists>m q. parse_literal p = Some (Inr m, q) \<and> erase_literal m = erase_literal l \<and> pk q = r"
  proof (cases l)
    case (LPos a)
    then have a: "atom_ok a" "pk p = atom_toks a @ r" using assms p by (simp_all add: literal_ok_def literal_toks_def)
    obtain b q where b: "parse_atom None p = Some (Inr b, q)" "erase_atom b = erase_atom a" "pk q = r"
      using readsD [OF reads_atom [OF a(1)] a(2)] by blast
    have "pk p = TIdent (at_pred a) # TLParen # tl (tl (atom_toks a)) @ r" using a(2) by (simp add: atom_toks_def)
    then have "parse_literal p = Some (Inr (LPos b), q)"
      using b(1) by (simp add: parse_literal_def peek_pk peek1_pk ok_def)
    then show ?thesis using b LPos by (simp add: erase_literal_def literal_visit_def erase_atom_def)
  next
    case (LNeg a)
    then have a: "atom_ok a" "pk p = TBang # atom_toks a @ r"
      using assms p by (simp_all add: literal_ok_def literal_toks_def)
    have "pk (step_tok p) = atom_toks a @ r" using pk_step [OF a(2)] by simp
    then obtain b q where b: "parse_atom (Some (lit ''!'')) (step_tok p) = Some (Inr b, q)" "erase_atom b = erase_atom a" "pk q = r"
      using readsD [OF reads_atom [OF a(1)]] by blast
    then have "parse_literal p = Some (Inr (LNeg b), q)"
      using a(2) by (simp add: parse_literal_def peek_pk ok_def)
    then show ?thesis using b LNeg by (simp add: erase_literal_def literal_visit_def erase_atom_def)
  next
    case (LCmp c)
    then have c: "tm_ok (cp_left c)" "tm_ok (cp_right c)"
        "pk p = (tm_toks (cp_left c) @ [cmpop_tok (cp_op c)] @ tm_toks (cp_right c)) @ r"
      using assms p by (simp_all add: literal_ok_def literal_toks_def)
    obtain d q where d: "parse_comparison p = Some (Inr d, q)" "erase_literal (LCmp d) = erase_literal (LCmp c)" "pk q = r"
      using readsD [OF reads_comparison [OF c(1,2) assms(2)] c(3)] by blast
    have op: "is_cmpop (cmpop_tok (cp_op c))" "cmpop_tok (cp_op c) \<noteq> TLParen"
      by (cases "cp_op c"; simp add: is_cmpop_def cmpop_tok_def)+
    have "parse_literal p = and_then (parse_comparison p) (\<lambda>c p. ok (LCmp c) p)"
      using c(3) op by (cases "cp_left c") (auto simp: parse_literal_def peek_pk peek1_pk tm_toks_def int_toks_def)
    then show ?thesis using d LCmp by (simp add: ok_def)
  qed
qed

lemma literal_toks_shape: "literal_toks l \<noteq> []"
  using tm_toks_hd by (cases l) (simp_all add: literal_toks_def atom_toks_def)

lemma body_loop_reads:
  assumes "\<And>l. l \<in> set ls \<Longrightarrow> literal_ok l" and "ls \<noteq> []"
  shows "pk p = commas (map literal_toks ls) @ TDot # r \<Longrightarrow>
    \<exists>ms q. body_loop acc p = Some (Inr (acc @ ms), q) \<and> list_all2 (\<lambda>l m. erase_literal m = erase_literal l) ls ms \<and>
      pk q = TDot # r"
  using assms
proof (induction ls arbitrary: acc p rule: induct_list012)
  case 1
  then show ?case by simp
next
  case (2 l)
  then obtain m q where q: "parse_literal p = Some (Inr m, q)" "erase_literal m = erase_literal l" "pk q = TDot # r"
    using readsD [OF reads_literal, of l "TDot # r" p] by (auto simp: no_paren_def)
  then show ?case by (subst body_loop.simps) (simp add: eat_tok_eq peek_pk ok_def)
next
  case (3 l l' ls)
  let ?r = "commas (map literal_toks (l' # ls)) @ TDot # r"
  obtain m q where q: "parse_literal p = Some (Inr m, q)" "erase_literal m = erase_literal l" "pk q = TComma # ?r"
    using readsD [OF reads_literal, of l "TComma # ?r" p] 3 by (auto simp: no_paren_def)
  have "pk (step_tok q) = ?r" using pk_step [OF q(3)] by simp
  then obtain ms q' where ms: "body_loop (acc @ [m]) (step_tok q) = Some (Inr ((acc @ [m]) @ ms), q')"
      "list_all2 (\<lambda>l m. erase_literal m = erase_literal l) (l' # ls) ms" "pk q' = TDot # r"
    using "3.IH"(2) [of "step_tok q" "acc @ [m]"] "3.prems"(2) by auto
  have "body_loop acc p = Some (Inr (acc @ (m # ms)), q')"
    using q ms(1) by (subst body_loop.simps) (simp add: eat_tok_eq peek_pk)
  then show ?case using ms q(2) by blast
qed

subsection \<open>Clauses and programs\<close>

lemma pk_set [simp]:
  "pk (p\<lparr>pr_predicate := a, pr_open := b\<rparr>) = pk p" "pk (p\<lparr>pr_predicate := a\<rparr>) = pk p"
  by (simp_all add: pk_def)

lemma first_wild_erase: "map erase_head_arg xs = map erase_head_arg ys \<Longrightarrow> first_wild xs = None \<Longrightarrow> first_wild ys = None"
proof -
  have "first_wild zs = None \<longleftrightarrow> HTerm (Wild span_default) \<notin> set (map erase_head_arg zs)" for zs
    by (induction zs)
      (auto simp: first_wild_def erase_head_arg_def head_arg_visit_def tm_map_span_def split: head_arg.splits tm.splits)
  then show "map erase_head_arg xs = map erase_head_arg ys \<Longrightarrow> first_wild xs = None \<Longrightarrow> first_wild ys = None" by metis
qed

lemma reads_clause:
  assumes "rule_ok rl"
  shows "reads parse_clause (rule_toks rl) (\<lambda>rl'. erase_rule rl' = erase_rule rl) r"
proof (rule readsI)
  fix p assume p: "pk p = rule_toks rl @ r"
  let ?h = "rl_head rl" and ?p = "p\<lparr>pr_predicate := None, pr_open := 0\<rparr>"
  let ?r = "(if rl_body rl = [] then [] else [TColonDash] @ commas (map literal_toks (rl_body rl))) @ TDot # r"
  have h: "name_ok (hd_pred ?h)" "list_all head_arg_ok (hd_args ?h)" using assms by (simp_all add: rule_ok_def)
  have "no_paren ?r" by (simp add: no_paren_def)
  moreover have "pk ?p = head_toks ?h @ ?r" using p by (simp add: rule_toks_def)
  ultimately obtain h' q where h': "parse_head ?p = Some (Inr h', q)" "hd_pred h' = hd_pred ?h"
      "map erase_head_arg (hd_args h') = map erase_head_arg (hd_args ?h)" "pk q = ?r"
    using readsD [OF reads_head [OF h], of ?r ?p] by blast
  let ?q = "q\<lparr>pr_predicate := Some (head_signature h')\<rparr>"
  have erased: "erase_rule \<lparr>rl_head = h', rl_body = ms, rl_span = s\<rparr> = erase_rule rl"
    if "map erase_literal ms = map erase_literal (rl_body rl)" for ms s
    using that h'(2,3) by (simp add: erase_rule_def visit_spans_def erase_head_arg_def erase_literal_def)
  have finish: "\<exists>rl' q'. finish_clause h' ms p' = Some (Inr rl', q') \<and> erase_rule rl' = erase_rule rl \<and> pk q' = r"
    if "pk p' = TDot # r" "map erase_literal ms = map erase_literal (rl_body rl)" for ms p'
    using pk_step [OF that(1)] erased [OF that(2)] by (simp add: finish_clause_def ok_def)
  show "\<exists>rl' q. parse_clause p = Some (Inr rl', q) \<and> erase_rule rl' = erase_rule rl \<and> pk q = r"
  proof (cases "rl_body rl = []")
    case True
    then have q: "pk ?q = TDot # r" using h'(4) by simp
    have "first_wild (hd_args ?h) = None" using assms True by (simp add: rule_ok_def)
    then have "first_wild (hd_args h') = None" using first_wild_erase [OF h'(3) [symmetric]] by simp
    then have "parse_clause p = finish_clause h' [] ?q"
      using h'(1) q by (simp add: parse_clause_def eat_tok_eq peek_pk clause_fact_def del: pk_set)
    then show ?thesis using finish [OF q, of "[]"] True by simp
  next
    case False
    then have q: "pk ?q = TColonDash # commas (map literal_toks (rl_body rl)) @ TDot # r" using h'(4) by simp
    have q1: "pk (step_tok ?q) = commas (map literal_toks (rl_body rl)) @ TDot # r" using pk_step [OF q] by simp
    have lits: "\<And>l. l \<in> set (rl_body rl) \<Longrightarrow> literal_ok l" using assms by (simp add: rule_ok_def list_all_iff)
    obtain ms q' where ms: "body_loop [] (step_tok ?q) = Some (Inr ms, q')"
        "list_all2 (\<lambda>l m. erase_literal m = erase_literal l) (rl_body rl) ms" "pk q' = TDot # r"
      using body_loop_reads [OF lits False q1, of "[]"] by auto
    have "parse_clause p = finish_clause h' ms q'"
      using h'(1) q ms by (simp add: parse_clause_def eat_tok_eq peek_pk clause_body_def del: pk_set)
    then show ?thesis using finish [OF ms(3) erased_list [OF ms(2)]] by simp
  qed
qed

lemma clauses_read:
  assumes "list_all rule_ok rls"
  shows "pk p = concat (map rule_toks rls) @ [TEof] \<Longrightarrow>
    \<exists>rls'. clauses name acc [] p = Some (acc @ rls', []) \<and> map erase_rule rls' = map erase_rule rls"
  using assms
proof (induction rls arbitrary: acc p)
  case Nil
  then show ?case by (subst clauses.simps) (simp add: peek_pk)
next
  case (Cons rl rls)
  then obtain rl' q where q: "parse_clause p = Some (Inr rl', q)" "erase_rule rl' = erase_rule rl"
      "pk q = concat (map rule_toks rls) @ [TEof]"
    using readsD [OF reads_clause, of rl p] by auto
  obtain rls' where rls': "clauses name (acc @ [rl']) [] q = Some ((acc @ [rl']) @ rls', [])" "map erase_rule rls' = map erase_rule rls"
    using Cons.IH [OF q(3), of "acc @ [rl']"] Cons.prems(2) by auto
  have "tk_kind (peek_tok p) \<noteq> TEof"
    using Cons.prems(1) by (simp add: peek_pk rule_toks_def head_toks_def)
  then have "clauses name acc [] p = Some (acc @ (rl' # rls'), [])"
    using q(1) rls'(1) by (subst clauses.simps) (simp add: max_diagnostics_def)
  then show ?case using q(2) rls'(2) by auto
qed

text \<open>
  C1: the canonical text of a program lexes and parses back to a program of the same rules, modulo
  spans, when its predicate and variable names are identifiers other than \<open>_\<close> and its rules are ones
  the grammar has: no body atom named \<open>count\<close>, \<open>min\<close>, \<open>max\<close> or \<open>sum\<close>, no aggregate over no variables
  and no \<open>_\<close> in a rule without a body.
\<close>

theorem display_parses_back:
  assumes "list_all names_ok (pg_rules pg)" and "list_all grammatical (pg_rules pg)"
  shows "\<exists>pg'. parse_program name (program_text pg) = Some (Inr pg') \<and>
    pg_sources pg' = [name] \<and> map erase_rule (pg_rules pg') = map erase_rule (pg_rules pg)"
proof -
  have ok: "list_all rule_ok (pg_rules pg)" using assms by (simp add: list_all_iff rule_ok_iff)
  obtain tokens where tokens: "lex 0 name (program_text pg) = Inr tokens"
      "map tk_kind tokens = concat (map rule_toks (pg_rules pg)) @ [TEof]"
    using program_lexes [OF ok] by blast
  let ?p = "\<lparr>pr_tokens = tokens, pr_pos = 0, pr_predicate = None, pr_open = 0\<rparr>"
  obtain rls' where "clauses name [] [] ?p = Some ([] @ rls', [])" "map erase_rule rls' = map erase_rule (pg_rules pg)"
    using clauses_read [OF ok, of ?p name "[]"] tokens(2) by (auto simp: pk_def)
  then show ?thesis using tokens(1)
    by (simp add: parse_program_def add_source_def program_new_def u16_sat_def)
qed

text \<open>A program with a recursive rule, a negation, a comparison, an aggregate and every kind of constant.\<close>

definition example_program :: program where
  "example_program =
     \<lparr>pg_sources = [],
      pg_rules =
        [rule_fact (lit ''seed'') [tm_str [34, 92, 10, 9, 0x20AC], tm_int i64_min],
         rule_new (lit ''tc'') [HTerm (tm_var (lit ''x'')), HTerm (tm_var (lit ''y''))]
           [LPos (atom_new (lit ''tc'') [tm_var (lit ''x''), tm_var (lit ''z'')]),
            LNeg (atom_new (lit ''not'') [tm_wild, tm_int (- 5)]),
            literal_cmp CNe (tm_var (lit ''z'')) (tm_int 3)],
         rule_new (lit ''ok'') [] [LPos (atom_new (lit ''done'') [])],
         rule_new (lit ''n'') [head_arg_agg AggCount [lit ''x'']] [LPos (atom_new (lit ''p'') [tm_var (lit ''x'')])]]\<rparr>"

lemma example_ok: "list_all names_ok (pg_rules example_program)" "list_all grammatical (pg_rules example_program)"
  by (simp_all add: example_program_def names_ok_def grammatical_def rule_fact_def rule_new_def head_arg_agg_def literal_cmp_def atom_new_def
      tm_var_def tm_str_def tm_int_def tm_wild_def tm_ok_def name_ok_def is_ident_def
      ident_char_def is_ascii_alphabetic_def is_ascii_alphanumeric_def is_ascii_digit_def aggop_of_def first_wild_def)

theorem display_parses_back_witness:
  "\<exists>pg'. parse_program (lit ''rules'') (program_text example_program) = Some (Inr pg') \<and>
    pg_sources pg' = [lit ''rules''] \<and> map erase_rule (pg_rules pg') = map erase_rule (pg_rules example_program)"
  using example_ok by (rule display_parses_back)

text \<open>
  Without \<open>grammatical\<close> the round trip fails: these rules have identifier names, and the text of each is
  refused.
\<close>

definition ungrammatical :: "rule list" where
  "ungrammatical =
     [rule_new (lit ''p'') [HTerm (tm_var (lit ''x''))] [LPos (atom_new (lit ''count'') [tm_var (lit ''x'')])],
      rule_new (lit ''n'') [head_arg_agg AggCount []] [LPos (atom_new (lit ''p'') [tm_var (lit ''x'')])],
      rule_fact (lit ''p'') [tm_wild]]"

lemma ungrammatical_names: "list_all names_ok ungrammatical"
  by (simp add: ungrammatical_def names_ok_def rule_fact_def rule_new_def head_arg_agg_def atom_new_def tm_var_def tm_wild_def
      tm_ok_def name_ok_def is_ident_def ident_char_def is_ascii_alphabetic_def is_ascii_alphanumeric_def is_ascii_digit_def)

lemma ungrammatical_refused:
  "map (\<lambda>r. map_option isl (parse_program (lit ''rules'') (program_text \<lparr>pg_sources = [], pg_rules = [r]\<rparr>))) ungrammatical =
     [Some True, Some True, Some True]"
  by code_simp

end
