(* ===== verification/Batch.thy ===== *)
theory Batch
  imports Tiers
begin

text \<open>
  The sorted batches of \<open>rules/src/relation.rs\<close>: row-major handles, a provenance column that is
  uniform while every row shares one, witness ordinals and the lowered heights of a row. A handle,
  a height and a rule index are naturals; a row is the slice of \<open>arity\<close> handles at its position.
  Positions are \<open>usize\<close>; a position stored in a low saturates at \<open>u32::MAX\<close>.
\<close>

type_synonym handle = nat

definition NO_ORDINAL :: nat where
  "NO_ORDINAL = 0xFFFFFFFF"

definition EDB_RULE :: nat where
  "EDB_RULE = 0xFFFF"

record row_meta =
  rm_height :: nat
  rm_rule :: nat

subsection \<open>Provenance columns\<close>

datatype metas = Uniform nat row_meta | Per "nat list" "nat list"

definition metas_default :: metas where
  "metas_default = Uniform 0 \<lparr>rm_height = 0, rm_rule = EDB_RULE\<rparr>"

definition metas_len :: "metas \<Rightarrow> nat" where
  "metas_len m = (case m of Uniform len _ \<Rightarrow> len | Per heights _ \<Rightarrow> length heights)"

definition metas_get :: "metas \<Rightarrow> nat \<Rightarrow> row_meta" where
  "metas_get m i = (case m of Uniform _ x \<Rightarrow> x | Per heights rules \<Rightarrow> \<lparr>rm_height = heights ! i, rm_rule = rules ! i\<rparr>)"

definition metas_push :: "metas \<Rightarrow> row_meta \<Rightarrow> metas" where
  "metas_push m x =
     (case m of
        Uniform len y \<Rightarrow>
          if len = 0 \<or> y = x then Uniform (len + 1) x
          else Per (replicate len (rm_height y) @ [rm_height x]) (replicate len (rm_rule y) @ [rm_rule x])
      | Per heights rules \<Rightarrow> Per (heights @ [rm_height x]) (rules @ [rm_rule x]))"

definition metas_uniform :: "metas \<Rightarrow> row_meta option" where
  "metas_uniform m = (case m of Uniform _ x \<Rightarrow> Some x | Per _ _ \<Rightarrow> None)"

text \<open>Both columns of \<open>Per\<close> have one entry a row.\<close>

definition metas_ok :: "metas \<Rightarrow> bool" where
  "metas_ok m \<longleftrightarrow> (case m of Uniform _ _ \<Rightarrow> True | Per heights rules \<Rightarrow> length heights = length rules)"

definition metas_list :: "metas \<Rightarrow> row_meta list" where
  "metas_list m = map (metas_get m) [0..<metas_len m]"

lemma metas_list_push: "metas_ok m \<Longrightarrow> metas_list (metas_push m x) = metas_list m @ [x] \<and> metas_ok (metas_push m x)"
  by (cases m) (auto simp: metas_list_def metas_get_def metas_len_def metas_push_def metas_ok_def nth_append
      intro!: nth_equalityI)

lemma metas_list_default [simp]: "metas_list metas_default = []" "metas_ok metas_default"
  by (simp_all add: metas_list_def metas_default_def metas_len_def metas_ok_def)

lemma length_metas_list [simp]: "length (metas_list m) = metas_len m"
  by (simp add: metas_list_def)

subsection \<open>Batches\<close>

text \<open>A row lowered at level \<open>lw_from\<close>: from there up its meta is \<open>lw_meta\<close>.\<close>

record low =
  lw_pos :: nat
  lw_from :: nat
  lw_meta :: row_meta

record batch =
  b_rows :: "handle list"
  b_metas :: metas
  b_ordinals :: "nat list option"
  b_lows :: "low list"

definition batch_default :: batch where
  "batch_default = \<lparr>b_rows = [], b_metas = metas_default, b_ordinals = None, b_lows = []\<rparr>"

definition b_len :: "batch \<Rightarrow> nat" where
  "b_len b = metas_len (b_metas b)"

definition row_at :: "handle list \<Rightarrow> nat \<Rightarrow> nat \<Rightarrow> handle list" where
  "row_at rows arity i = slice rows (i * arity) ((i + 1) * arity)"

definition b_row :: "batch \<Rightarrow> nat \<Rightarrow> nat \<Rightarrow> handle list" where
  "b_row b arity i = row_at (b_rows b) arity i"

definition b_meta :: "batch \<Rightarrow> nat \<Rightarrow> row_meta" where
  "b_meta b i = metas_get (b_metas b) i"

definition u32_pos :: "nat \<Rightarrow> nat" where
  "u32_pos i = min i 0xFFFFFFFF"

definition lows_of :: "batch \<Rightarrow> nat \<Rightarrow> low list" where
  "lows_of b i =
     (if b_lows b = [] then []
      else
        let pos = u32_pos i;
            from = partition_point (\<lambda>l. lw_pos l < pos) (b_lows b);
            to = from + partition_point (\<lambda>l. lw_pos l = pos) (drop from (b_lows b))
        in slice (b_lows b) from to)"

definition meta_at :: "batch \<Rightarrow> nat \<Rightarrow> nat \<Rightarrow> row_meta" where
  "meta_at b i at =
     (case find (\<lambda>l. lw_from l \<le> at) (rev (lows_of b i)) of None \<Rightarrow> b_meta b i | Some l \<Rightarrow> lw_meta l)"

definition lower_low :: "batch \<Rightarrow> nat \<Rightarrow> nat \<Rightarrow> row_meta \<Rightarrow> batch" where
  "lower_low b i from meta =
     (let pos = u32_pos i;
          at = partition_point (\<lambda>l. (lw_pos l, lw_from l) < (pos, from)) (b_lows b);
          low = \<lparr>lw_pos = pos, lw_from = from, lw_meta = meta\<rparr>
      in if at < length (b_lows b) \<and> (lw_pos (b_lows b ! at), lw_from (b_lows b ! at)) = (pos, from)
         then b\<lparr>b_lows := (b_lows b)[at := low]\<rparr>
         else b\<lparr>b_lows := take at (b_lows b) @ low # drop at (b_lows b)\<rparr>)"

definition b_ordinal :: "batch \<Rightarrow> nat \<Rightarrow> nat" where
  "b_ordinal b i = (case b_ordinals b of None \<Rightarrow> NO_ORDINAL | Some os \<Rightarrow> os ! i)"

subsection \<open>Searching\<close>

definition b_below :: "batch \<Rightarrow> nat \<Rightarrow> nat \<Rightarrow> handle list \<Rightarrow> bool" where
  "b_below b arity i key \<longleftrightarrow> take (length key) (b_row b arity i) < key"

definition has_prefix :: "batch \<Rightarrow> nat \<Rightarrow> nat \<Rightarrow> handle list \<Rightarrow> bool" where
  "has_prefix b arity i key \<longleftrightarrow> take (length key) (b_row b arity i) = key"

function b_search :: "batch \<Rightarrow> nat \<Rightarrow> nat \<Rightarrow> nat \<Rightarrow> handle list \<Rightarrow> nat" where
  "b_search b arity lo hi key =
     (if lo < hi then
        let mid = lo + (hi - lo) div 2 in
        if b_below b arity mid key then b_search b arity (mid + 1) hi key else b_search b arity lo mid key
      else lo)"
  by pat_completeness auto
termination
  by (relation "measure (\<lambda>(b, arity, lo, hi, key). hi - lo)") auto

declare b_search.simps [simp del]

definition lower_bound :: "batch \<Rightarrow> nat \<Rightarrow> handle list \<Rightarrow> nat" where
  "lower_bound b arity key = b_search b arity 0 (b_len b) key"

text \<open>The doubling steps of \<open>gallop\<close>: the last position known below, and the first known not to be.\<close>

function gallop_loop :: "batch \<Rightarrow> nat \<Rightarrow> handle list \<Rightarrow> nat \<Rightarrow> nat \<Rightarrow> nat \<times> nat" where
  "gallop_loop b arity key lo step =
     (let probe = lo + step in
      if step = 0 \<or> probe \<ge> b_len b then (lo, b_len b)
      else if \<not> b_below b arity probe key then (lo, probe)
      else gallop_loop b arity key probe (step * 2))"
  by pat_completeness auto
termination
  by (relation "measure (\<lambda>(b, arity, key, lo, step). b_len b - lo)") auto

declare gallop_loop.simps [simp del]

definition gallop :: "batch \<Rightarrow> nat \<Rightarrow> nat \<Rightarrow> handle list \<Rightarrow> nat" where
  "gallop b arity from key =
     (if from \<ge> b_len b \<or> \<not> b_below b arity from key then from
      else let (lo, hi) = gallop_loop b arity key from 1 in b_search b arity (lo + 1) hi key)"

subsection \<open>Building batches\<close>

definition push_from :: "batch \<Rightarrow> batch \<Rightarrow> nat \<Rightarrow> nat \<Rightarrow> batch" where
  "push_from dst src arity i =
     (let pos = u32_pos (b_len dst)
      in \<lparr>b_rows = b_rows dst @ b_row src arity i,
          b_metas = metas_push (b_metas dst) (b_meta src i),
          b_ordinals = map_option (\<lambda>os. os @ [b_ordinal src i]) (b_ordinals dst),
          b_lows = b_lows dst @ map (\<lambda>l. l\<lparr>lw_pos := pos\<rparr>) (lows_of src i)\<rparr>)"

definition collect :: "(handle list \<times> row_meta \<times> nat) list \<Rightarrow> batch" where
  "collect rows =
     (let ords = map (\<lambda>(row, meta, ord). ord) rows
      in \<lparr>b_rows = concat (map fst rows),
          b_metas = fold (\<lambda>(row, meta, ord) m. metas_push m meta) rows metas_default,
          b_ordinals = (if \<exists>n \<in> set ords. n \<noteq> NO_ORDINAL then Some ords else None),
          b_lows = []\<rparr>)"

definition permute_row :: "nat list \<Rightarrow> handle list \<Rightarrow> handle list" where
  "permute_row perm r = map (\<lambda>c. r ! c) perm"

definition permuted :: "batch \<Rightarrow> nat \<Rightarrow> nat list \<Rightarrow> batch" where
  "permuted b arity perm =
     (let flat = concat (map (\<lambda>i. permute_row perm (b_row b arity i)) [0..<b_len b]);
          order = sort_key (\<lambda>i. row_at flat arity i) [0..<b_len b]
      in \<lparr>b_rows = concat (map (\<lambda>i. row_at flat arity i) order),
          b_metas = (case metas_uniform (b_metas b) of
              Some meta \<Rightarrow> Uniform (b_len b) meta
            | None \<Rightarrow> fold (\<lambda>i m. metas_push m (b_meta b i)) order (Per [] [])),
          b_ordinals = None,
          b_lows = concat (map (\<lambda>(to, i). map (\<lambda>l. l\<lparr>lw_pos := u32_pos to\<rparr>) (lows_of b i)) (enumerate 0 order))\<rparr>)"

function merge_loop :: "batch \<Rightarrow> batch \<Rightarrow> nat \<Rightarrow> nat \<Rightarrow> nat \<Rightarrow> batch \<Rightarrow> batch" where
  "merge_loop a b arity i j out =
     (if i < b_len a \<or> j < b_len b then
        if j \<ge> b_len b \<or> (i < b_len a \<and> b_row a arity i < b_row b arity j)
        then merge_loop a b arity (i + 1) j (push_from out a arity i)
        else merge_loop a b arity i (j + 1) (push_from out b arity j)
      else out)"
  by pat_completeness auto
termination
  by (relation "measure (\<lambda>(a, b, arity, i, j, out). (b_len a - i) + (b_len b - j))") auto

declare merge_loop.simps [simp del]

definition merge_batch :: "batch \<Rightarrow> batch \<Rightarrow> nat \<Rightarrow> batch" where
  "merge_batch a b arity =
     (if b_len a = 0 then b
      else if b_len b = 0 then a
      else
        let metas = (case (metas_uniform (b_metas a), metas_uniform (b_metas b)) of
                (Some x, Some y) \<Rightarrow> if x = y then metas_default else Per [] []
              | _ \<Rightarrow> Per [] []);
            out = \<lparr>b_rows = [], b_metas = metas,
              b_ordinals = (if b_ordinals a \<noteq> None \<or> b_ordinals b \<noteq> None then Some [] else None), b_lows = []\<rparr>
        in merge_loop a b arity 0 0 out)"

text \<open>
  \<open>push_run\<close>: trailing runs are merged while the earlier one is no more than twice the later.
\<close>

function push_run :: "batch list \<Rightarrow> batch \<Rightarrow> nat \<Rightarrow> batch list" where
  "push_run runs run arity =
     (if b_len run = 0 then runs
      else if runs \<noteq> [] \<and> b_len (last runs) \<le> 2 * b_len run
      then push_run (butlast runs) (merge_batch (last runs) run arity) arity
      else runs @ [run])"
  by pat_completeness auto
termination
  by (relation "measure (\<lambda>(runs, run, arity). length runs)") auto

declare push_run.simps [simp del]

end
