(* ===== verification/RelStore.thy ===== *)
theory RelStore
  imports Batch
begin

text \<open>
  The relation store of \<open>rules/src/relation.rs\<close>: per index three level partitions and the lowered
  copies, each a list of stable runs, oldest first, and the recent batch. A level is the position
  of its tier in \<open>tier_all\<close>. A scan or a seek returns the list of visits the code's callback gets.
\<close>

record part =
  pt_stable :: "batch list"
  pt_recent :: batch

definition part_default :: part where
  "part_default = \<lparr>pt_stable = [], pt_recent = batch_default\<rparr>"

definition part_batches :: "part \<Rightarrow> batch list" where
  "part_batches p = pt_stable p @ [pt_recent p]"

record index =
  ix_perm :: "nat list"
  ix_parts :: "part list"
  ix_lowered :: "part list list"

record relation =
  rl_arity :: nat
  rl_indexes :: "index list"
  rl_len :: nat

datatype which = WStable | WRecent | WBoth

text \<open>\<open>levels\<close> is the inclusive range \<open>first..=last\<close>.\<close>

record view =
  vw_first :: nat
  vw_last :: nat
  vw_which :: which
  vw_max_height :: "nat option"
  vw_at :: "nat option"
  vw_lowered :: bool

definition view_rows :: "nat \<Rightarrow> nat \<Rightarrow> which \<Rightarrow> view" where
  "view_rows lo hi which =
     \<lparr>vw_first = lo, vw_last = hi, vw_which = which, vw_max_height = None, vw_at = None, vw_lowered = False\<rparr>"

definition in_levels :: "view \<Rightarrow> tier \<Rightarrow> bool" where
  "in_levels v t \<longleftrightarrow> vw_first v \<le> tier_level t \<and> tier_level t \<le> vw_last v"

record inserted =
  in_added :: nat
  in_lowered :: nat

text \<open>One visit: the permuted row, its level, its meta and its ordinal.\<close>

type_synonym visit = "handle list \<times> tier \<times> row_meta \<times> nat"

record edb_rows =
  er_arity :: nat
  er_rows :: "handle list"
  er_levels :: "tier list"
  er_ordinals :: "nat list"

subsection \<open>Small helpers\<close>

definition row_count :: "nat \<Rightarrow> nat \<Rightarrow> nat \<Rightarrow> nat" where
  "row_count arity handles rows = (if arity = 0 then rows else min rows (handles div arity))"

definition pick :: "part \<Rightarrow> tier \<Rightarrow> which \<Rightarrow> (batch \<times> tier) list" where
  "pick part tier which =
     (if which = WStable \<or> which = WBoth then map (\<lambda>b. (b, tier)) (pt_stable part) else []) @
     (if (which = WRecent \<or> which = WBoth) \<and> b_len (pt_recent part) > 0 then [(pt_recent part, tier)] else [])"

fun perm_fresh :: "nat list \<Rightarrow> bool list \<Rightarrow> bool" where
  "perm_fresh [] seen = True"
| "perm_fresh (c # cs) seen =
     (if c < length seen \<and> \<not> seen ! c then perm_fresh cs (seen[c := True]) else False)"

definition is_perm :: "nat list \<Rightarrow> nat \<Rightarrow> bool" where
  "is_perm perm arity \<longleftrightarrow> length perm = arity \<and> perm_fresh perm (replicate arity False)"

definition part_of :: "tier \<Rightarrow> nat" where
  "part_of t = tier_level t"

subsection \<open>Indexes\<close>

definition index_new :: "nat list \<Rightarrow> index" where
  "index_new perm =
     \<lparr>ix_perm = perm, ix_parts = replicate 3 part_default, ix_lowered = replicate 3 (replicate 3 part_default)\<rparr>"

definition index_of_perm :: "relation \<Rightarrow> nat list \<Rightarrow> nat option" where
  "index_of_perm rel perm =
     find (\<lambda>i. ix_perm (rl_indexes rel ! i) = perm) [0..<length (rl_indexes rel)]"

definition add_perm :: "nat list \<Rightarrow> relation \<Rightarrow> relation" where
  "add_perm p rel =
     (if index_of_perm rel p = None \<and> is_perm p (rl_arity rel)
      then rel\<lparr>rl_indexes := rl_indexes rel @ [index_new p]\<rparr> else rel)"

definition relation_new :: "nat \<Rightarrow> nat list list \<Rightarrow> relation" where
  "relation_new arity perms =
     fold add_perm perms
       \<lparr>rl_arity = arity, rl_indexes = [index_new (map (\<lambda>c. min c 0xFF) [0..<arity])], rl_len = 0\<rparr>"

definition part_permuted :: "nat \<Rightarrow> nat list \<Rightarrow> part \<Rightarrow> part" where
  "part_permuted arity perm p =
     \<lparr>pt_stable = map (\<lambda>b. permuted b arity perm) (pt_stable p), pt_recent = permuted (pt_recent p) arity perm\<rparr>"

definition ensure_index :: "relation \<Rightarrow> nat list \<Rightarrow> nat option \<times> relation" where
  "ensure_index rel perm =
     (case index_of_perm rel perm of
        Some i \<Rightarrow> (Some i, rel)
      | None \<Rightarrow>
          if \<not> is_perm perm (rl_arity rel) then (None, rel)
          else
            let arity = rl_arity rel; ix = rl_indexes rel ! 0;
                new = \<lparr>ix_perm = perm, ix_parts = map (part_permuted arity perm) (ix_parts ix),
                  ix_lowered = map (map (part_permuted arity perm)) (ix_lowered ix)\<rparr>;
                rel = rel\<lparr>rl_indexes := rl_indexes rel @ [new]\<rparr>
            in (Some (length (rl_indexes rel) - 1), rel))"

subsection \<open>Storing\<close>

definition store_part :: "nat \<Rightarrow> bool \<Rightarrow> batch \<Rightarrow> part \<Rightarrow> part" where
  "store_part arity recent batch part =
     (if recent then part\<lparr>pt_recent := batch\<rparr>
      else part\<lparr>pt_stable := push_run (pt_stable part) batch arity\<rparr>)"

definition store_index :: "nat \<Rightarrow> nat \<Rightarrow> bool \<Rightarrow> batch \<Rightarrow> index \<Rightarrow> index" where
  "store_index arity l recent batch ix =
     ix\<lparr>ix_parts := (ix_parts ix)[l := store_part arity recent batch (ix_parts ix ! l)]\<rparr>"

definition store_rel :: "tier \<Rightarrow> batch \<Rightarrow> bool \<Rightarrow> relation \<Rightarrow> relation" where
  "store_rel level batch recent rel =
     (let arity = rl_arity rel; l = part_of level
      in rel\<lparr>rl_len := rl_len rel + b_len batch,
          rl_indexes :=
            (case rl_indexes rel of
               [] \<Rightarrow> []
             | ix0 # ixs \<Rightarrow>
                 store_index arity l recent batch ix0 #
                 map (\<lambda>ix. store_index arity l recent (permuted batch arity (ix_perm ix)) ix) ixs)\<rparr>)"

text \<open>
  One batch's pass of \<open>drop_present\<close>: the kept positions, and those whose row the batch holds,
  with the place it was found at.
\<close>

fun drop_batch :: "batch \<Rightarrow> nat \<Rightarrow> handle list \<Rightarrow> nat list \<Rightarrow> nat \<Rightarrow> nat list \<times> (nat \<times> nat) list" where
  "drop_batch b arity rows [] pos = ([], [])"
| "drop_batch b arity rows (i # is) pos =
     (let row = row_at rows arity i;
          pos = gallop b arity pos row;
          found = pos < b_len b \<and> b_row b arity pos = row;
          (kept, dropped) = drop_batch b arity rows is pos
      in if found then (kept, (i, pos) # dropped) else (i # kept, dropped))"

definition identity_batches :: "relation \<Rightarrow> (batch \<times> tier) list" where
  "identity_batches rel =
     concat (map (\<lambda>(l, part). map (\<lambda>b. (b, tier_all ! l)) (part_batches part))
       (enumerate 0 (ix_parts (rl_indexes rel ! 0))))"

definition drop_present :: "relation \<Rightarrow> handle list \<Rightarrow> nat list \<Rightarrow> nat list" where
  "drop_present rel rows order =
     fold (\<lambda>(b, _) order. fst (drop_batch b (rl_arity rel) rows order 0)) (identity_batches rel) order"

text \<open>\<open>dedup_by\<close> on equal rows: the first of a group of neighbours stays.\<close>

fun dedup_rows :: "(nat \<Rightarrow> handle list) \<Rightarrow> nat list \<Rightarrow> nat list" where
  "dedup_rows row (a # b # is) = (if row a = row b then dedup_rows row (a # is) else a # dedup_rows row (b # is))"
| "dedup_rows row is = is"

definition load :: "edb_rows \<Rightarrow> nat list option \<Rightarrow> relation \<Rightarrow> nat \<times> relation" where
  "load edb heights rel =
     (let arity = rl_arity rel in
      if er_arity edb \<noteq> arity then (0, rel)
      else
        let n = row_count arity (length (er_rows edb)) (length (er_levels edb));
            row = (\<lambda>i. row_at (er_rows edb) arity i);
            height = (\<lambda>i. case heights of Some h \<Rightarrow> if i < length h then h ! i else 0 | None \<Rightarrow> 0);
            ord = (\<lambda>i. if i < length (er_ordinals edb) then er_ordinals edb ! i else NO_ORDINAL);
            order = sort_key (\<lambda>i. (row i, er_levels edb ! i, height i, ord i)) [0..<n];
            order = drop_present rel (er_rows edb) (dedup_rows row order)
        in fold (\<lambda>level (added, rel).
             let batch = collect (map (\<lambda>i. (row i, \<lparr>rm_height = height i, rm_rule = EDB_RULE\<rparr>, ord i))
                   (filter (\<lambda>i. er_levels edb ! i = level) order))
             in (added + b_len batch, store_rel level batch False rel)) tier_all (0, rel))"

subsection \<open>Rounds\<close>

definition advance_part :: "nat \<Rightarrow> part \<Rightarrow> part" where
  "advance_part arity p =
     \<lparr>pt_stable = push_run (pt_stable p) (pt_recent p) arity, pt_recent = batch_default\<rparr>"

definition map_parts :: "(part \<Rightarrow> part) \<Rightarrow> index \<Rightarrow> index" where
  "map_parts f ix = ix\<lparr>ix_parts := map f (ix_parts ix), ix_lowered := map (map f) (ix_lowered ix)\<rparr>"

definition advance_rel :: "relation \<Rightarrow> relation" where
  "advance_rel rel = rel\<lparr>rl_indexes := map (map_parts (advance_part (rl_arity rel))) (rl_indexes rel)\<rparr>"

definition seal_part :: "nat \<Rightarrow> part \<Rightarrow> part" where
  "seal_part arity p =
     (case rev (pt_stable p) of
        newest # earlier # rest \<Rightarrow>
          p\<lparr>pt_stable := [fold (\<lambda>b acc. merge_batch b acc arity) (earlier # rest) newest]\<rparr>
      | _ \<Rightarrow> p)"

definition seal_rel :: "relation \<Rightarrow> relation" where
  "seal_rel rel =
     (let rel = advance_rel rel
      in rel\<lparr>rl_indexes := map (map_parts (seal_part (rl_arity rel))) (rl_indexes rel)\<rparr>)"

text \<open>The rows a round finds present, each with its home level, and the rows it lowers.\<close>

definition drop_present_lowering ::
  "relation \<Rightarrow> handle list \<Rightarrow> row_meta list \<Rightarrow> tier \<Rightarrow> nat list \<Rightarrow> nat list \<times> (nat \<times> tier) list" where
  "drop_present_lowering rel rows metas level order =
     (let arity = rl_arity rel; at = tier_level level;
          (order, lower) =
            fold (\<lambda>(b, home) (order, lower).
              let (kept, dropped) = drop_batch b arity rows order 0
              in (kept, lower @ map (\<lambda>(i, pos). (i, home))
                   (filter (\<lambda>(i, pos). tier_level home \<le> at \<and> rm_height (metas ! i) < rm_height (meta_at b pos at)) dropped)))
              (identity_batches rel) (order, [])
      in (order, sort_key (\<lambda>(i, _). row_at rows arity i) lower))"

fun lower_in :: "nat \<Rightarrow> handle list \<Rightarrow> nat \<Rightarrow> row_meta \<Rightarrow> batch list \<Rightarrow> batch list" where
  "lower_in arity row at meta [] = []"
| "lower_in arity row at meta (b # bs) =
     (let p = lower_bound b arity row
      in if p < b_len b \<and> b_row b arity p = row then lower_low b p at meta # bs
         else b # lower_in arity row at meta bs)"

definition lower_part :: "nat \<Rightarrow> handle list \<Rightarrow> nat \<Rightarrow> row_meta \<Rightarrow> part \<Rightarrow> part" where
  "lower_part arity row at meta p =
     (let bs = lower_in arity row at meta (part_batches p)
      in \<lparr>pt_stable = butlast bs, pt_recent = last bs\<rparr>)"

definition lower_index :: "nat \<Rightarrow> nat \<Rightarrow> handle list \<Rightarrow> row_meta list \<Rightarrow> (nat \<times> tier) list \<Rightarrow> index \<Rightarrow> index" where
  "lower_index arity at rows metas lower ix =
     fold (\<lambda>(i, home) ix.
       ix\<lparr>ix_parts := (ix_parts ix)[part_of home :=
          lower_part arity (permute_row (ix_perm ix) (row_at rows arity i)) at (metas ! i) (ix_parts ix ! part_of home)]\<rparr>)
       lower ix"

definition copy_lowered :: "nat \<Rightarrow> nat \<Rightarrow> batch \<Rightarrow> index \<Rightarrow> index" where
  "copy_lowered l h batch ix =
     ix\<lparr>ix_lowered := (ix_lowered ix)[l := (ix_lowered ix ! l)[h := (ix_lowered ix ! l ! h)\<lparr>pt_recent := batch\<rparr>]]\<rparr>"

definition lower_rows :: "tier \<Rightarrow> handle list \<Rightarrow> row_meta list \<Rightarrow> (nat \<times> tier) list \<Rightarrow> relation \<Rightarrow> relation" where
  "lower_rows level rows metas lower rel =
     (if lower = [] then rel
      else
        let arity = rl_arity rel; at = tier_level level;
            rel = rel\<lparr>rl_indexes := map (lower_index arity at rows metas lower) (rl_indexes rel)\<rparr>
        in fold (\<lambda>home rel.
             let picked = filter (\<lambda>(_, h). h = home) lower in
             if picked = [] then rel
             else
               let batch = collect (map (\<lambda>(i, _). (row_at rows arity i, metas ! i, NO_ORDINAL)) picked);
                   l = part_of level; h = part_of home
               in rel\<lparr>rl_indexes :=
                    (case rl_indexes rel of
                       [] \<Rightarrow> []
                     | ix0 # ixs \<Rightarrow>
                         copy_lowered l h batch ix0 #
                         map (\<lambda>ix. copy_lowered l h (permuted batch arity (ix_perm ix)) ix) ixs)\<rparr>)
             tier_all rel)"

text \<open>One round; the code also empties the two input vectors.\<close>

definition insert_round :: "tier \<Rightarrow> handle list \<Rightarrow> row_meta list \<Rightarrow> relation \<Rightarrow> inserted \<times> relation" where
  "insert_round level to_add metas rel =
     (let rel = advance_rel rel; arity = rl_arity rel;
          n = row_count arity (length to_add) (length metas);
          row = (\<lambda>i. row_at to_add arity i);
          order = dedup_rows row (sort_key (\<lambda>i. (row i, rm_height (metas ! i), rm_rule (metas ! i))) [0..<n]);
          (order, lower) = drop_present_lowering rel to_add metas level order;
          rel = lower_rows level to_add metas lower rel;
          batch = collect (map (\<lambda>i. (row i, metas ! i, NO_ORDINAL)) order)
      in (\<lparr>in_added = b_len batch, in_lowered = length lower\<rparr>, store_rel level batch True rel))"

subsection \<open>Reading\<close>

definition find_row :: "nat \<Rightarrow> handle list \<Rightarrow> (batch \<times> tier) \<Rightarrow> (tier \<times> row_meta \<times> nat) option" where
  "find_row arity row bt =
     (let (b, tier) = bt; i = lower_bound b arity row
      in if i < b_len b \<and> b_row b arity i = row
         then Some (tier, meta_at b i (tier_level tier), b_ordinal b i) else None)"

fun first_some :: "('a \<Rightarrow> 'b option) \<Rightarrow> 'a list \<Rightarrow> 'b option" where
  "first_some f [] = None"
| "first_some f (x # xs) = (case f x of Some y \<Rightarrow> Some y | None \<Rightarrow> first_some f xs)"

definition rel_contains :: "relation \<Rightarrow> handle list \<Rightarrow> (tier \<times> row_meta \<times> nat) option" where
  "rel_contains rel row =
     (if length row \<noteq> rl_arity rel then None
      else first_some (find_row (rl_arity rel) row) (identity_batches rel))"

definition exists_prefix :: "relation \<Rightarrow> nat \<Rightarrow> handle list \<Rightarrow> bool" where
  "exists_prefix rel index key =
     (if index < length (rl_indexes rel) \<and> length key \<le> rl_arity rel then
        list_ex (\<lambda>b. let i = lower_bound b (rl_arity rel) key
                     in i < b_len b \<and> has_prefix b (rl_arity rel) i key)
          (concat (map part_batches (ix_parts (rl_indexes rel ! index))))
      else False)"

definition selected :: "relation \<Rightarrow> nat \<Rightarrow> view \<Rightarrow> (batch \<times> tier) list" where
  "selected rel index v =
     (if index < length (rl_indexes rel) then
        let ix = rl_indexes rel ! index in
        concat (map (\<lambda>(l, part). if in_levels v (tier_all ! l) then pick part (tier_all ! l) (vw_which v) else [])
          (enumerate 0 (ix_parts ix))) @
        (if vw_lowered v then
           concat (map (\<lambda>(l, homes).
             if \<not> in_levels v (tier_all ! l) then []
             else concat (map (\<lambda>(h, part). pick part (tier_all ! h) (vw_which v)) (enumerate 0 homes)))
             (enumerate 0 (ix_lowered ix)))
         else [])
      else [])"

definition visit_row :: "nat \<Rightarrow> nat option \<Rightarrow> nat option \<Rightarrow> batch \<Rightarrow> tier \<Rightarrow> nat \<Rightarrow> visit list" where
  "visit_row arity max_height at b tier i =
     (let meta = meta_at b i (case at of Some l \<Rightarrow> l | None \<Rightarrow> tier_level tier)
      in if (case max_height of None \<Rightarrow> True | Some h \<Rightarrow> rm_height meta < h)
         then [(b_row b arity i, tier, meta, b_ordinal b i)] else [])"

definition rel_scan :: "relation \<Rightarrow> nat \<Rightarrow> view \<Rightarrow> visit list" where
  "rel_scan rel index v =
     concat (map (\<lambda>(b, tier).
       concat (map (visit_row (rl_arity rel) (vw_max_height v) (vw_at v) b tier) [0..<b_len b]))
       (selected rel index v))"

definition rel_length :: "relation \<Rightarrow> nat" where
  "rel_length rel = rl_len rel"

definition recent_len :: "relation \<Rightarrow> nat" where
  "recent_len rel =
     (let ix = rl_indexes rel ! 0
      in sum_list (map (\<lambda>p. b_len (pt_recent p)) (ix_parts ix @ concat (ix_lowered ix))))"

subsection \<open>Cursors\<close>

record run =
  rn_batch :: batch
  rn_tier :: tier
  rn_pos :: nat

record rel_cursor =
  rc_arity :: nat
  rc_runs :: "run list"
  rc_max_height :: "nat option"
  rc_at :: "nat option"
  rc_last :: "handle list"
  rc_started :: bool

definition cursor_of :: "relation \<Rightarrow> nat \<Rightarrow> view \<Rightarrow> rel_cursor" where
  "cursor_of rel index v =
     \<lparr>rc_arity = rl_arity rel,
      rc_runs = map (\<lambda>(b, tier). \<lparr>rn_batch = b, rn_tier = tier, rn_pos = 0\<rparr>) (selected rel index v),
      rc_max_height = vw_max_height v, rc_at = vw_at v, rc_last = [], rc_started = False\<rparr>"

text \<open>The rows of a run from \<open>i\<close> on, while they have the prefix.\<close>

function run_visits :: "nat \<Rightarrow> nat option \<Rightarrow> nat option \<Rightarrow> handle list \<Rightarrow> batch \<Rightarrow> tier \<Rightarrow> nat \<Rightarrow> visit list" where
  "run_visits arity max_height at key b tier i =
     (if i < b_len b \<and> has_prefix b arity i key
      then visit_row arity max_height at b tier i @ run_visits arity max_height at key b tier (i + 1)
      else [])"
  by pat_completeness auto
termination
  by (relation "measure (\<lambda>(arity, max_height, at, key, b, tier, i). b_len b - i)") auto

declare run_visits.simps [simp del]

definition run_start :: "nat \<Rightarrow> bool \<Rightarrow> handle list \<Rightarrow> run \<Rightarrow> nat" where
  "run_start arity forward key r =
     (if forward then gallop (rn_batch r) arity (rn_pos r) key else lower_bound (rn_batch r) arity key)"

definition seek :: "handle list \<Rightarrow> rel_cursor \<Rightarrow> visit list \<times> rel_cursor" where
  "seek key c =
     (let arity = rc_arity c in
      if length key > arity then ([], c)
      else
        let forward = rc_started c \<and> key \<ge> rc_last c;
            runs = map (\<lambda>r. r\<lparr>rn_pos := run_start arity forward key r\<rparr>) (rc_runs c)
        in (concat (map (\<lambda>r. run_visits arity (rc_max_height c) (rc_at c) key (rn_batch r) (rn_tier r) (rn_pos r)) runs),
            c\<lparr>rc_runs := runs, rc_last := key, rc_started := True\<rparr>))"

end
