(* ===== verification/BatchFacts.thy ===== *)
theory BatchFacts
  imports Batch
begin

text \<open>
  What the batch operations do to the rows: a batch is read as the list of its rows
  (\<open>rowlist\<close>), sorted by \<open>rows_ok\<close>. The two searches meet one contract, the first position not below a key.
\<close>

definition rowlist :: "nat \<Rightarrow> batch \<Rightarrow> handle list list" where
  "rowlist arity b = map (b_row b arity) [0..<b_len b]"

definition flat_ok :: "nat \<Rightarrow> batch \<Rightarrow> bool" where
  "flat_ok arity b \<longleftrightarrow> length (b_rows b) = b_len b * arity \<and> metas_ok (b_metas b)"

definition rows_ok :: "nat \<Rightarrow> batch \<Rightarrow> bool" where
  "rows_ok arity b \<longleftrightarrow> flat_ok arity b \<and> sorted (rowlist arity b)"

lemma length_rowlist [simp]: "length (rowlist arity b) = b_len b"
  by (simp add: rowlist_def)

lemma rowlist_nth [simp]: "i < b_len b \<Longrightarrow> rowlist arity b ! i = b_row b arity i"
  by (simp add: rowlist_def)

subsection \<open>Lexicographic prefixes\<close>

lemma take_mono_lex: "(xs :: nat list) \<le> ys \<Longrightarrow> take n xs \<le> take n ys"
proof (induction n arbitrary: xs ys)
  case (Suc n)
  then show ?case by (cases xs; cases ys) auto
qed simp

text \<open>A row below an earlier key is below every later one, whatever the lengths of the two keys.\<close>

lemma below_later_key:
  "take (length l) r < l \<Longrightarrow> (l :: nat list) \<le> k \<Longrightarrow> length l \<le> length r \<Longrightarrow> take (length k) r < k"
proof (induction l arbitrary: r k)
  case (Cons x l)
  then show ?case by (cases r; cases k) auto
qed simp

subsection \<open>Flat rows\<close>

lemma row_at_append: "length rows = n * arity \<Longrightarrow> i < n \<Longrightarrow> row_at (rows @ rest) arity i = row_at rows arity i"
proof -
  assume len: "length rows = n * arity" and i: "i < n"
  have "(i + 1) * arity \<le> n * arity" using i by (intro mult_right_mono) simp_all
  then show ?thesis using len by (simp add: row_at_def slice_def)
qed

lemma row_at_last: "length rows = n * arity \<Longrightarrow> length r = arity \<Longrightarrow> row_at (rows @ r) arity n = r"
  by (simp add: row_at_def slice_def)

lemma rows_of_concat:
  "\<forall>r \<in> set rs. length r = arity \<Longrightarrow> map (row_at (concat rs) arity) [0..<length rs] = rs \<and> length (concat rs) = length rs * arity"
proof (induction rs rule: rev_induct)
  case (snoc r rs)
  then have IH: "map (row_at (concat rs) arity) [0..<length rs] = rs" "length (concat rs) = length rs * arity"
    and r: "length r = arity" by simp_all
  have "map (row_at (concat rs @ r) arity) [0..<length rs] = map (row_at (concat rs) arity) [0..<length rs]"
    by (rule map_cong) (simp_all add: row_at_append [OF IH(2)])
  then show ?case using IH r row_at_last [OF IH(2) r] by simp
qed simp

lemma length_b_row:
  assumes "flat_ok arity b" and "i < b_len b"
  shows "length (b_row b arity i) = arity"
proof -
  have "(i + 1) * arity \<le> b_len b * arity" using assms(2) by (intro mult_right_mono) simp_all
  then show ?thesis using assms(1) by (simp add: flat_ok_def b_row_def row_at_def slice_def)
qed

lemma row_in_rowlist: "flat_ok arity b \<Longrightarrow> r \<in> set (rowlist arity b) \<Longrightarrow> length r = arity"
  by (auto simp: rowlist_def length_b_row)

lemma rowlist_flat: "flat_ok arity b \<Longrightarrow> concat (rowlist arity b) = b_rows b"
proof -
  have "concat (map (row_at rows arity) [0..<n]) = take (n * arity) rows" if "n * arity \<le> length rows" for n and rows :: "handle list"
    using that
  proof (induction n)
    case (Suc n)
    then have "concat (map (row_at rows arity) [0..<n]) = take (n * arity) rows" by simp
    moreover have "row_at rows arity n = take arity (drop (n * arity) rows)" by (simp add: row_at_def slice_def)
    moreover have "take (Suc n * arity) rows = take (n * arity) rows @ take arity (drop (n * arity) rows)"
      by (simp add: take_add [symmetric] add.commute)
    ultimately show ?case by simp
  qed simp
  then show "flat_ok arity b \<Longrightarrow> concat (rowlist arity b) = b_rows b"
    by (simp add: rowlist_def flat_ok_def b_row_def [abs_def])
qed

subsection \<open>Searching\<close>

text \<open>The contract of a search: the first position whose row is not below the key.\<close>

definition first_geq :: "batch \<Rightarrow> nat \<Rightarrow> handle list \<Rightarrow> nat \<Rightarrow> bool" where
  "first_geq b arity key p \<longleftrightarrow>
     p \<le> b_len b \<and> (\<forall>i < p. b_below b arity i key) \<and> (\<forall>i. p \<le> i \<and> i < b_len b \<longrightarrow> \<not> b_below b arity i key)"

lemma below_mono:
  assumes "rows_ok arity b" and "i \<le> j" and "j < b_len b" and "b_below b arity j key"
  shows "b_below b arity i key"
proof -
  have "b_row b arity i \<le> b_row b arity j"
    using assms(1-3) sorted_nth_mono [of "rowlist arity b" i j] by (simp add: rows_ok_def)
  then have "take (length key) (b_row b arity i) \<le> take (length key) (b_row b arity j)" by (rule take_mono_lex)
  then show ?thesis using assms(4) by (simp add: b_below_def)
qed

lemma first_geq_unique: "first_geq b arity key p \<Longrightarrow> first_geq b arity key q \<Longrightarrow> p = q"
  unfolding first_geq_def by (meson nat_le_linear not_less order_antisym_conv order_less_le_trans)

lemma b_search_spec:
  assumes "rows_ok arity b"
  shows "lo \<le> hi \<Longrightarrow> hi \<le> b_len b \<Longrightarrow> (\<forall>i < lo. b_below b arity i key) \<Longrightarrow>
    (\<forall>i. hi \<le> i \<and> i < b_len b \<longrightarrow> \<not> b_below b arity i key) \<Longrightarrow> first_geq b arity key (b_search b arity lo hi key)"
  using assms
proof (induction b arity lo hi key rule: b_search.induct)
  case (1 b arity lo hi key)
  show ?case
  proof (cases "lo < hi")
    case False
    then show ?thesis using "1.prems" by (subst b_search.simps) (auto simp: first_geq_def)
  next
    case True
    define mid where "mid = lo + (hi - lo) div 2"
    have mid: "lo \<le> mid" "mid < hi" using True by (auto simp: mid_def)
    show ?thesis
    proof (cases "b_below b arity mid key")
      case below: True
      have "\<forall>i < mid + 1. b_below b arity i key"
        using below_mono [OF "1.prems"(5) _ _ below] mid "1.prems"(2) by auto
      then have "first_geq b arity key (b_search b arity (mid + 1) hi key)"
        by (intro "1.IH"(1) [OF True mid_def below]) (use mid "1.prems" in auto)
      then show ?thesis using True below by (subst b_search.simps) (simp add: mid_def)
    next
      case False
      have "\<forall>i. mid \<le> i \<and> i < b_len b \<longrightarrow> \<not> b_below b arity i key"
        using below_mono [OF "1.prems"(5)] False by blast
      then have "first_geq b arity key (b_search b arity lo mid key)"
        by (intro "1.IH"(2) [OF True mid_def False]) (use mid "1.prems" in auto)
      then show ?thesis using True False by (subst b_search.simps) (simp add: mid_def)
    qed
  qed
qed

lemma lower_bound_spec: "rows_ok arity b \<Longrightarrow> first_geq b arity key (lower_bound b arity key)"
  unfolding lower_bound_def by (rule b_search_spec) auto

lemma gallop_loop_spec:
  assumes "rows_ok arity b"
  shows "lo < b_len b \<Longrightarrow> b_below b arity lo key \<Longrightarrow> 0 < step \<Longrightarrow> gallop_loop b arity key lo step = (lo', hi') \<Longrightarrow>
    lo' < hi' \<and> hi' \<le> b_len b \<and> b_below b arity lo' key \<and> (hi' < b_len b \<longrightarrow> \<not> b_below b arity hi' key)"
  using assms
proof (induction b arity key lo step rule: gallop_loop.induct)
  case (1 b arity key lo step)
  show ?case
  proof (cases "lo + step \<ge> b_len b")
    case True
    then show ?thesis using "1.prems" by (simp add: gallop_loop.simps [of b arity key lo step])
  next
    case False
    show ?thesis
    proof (cases "b_below b arity (lo + step) key")
      case True
      have "gallop_loop b arity key (lo + step) (step * 2) = (lo', hi')"
        using "1.prems"(3,4) False True by (simp add: gallop_loop.simps [of b arity key lo step])
      then show ?thesis using "1.IH" [OF refl] "1.prems" False True by simp
    next
      case nb: False
      then have "lo' = lo" "hi' = lo + step"
        using "1.prems"(3,4) False by (auto simp: gallop_loop.simps [of b arity key lo step])
      then show ?thesis using "1.prems" False nb by simp
    qed
  qed
qed

lemma gallop_spec:
  assumes ok: "rows_ok arity b" and len: "from \<le> b_len b" and below: "\<forall>i < from. b_below b arity i key"
  shows "first_geq b arity key (gallop b arity from key)"
proof (cases "from \<ge> b_len b \<or> \<not> b_below b arity from key")
  case True
  then have "first_geq b arity key from"
    using below len below_mono [OF ok] by (auto simp: first_geq_def)
  then show ?thesis using True by (simp add: gallop_def)
next
  case False
  obtain lo hi where loop: "gallop_loop b arity key from 1 = (lo, hi)" by fastforce
  have g: "lo < hi" "hi \<le> b_len b" "b_below b arity lo key" "hi < b_len b \<longrightarrow> \<not> b_below b arity hi key"
    using gallop_loop_spec [OF ok _ _ _ loop] False by auto
  have "first_geq b arity key (b_search b arity (lo + 1) hi key)"
  proof (rule b_search_spec [OF ok])
    show "\<forall>i < lo + 1. b_below b arity i key" using below_mono [OF ok _ _ g(3)] g(1,2) by auto
    show "\<forall>i. hi \<le> i \<and> i < b_len b \<longrightarrow> \<not> b_below b arity i key"
      using g(4) below_mono [OF ok, of hi] by (metis order_le_less_trans)
  qed (use g in auto)
  then show ?thesis using False loop by (simp add: gallop_def)
qed

text \<open>With the key a whole row, the search finds it when the batch holds it.\<close>

lemma first_geq_row:
  assumes ok: "rows_ok arity b" and p: "first_geq b arity row p" and len: "length row = arity"
  shows "p < b_len b \<and> b_row b arity p = row \<longleftrightarrow> row \<in> set (rowlist arity b)"
proof
  assume "p < b_len b \<and> b_row b arity p = row"
  then show "row \<in> set (rowlist arity b)" by (auto simp: rowlist_def)
next
  assume "row \<in> set (rowlist arity b)"
  then obtain i where i: "i < b_len b" "b_row b arity i = row" by (auto simp: rowlist_def)
  have flat: "flat_ok arity b" using ok by (simp add: rows_ok_def)
  have "\<not> b_below b arity i row" using i len by (simp add: b_below_def)
  then have pi: "p \<le> i" using p by (auto simp: first_geq_def not_less [symmetric])
  then have pl: "p < b_len b" using i(1) by simp
  then have "\<not> b_below b arity p row" using p by (simp add: first_geq_def)
  then have "row \<le> b_row b arity p" using length_b_row [OF flat pl] len by (simp add: b_below_def not_less)
  moreover have "b_row b arity p \<le> row"
    using sorted_nth_mono [of "rowlist arity b" p i] ok pi i by (simp add: rows_ok_def)
  ultimately show "p < b_len b \<and> b_row b arity p = row" using pl by simp
qed

subsection \<open>Appending, merging\<close>

lemma b_len_push [simp]: "metas_ok (b_metas dst) \<Longrightarrow> b_len (push_from dst src arity i) = Suc (b_len dst)"
  using metas_list_push [of "b_metas dst" "b_meta src i"]
  by (metis One_nat_def add.right_neutral add_Suc_right b_len_def batch.select_convs(2) length_append length_metas_list
      list.size(3) list.size(4) push_from_def)

lemma rowlist_push:
  assumes dst: "flat_ok arity dst" and src: "flat_ok arity src" and i: "i < b_len src"
  shows "rowlist arity (push_from dst src arity i) = rowlist arity dst @ [b_row src arity i]"
    and "flat_ok arity (push_from dst src arity i)"
proof -
  let ?out = "push_from dst src arity i"
  have ok: "metas_ok (b_metas dst)" "length (b_rows dst) = b_len dst * arity" using dst by (simp_all add: flat_ok_def)
  have len: "b_len ?out = Suc (b_len dst)" using ok(1) by (rule b_len_push)
  have row: "length (b_row src arity i) = arity" using src i by (rule length_b_row)
  have rows: "b_rows ?out = b_rows dst @ b_row src arity i" by (simp add: push_from_def)
  have "b_row ?out arity k = b_row dst arity k" if "k < b_len dst" for k
    using row_at_append [OF ok(2) that] by (simp add: b_row_def rows)
  moreover have "b_row ?out arity (b_len dst) = b_row src arity i"
    using row_at_last [OF ok(2) row] by (simp add: b_row_def [of ?out] rows)
  ultimately show "rowlist arity ?out = rowlist arity dst @ [b_row src arity i]"
    by (simp add: rowlist_def len)
  have "metas_ok (b_metas ?out)" using metas_list_push [OF ok(1)] by (simp add: push_from_def)
  then show "flat_ok arity ?out" using ok row rows len by (simp add: flat_ok_def)
qed

fun merge_rows :: "handle list list \<Rightarrow> handle list list \<Rightarrow> handle list list" where
  "merge_rows [] ys = ys"
| "merge_rows (x # xs) [] = x # xs"
| "merge_rows (x # xs) (y # ys) = (if x < y then x # merge_rows xs (y # ys) else y # merge_rows (x # xs) ys)"

lemma mset_merge_rows [simp]: "mset (merge_rows xs ys) = mset xs + mset ys"
  by (induction xs ys rule: merge_rows.induct) simp_all

lemma set_merge_rows [simp]: "set (merge_rows xs ys) = set xs \<union> set ys"
  by (metis mset_merge_rows set_mset_mset set_mset_union)

lemma sorted_merge_rows: "sorted xs \<Longrightarrow> sorted ys \<Longrightarrow> sorted (merge_rows xs ys)"
  by (induction xs ys rule: merge_rows.induct) auto

lemma merge_rows_Nil2 [simp]: "merge_rows xs [] = xs"
  by (cases xs) simp_all

lemma merge_loop_rows:
  assumes "flat_ok arity a" and "flat_ok arity b"
  shows "flat_ok arity out \<Longrightarrow>
    rowlist arity (merge_loop a b arity i j out) =
      rowlist arity out @ merge_rows (drop i (rowlist arity a)) (drop j (rowlist arity b)) \<and>
    flat_ok arity (merge_loop a b arity i j out)"
  using assms
proof (induction a b arity i j out rule: merge_loop.induct)
  case (1 a b arity i j out)
  let ?xs = "drop i (rowlist arity a)" and ?ys = "drop j (rowlist arity b)"
  have xs: "?xs = b_row a arity i # drop (Suc i) (rowlist arity a)" if "i < b_len a"
    using that by (simp add: Cons_nth_drop_Suc [symmetric])
  have ys: "?ys = b_row b arity j # drop (Suc j) (rowlist arity b)" if "j < b_len b"
    using that by (simp add: Cons_nth_drop_Suc [symmetric])
  consider "\<not> (i < b_len a \<or> j < b_len b)"
    | "i < b_len a \<or> j < b_len b" "j \<ge> b_len b \<or> (i < b_len a \<and> b_row a arity i < b_row b arity j)"
    | "i < b_len a \<or> j < b_len b" "\<not> (j \<ge> b_len b \<or> (i < b_len a \<and> b_row a arity i < b_row b arity j))"
    by blast
  then show ?case
  proof cases
    case 1
    then show ?thesis using "1.prems" by (subst (1 2) merge_loop.simps) simp
  next
    case 2
    then have i: "i < b_len a" by auto
    note push = rowlist_push [OF "1.prems"(1,2) i]
    have "merge_rows ?xs ?ys = b_row a arity i # merge_rows (drop (i + 1) (rowlist arity a)) ?ys"
      using 2 i ys xs [OF i] by (cases "j < b_len b") simp_all
    then show ?thesis using "1.IH"(1) [OF 2 push(2) "1.prems"(2,3)] 2 push(1)
      by (simp add: merge_loop.simps [of a b arity i j out])
  next
    case 3
    then have j: "j < b_len b" by auto
    note push = rowlist_push [OF "1.prems"(1,3) j]
    have "merge_rows ?xs ?ys = b_row b arity j # merge_rows ?xs (drop (j + 1) (rowlist arity b))"
      using 3 j xs ys [OF j] by (cases "i < b_len a") simp_all
    moreover have "merge_loop a b arity i j out = merge_loop a b arity i (j + 1) (push_from out b arity j)"
      unfolding merge_loop.simps [of a b arity i j out] if_P [OF 3(1)] if_not_P [OF 3(2)] ..
    ultimately show ?thesis using "1.IH"(2) [OF 3 push(2) "1.prems"(2,3)] push(1) by simp
  qed
qed

lemma merge_batch_rows:
  assumes "flat_ok arity a" and "flat_ok arity b"
  shows "rowlist arity (merge_batch a b arity) = merge_rows (rowlist arity a) (rowlist arity b)"
    and "flat_ok arity (merge_batch a b arity)"
proof -
  have empty: "rowlist arity c = [] \<longleftrightarrow> b_len c = 0" for c by (simp add: rowlist_def)
  have start: "flat_ok arity \<lparr>b_rows = [], b_metas = m, b_ordinals = ord, b_lows = []\<rparr> \<and>
      rowlist arity \<lparr>b_rows = [], b_metas = m, b_ordinals = ord, b_lows = []\<rparr> = []"
    if "m = metas_default \<or> m = Per [] []" for m ord
    using that by (auto simp: flat_ok_def rowlist_def b_len_def metas_len_def metas_default_def metas_ok_def)
  show "rowlist arity (merge_batch a b arity) = merge_rows (rowlist arity a) (rowlist arity b)"
    "flat_ok arity (merge_batch a b arity)"
    by (cases "b_len a = 0"; cases "b_len b = 0";
      use assms merge_loop_rows [OF assms] start empty [of a] empty [of b] in
        \<open>auto simp: merge_batch_def split: option.splits\<close>)+
qed

lemma b_len_merge: "flat_ok arity a \<Longrightarrow> flat_ok arity b \<Longrightarrow> b_len (merge_batch a b arity) = b_len a + b_len b"
  using merge_batch_rows(1) [of arity a b] length_rowlist [of arity "merge_batch a b arity"]
  by (metis length_rowlist mset_merge_rows size_mset size_union)

lemma rows_ok_merge: "rows_ok arity a \<Longrightarrow> rows_ok arity b \<Longrightarrow> rows_ok arity (merge_batch a b arity)"
  by (simp add: rows_ok_def merge_batch_rows sorted_merge_rows)

subsection \<open>Collecting, permuting, lowering\<close>

lemma collect_rows:
  assumes "\<forall>x \<in> set rows. length (fst x) = arity"
  shows "rowlist arity (collect rows) = map fst rows" and "flat_ok arity (collect rows)"
    and "b_len (collect rows) = length rows"
proof -
  have metas: "metas_ok (fold (\<lambda>(row, meta, ord) m. metas_push m meta) rows m) \<and>
      metas_list (fold (\<lambda>(row, meta, ord) m. metas_push m meta) rows m) = metas_list m @ map (\<lambda>(row, meta, ord). meta) rows"
    if "metas_ok m" for m
    using that
  proof (induction rows arbitrary: m)
    case (Cons x rows)
    obtain row meta ord where x: "x = (row, meta, ord)" by (cases x)
    have "metas_ok (metas_push m meta)" "metas_list (metas_push m meta) = metas_list m @ [meta]"
      using metas_list_push [OF Cons.prems] by simp_all
    then show ?case using Cons.IH [of "metas_push m meta"] x by simp
  qed simp
  have "length (metas_list (b_metas (collect rows))) = length rows" "metas_ok (b_metas (collect rows))"
    using metas [of metas_default] by (simp_all add: collect_def)
  then show len: "b_len (collect rows) = length rows" and "flat_ok arity (collect rows)"
    using rows_of_concat [of "map fst rows" arity] assms by (auto simp: b_len_def flat_ok_def collect_def)
  show "rowlist arity (collect rows) = map fst rows"
    using rows_of_concat [of "map fst rows" arity] assms len
    by (simp add: rowlist_def b_row_def [abs_def] collect_def)
qed

lemma sort_key_map: "map f (sort_key f xs) = sort (map f xs)"
  by (rule properties_for_sort [symmetric]) simp_all

lemma permuted_rows:
  assumes ok: "flat_ok arity b" and perm: "length perm = arity"
  shows "rowlist arity (permuted b arity perm) = sort (map (permute_row perm) (rowlist arity b))"
    and "flat_ok arity (permuted b arity perm)" and "b_len (permuted b arity perm) = b_len b"
proof -
  let ?rs = "map (permute_row perm) (rowlist arity b)"
  define flat where "flat = concat ?rs"
  define order where "order = sort_key (row_at flat arity) [0..<b_len b]"
  have rs: "\<forall>r \<in> set ?rs. length r = arity" using perm by (simp add: permute_row_def)
  have "length ?rs = b_len b" by simp
  then have flat: "map (row_at flat arity) [0..<b_len b] = ?rs" "length flat = b_len b * arity"
    using rows_of_concat [OF rs] by (simp_all add: flat_def)
  have order: "map (row_at flat arity) order = sort ?rs" "length order = b_len b"
    by (simp_all add: order_def sort_key_map flat)
  have def_eq: "permuted b arity perm =
      \<lparr>b_rows = concat (map (row_at flat arity) order),
       b_metas = (case metas_uniform (b_metas b) of
           Some meta \<Rightarrow> Uniform (b_len b) meta
         | None \<Rightarrow> fold (\<lambda>i m. metas_push m (b_meta b i)) order (Per [] [])),
       b_ordinals = None,
       b_lows = concat (map (\<lambda>(to, i). map (\<lambda>l. l\<lparr>lw_pos := u32_pos to\<rparr>) (lows_of b i)) (enumerate 0 order))\<rparr>"
  proof -
    have rows: "concat (map (\<lambda>i. permute_row perm (b_row b arity i)) [0..<b_len b]) = flat"
      by (simp add: flat_def rowlist_def comp_def)
    show ?thesis unfolding permuted_def Let_def order_def rows ..
  qed
  have push: "metas_ok m \<Longrightarrow> metas_ok (fold (\<lambda>i m. metas_push m (b_meta b i)) is m) \<and>
      metas_len (fold (\<lambda>i m. metas_push m (b_meta b i)) is m) = metas_len m + length is" for m "is"
  proof (induction "is" arbitrary: m)
    case (Cons i "is")
    have "metas_ok (metas_push m (b_meta b i))" "length (metas_list (metas_push m (b_meta b i))) = Suc (metas_len m)"
      using metas_list_push [OF Cons.prems, of "b_meta b i"] by simp_all
    then show ?case using Cons.IH [of "metas_push m (b_meta b i)"] by simp
  qed simp
  have start: "metas_ok (Per [] [])" "metas_len (Per [] []) = 0" by (simp_all add: metas_ok_def metas_len_def)
  have uni: "metas_len (Uniform n x) = n" for n x by (simp add: metas_len_def)
  show len: "b_len (permuted b arity perm) = b_len b"
    using push [OF start(1), of order] start(2) order(2) uni
    by (cases "metas_uniform (b_metas b)") (simp_all add: b_len_def def_eq)
  have metas: "metas_ok (b_metas (permuted b arity perm))"
    using push [OF start(1), of order]
    by (cases "metas_uniform (b_metas b)") (simp_all add: def_eq metas_ok_def)
  have "\<forall>r \<in> set (sort ?rs). length r = arity" using rs by simp
  note out = rows_of_concat [OF this]
  show "flat_ok arity (permuted b arity perm)"
    using out len metas by (simp add: flat_ok_def def_eq order)
  have rows_eq: "b_rows (permuted b arity perm) = concat (sort ?rs)" by (simp add: def_eq order)
  show "rowlist arity (permuted b arity perm) = sort (map (permute_row perm) (rowlist arity b))"
    using out unfolding rowlist_def [of arity "permuted b arity perm"] b_row_def rows_eq len by simp
qed

lemma lower_low_rows [simp]:
  "rowlist arity (lower_low b i l m) = rowlist arity b" "flat_ok arity (lower_low b i l m) = flat_ok arity b"
  "b_len (lower_low b i l m) = b_len b"
  by (simp_all add: lower_low_def rowlist_def b_row_def [abs_def] flat_ok_def b_len_def)

lemma rows_ok_collect: "\<forall>x \<in> set rows. length (fst x) = arity \<Longrightarrow> sorted (map fst rows) \<Longrightarrow> rows_ok arity (collect rows)"
  by (simp add: rows_ok_def collect_rows)

lemma rows_ok_permuted: "flat_ok arity b \<Longrightarrow> length perm = arity \<Longrightarrow> rows_ok arity (permuted b arity perm)"
  by (simp add: rows_ok_def permuted_rows)

lemma rows_ok_lower_low [simp]: "rows_ok arity (lower_low b i l m) = rows_ok arity b"
  by (simp add: rows_ok_def)

lemma rows_ok_default [simp]: "rows_ok arity batch_default" "b_len batch_default = 0"
  by (simp_all add: rows_ok_def flat_ok_def rowlist_def batch_default_def b_len_def metas_default_def metas_len_def metas_ok_def)

subsection \<open>Runs\<close>

lemma rows_ok_push_run:
  "\<forall>b \<in> set runs. rows_ok arity b \<Longrightarrow> rows_ok arity run \<Longrightarrow> \<forall>b \<in> set (push_run runs run arity). rows_ok arity b"
proof (induction runs run arity rule: push_run.induct)
  case (1 runs run arity)
  show ?case
  proof (cases "b_len run \<noteq> 0 \<and> runs \<noteq> [] \<and> b_len (last runs) \<le> 2 * b_len run")
    case True
    have "\<forall>b \<in> set (butlast runs). rows_ok arity b" "rows_ok arity (last runs)"
      using "1.prems"(1) True by (auto dest: in_set_butlastD)
    then have "\<forall>b \<in> set (push_run (butlast runs) (merge_batch (last runs) run arity) arity). rows_ok arity b"
      using "1.IH" True "1.prems"(2) rows_ok_merge by blast
    then show ?thesis using True by (simp add: push_run.simps [of runs run arity])
  next
    case False
    then show ?thesis using "1.prems" by (auto simp: push_run.simps [of runs run arity])
  qed
qed

text \<open>The geometric shape: no run is empty and each is more than twice the next.\<close>

definition geometric :: "batch list \<Rightarrow> bool" where
  "geometric runs \<longleftrightarrow>
     (\<forall>b \<in> set runs. 0 < b_len b) \<and> (\<forall>i. Suc i < length runs \<longrightarrow> 2 * b_len (runs ! Suc i) < b_len (runs ! i))"

lemma geometric_snoc:
  "geometric (runs @ [b]) \<longleftrightarrow> geometric runs \<and> 0 < b_len b \<and> (runs = [] \<or> 2 * b_len b < b_len (last runs))"
proof -
  have "(\<forall>i. Suc i < length (runs @ [b]) \<longrightarrow> 2 * b_len ((runs @ [b]) ! Suc i) < b_len ((runs @ [b]) ! i)) \<longleftrightarrow>
      (\<forall>i. Suc i < length runs \<longrightarrow> 2 * b_len (runs ! Suc i) < b_len (runs ! i)) \<and>
      (runs = [] \<or> 2 * b_len b < b_len (last runs))"
    by (cases runs rule: rev_cases) (auto simp: nth_append less_Suc_eq)
  then show ?thesis by (auto simp: geometric_def)
qed

lemma geometric_butlast: "geometric runs \<Longrightarrow> geometric (butlast runs)"
  by (cases runs rule: rev_cases) (simp_all add: geometric_snoc)

definition run_rows :: "batch list \<Rightarrow> nat" where
  "run_rows runs = sum_list (map b_len runs)"

lemma push_run_shape:
  "geometric runs \<Longrightarrow> \<forall>b \<in> set runs. flat_ok arity b \<Longrightarrow> flat_ok arity run \<Longrightarrow>
   geometric (push_run runs run arity) \<and> run_rows (push_run runs run arity) = run_rows runs + b_len run"
proof (induction runs run arity rule: push_run.induct)
  case (1 runs run arity)
  consider "b_len run = 0" | "b_len run \<noteq> 0" "runs \<noteq> []" "b_len (last runs) \<le> 2 * b_len run"
    | "b_len run \<noteq> 0" "runs = [] \<or> 2 * b_len run < b_len (last runs)" by linarith
  then show ?case
  proof cases
    case 1
    then show ?thesis using "1.prems" by (simp add: push_run.simps [of runs run arity])
  next
    case 2
    have flat: "\<forall>b \<in> set (butlast runs). flat_ok arity b" "flat_ok arity (last runs)"
      using "1.prems"(2) 2 by (auto dest: in_set_butlastD)
    have "run_rows runs = run_rows (butlast runs) + b_len (last runs)"
      using 2(2) by (cases runs rule: rev_cases) (simp_all add: run_rows_def)
    then show ?thesis
      using "1.IH" [OF 2(1)] 2 geometric_butlast [OF "1.prems"(1)] flat merge_batch_rows(2) [OF flat(2) "1.prems"(3)]
        b_len_merge [OF flat(2) "1.prems"(3)]
      by (simp add: push_run.simps [of runs run arity])
  next
    case 3
    then show ?thesis using "1.prems"
      by (auto simp: push_run.simps [of runs run arity] geometric_snoc run_rows_def)
  qed
qed

lemma geometric_Cons:
  "geometric (b # runs) \<longleftrightarrow> geometric runs \<and> 0 < b_len b \<and> (runs = [] \<or> 2 * b_len (hd runs) < b_len b)"
proof -
  have "(\<forall>i. Suc i < length (b # runs) \<longrightarrow> 2 * b_len ((b # runs) ! Suc i) < b_len ((b # runs) ! i)) \<longleftrightarrow>
      (\<forall>i. Suc i < length runs \<longrightarrow> 2 * b_len (runs ! Suc i) < b_len (runs ! i)) \<and>
      (runs = [] \<or> 2 * b_len (hd runs) < b_len b)"
    by (cases runs) (auto simp: nth_Cons split: nat.splits)
  then show ?thesis by (auto simp: geometric_def)
qed

lemma geometric_first: "geometric (b # runs) \<Longrightarrow> 2 ^ length runs \<le> b_len b"
proof (induction runs arbitrary: b)
  case (Cons c runs)
  then have "2 ^ length runs \<le> b_len c" "2 * b_len c < b_len b" by (simp_all add: geometric_Cons)
  then show ?case by simp
qed (simp add: geometric_Cons)

lemma geometric_bound: "geometric runs \<Longrightarrow> 2 ^ length runs \<le> Suc (run_rows runs)"
proof (induction runs)
  case (Cons b runs)
  then have "2 ^ length runs \<le> Suc (run_rows runs)" "2 ^ length runs \<le> b_len b"
    using geometric_first by (simp_all add: geometric_Cons)
  then show ?case by (simp add: run_rows_def)
qed (simp add: run_rows_def)

end
