(* ===== verification/RelationRuns.thy ===== *)
theory RelationRuns
  imports RelStore BatchFacts
begin

text \<open>
  The invariants of a relation store that every operation keeps: each batch of each index is sorted,
  stable runs shrink geometrically. On them rest the reads: a seek visits the rows a scan filters.
\<close>

definition part_ok :: "nat \<Rightarrow> part \<Rightarrow> bool" where
  "part_ok arity p \<longleftrightarrow> (\<forall>b \<in> set (part_batches p). rows_ok arity b) \<and> geometric (pt_stable p)"

definition index_parts :: "index \<Rightarrow> part list" where
  "index_parts ix = ix_parts ix @ concat (ix_lowered ix)"

definition index_ok :: "nat \<Rightarrow> index \<Rightarrow> bool" where
  "index_ok arity ix \<longleftrightarrow>
     length (ix_perm ix) = arity \<and> length (ix_parts ix) = 3 \<and> length (ix_lowered ix) = 3 \<and>
     (\<forall>ps \<in> set (ix_lowered ix). length ps = 3) \<and> (\<forall>p \<in> set (index_parts ix). part_ok arity p)"

definition relation_ok :: "relation \<Rightarrow> bool" where
  "relation_ok rel \<longleftrightarrow> rl_indexes rel \<noteq> [] \<and> (\<forall>ix \<in> set (rl_indexes rel). index_ok (rl_arity rel) ix)"

text \<open>The states a relation reaches.\<close>

inductive rel_reach :: "relation \<Rightarrow> bool" where
  reach_new: "rel_reach (relation_new arity perms)"
| reach_index: "rel_reach rel \<Longrightarrow> rel_reach (snd (ensure_index rel perm))"
| reach_load: "rel_reach rel \<Longrightarrow> rel_reach (snd (load edb heights rel))"
| reach_round: "rel_reach rel \<Longrightarrow> rel_reach (snd (insert_round level to_add metas rel))"
| reach_advance: "rel_reach rel \<Longrightarrow> rel_reach (advance_rel rel)"
| reach_seal: "rel_reach rel \<Longrightarrow> rel_reach (seal_rel rel)"

subsection \<open>Parts\<close>

lemma rows_ok_flat: "rows_ok arity b \<Longrightarrow> flat_ok arity b"
  by (simp add: rows_ok_def)

lemma part_ok_default [simp]: "part_ok arity part_default"
  by (simp add: part_ok_def part_default_def part_batches_def geometric_def)

lemma part_ok_push:
  assumes "part_ok arity p" and "rows_ok arity b" and "rows_ok arity r"
  shows "part_ok arity \<lparr>pt_stable = push_run (pt_stable p) b arity, pt_recent = r\<rparr>"
proof -
  have "\<forall>b \<in> set (pt_stable p). rows_ok arity b" "geometric (pt_stable p)"
    using assms(1) by (simp_all add: part_ok_def part_batches_def)
  then show ?thesis
    using rows_ok_push_run [of "pt_stable p" arity b] push_run_shape [of "pt_stable p" arity b] assms(2,3)
    by (auto simp: part_ok_def part_batches_def rows_ok_flat)
qed

lemma part_ok_recent: "part_ok arity p \<Longrightarrow> rows_ok arity r \<Longrightarrow> part_ok arity (p\<lparr>pt_recent := r\<rparr>)"
  by (auto simp: part_ok_def part_batches_def)

lemma part_ok_store:
  assumes "part_ok arity p" and "rows_ok arity b"
  shows "part_ok arity (store_part arity recent b p)"
proof (cases recent)
  case True
  then show ?thesis using assms part_ok_recent by (simp add: store_part_def)
next
  case False
  have "rows_ok arity (pt_recent p)" using assms(1) by (simp add: part_ok_def part_batches_def)
  from part_ok_push [OF assms this] show ?thesis using False by (cases p) (simp add: store_part_def)
qed

lemma part_ok_advance: "part_ok arity p \<Longrightarrow> part_ok arity (advance_part arity p)"
  unfolding advance_part_def by (rule part_ok_push) (simp_all add: part_ok_def part_batches_def)

lemma fold_merge:
  assumes "\<forall>b \<in> set bs. rows_ok arity b"
  shows "rows_ok arity acc \<Longrightarrow> rows_ok arity (fold (\<lambda>b acc. merge_batch b acc arity) bs acc) \<and>
    mset (rowlist arity (fold (\<lambda>b acc. merge_batch b acc arity) bs acc)) =
      mset (rowlist arity acc) + mset (concat (map (rowlist arity) bs))"
  using assms
proof (induction bs arbitrary: acc)
  case (Cons b bs)
  have "rows_ok arity (merge_batch b acc arity)" using Cons.prems by (intro rows_ok_merge) simp_all
  moreover have "rowlist arity (merge_batch b acc arity) = merge_rows (rowlist arity b) (rowlist arity acc)"
    by (rule merge_batch_rows) (use Cons.prems in \<open>simp_all add: rows_ok_flat\<close>)
  ultimately show ?case using Cons.IH [of "merge_batch b acc arity"] Cons.prems(2) by (simp add: ac_simps)
qed simp

lemma length_fold_merge:
  assumes "\<forall>b \<in> set bs. rows_ok arity b" and "rows_ok arity acc"
  shows "b_len acc \<le> b_len (fold (\<lambda>b acc. merge_batch b acc arity) bs acc)"
proof -
  have "size (mset (rowlist arity acc)) \<le> size (mset (rowlist arity (fold (\<lambda>b acc. merge_batch b acc arity) bs acc)))"
    unfolding fold_merge [OF assms, THEN conjunct2] by simp
  then show ?thesis by simp
qed

lemma part_ok_seal:
  assumes "part_ok arity p"
  shows "part_ok arity (seal_part arity p)"
proof (cases "rev (pt_stable p)")
  case (Cons newest bs)
  then have stable: "pt_stable p = rev bs @ [newest]" by (metis rev.simps(2) rev_rev_ident)
  have ok: "\<forall>b \<in> set bs. rows_ok arity b" "rows_ok arity newest" "rows_ok arity (pt_recent p)" "0 < b_len newest"
    using assms by (auto simp: part_ok_def part_batches_def stable geometric_snoc)
  have "0 < b_len (fold (\<lambda>b acc. merge_batch b acc arity) bs newest)"
    using length_fold_merge [OF ok(1,2)] ok(4) by simp
  then show ?thesis using assms fold_merge [OF ok(1,2)] ok(3) Cons
    by (cases bs) (auto simp: seal_part_def part_ok_def part_batches_def geometric_def)
qed (use assms in \<open>simp add: seal_part_def\<close>)

subsection \<open>Indexes\<close>

lemma index_ok_new: "length perm = arity \<Longrightarrow> index_ok arity (index_new perm)"
  by (auto simp: index_ok_def index_new_def index_parts_def)

lemma index_ok_map_parts:
  assumes "index_ok arity ix" and "\<And>p. part_ok arity p \<Longrightarrow> part_ok arity (f p)"
  shows "index_ok arity (map_parts f ix)"
  using assms by (auto simp: index_ok_def map_parts_def index_parts_def map_concat)

lemma part_of_less [simp]: "part_of t < 3"
  by (cases t) (simp_all add: part_of_def tier_level_def)

lemma index_ok_set_part:
  assumes "index_ok arity ix" and "part_ok arity p"
  shows "index_ok arity (ix\<lparr>ix_parts := (ix_parts ix)[l := p]\<rparr>)"
  using assms by (auto simp: index_ok_def index_parts_def dest!: set_update_subset_insert [THEN subsetD])

lemma index_ok_part: "index_ok arity ix \<Longrightarrow> l < 3 \<Longrightarrow> part_ok arity (ix_parts ix ! l)"
  by (simp add: index_ok_def index_parts_def)

lemma index_ok_store:
  "index_ok arity ix \<Longrightarrow> rows_ok arity b \<Longrightarrow> l < 3 \<Longrightarrow> index_ok arity (store_index arity l recent b ix)"
  unfolding store_index_def by (intro index_ok_set_part part_ok_store index_ok_part)

lemma index_ok_alt:
  "index_ok arity ix \<longleftrightarrow>
     length (ix_perm ix) = arity \<and> length (ix_parts ix) = 3 \<and> length (ix_lowered ix) = 3 \<and>
     (\<forall>p \<in> set (ix_parts ix). part_ok arity p) \<and>
     (\<forall>ps \<in> set (ix_lowered ix). length ps = 3 \<and> (\<forall>p \<in> set ps. part_ok arity p))"
  by (auto simp: index_ok_def index_parts_def)

lemma index_ok_copy:
  assumes "index_ok arity ix" and "rows_ok arity b" and "l < 3" and "h < 3"
  shows "index_ok arity (copy_lowered l h b ix)"
proof -
  let ?row = "ix_lowered ix ! l"
  have row: "?row \<in> set (ix_lowered ix)" "length ?row = 3" using assms(1,3) by (simp_all add: index_ok_def)
  then have parts: "\<forall>p \<in> set ?row. part_ok arity p" using assms(1) by (auto simp: index_ok_def index_parts_def)
  then have "part_ok arity ((?row ! h)\<lparr>pt_recent := b\<rparr>)" using assms(2,4) row(2) by (intro part_ok_recent) simp_all
  then have new: "\<forall>p \<in> set (?row[h := (?row ! h)\<lparr>pt_recent := b\<rparr>]). part_ok arity p"
    using parts set_update_subset_insert [of ?row h "(?row ! h)\<lparr>pt_recent := b\<rparr>"] by blast
  let ?new = "?row[h := (?row ! h)\<lparr>pt_recent := b\<rparr>]"
  have "length ps = 3 \<and> (\<forall>p \<in> set ps. part_ok arity p)" if "ps \<in> set ((ix_lowered ix)[l := ?new])" for ps
  proof -
    have "ps = ?new \<or> ps \<in> set (ix_lowered ix)" using that set_update_subset_insert [of "ix_lowered ix" l ?new] by blast
    then show ?thesis using new row(2) assms(1) unfolding index_ok_alt by auto
  qed
  then show ?thesis using assms(1) unfolding index_ok_alt copy_lowered_def by simp
qed

lemma lower_in_facts:
  "map (rowlist arity) (lower_in arity row at m bs) = map (rowlist arity) bs \<and>
   map (flat_ok arity) (lower_in arity row at m bs) = map (flat_ok arity) bs \<and>
   map b_len (lower_in arity row at m bs) = map b_len bs"
  by (induction bs) simp_all

lemma rows_ok_lower_in: "\<forall>b \<in> set bs. rows_ok arity b \<Longrightarrow> \<forall>b \<in> set (lower_in arity row at m bs). rows_ok arity b"
  by (induction bs) simp_all

lemma geometric_lens: "map b_len bs = map b_len cs \<Longrightarrow> geometric bs = geometric cs"
proof -
  have "geometric bs \<longleftrightarrow> (\<forall>n \<in> set (map b_len bs). 0 < n) \<and>
      (\<forall>i. Suc i < length (map b_len bs) \<longrightarrow> 2 * (map b_len bs) ! Suc i < (map b_len bs) ! i)" for bs
    by (auto simp: geometric_def)
  then show "map b_len bs = map b_len cs \<Longrightarrow> geometric bs = geometric cs" by metis
qed

lemma lower_part_facts:
  "map (rowlist arity) (part_batches (lower_part arity row at m p)) = map (rowlist arity) (part_batches p)"
  "part_ok arity p \<Longrightarrow> part_ok arity (lower_part arity row at m p)"
proof -
  let ?bs = "lower_in arity row at m (part_batches p)"
  note facts = lower_in_facts [of arity row at m "part_batches p"]
  have "length ?bs = length (part_batches p)" using facts by (metis length_map)
  then have "?bs \<noteq> []" by (auto simp: part_batches_def)
  then have bs: "part_batches (lower_part arity row at m p) = ?bs" by (simp add: part_batches_def lower_part_def)
  then show "map (rowlist arity) (part_batches (lower_part arity row at m p)) = map (rowlist arity) (part_batches p)"
    using facts by simp
  assume p: "part_ok arity p"
  have "map b_len (butlast ?bs) = map b_len (pt_stable p)"
    using facts by (simp add: map_butlast part_batches_def)
  then have "geometric (butlast ?bs) = geometric (pt_stable p)" by (rule geometric_lens)
  then have "geometric (pt_stable (lower_part arity row at m p))"
    using p by (simp add: lower_part_def part_ok_def)
  moreover have "\<forall>b \<in> set ?bs. rows_ok arity b" by (rule rows_ok_lower_in) (use p in \<open>simp add: part_ok_def\<close>)
  ultimately show "part_ok arity (lower_part arity row at m p)" using bs by (simp add: part_ok_def)
qed

lemma index_ok_lower: "index_ok arity ix \<Longrightarrow> index_ok arity (lower_index arity at rows metas lower ix)"
  unfolding lower_index_def
proof (induction lower arbitrary: ix)
  case (Cons x lower)
  obtain i home where x: "x = (i, home)" by (cases x)
  have "index_ok arity (ix\<lparr>ix_parts := (ix_parts ix)[part_of home :=
      lower_part arity (permute_row (ix_perm ix) (row_at rows arity i)) at (metas ! i) (ix_parts ix ! part_of home)]\<rparr>)"
    by (intro index_ok_set_part lower_part_facts index_ok_part Cons.prems) simp
  from Cons.IH [OF this] show ?case by (simp add: x)
qed simp

subsection \<open>Relations\<close>

lemma relation_ok_map:
  assumes "relation_ok rel" and "\<And>ix. index_ok (rl_arity rel) ix \<Longrightarrow> index_ok (rl_arity rel) (f ix)"
  shows "relation_ok (rel\<lparr>rl_indexes := map f (rl_indexes rel)\<rparr>)"
  using assms by (auto simp: relation_ok_def)

lemma relation_ok_cases:
  assumes "relation_ok rel" and "\<And>ix. index_ok (rl_arity rel) ix \<Longrightarrow> index_ok (rl_arity rel) (f ix)"
    and "\<And>ix. index_ok (rl_arity rel) ix \<Longrightarrow> index_ok (rl_arity rel) (g ix)"
  shows "relation_ok (rel\<lparr>rl_len := n, rl_indexes := (case rl_indexes rel of [] \<Rightarrow> [] | ix # ixs \<Rightarrow> f ix # map g ixs)\<rparr>)"
  using assms by (cases "rl_indexes rel") (auto simp: relation_ok_def)

lemma relation_ok_store:
  assumes "relation_ok rel" and "rows_ok (rl_arity rel) b"
  shows "relation_ok (store_rel level b recent rel)"
  unfolding store_rel_def Let_def
proof (rule relation_ok_cases [OF assms(1)])
  fix ix assume ix: "index_ok (rl_arity rel) ix"
  show "index_ok (rl_arity rel) (store_index (rl_arity rel) (part_of level) recent b ix)"
    using ix assms(2) by (intro index_ok_store) simp_all
  have "rows_ok (rl_arity rel) (permuted b (rl_arity rel) (ix_perm ix))"
    using assms(2) ix by (intro rows_ok_permuted) (simp_all add: rows_ok_def index_ok_def)
  then show "index_ok (rl_arity rel) (store_index (rl_arity rel) (part_of level) recent (permuted b (rl_arity rel) (ix_perm ix)) ix)"
    using ix by (intro index_ok_store) simp_all
qed

lemma arity_simps [simp]:
  "rl_arity (store_rel level b recent rel) = rl_arity rel" "rl_arity (advance_rel rel) = rl_arity rel"
  "rl_arity (seal_rel rel) = rl_arity rel"
  by (simp_all add: store_rel_def advance_rel_def seal_rel_def)

lemma relation_ok_advance: "relation_ok rel \<Longrightarrow> relation_ok (advance_rel rel)"
  unfolding advance_rel_def by (rule relation_ok_map) (auto intro: index_ok_map_parts part_ok_advance)

lemma relation_ok_seal: "relation_ok rel \<Longrightarrow> relation_ok (seal_rel rel)"
  unfolding seal_rel_def Let_def
  by (rule relation_ok_map [OF relation_ok_advance]) (auto intro: index_ok_map_parts part_ok_seal)

lemma relation_ok_add: "relation_ok rel \<Longrightarrow> relation_ok (add_perm p rel) \<and> rl_arity (add_perm p rel) = rl_arity rel"
  using index_ok_new [of p "rl_arity rel"] by (auto simp: add_perm_def is_perm_def relation_ok_def)

lemma relation_ok_new: "relation_ok (relation_new arity perms)" "rl_arity (relation_new arity perms) = arity"
proof -
  have "relation_ok rel \<Longrightarrow> relation_ok (fold add_perm perms rel) \<and> rl_arity (fold add_perm perms rel) = rl_arity rel" for rel
  proof (induction perms arbitrary: rel)
    case (Cons p perms)
    then show ?case using relation_ok_add [OF Cons.prems, of p] by simp
  qed simp
  note folds = this [of "\<lparr>rl_arity = arity, rl_indexes = [index_new (map (\<lambda>c. min c 0xFF) [0..<arity])], rl_len = 0\<rparr>"]
  have "relation_ok \<lparr>rl_arity = arity, rl_indexes = [index_new (map (\<lambda>c. min c 0xFF) [0..<arity])], rl_len = 0\<rparr>"
    by (simp add: relation_ok_def index_ok_new)
  from folds [OF this] show "relation_ok (relation_new arity perms)" "rl_arity (relation_new arity perms) = arity"
    by (simp_all add: relation_new_def)
qed

lemma part_ok_permuted:
  assumes "part_ok arity p" and "length perm = arity"
  shows "part_ok arity (part_permuted arity perm p)"
proof -
  have flat: "\<forall>b \<in> set (part_batches p). flat_ok arity b" using assms(1) by (simp add: part_ok_def rows_ok_flat)
  then have "map b_len (map (\<lambda>b. permuted b arity perm) (pt_stable p)) = map b_len (pt_stable p)"
    using assms(2) by (simp add: part_batches_def permuted_rows)
  then have "geometric (map (\<lambda>b. permuted b arity perm) (pt_stable p)) = geometric (pt_stable p)" by (rule geometric_lens)
  then show ?thesis using assms flat
    by (auto simp: part_ok_def part_permuted_def part_batches_def rows_ok_permuted)
qed

lemma relation_ok_index:
  assumes "relation_ok rel"
  shows "relation_ok (snd (ensure_index rel perm))"
proof -
  have "index_ok (rl_arity rel) \<lparr>ix_perm = perm, ix_parts = map (part_permuted (rl_arity rel) perm) (ix_parts (rl_indexes rel ! 0)),
      ix_lowered = map (map (part_permuted (rl_arity rel) perm)) (ix_lowered (rl_indexes rel ! 0))\<rparr>"
    if "is_perm perm (rl_arity rel)"
  proof -
    have "length perm = rl_arity rel" using that by (simp add: is_perm_def)
    moreover have "index_ok (rl_arity rel) (rl_indexes rel ! 0)" using assms by (simp add: relation_ok_def)
    ultimately show ?thesis unfolding index_ok_alt by (auto intro: part_ok_permuted)
  qed
  then show ?thesis using assms by (auto simp: ensure_index_def relation_ok_def split: option.splits)
qed

text \<open>The rows an operation collects have the relation's arity.\<close>

lemma row_count_le: "i < row_count arity n m \<Longrightarrow> (i + 1) * arity \<le> n"
proof (cases "arity = 0")
  case False
  assume "i < row_count arity n m"
  then have "i + 1 \<le> n div arity" using False by (simp add: row_count_def)
  then have "(i + 1) * arity \<le> (n div arity) * arity" by (rule mult_right_mono) simp
  also have "\<dots> \<le> n" by simp
  finally show ?thesis .
qed simp

lemma length_row_at: "i < row_count arity (length rows) m \<Longrightarrow> length (row_at rows arity i) = arity"
  using row_count_le [of i arity "length rows" m] by (simp add: row_at_def slice_def)

lemma set_dedup_rows: "set (dedup_rows row is) \<subseteq> set is"
  by (induction row "is" rule: dedup_rows.induct) auto

lemma sorted_dedup_rows: "sorted (map row is) \<Longrightarrow> sorted_wrt (<) (map row (dedup_rows row is))"
proof (induction row "is" rule: dedup_rows.induct)
  case (1 row a b "is")
  show ?case
  proof (cases "row a = row b")
    case False
    have "sorted_wrt (<) (map row (dedup_rows row (b # is)))" using 1 False by simp
    moreover have "row a < row x" if "x \<in> set (dedup_rows row (b # is))" for x
    proof -
      have "x \<in> set (b # is)" using that set_dedup_rows by blast
      then have "row b \<le> row x" "row a \<le> row b" using 1(3) by auto
      then show ?thesis using False by simp
    qed
    ultimately show ?thesis using False by simp
  qed (use 1 in auto)
qed auto

lemma drop_batch_subseq:
  "sorted_wrt (<) (map row is) \<Longrightarrow> sorted_wrt (<) (map row (fst (drop_batch b arity rows is pos))) \<and>
   set (fst (drop_batch b arity rows is pos)) \<subseteq> set is \<and> fst ` set (snd (drop_batch b arity rows is pos)) \<subseteq> set is"
proof (induction "is" arbitrary: pos)
  case (Cons i "is")
  let ?pos = "gallop b arity pos (row_at rows arity i)"
  obtain kept dropped where rest: "drop_batch b arity rows is ?pos = (kept, dropped)" by fastforce
  have "sorted_wrt (<) (map row kept)" "set kept \<subseteq> set is" "fst ` set dropped \<subseteq> set is"
    using Cons.IH [of ?pos] Cons.prems rest by auto
  then show ?case using rest Cons.prems by auto
qed simp

lemma sorted_key_fst: "sorted (map (\<lambda>i. (f i :: 'a::linorder, g i :: 'b::linorder)) is) \<Longrightarrow> sorted (map f is)"
  by (induction "is") (auto simp: less_eq_prod_def)

text \<open>The rows of \<open>is\<close> are whole and in strict order.\<close>

definition order_ok :: "nat \<Rightarrow> handle list \<Rightarrow> nat list \<Rightarrow> bool" where
  "order_ok arity rows is \<longleftrightarrow>
     sorted_wrt (<) (map (row_at rows arity) is) \<and> (\<forall>i \<in> set is. length (row_at rows arity i) = arity)"

lemma order_ok_sort:
  fixes key :: "nat \<Rightarrow> 'k::linorder"
  assumes "n = row_count arity (length rows) m"
  shows "order_ok arity rows (dedup_rows (row_at rows arity) (sort_key (\<lambda>i. (row_at rows arity i, key i)) [0..<n]))"
proof -
  let ?is = "sort_key (\<lambda>i. (row_at rows arity i, key i)) [0..<n]"
  have "sorted (map (\<lambda>i. (row_at rows arity i, key i)) ?is)" by (rule sorted_sort_key)
  then have "sorted (map (row_at rows arity) ?is)" by (rule sorted_key_fst)
  moreover have "length (row_at rows arity i) = arity" if "i \<in> set ?is" for i
    using that length_row_at [of i arity rows m] assms by simp
  ultimately show ?thesis
    using sorted_dedup_rows set_dedup_rows [of "row_at rows arity" ?is] unfolding order_ok_def by blast
qed

lemma order_ok_drop: "order_ok arity rows is \<Longrightarrow> order_ok arity rows (fst (drop_batch b arity rows is pos))"
  using drop_batch_subseq [of "row_at rows arity" "is" b arity rows pos] unfolding order_ok_def by blast

lemma order_ok_filter: "order_ok arity rows is \<Longrightarrow> order_ok arity rows (filter P is)"
  by (simp add: order_ok_def sorted_wrt_map sorted_wrt_filter)

lemma rows_ok_collect_order:
  assumes "order_ok arity rows is"
  shows "rows_ok arity (collect (map (\<lambda>i. (row_at rows arity i, f i)) is))"
proof (rule rows_ok_collect)
  have "sorted (map (row_at rows arity) is)"
    using assms by (auto simp: order_ok_def elim: sorted_wrt_mono_rel [rotated] intro: strict_sorted_imp_sorted)
  then show "sorted (map fst (map (\<lambda>i. (row_at rows arity i, f i)) is))" by (simp add: comp_def)
qed (use assms in \<open>simp add: order_ok_def\<close>)

lemma order_ok_drop_present: "order_ok arity rows is \<Longrightarrow> arity = rl_arity rel \<Longrightarrow> order_ok arity rows (drop_present rel rows is)"
proof -
  have "order_ok arity rows is \<Longrightarrow> order_ok arity rows (fold (\<lambda>(b, _) order. fst (drop_batch b arity rows order 0)) bs is)" for bs
    by (induction bs arbitrary: "is") (auto simp: order_ok_drop)
  then show "order_ok arity rows is \<Longrightarrow> arity = rl_arity rel \<Longrightarrow> order_ok arity rows (drop_present rel rows is)"
    by (simp add: drop_present_def)
qed

lemma relation_ok_load:
  assumes "relation_ok rel"
  shows "relation_ok (snd (load edb heights rel)) \<and> rl_arity (snd (load edb heights rel)) = rl_arity rel"
proof (cases "er_arity edb = rl_arity rel")
  case True
  define order where "order = drop_present rel (er_rows edb) (dedup_rows (row_at (er_rows edb) (rl_arity rel))
    (sort_key (\<lambda>i. (row_at (er_rows edb) (rl_arity rel) i, er_levels edb ! i,
      (case heights of Some h \<Rightarrow> if i < length h then h ! i else 0 | None \<Rightarrow> 0),
      (if i < length (er_ordinals edb) then er_ordinals edb ! i else NO_ORDINAL)))
      [0..<row_count (rl_arity rel) (length (er_rows edb)) (length (er_levels edb))]))"
  have order: "order_ok (rl_arity rel) (er_rows edb) order"
    unfolding order_def by (intro order_ok_drop_present order_ok_sort [OF refl] refl)
  define batch where "batch level = collect (map (\<lambda>i. (row_at (er_rows edb) (rl_arity rel) i,
      \<lparr>rm_height = (case heights of Some h \<Rightarrow> if i < length h then h ! i else 0 | None \<Rightarrow> 0), rm_rule = EDB_RULE\<rparr>,
      (if i < length (er_ordinals edb) then er_ordinals edb ! i else NO_ORDINAL)))
      (filter (\<lambda>i. er_levels edb ! i = level) order))" for level
  have batch: "rows_ok (rl_arity rel) (batch level)" for level
    unfolding batch_def by (rule rows_ok_collect_order [OF order_ok_filter [OF order]])
  have folds: "relation_ok r \<Longrightarrow> rl_arity r = rl_arity rel \<Longrightarrow>
      relation_ok (snd (fold (\<lambda>level (added, rel). (added + b_len (batch level), store_rel level (batch level) False rel)) ts (a, r))) \<and>
      rl_arity (snd (fold (\<lambda>level (added, rel). (added + b_len (batch level), store_rel level (batch level) False rel)) ts (a, r))) = rl_arity rel"
    for ts a r
  proof (induction ts arbitrary: a r)
    case (Cons t ts)
    have "relation_ok (store_rel t (batch t) False r)" using Cons.prems batch by (intro relation_ok_store) simp_all
    then show ?case using Cons.IH [of "store_rel t (batch t) False r"] Cons.prems by simp
  qed simp
  have "load edb heights rel =
      fold (\<lambda>level (added, rel). (added + b_len (batch level), store_rel level (batch level) False rel)) tier_all (0, rel)"
    using True by (simp add: load_def Let_def order_def batch_def)
  then show ?thesis using folds [OF assms refl] by simp
qed (use assms in \<open>simp add: load_def Let_def\<close>)

text \<open>Rows lowered: whole, in order.\<close>

definition lower_ok :: "nat \<Rightarrow> handle list \<Rightarrow> (nat \<times> tier) list \<Rightarrow> bool" where
  "lower_ok arity rows lower \<longleftrightarrow>
     sorted (map (\<lambda>(i, h). row_at rows arity i) lower) \<and> (\<forall>(i, h) \<in> set lower. length (row_at rows arity i) = arity)"

lemma relation_ok_copy:
  assumes "relation_ok rel" and "rows_ok (rl_arity rel) b" and "l < 3" and "h < 3"
  shows "relation_ok (rel\<lparr>rl_indexes := (case rl_indexes rel of [] \<Rightarrow> []
     | ix0 # ixs \<Rightarrow> copy_lowered l h b ix0 # map (\<lambda>ix. copy_lowered l h (permuted b (rl_arity rel) (ix_perm ix)) ix) ixs)\<rparr>)"
proof -
  have perm: "rows_ok (rl_arity rel) (permuted b (rl_arity rel) (ix_perm ix))" if "index_ok (rl_arity rel) ix" for ix
    using assms(2) that by (intro rows_ok_permuted) (simp_all add: rows_ok_flat index_ok_def)
  then have "index_ok (rl_arity rel) (copy_lowered l h (permuted b (rl_arity rel) (ix_perm ix)) ix)" "index_ok (rl_arity rel) (copy_lowered l h b ix)"
    if "index_ok (rl_arity rel) ix" for ix
    using that assms(2-4) by (auto intro: index_ok_copy)
  then show ?thesis using assms(1) by (cases "rl_indexes rel") (auto simp: relation_ok_def)
qed

lemma relation_ok_lower:
  assumes "relation_ok rel" and "lower_ok (rl_arity rel) rows lower"
  shows "relation_ok (lower_rows level rows metas lower rel) \<and> rl_arity (lower_rows level rows metas lower rel) = rl_arity rel"
proof (cases "lower = []")
  case False
  define arity where "arity = rl_arity rel"
  define batch where "batch home = collect (map (\<lambda>(i, h). (row_at rows arity i, metas ! i, NO_ORDINAL)) (filter (\<lambda>(i, h). h = home) lower))" for home
  have batch: "rows_ok arity (batch home)" for home
    unfolding batch_def
  proof (rule rows_ok_collect)
    have "sorted (map (\<lambda>(i, h). row_at rows arity i) (filter (\<lambda>(i, h). h = home) lower))"
      using assms(2) by (auto simp: lower_ok_def arity_def intro: sorted_filter)
    then show "sorted (map fst (map (\<lambda>(i, h). (row_at rows arity i, metas ! i, NO_ORDINAL)) (filter (\<lambda>(i, h). h = home) lower)))"
      by (simp add: comp_def case_prod_unfold)
  qed (use assms(2) in \<open>auto simp: lower_ok_def arity_def\<close>)
  define step where "step home r =
     (if filter (\<lambda>(i, h). h = home) lower = [] then r else r\<lparr>rl_indexes := (case rl_indexes r of [] \<Rightarrow> []
        | ix0 # ixs \<Rightarrow> copy_lowered (part_of level) (part_of home) (batch home) ix0 #
            map (\<lambda>ix. copy_lowered (part_of level) (part_of home) (permuted (batch home) arity (ix_perm ix)) ix) ixs)\<rparr>)"
    for home and r :: relation
  have step: "relation_ok (step home r)" "rl_arity (step home r) = arity" if "relation_ok r" "rl_arity r = arity" for home r
    using relation_ok_copy [OF that(1), of "batch home" "part_of level" "part_of home", unfolded that(2)] that batch [of home]
    by (simp_all add: step_def)
  have folds: "relation_ok r \<Longrightarrow> rl_arity r = arity \<Longrightarrow> relation_ok (fold step ts r) \<and> rl_arity (fold step ts r) = arity" for ts r
    by (induction ts arbitrary: r) (simp_all add: step)
  have "relation_ok (rel\<lparr>rl_indexes := map (lower_index arity (tier_level level) rows metas lower) (rl_indexes rel)\<rparr>)"
    using assms(1) index_ok_lower by (intro relation_ok_map) (simp_all add: arity_def)
  note folds [OF this]
  moreover have "lower_rows level rows metas lower rel =
      fold step tier_all (rel\<lparr>rl_indexes := map (lower_index arity (tier_level level) rows metas lower) (rl_indexes rel)\<rparr>)"
    unfolding lower_rows_def Let_def if_not_P [OF False] arity_def [symmetric] batch_def [symmetric] step_def [abs_def] ..
  ultimately show ?thesis by (simp add: arity_def)
qed (use assms(1) in \<open>simp add: lower_rows_def\<close>)

text \<open>One batch of the pass that also lowers.\<close>

definition lowering_step :: "nat \<Rightarrow> handle list \<Rightarrow> row_meta list \<Rightarrow> nat \<Rightarrow> batch \<times> tier \<Rightarrow>
    nat list \<times> (nat \<times> tier) list \<Rightarrow> nat list \<times> (nat \<times> tier) list" where
  "lowering_step arity rows metas at bh s =
     (fst (drop_batch (fst bh) arity rows (fst s) 0),
      snd s @ map (\<lambda>(i, pos). (i, snd bh))
        (filter (\<lambda>(i, pos). tier_level (snd bh) \<le> at \<and> rm_height (metas ! i) < rm_height (meta_at (fst bh) pos at))
          (snd (drop_batch (fst bh) arity rows (fst s) 0))))"

lemma drop_present_lowering_fold:
  "drop_present_lowering rel rows metas level order =
     (let s = fold (lowering_step (rl_arity rel) rows metas (tier_level level)) (identity_batches rel) (order, [])
      in (fst s, sort_key (\<lambda>(i, _). row_at rows (rl_arity rel) i) (snd s)))"
proof -
  have "(\<lambda>(b, home) (order, lower). let (kept, dropped) = drop_batch b (rl_arity rel) rows order 0
          in (kept, lower @ map (\<lambda>(i, pos). (i, home))
             (filter (\<lambda>(i, pos). tier_level home \<le> tier_level level \<and> rm_height (metas ! i) < rm_height (meta_at b pos (tier_level level))) dropped)))
        = lowering_step (rl_arity rel) rows metas (tier_level level)"
    by (auto simp: fun_eq_iff lowering_step_def split: prod.splits)
  then show ?thesis unfolding drop_present_lowering_def Let_def by (simp split: prod.splits)
qed

lemma lowering_fold_order:
  "fst (fold (lowering_step arity rows metas at) bhs s) = fold (\<lambda>(b, _) order. fst (drop_batch b arity rows order 0)) bhs (fst s)"
  by (induction bhs arbitrary: s) (auto simp: lowering_step_def)

lemma lowering_order: "fst (drop_present_lowering rel rows metas level order) = drop_present rel rows order"
  by (simp add: drop_present_lowering_fold Let_def lowering_fold_order drop_present_def)

lemma lowering_lower_ok:
  assumes "order_ok (rl_arity rel) rows order"
  shows "lower_ok (rl_arity rel) rows (snd (drop_present_lowering rel rows metas level order))"
proof -
  let ?arity = "rl_arity rel"
  have folds: "order_ok ?arity rows (fst s) \<Longrightarrow> (\<forall>(i, h) \<in> set (snd s). length (row_at rows ?arity i) = ?arity) \<Longrightarrow>
      (\<forall>(i, h) \<in> set (snd (fold (lowering_step ?arity rows metas at) bhs s)). length (row_at rows ?arity i) = ?arity)" for at bhs s
  proof (induction bhs arbitrary: s)
    case (Cons bh bhs)
    let ?s = "lowering_step ?arity rows metas at bh s"
    have "fst ` set (snd (drop_batch (fst bh) ?arity rows (fst s) 0)) \<subseteq> set (fst s)"
      using drop_batch_subseq [of "row_at rows ?arity" "fst s" "fst bh" ?arity rows 0] Cons.prems(1)
      unfolding order_ok_def by blast
    then have "\<forall>(i, h) \<in> set (snd ?s). length (row_at rows ?arity i) = ?arity"
      using Cons.prems unfolding lowering_step_def order_ok_def by fastforce
    moreover have "order_ok ?arity rows (fst ?s)" using order_ok_drop [OF Cons.prems(1)] by (simp add: lowering_step_def)
    ultimately show ?case using Cons.IH [of ?s] by simp
  qed simp
  have "\<forall>(i, h) \<in> set (snd (fold (lowering_step ?arity rows metas (tier_level level)) (identity_batches rel) (order, []))).
      length (row_at rows ?arity i) = ?arity"
    by (rule folds) (use assms in simp_all)
  then show ?thesis unfolding lower_ok_def drop_present_lowering_fold Let_def by simp
qed

lemma relation_ok_round:
  assumes "relation_ok rel"
  shows "relation_ok (snd (insert_round level to_add metas rel)) \<and> rl_arity (snd (insert_round level to_add metas rel)) = rl_arity rel"
proof -
  let ?rel = "advance_rel rel" and ?arity = "rl_arity rel"
  define start where "start = dedup_rows (row_at to_add ?arity)
      (sort_key (\<lambda>i. (row_at to_add ?arity i, rm_height (metas ! i), rm_rule (metas ! i))) [0..<row_count ?arity (length to_add) (length metas)])"
  obtain order lower where drop: "drop_present_lowering ?rel to_add metas level start = (order, lower)" by fastforce
  have start: "order_ok ?arity to_add start" unfolding start_def by (rule order_ok_sort [OF refl])
  have "order = drop_present ?rel to_add start" using lowering_order [of ?rel to_add metas level start] drop by simp
  then have order: "order_ok ?arity to_add order" using order_ok_drop_present [OF start, of ?rel] by simp
  have lower: "lower_ok ?arity to_add lower"
    using lowering_lower_ok [of ?rel to_add start metas level] start drop by simp
  have "relation_ok (lower_rows level to_add metas lower ?rel) \<and> rl_arity (lower_rows level to_add metas lower ?rel) = ?arity"
    using relation_ok_lower [of ?rel to_add lower level metas] relation_ok_advance [OF assms] lower by simp
  moreover have "rows_ok ?arity (collect (map (\<lambda>i. (row_at to_add ?arity i, metas ! i, NO_ORDINAL)) order))"
    by (rule rows_ok_collect_order [OF order])
  ultimately show ?thesis
    using relation_ok_store by (simp add: insert_round_def Let_def start_def [symmetric] drop)
qed

lemma rel_reach_ok: "rel_reach rel \<Longrightarrow> relation_ok rel"
  by (induction rule: rel_reach.induct)
    (simp_all add: relation_ok_new relation_ok_index relation_ok_load relation_ok_round relation_ok_advance relation_ok_seal)

end
