(* ===== verification/RelationReads.thy ===== *)
theory RelationReads
  imports RelationRuns
begin

text \<open>
  Reading a relation: every seek of a cursor, forward or back, visits exactly the rows of the view
  under the key's prefix, each batch's share in order; and a lookup finds what some batch holds.
\<close>

fun seek_all :: "handle list list \<Rightarrow> rel_cursor \<Rightarrow> visit list list" where
  "seek_all [] c = []"
| "seek_all (key # keys) c = fst (seek key c) # seek_all keys (snd (seek key c))"

definition prefixed :: "handle list \<Rightarrow> visit \<Rightarrow> bool" where
  "prefixed key x \<longleftrightarrow> take (length key) (fst x) = key"

subsection \<open>One run\<close>

lemma prefixed_visit_row:
  "filter (prefixed key) (visit_row arity mh at b tier i) = (if has_prefix b arity i key then visit_row arity mh at b tier i else [])"
  by (simp add: visit_row_def Let_def prefixed_def has_prefix_def)

lemma prefix_after:
  assumes ok: "rows_ok arity b" and i: "\<not> b_below b arity i key" "\<not> has_prefix b arity i key"
    and j: "i \<le> j" "j < b_len b"
  shows "\<not> has_prefix b arity j key"
proof -
  have "b_row b arity i \<le> b_row b arity j"
    using ok j sorted_nth_mono [of "rowlist arity b" i j] by (simp add: rows_ok_def)
  then have "take (length key) (b_row b arity i) \<le> take (length key) (b_row b arity j)" by (rule take_mono_lex)
  then show ?thesis using i by (auto simp: b_below_def has_prefix_def)
qed

lemma run_visits_from:
  assumes "rows_ok arity b"
  shows "\<forall>j. i \<le> j \<and> j < b_len b \<longrightarrow> \<not> b_below b arity j key \<Longrightarrow>
    run_visits arity mh at key b tier i =
      concat (map (\<lambda>j. filter (prefixed key) (visit_row arity mh at b tier j)) [i..<b_len b])"
  using assms
proof (induction arity mh at key b tier i rule: run_visits.induct)
  case (1 arity mh at key b tier i)
  show ?case
  proof (cases "i < b_len b \<and> has_prefix b arity i key")
    case True
    have "run_visits arity mh at key b tier (i + 1) =
        concat (map (\<lambda>j. filter (prefixed key) (visit_row arity mh at b tier j)) [i + 1..<b_len b])"
      using "1.IH" [OF True] "1.prems" by simp
    then show ?thesis using True
      by (simp add: run_visits.simps [of arity mh at key b tier i] prefixed_visit_row upt_conv_Cons [of i])
  next
    case False
    have "\<not> has_prefix b arity j key" if "i \<le> j" "j < b_len b" for j
      using prefix_after [OF "1.prems"(2) _ _ that] "1.prems"(1) False that by auto
    then show ?thesis using False
      by (auto simp: run_visits.simps [of arity mh at key b tier i] prefixed_visit_row)
  qed
qed

definition batch_visits :: "nat \<Rightarrow> nat option \<Rightarrow> nat option \<Rightarrow> batch \<Rightarrow> tier \<Rightarrow> visit list" where
  "batch_visits arity mh at b tier = concat (map (visit_row arity mh at b tier) [0..<b_len b])"

lemma run_visits_first:
  assumes ok: "rows_ok arity b" and p: "first_geq b arity key p"
  shows "run_visits arity mh at key b tier p = filter (prefixed key) (batch_visits arity mh at b tier)"
proof -
  let ?f = "\<lambda>j. filter (prefixed key) (visit_row arity mh at b tier j)"
  have le: "p \<le> b_len b" and below: "\<forall>j < p. b_below b arity j key" using p by (simp_all add: first_geq_def)
  have "concat (map ?f [0..<p]) = []"
    using below by (auto simp: prefixed_visit_row b_below_def has_prefix_def)
  moreover have "[0..<b_len b] = [0..<p] @ [p..<b_len b]" using le upt_add_eq_append [of 0 p "b_len b - p"] by simp
  ultimately have "concat (map ?f [0..<b_len b]) = concat (map ?f [p..<b_len b])" by simp
  moreover have "run_visits arity mh at key b tier p = concat (map ?f [p..<b_len b])"
    by (rule run_visits_from [OF ok]) (use p in \<open>simp add: first_geq_def\<close>)
  ultimately show ?thesis by (simp add: batch_visits_def filter_concat comp_def)
qed

subsection \<open>Cursors\<close>

definition run_ok :: "nat \<Rightarrow> bool \<Rightarrow> handle list \<Rightarrow> run \<Rightarrow> bool" where
  "run_ok arity started l r \<longleftrightarrow>
     rows_ok arity (rn_batch r) \<and> rn_pos r \<le> b_len (rn_batch r) \<and>
     (started \<longrightarrow> (\<forall>i < rn_pos r. b_below (rn_batch r) arity i l))"

definition cursor_ok :: "rel_cursor \<Rightarrow> bool" where
  "cursor_ok c \<longleftrightarrow> length (rc_last c) \<le> rc_arity c \<and> (\<forall>r \<in> set (rc_runs c). run_ok (rc_arity c) (rc_started c) (rc_last c) r)"

definition cursor_batches :: "rel_cursor \<Rightarrow> (batch \<times> tier) list" where
  "cursor_batches c = map (\<lambda>r. (rn_batch r, rn_tier r)) (rc_runs c)"

definition cursor_rows :: "rel_cursor \<Rightarrow> visit list" where
  "cursor_rows c =
     concat (map (\<lambda>(b, tier). batch_visits (rc_arity c) (rc_max_height c) (rc_at c) b tier) (cursor_batches c))"

lemma run_start_first:
  assumes ok: "run_ok arity started l r" and len: "length l \<le> arity"
  shows "first_geq (rn_batch r) arity key (run_start arity (started \<and> key \<ge> l) key r)"
proof (cases "started \<and> key \<ge> l")
  case True
  have rows: "rows_ok arity (rn_batch r)" and pos: "rn_pos r \<le> b_len (rn_batch r)" using ok by (simp_all add: run_ok_def)
  have "b_below (rn_batch r) arity i key" if "i < rn_pos r" for i
  proof -
    have "length (b_row (rn_batch r) arity i) = arity"
      using length_b_row [of arity "rn_batch r" i] rows that pos by (simp add: rows_ok_flat)
    moreover have "b_below (rn_batch r) arity i l" using ok True that by (simp add: run_ok_def)
    ultimately show ?thesis
      using below_later_key [of l "b_row (rn_batch r) arity i" key] True len by (simp add: b_below_def)
  qed
  then show ?thesis using gallop_spec [OF rows pos] True by (simp add: run_start_def)
next
  case False
  have "run_start arity (started \<and> key \<ge> l) key r = lower_bound (rn_batch r) arity key"
    unfolding run_start_def if_not_P [OF False] ..
  then show ?thesis using lower_bound_spec [of arity "rn_batch r" key] ok by (simp add: run_ok_def)
qed

text \<open>What a seek keeps of a cursor, and what it visits.\<close>

lemma seek_ok:
  assumes "cursor_ok c"
  shows "cursor_ok (snd (seek key c))" and "cursor_rows (snd (seek key c)) = cursor_rows c"
proof -
  let ?forward = "rc_started c \<and> key \<ge> rc_last c"
  have start: "first_geq (rn_batch r) (rc_arity c) key (run_start (rc_arity c) ?forward key r)"
    if "r \<in> set (rc_runs c)" for r
    using that assms by (intro run_start_first) (simp_all add: cursor_ok_def)
  show "cursor_ok (snd (seek key c))"
    using assms start by (auto simp: seek_def Let_def cursor_ok_def run_ok_def first_geq_def)
  show "cursor_rows (snd (seek key c)) = cursor_rows c"
    by (simp add: seek_def Let_def cursor_rows_def cursor_batches_def comp_def)
qed

lemma length_batch_visits: "rows_ok arity b \<Longrightarrow> x \<in> set (batch_visits arity mh at b tier) \<Longrightarrow> length (fst x) = arity"
  by (auto simp: batch_visits_def visit_row_def Let_def length_b_row rows_ok_flat split: if_splits)

lemma seek_visits:
  assumes "cursor_ok c"
  shows "fst (seek key c) = filter (prefixed key) (cursor_rows c)"
proof (cases "length key > rc_arity c")
  case True
  have none: "\<not> prefixed key x" if x: "x \<in> set (cursor_rows c)" for x
  proof -
    from x have "length (fst x) = rc_arity c"
      using assms by (auto simp: cursor_rows_def cursor_batches_def cursor_ok_def run_ok_def length_batch_visits)
    then have less: "length (take (length key) (fst x)) < length key" using True by simp
    show ?thesis unfolding prefixed_def
    proof
      assume "take (length key) (fst x) = key"
      from arg_cong [OF this, of length] less show False by linarith
    qed
  qed
  have "filter (prefixed key) (cursor_rows c) = []" unfolding filter_empty_conv using none by blast
  moreover have "fst (seek key c) = []" using True by (simp add: seek_def)
  ultimately show ?thesis by (rule trans [OF _ sym, rotated])
next
  case False
  let ?forward = "rc_started c \<and> key \<ge> rc_last c"
  have "run_visits (rc_arity c) (rc_max_height c) (rc_at c) key (rn_batch r) (rn_tier r) (run_start (rc_arity c) ?forward key r) =
      filter (prefixed key) (batch_visits (rc_arity c) (rc_max_height c) (rc_at c) (rn_batch r) (rn_tier r))"
    if "r \<in> set (rc_runs c)" for r
    using that assms by (intro run_visits_first run_start_first) (simp_all add: cursor_ok_def run_ok_def)
  then show ?thesis using False
    by (simp add: seek_def Let_def comp_def cursor_rows_def cursor_batches_def filter_concat cong: map_cong)
qed

lemma seek_all_visits: "cursor_ok c \<Longrightarrow> seek_all keys c = map (\<lambda>key. filter (prefixed key) (cursor_rows c)) keys"
proof (induction keys arbitrary: c)
  case (Cons key keys)
  then show ?case using seek_visits [OF Cons.prems] seek_ok [OF Cons.prems, of key] by simp
qed simp

lemma set_pick: "bt \<in> set (pick p t w) \<Longrightarrow> fst bt \<in> set (part_batches p)"
  by (auto simp: pick_def part_batches_def split: if_splits)

lemma set_enumerateD: "(i, x) \<in> set (enumerate 0 xs) \<Longrightarrow> x \<in> set xs"
  by (auto simp: in_set_enumerate_eq)

lemma selected_part:
  assumes "bt \<in> set (selected rel index v)"
  shows "index < length (rl_indexes rel) \<and> (\<exists>p \<in> set (index_parts (rl_indexes rel ! index)). fst bt \<in> set (part_batches p))"
proof -
  have index: "index < length (rl_indexes rel)" using assms by (auto simp: selected_def split: if_splits)
  let ?ix = "rl_indexes rel ! index"
  consider (home) l p where "(l, p) \<in> set (enumerate 0 (ix_parts ?ix))" "bt \<in> set (pick p (tier_all ! l) (vw_which v))"
    | (low) l homes h p where "(l, homes) \<in> set (enumerate 0 (ix_lowered ?ix))" "(h, p) \<in> set (enumerate 0 homes)"
        "bt \<in> set (pick p (tier_all ! h) (vw_which v))"
    using assms index by (auto simp: selected_def Let_def split: if_splits)
  then have "\<exists>p \<in> set (index_parts ?ix). fst bt \<in> set (part_batches p)"
  proof cases
    case home
    have "p \<in> set (index_parts ?ix)" using set_enumerateD [OF home(1)] by (simp add: index_parts_def)
    then show ?thesis using set_pick [OF home(2)] by blast
  next
    case low
    have "p \<in> set (index_parts ?ix)"
      using set_enumerateD [OF low(1)] set_enumerateD [OF low(2)] by (auto simp: index_parts_def)
    then show ?thesis using set_pick [OF low(3)] by blast
  qed
  with index show ?thesis ..
qed

lemma selected_ok:
  assumes "relation_ok rel" and "bt \<in> set (selected rel index v)"
  shows "rows_ok (rl_arity rel) (fst bt)"
proof -
  have "index_ok (rl_arity rel) (rl_indexes rel ! index)"
    using assms(1) selected_part [OF assms(2)] by (simp add: relation_ok_def)
  then show ?thesis using selected_part [OF assms(2)] by (auto simp: index_ok_def part_ok_def)
qed

lemma cursor_new:
  assumes "relation_ok rel"
  shows "cursor_ok (cursor_of rel index v)" and "cursor_rows (cursor_of rel index v) = rel_scan rel index v"
proof -
  show "cursor_ok (cursor_of rel index v)"
    using selected_ok [OF assms] by (auto simp: cursor_ok_def cursor_of_def run_ok_def)
  show "cursor_rows (cursor_of rel index v) = rel_scan rel index v"
    by (simp add: cursor_rows_def cursor_batches_def cursor_of_def rel_scan_def batch_visits_def comp_def case_prod_unfold)
qed

subsection \<open>Lookups\<close>

abbreviation full_view :: view where
  "full_view \<equiv> view_rows 0 2 WBoth"

lemma find_concat: "find P (concat xss) = first_some (find P) xss"
proof (induction xss)
  case (Cons xs xss)
  have "find P (xs @ ys) = (case find P xs of Some y \<Rightarrow> Some y | None \<Rightarrow> find P ys)" for ys
    by (induction xs) simp_all
  then show ?case using Cons by (simp split: option.split)
qed simp

lemma concat_concat: "concat (concat xsss) = concat (map concat xsss)"
  by (induction xsss) simp_all

lemma first_some_map: "first_some f (map g xs) = first_some (f \<circ> g) xs"
  by (induction xs) (simp_all split: option.splits)

lemma first_some_cong: "(\<And>x. x \<in> set xs \<Longrightarrow> f x = map_option g (h x)) \<Longrightarrow> first_some f xs = map_option g (first_some h xs)"
  by (induction xs) (simp_all split: option.splits)

lemma batch_visits_all:
  "batch_visits arity None None b t = map (\<lambda>i. (b_row b arity i, t, meta_at b i (tier_level t), b_ordinal b i)) [0..<b_len b]"
proof -
  have "visit_row arity None None b t = (\<lambda>i. [(b_row b arity i, t, meta_at b i (tier_level t), b_ordinal b i)])"
    by (simp add: fun_eq_iff visit_row_def Let_def)
  then show ?thesis by (simp add: batch_visits_def)
qed

lemma in_full [simp]: "in_levels full_view t"
  by (cases t) (simp_all add: in_levels_def view_rows_def tier_level_def)

lemma concat_pick_both:
  "concat (map (\<lambda>(b, t). batch_visits arity None None b t) (pick p t WBoth)) =
   concat (map (\<lambda>b. batch_visits arity None None b t) (part_batches p))"
  by (simp add: pick_def part_batches_def comp_def batch_visits_def)

lemma full_scan_of_index:
  assumes "index < length (rl_indexes rel)"
  shows "rel_scan rel index full_view =
    concat (map (\<lambda>(l, p). concat (map (\<lambda>b. batch_visits (rl_arity rel) None None b (tier_all ! l)) (part_batches p)))
      (enumerate 0 (ix_parts (rl_indexes rel ! index))))"
proof -
  have "selected rel index full_view =
      concat (map (\<lambda>(l, p). pick p (tier_all ! l) WBoth) (enumerate 0 (ix_parts (rl_indexes rel ! index))))"
    using assms by (simp add: selected_def Let_def) (simp add: view_rows_def)
  then have "rel_scan rel index full_view =
      concat (map (\<lambda>(b, t). batch_visits (rl_arity rel) None None b t)
        (concat (map (\<lambda>(l, p). pick p (tier_all ! l) WBoth) (enumerate 0 (ix_parts (rl_indexes rel ! index))))))"
    by (simp add: rel_scan_def batch_visits_def view_rows_def)
  then show ?thesis
    by (simp add: map_concat concat_concat comp_def case_prod_unfold concat_pick_both [unfolded case_prod_unfold])
qed

lemma full_scan_identity:
  assumes "rl_indexes rel \<noteq> []"
  shows "rel_scan rel 0 full_view =
    concat (map (\<lambda>(b, t). batch_visits (rl_arity rel) None None b t) (identity_batches rel))"
proof -
  have "rel_scan rel 0 full_view =
      concat (map (\<lambda>(l, p). concat (map (\<lambda>b. batch_visits (rl_arity rel) None None b (tier_all ! l)) (part_batches p)))
        (enumerate 0 (ix_parts (rl_indexes rel ! 0))))"
    using assms by (intro full_scan_of_index) simp
  then show ?thesis by (simp add: identity_batches_def map_concat concat_concat comp_def case_prod_unfold)
qed

lemma identity_rows_ok:
  assumes "relation_ok rel" and "(b, t) \<in> set (identity_batches rel)"
  shows "rows_ok (rl_arity rel) b"
proof -
  have "index_ok (rl_arity rel) (rl_indexes rel ! 0)" using assms(1) by (simp add: relation_ok_def)
  moreover obtain l p where lp: "(l, p) \<in> set (enumerate 0 (ix_parts (rl_indexes rel ! 0)))" and "b \<in> set (part_batches p)"
    using assms(2) by (auto simp: identity_batches_def)
  moreover have "p \<in> set (ix_parts (rl_indexes rel ! 0))" using lp by (rule set_enumerateD)
  ultimately show ?thesis by (auto simp: index_ok_def index_parts_def part_ok_def)
qed

lemma find_row_first:
  assumes ok: "rows_ok arity b" and len: "length row = arity"
  shows "find_row arity row (b, t) = map_option snd (find (\<lambda>x. fst x = row) (batch_visits arity None None b t))"
proof -
  define p where "p = lower_bound b arity row"
  have p: "first_geq b arity row p" unfolding p_def by (rule lower_bound_spec [OF ok])
  note found = first_geq_row [OF ok p len]
  show ?thesis
  proof (cases "p < b_len b \<and> b_row b arity p = row")
    case True
    have "b_row b arity i \<noteq> row" if "i < p" for i
      using p that len by (auto simp: first_geq_def b_below_def)
    then have "find (\<lambda>x. fst x = row) (batch_visits arity None None b t) =
        Some (row, t, meta_at b p (tier_level t), b_ordinal b p)"
      using True unfolding batch_visits_all find_Some_iff by (intro exI [of _ p]) auto
    then show ?thesis using True by (simp add: find_row_def p_def [symmetric])
  next
    case False
    then have "row \<notin> set (rowlist arity b)" using found by blast
    then have "find (\<lambda>x. fst x = row) (batch_visits arity None None b t) = None"
      unfolding batch_visits_all find_None_iff by (auto simp: rowlist_def)
    then show ?thesis using False by (simp add: find_row_def p_def [symmetric])
  qed
qed

lemma contains_first_visit:
  assumes "relation_ok rel"
  shows "rel_contains rel row = map_option snd (find (\<lambda>x. fst x = row) (rel_scan rel 0 full_view))"
proof -
  have ne: "rl_indexes rel \<noteq> []" using assms by (simp add: relation_ok_def)
  note scan = full_scan_identity [OF ne]
  show ?thesis
  proof (cases "length row = rl_arity rel")
    case True
    have each: "find_row (rl_arity rel) row bt =
        map_option snd ((find (\<lambda>x. fst x = row) \<circ> (\<lambda>(b, t). batch_visits (rl_arity rel) None None b t)) bt)"
      if "bt \<in> set (identity_batches rel)" for bt
      using find_row_first [OF identity_rows_ok [OF assms, of "fst bt" "snd bt"] True] that
      by (cases bt) simp
    have "first_some (find_row (rl_arity rel) row) (identity_batches rel) =
        map_option snd (first_some (find (\<lambda>x. fst x = row) \<circ> (\<lambda>(b, t). batch_visits (rl_arity rel) None None b t)) (identity_batches rel))"
      by (rule first_some_cong) (rule each)
    then show ?thesis using True unfolding rel_contains_def scan find_concat first_some_map by simp
  next
    case False
    have "length (fst x) = rl_arity rel" if x: "x \<in> set (rel_scan rel 0 full_view)" for x
    proof -
      obtain b t where "(b, t) \<in> set (identity_batches rel)" "x \<in> set (batch_visits (rl_arity rel) None None b t)"
        using x unfolding scan by auto
      then show ?thesis using length_batch_visits [OF identity_rows_ok [OF assms]] by blast
    qed
    then have "find (\<lambda>x. fst x = row) (rel_scan rel 0 full_view) = None"
      using False unfolding find_None_iff by auto
    then show ?thesis using False by (simp add: rel_contains_def)
  qed
qed

lemma first_geq_prefix:
  assumes ok: "rows_ok arity b" and p: "first_geq b arity key p"
  shows "p < b_len b \<and> has_prefix b arity p key \<longleftrightarrow> (\<exists>i < b_len b. has_prefix b arity i key)"
proof
  assume "\<exists>i < b_len b. has_prefix b arity i key"
  then obtain i where i: "i < b_len b" "has_prefix b arity i key" by blast
  then have "p \<le> i" using p by (auto simp: first_geq_def b_below_def has_prefix_def not_less [symmetric])
  moreover have "\<not> b_below b arity p key" using p calculation i(1) by (simp add: first_geq_def)
  ultimately show "p < b_len b \<and> has_prefix b arity p key" using prefix_after [OF ok _ _ _ i(1)] i by auto
qed blast

lemma exists_prefix_visit:
  assumes "relation_ok rel"
  shows "exists_prefix rel index key \<longleftrightarrow> (\<exists>x \<in> set (rel_scan rel index full_view). prefixed key x)"
proof (cases "index < length (rl_indexes rel)")
  case index: True
  let ?parts = "ix_parts (rl_indexes rel ! index)"
  have "index_ok (rl_arity rel) (rl_indexes rel ! index)" using assms index by (simp add: relation_ok_def)
  then have ok: "rows_ok (rl_arity rel) b" if "p \<in> set ?parts" "b \<in> set (part_batches p)" for p b
    using that by (auto simp: index_ok_def index_parts_def part_ok_def)
  have visits: "(\<exists>x \<in> set (batch_visits (rl_arity rel) None None b t). prefixed key x) \<longleftrightarrow>
      (\<exists>i < b_len b. has_prefix b (rl_arity rel) i key)" for b t
    by (auto simp: batch_visits_all prefixed_def has_prefix_def)
  have "(\<exists>x \<in> set (rel_scan rel index full_view). prefixed key x) \<longleftrightarrow>
      (\<exists>(l, p) \<in> set (enumerate 0 ?parts). \<exists>b \<in> set (part_batches p).
        \<exists>x \<in> set (batch_visits (rl_arity rel) None None b (tier_all ! l)). prefixed key x)"
    unfolding full_scan_of_index [OF index] by (simp add: case_prod_unfold)
  also have "\<dots> \<longleftrightarrow> (\<exists>p \<in> snd ` set (enumerate 0 ?parts). \<exists>b \<in> set (part_batches p). \<exists>i < b_len b. has_prefix b (rl_arity rel) i key)"
    unfolding visits by (simp add: case_prod_unfold)
  also have "snd ` set (enumerate 0 ?parts) = set ?parts" by (metis list.set_map map_snd_enumerate)
  finally have scan: "(\<exists>x \<in> set (rel_scan rel index full_view). prefixed key x) \<longleftrightarrow>
      (\<exists>p \<in> set ?parts. \<exists>b \<in> set (part_batches p). \<exists>i < b_len b. has_prefix b (rl_arity rel) i key)" .
  show ?thesis
  proof (cases "length key \<le> rl_arity rel")
    case True
    have "lower_bound b (rl_arity rel) key < b_len b \<and> has_prefix b (rl_arity rel) (lower_bound b (rl_arity rel) key) key \<longleftrightarrow>
        (\<exists>i < b_len b. has_prefix b (rl_arity rel) i key)" if "p \<in> set ?parts" "b \<in> set (part_batches p)" for p b
      by (rule first_geq_prefix [OF ok [OF that] lower_bound_spec [OF ok [OF that]]])
    then have "exists_prefix rel index key \<longleftrightarrow>
        (\<exists>p \<in> set ?parts. \<exists>b \<in> set (part_batches p). \<exists>i < b_len b. has_prefix b (rl_arity rel) i key)"
      using True index by (simp add: exists_prefix_def list_ex_iff Let_def)
    then show ?thesis using scan by (rule trans [OF _ sym])
  next
    case False
    have "\<not> has_prefix b (rl_arity rel) i key" if "p \<in> set ?parts" "b \<in> set (part_batches p)" "i < b_len b" for p b i
    proof
      assume "has_prefix b (rl_arity rel) i key"
      from arg_cong [OF this [unfolded has_prefix_def], of length] False length_b_row [OF rows_ok_flat [OF ok [OF that(1,2)]] that(3)]
      show False by simp
    qed
    then show ?thesis using scan False by (auto simp: exists_prefix_def)
  qed
qed (simp add: exists_prefix_def rel_scan_def selected_def)

end
