(* ===== verification/RelationRounds.thy ===== *)
theory RelationRounds
  imports RelationReads "HOL-Library.Code_Target_Numeral"
begin

text \<open>
  What the rounds do to the rows of a relation. An index is read level by level as two multisets of
  rows, stable and recent (\<open>rows_of\<close>); every operation is stated on them, and from that follow that
  no row is stored twice, that the indexes agree up to their permutation, and what a round adds.
\<close>

type_synonym rowset = "handle list multiset"

definition batch_rows :: "nat \<Rightarrow> batch \<Rightarrow> rowset" where
  "batch_rows arity b = mset (rowlist arity b)"

definition part_rows :: "nat \<Rightarrow> part \<Rightarrow> rowset \<times> rowset" where
  "part_rows arity p = (sum_list (map (batch_rows arity) (pt_stable p)), batch_rows arity (pt_recent p))"

definition rows_of :: "nat \<Rightarrow> index \<Rightarrow> nat \<Rightarrow> rowset \<times> rowset" where
  "rows_of arity ix l = part_rows arity (ix_parts ix ! l)"

subsection \<open>Parts\<close>

lemma batch_rows_default [simp]: "batch_rows arity batch_default = {#}"
  by (simp add: batch_rows_def rowlist_def)

lemma batch_rows_empty: "b_len b = 0 \<Longrightarrow> batch_rows arity b = {#}"
  by (simp add: batch_rows_def rowlist_def)

lemma push_run_rows:
  "\<forall>b \<in> set runs. flat_ok arity b \<Longrightarrow> flat_ok arity run \<Longrightarrow>
   sum_list (map (batch_rows arity) (push_run runs run arity)) = sum_list (map (batch_rows arity) runs) + batch_rows arity run"
proof (induction runs run arity rule: push_run.induct)
  case (1 runs run arity)
  consider "b_len run = 0" | "b_len run \<noteq> 0" "runs \<noteq> []" "b_len (last runs) \<le> 2 * b_len run"
    | "b_len run \<noteq> 0" "\<not> (runs \<noteq> [] \<and> b_len (last runs) \<le> 2 * b_len run)" by blast
  then show ?case
  proof cases
    case 1
    then show ?thesis using "1.prems" by (simp add: push_run.simps [of runs run arity] batch_rows_empty)
  next
    case 2
    have flat: "\<forall>b \<in> set (butlast runs). flat_ok arity b" "flat_ok arity (last runs)"
      using "1.prems"(1) 2 by (auto dest: in_set_butlastD)
    have "sum_list (map (batch_rows arity) runs) = sum_list (map (batch_rows arity) (butlast runs)) + batch_rows arity (last runs)"
      using 2(2) by (cases runs rule: rev_cases) simp_all
    moreover have "batch_rows arity (merge_batch (last runs) run arity) = batch_rows arity (last runs) + batch_rows arity run"
      using merge_batch_rows(1) [OF flat(2) "1.prems"(2)] by (simp add: batch_rows_def)
    ultimately show ?thesis
      using "1.IH" [OF 2(1)] 2 flat merge_batch_rows(2) [OF flat(2) "1.prems"(2)]
      by (simp add: push_run.simps [of runs run arity] ac_simps)
  next
    case 3
    then have "push_run runs run arity = runs @ [run]"
      unfolding push_run.simps [of runs run arity] if_not_P [OF 3(1)] if_not_P [OF 3(2)] by simp
    then show ?thesis by simp
  qed
qed

lemma part_ok_flat: "part_ok arity p \<Longrightarrow> \<forall>b \<in> set (pt_stable p). flat_ok arity b"
  "part_ok arity p \<Longrightarrow> flat_ok arity (pt_recent p)"
  by (simp_all add: part_ok_def part_batches_def rows_ok_flat)

lemma part_rows_default [simp]: "part_rows arity part_default = ({#}, {#})"
  by (simp add: part_rows_def part_default_def)

lemma part_rows_advance:
  "part_ok arity p \<Longrightarrow> part_rows arity (advance_part arity p) = (fst (part_rows arity p) + snd (part_rows arity p), {#})"
  by (simp add: part_rows_def advance_part_def push_run_rows part_ok_flat)

lemma part_rows_store:
  "part_ok arity p \<Longrightarrow> flat_ok arity b \<Longrightarrow> part_rows arity (store_part arity recent b p) =
     (if recent then (fst (part_rows arity p), batch_rows arity b)
      else (fst (part_rows arity p) + batch_rows arity b, snd (part_rows arity p)))"
  by (simp add: part_rows_def store_part_def push_run_rows part_ok_flat)

lemma part_rows_seal:
  assumes "part_ok arity p"
  shows "part_rows arity (seal_part arity p) = part_rows arity p"
proof (cases "rev (pt_stable p)")
  case (Cons newest bs)
  then have stable: "pt_stable p = rev bs @ [newest]" by (metis rev.simps(2) rev_rev_ident)
  have ok: "\<forall>b \<in> set bs. rows_ok arity b" "rows_ok arity newest"
    using assms by (auto simp: part_ok_def part_batches_def stable)
  have "sum_list (map (batch_rows arity) (rev bs)) = mset (concat (map (rowlist arity) bs))"
    by (induction bs) (simp_all add: batch_rows_def ac_simps)
  then have "batch_rows arity (fold (\<lambda>b acc. merge_batch b acc arity) bs newest) = sum_list (map (batch_rows arity) (pt_stable p))"
    using fold_merge [OF ok] by (simp add: batch_rows_def stable ac_simps)
  then show ?thesis using Cons stable by (cases bs) (simp_all add: seal_part_def part_rows_def)
qed (simp add: seal_part_def)

lemma part_rows_lower: "part_rows arity (lower_part arity row at m p) = part_rows arity p"
proof -
  have sums: "part_rows arity p =
      (sum_list (map mset (butlast (map (rowlist arity) (part_batches p)))), mset (last (map (rowlist arity) (part_batches p))))" for p
    by (simp add: part_rows_def part_batches_def batch_rows_def [abs_def] comp_def butlast_append)
  show ?thesis unfolding sums lower_part_facts(1) ..
qed

lemma part_rows_permuted:
  assumes "part_ok arity p" and "length perm = arity"
  shows "part_rows arity (part_permuted arity perm p) =
    map_prod (image_mset (permute_row perm)) (image_mset (permute_row perm)) (part_rows arity p)"
proof -
  have perm: "batch_rows arity (permuted b arity perm) = image_mset (permute_row perm) (batch_rows arity b)"
    if "flat_ok arity b" for b
    using permuted_rows(1) [OF that assms(2)] by (simp add: batch_rows_def)
  have "sum_list (map (batch_rows arity) (map (\<lambda>b. permuted b arity perm) bs)) =
      image_mset (permute_row perm) (sum_list (map (batch_rows arity) bs))" if "\<forall>b \<in> set bs. flat_ok arity b" for bs
    using that by (induction bs) (simp_all add: perm)
  then show ?thesis using part_ok_flat [OF assms(1)] by (simp add: part_rows_def part_permuted_def perm)
qed

subsection \<open>Indexes\<close>

lemma rows_of_new: "l < 3 \<Longrightarrow> rows_of arity (index_new perm) l = ({#}, {#})"
  by (simp add: rows_of_def index_new_def)

lemma rows_of_advance:
  assumes "index_ok arity ix" and "l < 3"
  shows "rows_of arity (map_parts (advance_part arity) ix) l = (fst (rows_of arity ix l) + snd (rows_of arity ix l), {#})"
  using part_rows_advance [OF index_ok_part [OF assms]] assms by (simp add: rows_of_def map_parts_def index_ok_def)

lemma rows_of_seal:
  assumes "index_ok arity ix" and "l < 3"
  shows "rows_of arity (map_parts (seal_part arity) ix) l = rows_of arity ix l"
  using part_rows_seal [OF index_ok_part [OF assms]] assms by (simp add: rows_of_def map_parts_def index_ok_def)

definition put_rows :: "bool \<Rightarrow> rowset \<Rightarrow> rowset \<times> rowset \<Rightarrow> rowset \<times> rowset" where
  "put_rows recent b s = (if recent then (fst s, b) else (fst s + b, snd s))"

lemma rows_of_store:
  assumes "index_ok arity ix" and "l < 3" and "k < 3" and "flat_ok arity b"
  shows "rows_of arity (store_index arity k recent b ix) l =
    (if l = k then put_rows recent (batch_rows arity b) (rows_of arity ix l) else rows_of arity ix l)"
  using part_rows_store [OF index_ok_part [OF assms(1,3)] assms(4)] assms(1-3)
  by (simp add: rows_of_def store_index_def index_ok_def put_rows_def nth_list_update)

lemma rows_of_lower:
  assumes "index_ok arity ix" and "l < 3"
  shows "rows_of arity (lower_index arity at rows metas lower ix) l = rows_of arity ix l"
  using assms unfolding lower_index_def
proof (induction lower arbitrary: ix)
  case (Cons x lower)
  obtain i home where x: "x = (i, home)" by (cases x)
  let ?ix = "ix\<lparr>ix_parts := (ix_parts ix)[part_of home :=
      lower_part arity (permute_row (ix_perm ix) (row_at rows arity i)) at (metas ! i) (ix_parts ix ! part_of home)]\<rparr>"
  have "index_ok arity ?ix"
    by (intro index_ok_set_part lower_part_facts index_ok_part Cons.prems) simp
  moreover have "rows_of arity ?ix l = rows_of arity ix l"
    using Cons.prems by (simp add: rows_of_def nth_list_update part_rows_lower index_ok_def)
  ultimately show ?case using Cons.IH [of ?ix] Cons.prems(2) by (simp add: x)
qed simp

lemma rows_of_copy [simp]: "rows_of arity (copy_lowered l h b ix) k = rows_of arity ix k" "ix_perm (copy_lowered l h b ix) = ix_perm ix"
  by (simp_all add: rows_of_def copy_lowered_def)

lemma perm_simps [simp]:
  "ix_perm (map_parts f ix) = ix_perm ix" "ix_perm (store_index arity k recent b ix) = ix_perm ix"
  by (simp_all add: map_parts_def store_index_def)

lemma perm_lower [simp]: "ix_perm (lower_index arity at rows metas lower ix) = ix_perm ix"
  unfolding lower_index_def by (induction lower arbitrary: ix) (auto split: prod.splits)

subsection \<open>Relations\<close>

definition perm_rows :: "nat list \<Rightarrow> rowset \<times> rowset \<Rightarrow> rowset \<times> rowset" where
  "perm_rows perm = map_prod (image_mset (permute_row perm)) (image_mset (permute_row perm))"

text \<open>The rows of a level, in the identity index, and the agreement of the other indexes with it.\<close>

definition level_rows :: "relation \<Rightarrow> nat \<Rightarrow> rowset \<times> rowset" where
  "level_rows rel l = rows_of (rl_arity rel) (rl_indexes rel ! 0) l"

definition agree :: "relation \<Rightarrow> bool" where
  "agree rel \<longleftrightarrow>
     (\<forall>ix \<in> set (List.tl (rl_indexes rel)). \<forall>l < 3. rows_of (rl_arity rel) ix l = perm_rows (ix_perm ix) (level_rows rel l))"

lemma update_indexes:
  fixes rel :: relation
  assumes ok: "relation_ok rel" and ag: "agree rel"
    and f: "\<And>ix l. index_ok (rl_arity rel) ix \<Longrightarrow> l < 3 \<Longrightarrow> rows_of (rl_arity rel) (f ix) l = h l (rows_of (rl_arity rel) ix l)"
    and g: "\<And>ix l s. index_ok (rl_arity rel) ix \<Longrightarrow> l < 3 \<Longrightarrow> rows_of (rl_arity rel) ix l = perm_rows (ix_perm ix) s \<Longrightarrow>
       rows_of (rl_arity rel) (g ix) l = perm_rows (ix_perm ix) (h l s)"
    and perm: "\<And>ix. ix_perm (g ix) = ix_perm ix"
    and upd: "rl_indexes rel' = (case rl_indexes rel of [] \<Rightarrow> [] | ix # ixs \<Rightarrow> f ix # map g ixs)" "rl_arity rel' = rl_arity rel"
  shows "agree rel'" and "l < 3 \<Longrightarrow> level_rows rel' l = h l (level_rows rel l)"
proof -
  obtain ix0 ixs where ixs: "rl_indexes rel = ix0 # ixs" using ok by (cases "rl_indexes rel") (auto simp: relation_ok_def)
  have index: "\<forall>ix \<in> set (rl_indexes rel). index_ok (rl_arity rel) ix" using ok by (simp add: relation_ok_def)
  have new: "level_rows rel' l = h l (level_rows rel l)" if "l < 3" for l
    using f [OF _ that, of ix0] index ixs upd by (simp add: level_rows_def)
  then show "l < 3 \<Longrightarrow> level_rows rel' l = h l (level_rows rel l)" .
  have "rows_of (rl_arity rel) (g ix) l = perm_rows (ix_perm (g ix)) (level_rows rel' l)"
    if "ix \<in> set ixs" "l < 3" for ix l
    using g [of ix l "level_rows rel l"] that index ag ixs new by (simp add: agree_def perm)
  then show "agree rel'" using upd ixs by (simp add: agree_def)
qed

lemma map_as_case: "map f xs = (case xs of [] \<Rightarrow> [] | x # xs \<Rightarrow> f x # map f xs)"
  by (cases xs) simp_all

text \<open>An update that acts alike on every index.\<close>

lemma update_all:
  fixes rel :: relation
  assumes "relation_ok rel" and "agree rel"
    and f: "\<And>ix l. index_ok (rl_arity rel) ix \<Longrightarrow> l < 3 \<Longrightarrow> rows_of (rl_arity rel) (f ix) l = h (rows_of (rl_arity rel) ix l)"
    and "\<And>perm s. h (perm_rows perm s) = perm_rows perm (h s)" and "\<And>ix. ix_perm (f ix) = ix_perm ix"
    and "rl_indexes rel' = map f (rl_indexes rel)" "rl_arity rel' = rl_arity rel"
  shows "agree rel' \<and> (\<forall>l < 3. level_rows rel' l = h (level_rows rel l))"
proof (intro conjI allI impI)
  note upd = update_indexes [OF assms(1,2), of f "\<lambda>_. h" f rel', unfolded assms(6), OF f _ assms(5) map_as_case assms(7)]
  show "agree rel'" by (rule upd) (simp_all add: f assms(4))
  show "level_rows rel' l = h (level_rows rel l)" if "l < 3" for l by (rule upd) (simp_all add: f assms(4) that)
qed

lemma advance_effect:
  assumes "relation_ok rel" and "agree rel"
  shows "agree (advance_rel rel) \<and> (\<forall>l < 3. level_rows (advance_rel rel) l = (fst (level_rows rel l) + snd (level_rows rel l), {#}))"
  by (rule update_all [OF assms, of "map_parts (advance_part (rl_arity rel))" "\<lambda>s. (fst s + snd s, {#})"])
    (simp_all add: rows_of_advance perm_rows_def advance_rel_def)

lemma seal_effect:
  assumes "relation_ok rel" and "agree rel"
  shows "agree (seal_rel rel) \<and> (\<forall>l < 3. level_rows (seal_rel rel) l = (fst (level_rows rel l) + snd (level_rows rel l), {#}))"
proof -
  note adv = advance_effect [OF assms]
  have "agree (seal_rel rel) \<and> (\<forall>l < 3. level_rows (seal_rel rel) l = level_rows (advance_rel rel) l)"
    by (rule update_all [OF relation_ok_advance [OF assms(1)], of "map_parts (seal_part (rl_arity rel))" "\<lambda>s. s"])
      (simp_all add: adv rows_of_seal seal_rel_def Let_def)
  then show ?thesis using adv by simp
qed

lemma store_effect:
  assumes "relation_ok rel" and "agree rel" and "rows_ok (rl_arity rel) b"
  shows "agree (store_rel level b recent rel) \<and> (\<forall>l < 3. level_rows (store_rel level b recent rel) l =
    (if l = part_of level then put_rows recent (batch_rows (rl_arity rel) b) (level_rows rel l) else level_rows rel l))"
proof -
  let ?a = "rl_arity rel" and ?rel = "store_rel level b recent rel"
  let ?h = "\<lambda>l s. if l = part_of level then put_rows recent (batch_rows ?a b) s else s"
  have put: "put_rows recent (image_mset (permute_row perm) r) (perm_rows perm s) = perm_rows perm (put_rows recent r s)" for perm r s
    by (simp add: put_rows_def perm_rows_def)
  have perm: "flat_ok ?a (permuted b ?a (ix_perm ix))"
      "batch_rows ?a (permuted b ?a (ix_perm ix)) = image_mset (permute_row (ix_perm ix)) (batch_rows ?a b)" if "index_ok ?a ix" for ix
    using permuted_rows [OF rows_ok_flat [OF assms(3)], of "ix_perm ix"] that by (simp_all add: index_ok_def batch_rows_def)
  note upd = update_indexes [OF assms(1,2), of "store_index ?a (part_of level) recent b" ?h
      "\<lambda>ix. store_index ?a (part_of level) recent (permuted b ?a (ix_perm ix)) ix" ?rel]
  have f: "rows_of ?a (store_index ?a (part_of level) recent b ix) l = ?h l (rows_of ?a ix l)" if "index_ok ?a ix" "l < 3" for ix l
    using that assms(3) by (simp add: rows_of_store rows_ok_flat)
  have g: "rows_of ?a (store_index ?a (part_of level) recent (permuted b ?a (ix_perm ix)) ix) l = perm_rows (ix_perm ix) (?h l s)"
    if "index_ok ?a ix" "l < 3" "rows_of ?a ix l = perm_rows (ix_perm ix) s" for ix l s
    using that perm [OF that(1)] put by (cases "l = part_of level") (auto simp: rows_of_store)
  have ixs: "rl_indexes ?rel = (case rl_indexes rel of [] \<Rightarrow> [] | ix # ixs \<Rightarrow> store_index ?a (part_of level) recent b ix #
      map (\<lambda>ix. store_index ?a (part_of level) recent (permuted b ?a (ix_perm ix)) ix) ixs)"
    by (simp add: store_rel_def Let_def)
  have arity: "rl_arity ?rel = ?a" by simp
  show ?thesis
  proof (intro conjI allI impI)
    show "agree ?rel" by (rule upd(1) [OF f g perm_simps(2) ixs arity])
    show "level_rows ?rel l = ?h l (level_rows rel l)" if "l < 3" for l
      by (rule upd(2) [OF f g perm_simps(2) ixs arity that])
  qed
qed

lemma ensure_effect:
  assumes "relation_ok rel" and "agree rel"
  shows "agree (snd (ensure_index rel perm)) \<and> (\<forall>l < 3. level_rows (snd (ensure_index rel perm)) l = level_rows rel l)"
proof (cases "snd (ensure_index rel perm) = rel")
  case False
  let ?a = "rl_arity rel"
  define ix where "ix = rl_indexes rel ! 0"
  define new where "new = \<lparr>ix_perm = perm, ix_parts = map (part_permuted ?a perm) (ix_parts ix),
      ix_lowered = map (map (part_permuted ?a perm)) (ix_lowered ix)\<rparr>"
  have eq: "snd (ensure_index rel perm) = rel\<lparr>rl_indexes := rl_indexes rel @ [new]\<rparr>" and perm: "length perm = ?a"
    using False by (auto simp: ensure_index_def new_def ix_def is_perm_def Let_def split: option.splits if_splits)
  have ne: "rl_indexes rel \<noteq> []" and ix: "index_ok ?a ix" using assms(1) by (simp_all add: relation_ok_def ix_def)
  have "rows_of ?a new l = perm_rows perm (rows_of ?a ix l)" if "l < 3" for l
    using part_rows_permuted [OF index_ok_part [OF ix that] perm] ix that
    by (simp add: rows_of_def new_def perm_rows_def index_ok_def)
  moreover have level: "level_rows (rel\<lparr>rl_indexes := rl_indexes rel @ [new]\<rparr>) l = level_rows rel l" for l
    using ne by (simp add: level_rows_def nth_append)
  ultimately have "agree (rel\<lparr>rl_indexes := rl_indexes rel @ [new]\<rparr>)"
    using assms(2) ne unfolding agree_def level by (auto simp: new_def level_rows_def ix_def)
  then show ?thesis using level eq by simp
qed (use assms in simp)

lemma new_effect: "agree (relation_new arity perms) \<and> (\<forall>l < 3. level_rows (relation_new arity perms) l = ({#}, {#}))"
proof -
  have "rl_indexes rel \<noteq> [] \<Longrightarrow> \<forall>ix \<in> set (rl_indexes rel). \<forall>l < 3. rows_of arity ix l = ({#}, {#}) \<Longrightarrow> rl_arity rel = arity \<Longrightarrow>
      (\<forall>ix \<in> set (rl_indexes (fold add_perm perms rel)). \<forall>l < 3. rows_of arity ix l = ({#}, {#})) \<and>
      rl_indexes (fold add_perm perms rel) \<noteq> []" for rel
  proof (induction perms arbitrary: rel)
    case (Cons p perms)
    have "rl_indexes (add_perm p rel) \<noteq> []" "rl_arity (add_perm p rel) = arity"
      "\<forall>ix \<in> set (rl_indexes (add_perm p rel)). \<forall>l < 3. rows_of arity ix l = ({#}, {#})"
      using Cons.prems by (auto simp: add_perm_def rows_of_new)
    then show ?case using Cons.IH [of "add_perm p rel"] by simp
  qed simp
  from this [of "\<lparr>rl_arity = arity, rl_indexes = [index_new (map (\<lambda>c. min c 0xFF) [0..<arity])], rl_len = 0\<rparr>"]
  have rows: "\<forall>ix \<in> set (rl_indexes (relation_new arity perms)). \<forall>l < 3. rows_of arity ix l = ({#}, {#})"
    and ne: "rl_indexes (relation_new arity perms) \<noteq> []"
    by (simp_all add: relation_new_def rows_of_new)
  then have level: "\<forall>l < 3. level_rows (relation_new arity perms) l = ({#}, {#})"
    by (simp add: level_rows_def relation_ok_new)
  then show ?thesis using rows ne
    by (auto simp: agree_def relation_ok_new perm_rows_def dest: list.set_sel(2))
qed

lemma lower_effect:
  assumes "relation_ok rel" and "agree rel" and "lower_ok (rl_arity rel) rows lower"
  shows "agree (lower_rows level rows metas lower rel) \<and> (\<forall>l < 3. level_rows (lower_rows level rows metas lower rel) l = level_rows rel l)
    \<and> rl_len (lower_rows level rows metas lower rel) = rl_len rel"
proof (cases "lower = []")
  case False
  define arity where "arity = rl_arity rel"
  define batch where "batch home = collect (map (\<lambda>(i, h). (row_at rows arity i, metas ! i, NO_ORDINAL)) (filter (\<lambda>(i, h). h = home) lower))" for home
  define step where "step home r =
     (if filter (\<lambda>(i, h). h = home) lower = [] then r else r\<lparr>rl_indexes := (case rl_indexes r of [] \<Rightarrow> []
        | ix0 # ixs \<Rightarrow> copy_lowered (part_of level) (part_of home) (batch home) ix0 #
            map (\<lambda>ix. copy_lowered (part_of level) (part_of home) (permuted (batch home) arity (ix_perm ix)) ix) ixs)\<rparr>)"
    for home and r :: relation
  define marked where "marked = rel\<lparr>rl_indexes := map (lower_index arity (tier_level level) rows metas lower) (rl_indexes rel)\<rparr>"
  have eq: "lower_rows level rows metas lower rel = fold step tier_all marked"
    unfolding lower_rows_def Let_def if_not_P [OF False] arity_def [symmetric] batch_def [symmetric] step_def [abs_def] marked_def ..
  have marked: "agree marked \<and> (\<forall>l < 3. level_rows marked l = level_rows rel l)"
    by (rule update_all [OF assms(1,2), of "lower_index arity (tier_level level) rows metas lower" "\<lambda>s. s"])
      (simp_all add: marked_def rows_of_lower arity_def)
  have "rl_indexes marked \<noteq> []" using assms(1) by (simp add: marked_def relation_ok_def)
  have copy: "rl_indexes r \<noteq> [] \<Longrightarrow> agree r \<Longrightarrow>
      rl_indexes (step home r) \<noteq> [] \<and> agree (step home r) \<and> (\<forall>l. level_rows (step home r) l = level_rows r l) \<and> rl_len (step home r) = rl_len r"
    for home r
    by (cases "rl_indexes r") (auto simp: step_def agree_def level_rows_def)
  have folds: "rl_indexes r \<noteq> [] \<Longrightarrow> agree r \<Longrightarrow>
      agree (fold step ts r) \<and> (\<forall>l. level_rows (fold step ts r) l = level_rows r l) \<and> rl_len (fold step ts r) = rl_len r" for ts r
  proof (induction ts arbitrary: r)
    case (Cons t ts)
    then show ?case using copy [OF Cons.prems, of t] by simp
  qed simp
  show ?thesis using folds [OF \<open>rl_indexes marked \<noteq> []\<close>, of tier_all] marked unfolding eq by (simp add: marked_def)
qed (use assms(2) in \<open>simp add: lower_rows_def\<close>)

subsection \<open>The rows of a relation\<close>

definition all_rows :: "relation \<Rightarrow> rowset" where
  "all_rows rel = (\<Sum>l \<in> {0, 1, 2}. fst (level_rows rel l) + snd (level_rows rel l))"

lemma part_of_cases: "part_of t = 0 \<or> part_of t = 1 \<or> part_of t = 2"
  by (cases t) (simp_all add: part_of_def tier_level_def)

lemma all_rows_cong: "(\<And>l. l < 3 \<Longrightarrow> level_rows a l = level_rows b l) \<Longrightarrow> all_rows a = all_rows b"
  by (simp add: all_rows_def)

lemma all_rows_advance:
  assumes "relation_ok rel" and "agree rel"
  shows "all_rows (advance_rel rel) = all_rows rel" and "all_rows (seal_rel rel) = all_rows rel"
  using advance_effect [OF assms] seal_effect [OF assms] by (simp_all add: all_rows_def)

lemma all_rows_store:
  assumes "relation_ok rel" and "agree rel" and "rows_ok (rl_arity rel) b" and "recent \<longrightarrow> snd (level_rows rel (part_of level)) = {#}"
  shows "all_rows (store_rel level b recent rel) = all_rows rel + batch_rows (rl_arity rel) b"
  using store_effect [OF assms(1-3), of level recent] assms(4) part_of_cases [of level]
  by (auto simp: all_rows_def put_rows_def ac_simps)

lemma size_batch_rows [simp]: "size (batch_rows arity b) = b_len b"
  by (simp add: batch_rows_def)

lemma part_batches_rows: "sum_list (map (batch_rows arity) (part_batches p)) = fst (part_rows arity p) + snd (part_rows arity p)"
  by (simp add: part_batches_def part_rows_def)

lemma all_rows_identity:
  assumes "relation_ok rel"
  shows "all_rows rel = sum_list (map (\<lambda>(b, t). batch_rows (rl_arity rel) b) (identity_batches rel))"
proof -
  have "index_ok (rl_arity rel) (rl_indexes rel ! 0)" using assms by (simp add: relation_ok_def)
  then obtain p q r where parts: "ix_parts (rl_indexes rel ! 0) = [p, q, r]"
    by (auto simp: index_ok_def length_Suc_conv numeral_3_eq_3)
  have "map (\<lambda>(b, t). batch_rows (rl_arity rel) b) (map (\<lambda>b. (b, t)) bs) = map (batch_rows (rl_arity rel)) bs" for t bs by simp
  then have "map (\<lambda>(b, t). batch_rows (rl_arity rel) b) (identity_batches rel) =
      map (batch_rows (rl_arity rel)) (part_batches p) @ map (batch_rows (rl_arity rel)) (part_batches q) @
      map (batch_rows (rl_arity rel)) (part_batches r)"
    by (simp add: identity_batches_def parts)
  then show ?thesis using part_batches_rows
    by (simp add: all_rows_def level_rows_def rows_of_def parts ac_simps)
qed

lemma full_scan_rows:
  assumes "relation_ok rel"
  shows "mset (map fst (rel_scan rel 0 full_view)) = all_rows rel"
proof -
  have ne: "rl_indexes rel \<noteq> []" using assms by (simp add: relation_ok_def)
  have rows: "image_mset fst (mset (batch_visits arity None None b t)) = mset (rowlist arity b)" for arity b t
    unfolding mset_map [symmetric] by (simp add: batch_visits_all rowlist_def comp_def)
  have "mset (map fst (concat (map (\<lambda>(b, t). batch_visits arity None None b t) bts))) = sum_list (map (\<lambda>(b, t). batch_rows arity b) bts)"
    for arity bts
    by (induction bts) (auto simp: batch_rows_def rows)
  then show ?thesis unfolding full_scan_identity [OF ne] all_rows_identity [OF assms] .
qed

subsection \<open>Dropping what is there\<close>

lemma order_ok_Cons:
  "order_ok arity rows (i # is) \<longleftrightarrow> length (row_at rows arity i) = arity \<and> order_ok arity rows is \<and>
     (\<forall>k \<in> set is. row_at rows arity i < row_at rows arity k)"
  by (auto simp: order_ok_def)

lemma drop_batch_filter:
  assumes "rows_ok arity b"
  shows "order_ok arity rows is \<Longrightarrow> pos \<le> b_len b \<Longrightarrow> (\<forall>i \<in> set is. \<forall>j < pos. b_below b arity j (row_at rows arity i)) \<Longrightarrow>
    fst (drop_batch b arity rows is pos) = filter (\<lambda>i. row_at rows arity i \<notin> set (rowlist arity b)) is"
proof (induction "is" arbitrary: pos)
  case (Cons i "is")
  let ?row = "row_at rows arity i" and ?pos = "gallop b arity pos (row_at rows arity i)"
  have len: "length ?row = arity" and ok: "order_ok arity rows is" using Cons.prems(1) by (simp_all add: order_ok_Cons)
  have first: "first_geq b arity ?row ?pos" by (rule gallop_spec [OF assms]) (use Cons.prems in simp_all)
  have "b_below b arity j (row_at rows arity k)" if "k \<in> set is" "j < ?pos" for k j
  proof -
    have "j < b_len b" "b_below b arity j ?row" using first that(2) by (auto simp: first_geq_def)
    moreover have "?row \<le> row_at rows arity k" using Cons.prems(1) that(1) by (auto simp: order_ok_Cons)
    moreover have "length (b_row b arity j) = arity" using length_b_row [OF rows_ok_flat [OF assms]] calculation(1) by simp
    ultimately show ?thesis using below_later_key [of ?row "b_row b arity j" "row_at rows arity k"] len by (simp add: b_below_def)
  qed
  then have "fst (drop_batch b arity rows is ?pos) = filter (\<lambda>i. row_at rows arity i \<notin> set (rowlist arity b)) is"
    using first by (intro Cons.IH [OF ok]) (auto simp: first_geq_def)
  moreover have "(?pos < b_len b \<and> b_row b arity ?pos = ?row) = (?row \<in> set (rowlist arity b))"
    by (rule first_geq_row [OF assms first len])
  ultimately show ?case by (simp add: Let_def split: prod.splits) auto
qed simp

lemma drop_present_filter:
  assumes "relation_ok rel" and "order_ok (rl_arity rel) rows is"
  shows "drop_present rel rows is = filter (\<lambda>i. row_at rows (rl_arity rel) i \<notin># all_rows rel) is"
proof -
  let ?a = "rl_arity rel"
  have "order_ok ?a rows is \<Longrightarrow> \<forall>(b, t) \<in> set bts. rows_ok ?a b \<Longrightarrow>
      fold (\<lambda>(b, _) order. fst (drop_batch b ?a rows order 0)) bts is =
      filter (\<lambda>i. row_at rows ?a i \<notin># sum_list (map (\<lambda>(b, t). batch_rows ?a b) bts)) is" for bts
  proof (induction bts arbitrary: "is")
    case (Cons bt bts)
    obtain b t where bt: "bt = (b, t)" by (cases bt)
    have drop: "fst (drop_batch b ?a rows is 0) = filter (\<lambda>i. row_at rows ?a i \<notin> set (rowlist ?a b)) is"
      by (rule drop_batch_filter) (use Cons.prems bt in simp_all)
    have "order_ok ?a rows (fst (drop_batch b ?a rows is 0))" by (rule order_ok_drop [OF Cons.prems(1)])
    from Cons.IH [OF this] Cons.prems(2) show ?case
      by (simp add: bt drop batch_rows_def conj_commute)
  qed simp
  from this [OF assms(2), of "identity_batches rel"] identity_rows_ok [OF assms(1)]
  show ?thesis by (auto simp: drop_present_def all_rows_identity [OF assms(1)])
qed

text \<open>The rows given: what the flat vector holds in whole rows.\<close>

definition given_rows :: "nat \<Rightarrow> handle list \<Rightarrow> nat \<Rightarrow> handle list set" where
  "given_rows arity rows metas = row_at rows arity ` {..<row_count arity (length rows) metas}"

lemma image_dedup: "row ` set (dedup_rows row is) = row ` set is"
  by (induction row "is" rule: dedup_rows.induct) auto

lemma fresh_rows:
  fixes key :: "nat \<Rightarrow> 'k::linorder"
  assumes ok: "relation_ok rel" and n: "n = row_count (rl_arity rel) (length rows) m"
  defines "order \<equiv> drop_present rel rows (dedup_rows (row_at rows (rl_arity rel)) (sort_key (\<lambda>i. (row_at rows (rl_arity rel) i, key i)) [0..<n]))"
  shows "order_ok (rl_arity rel) rows order"
    and "map (row_at rows (rl_arity rel)) order = sorted_list_of_set (given_rows (rl_arity rel) rows m - set_mset (all_rows rel))"
proof -
  let ?row = "row_at rows (rl_arity rel)"
  let ?sorted = "sort_key (\<lambda>i. (?row i, key i)) [0..<n]"
  have start: "order_ok (rl_arity rel) rows (dedup_rows ?row ?sorted)" by (rule order_ok_sort [OF n])
  show order: "order_ok (rl_arity rel) rows order" unfolding order_def by (rule order_ok_drop_present [OF start refl])
  have "?row ` set (dedup_rows ?row ?sorted) = given_rows (rl_arity rel) rows m"
    by (simp add: image_dedup given_rows_def n atLeast_upt)
  then have "set (map ?row order) = given_rows (rl_arity rel) rows m - set_mset (all_rows rel)"
    unfolding order_def drop_present_filter [OF ok start] by auto
  moreover have "sorted_wrt (<) (map ?row order)" using order by (simp add: order_ok_def)
  ultimately show "map ?row order = sorted_list_of_set (given_rows (rl_arity rel) rows m - set_mset (all_rows rel))"
    by (metis sorted_list_of_set.idem_if_sorted_distinct strict_sorted_iff)
qed

lemma collect_order_rows:
  assumes "order_ok arity rows is"
  shows "rowlist arity (collect (map (\<lambda>i. (row_at rows arity i, f i)) is)) = map (row_at rows arity) is"
    and "b_len (collect (map (\<lambda>i. (row_at rows arity i, f i)) is)) = length is"
  using collect_rows(1,3) [of "map (\<lambda>i. (row_at rows arity i, f i)) is" arity] assms
  by (simp_all add: order_ok_def comp_def)

subsection \<open>Rounds and loads\<close>

definition fresh_of :: "relation \<Rightarrow> handle list \<Rightarrow> nat \<Rightarrow> handle list set" where
  "fresh_of rel rows m = given_rows (rl_arity rel) rows m - set_mset (all_rows rel)"

lemma finite_fresh [simp]: "finite (fresh_of rel rows m)"
  by (simp add: fresh_of_def given_rows_def)

lemma mset_sorted_set: "finite A \<Longrightarrow> mset (sorted_list_of_set A) = mset_set A" for A :: "handle list set"
  using mset_set_set [OF distinct_sorted_list_of_set, of A] by simp

lemma round_effect:
  fixes level :: tier and to_add :: "handle list" and metas :: "row_meta list"
  assumes ok: "relation_ok rel" and ag: "agree rel"
  defines "res \<equiv> insert_round level to_add metas rel" and "fresh \<equiv> fresh_of rel to_add (length metas)"
  shows "agree (snd res)" and "all_rows (snd res) = all_rows rel + mset_set fresh"
    and "in_added (fst res) = card fresh" and "rl_len (snd res) = rl_len rel + card fresh"
    and "l < 3 \<Longrightarrow> snd (level_rows (snd res) l) = (if l = part_of level then mset_set fresh else {#})"
proof -
  let ?rel = "advance_rel rel" and ?a = "rl_arity rel"
  define start where "start = dedup_rows (row_at to_add ?a)
      (sort_key (\<lambda>i. (row_at to_add ?a i, rm_height (metas ! i), rm_rule (metas ! i))) [0..<row_count ?a (length to_add) (length metas)])"
  obtain order lower where drop: "drop_present_lowering ?rel to_add metas level start = (order, lower)" by fastforce
  define batch where "batch = collect (map (\<lambda>i. (row_at to_add ?a i, metas ! i, NO_ORDINAL)) order)"
  define low where "low = lower_rows level to_add metas lower ?rel"
  have adv: "relation_ok ?rel" "agree ?rel" "\<forall>l < 3. level_rows ?rel l = (fst (level_rows rel l) + snd (level_rows rel l), {#})"
    using relation_ok_advance [OF ok] advance_effect [OF ok ag] by simp_all
  have start: "order_ok ?a to_add start" unfolding start_def by (rule order_ok_sort [OF refl])
  have order_eq: "order = drop_present ?rel to_add start" using lowering_order [of ?rel to_add metas level start] drop by simp
  have order: "order_ok ?a to_add order" "map (row_at to_add ?a) order = sorted_list_of_set fresh"
    using fresh_rows [OF adv(1), of _ to_add "length metas" "\<lambda>i. (rm_height (metas ! i), rm_rule (metas ! i))"]
    by (simp_all add: order_eq start_def fresh_def fresh_of_def all_rows_advance [OF ok ag])
  have len: "length order = card fresh" by (metis order(2) length_map length_sorted_list_of_set)
  have lower: "lower_ok ?a to_add lower"
    using lowering_lower_ok [of ?rel to_add start metas level] start drop by simp
  have low: "relation_ok low" "rl_arity low = ?a" "agree low" "\<forall>l < 3. level_rows low l = level_rows ?rel l" "rl_len low = rl_len rel"
    using relation_ok_lower [of ?rel to_add lower level metas] lower_effect [of ?rel to_add lower level metas] adv(1,2) lower
    by (simp_all add: low_def advance_rel_def)
  have batch: "rows_ok ?a batch" "batch_rows ?a batch = mset_set fresh" "b_len batch = card fresh"
    using rows_ok_collect_order [OF order(1)] collect_order_rows [OF order(1)] order(2) len
    by (simp_all add: batch_def batch_rows_def fresh_def mset_sorted_set)
  have res: "res = (\<lparr>in_added = b_len batch, in_lowered = length lower\<rparr>, store_rel level batch True low)"
    by (simp add: res_def insert_round_def Let_def start_def [symmetric] drop batch_def low_def)
  note store = store_effect [OF low(1,3), of batch level True, unfolded low(2), OF batch(1)]
  show "agree (snd res)" using store by (simp add: res)
  have "all_rows low = all_rows rel" using all_rows_cong [of low ?rel] low(4) all_rows_advance [OF ok ag] by simp
  moreover have "snd (level_rows low (part_of level)) = {#}" using low(4) adv(3) by simp
  ultimately show "all_rows (snd res) = all_rows rel + mset_set fresh"
    using all_rows_store [OF low(1,3), of batch True level] batch low(2) by (simp add: res)
  show "in_added (fst res) = card fresh" using batch(3) by (simp add: res)
  show "rl_len (snd res) = rl_len rel + card fresh" using batch(3) low(5) by (simp add: res store_rel_def Let_def)
  show "snd (level_rows (snd res) l) = (if l = part_of level then mset_set fresh else {#})" if "l < 3"
    using store low(4) adv(3) batch(2) that by (simp add: res put_rows_def)
qed

definition edb_fresh :: "edb_rows \<Rightarrow> relation \<Rightarrow> handle list set" where
  "edb_fresh edb rel = (if er_arity edb = rl_arity rel then fresh_of rel (er_rows edb) (length (er_levels edb)) else {})"

lemma mset_by_level: "(\<Sum>t\<leftarrow>tier_all. mset (map f (filter (\<lambda>i. g i = t) is))) = mset (map f is)"
proof (induction "is")
  case (Cons i "is")
  then show ?case by (cases "g i") (simp_all add: tier_all_def)
qed (simp add: tier_all_def)

lemma load_effect:
  assumes ok: "relation_ok rel" and ag: "agree rel"
  shows "agree (snd (load edb heights rel)) \<and> all_rows (snd (load edb heights rel)) = all_rows rel + mset_set (edb_fresh edb rel) \<and>
    rl_len (snd (load edb heights rel)) = rl_len rel + card (edb_fresh edb rel) \<and> fst (load edb heights rel) = card (edb_fresh edb rel)"
proof (cases "er_arity edb = rl_arity rel")
  case True
  let ?a = "rl_arity rel" and ?row = "row_at (er_rows edb) (rl_arity rel)"
  define height where "height i = (case heights of Some h \<Rightarrow> if i < length h then h ! i else 0 | None \<Rightarrow> 0)" for i
  define ord where "ord i = (if i < length (er_ordinals edb) then er_ordinals edb ! i else NO_ORDINAL)" for i
  define order where "order = drop_present rel (er_rows edb) (dedup_rows ?row
    (sort_key (\<lambda>i. (?row i, er_levels edb ! i, height i, ord i)) [0..<row_count ?a (length (er_rows edb)) (length (er_levels edb))]))"
  have order: "order_ok ?a (er_rows edb) order" "map ?row order = sorted_list_of_set (edb_fresh edb rel)"
    using fresh_rows [OF ok, of _ "er_rows edb" "length (er_levels edb)" "\<lambda>i. (er_levels edb ! i, height i, ord i)"] True
    by (simp_all add: order_def edb_fresh_def fresh_of_def)
  define batch where "batch level = collect (map (\<lambda>i. (?row i, \<lparr>rm_height = height i, rm_rule = EDB_RULE\<rparr>, ord i))
      (filter (\<lambda>i. er_levels edb ! i = level) order))" for level
  have batch: "rows_ok ?a (batch t)" "batch_rows ?a (batch t) = mset (map ?row (filter (\<lambda>i. er_levels edb ! i = t) order))" for t
    using rows_ok_collect_order [OF order_ok_filter [OF order(1)]] collect_order_rows(1) [OF order_ok_filter [OF order(1)]]
    by (simp_all add: batch_def batch_rows_def)
  have len: "b_len (batch t) = size (batch_rows ?a (batch t))" for t by simp
  define step where "step t s = (fst s + b_len (batch t), store_rel t (batch t) False (snd s))" for t and s :: "nat \<times> relation"
  have step_fold: "relation_ok (snd s) \<Longrightarrow> rl_arity (snd s) = ?a \<Longrightarrow> agree (snd s) \<Longrightarrow>
      agree (snd (fold step ts s)) \<and> all_rows (snd (fold step ts s)) = all_rows (snd s) + (\<Sum>t\<leftarrow>ts. batch_rows ?a (batch t)) \<and>
      rl_len (snd (fold step ts s)) = rl_len (snd s) + size (\<Sum>t\<leftarrow>ts. batch_rows ?a (batch t)) \<and>
      fst (fold step ts s) = fst s + size (\<Sum>t\<leftarrow>ts. batch_rows ?a (batch t))" for ts s
  proof (induction ts arbitrary: s)
    case (Cons t ts)
    have b: "rows_ok (rl_arity (snd s)) (batch t)" using batch(1) Cons.prems(2) by simp
    have "relation_ok (snd (step t s))" "agree (snd (step t s))" "rl_arity (snd (step t s)) = ?a"
      "all_rows (snd (step t s)) = all_rows (snd s) + batch_rows ?a (batch t)"
      "rl_len (snd (step t s)) = rl_len (snd s) + size (batch_rows ?a (batch t))" "fst (step t s) = fst s + size (batch_rows ?a (batch t))"
      using relation_ok_store [OF Cons.prems(1) b] store_effect [OF Cons.prems(1,3) b]
        all_rows_store [OF Cons.prems(1,3) b, of False] Cons.prems(2)
      by (simp_all add: step_def) (simp add: store_rel_def Let_def)
    then show ?case using Cons.IH [of "step t s"] by (simp add: ac_simps)
  qed simp
  have "load edb heights rel = fold step tier_all (0, rel)"
    using True by (simp add: load_def Let_def order_def batch_def height_def [abs_def] ord_def [abs_def] step_def [abs_def] case_prod_unfold)
  moreover have "(\<Sum>t\<leftarrow>tier_all. batch_rows ?a (batch t)) = mset_set (edb_fresh edb rel)"
    unfolding batch(2) mset_by_level order(2) by (simp add: edb_fresh_def mset_sorted_set)
  ultimately show ?thesis using step_fold [of "(0, rel)" tier_all] ok ag by simp
qed (use ag in \<open>simp add: load_def Let_def edb_fresh_def\<close>)

subsection \<open>The invariant of reachable relations\<close>

definition rel_inv :: "relation \<Rightarrow> bool" where
  "rel_inv rel \<longleftrightarrow> agree rel \<and> (\<forall>x. count (all_rows rel) x \<le> 1) \<and> rl_len rel = size (all_rows rel)"

lemma count_fresh:
  assumes "\<forall>x. count a x \<le> 1" and "finite f" and "f \<inter> set_mset a = {}"
  shows "count (a + mset_set f) x \<le> 1"
  using assms by (cases "x \<in> f") (auto simp: not_in_iff)

lemma rel_reach_inv: "rel_reach rel \<Longrightarrow> rel_inv rel"
proof (induction rule: rel_reach.induct)
  case (reach_new arity perms)
  have "rl_len (fold add_perm perms rel) = rl_len rel" for rel
    by (induction perms arbitrary: rel) (simp_all add: add_perm_def)
  then show ?case using new_effect [of arity perms] by (simp add: rel_inv_def all_rows_def) (simp add: relation_new_def)
next
  case (reach_index rel perm)
  have "agree rel" using reach_index.IH by (simp add: rel_inv_def)
  note eff = ensure_effect [OF rel_reach_ok [OF reach_index.hyps] this, of perm]
  have "all_rows (snd (ensure_index rel perm)) = all_rows rel" using eff by (intro all_rows_cong) simp
  moreover have "rl_len (snd (ensure_index rel perm)) = rl_len rel" by (simp add: ensure_index_def Let_def split: option.split)
  ultimately show ?case using eff reach_index.IH by (simp add: rel_inv_def)
next
  case (reach_load rel edb heights)
  have ag: "agree rel" using reach_load.IH by (simp add: rel_inv_def)
  have fresh: "finite (edb_fresh edb rel)" "edb_fresh edb rel \<inter> set_mset (all_rows rel) = {}"
    by (auto simp: edb_fresh_def) (auto simp: fresh_of_def split: if_splits)
  show ?case using load_effect [OF rel_reach_ok [OF reach_load.hyps] ag, of edb heights] reach_load.IH count_fresh [OF _ fresh]
    by (simp add: rel_inv_def fresh(1))
next
  case (reach_round rel level to_add metas)
  have ag: "agree rel" using reach_round.IH by (simp add: rel_inv_def)
  let ?fresh = "fresh_of rel to_add (length metas)"
  have fresh: "finite ?fresh" "?fresh \<inter> set_mset (all_rows rel) = {}" by simp (auto simp: fresh_of_def)
  show ?case using round_effect(1,2,4) [OF rel_reach_ok [OF reach_round.hyps] ag, of level to_add metas] reach_round.IH count_fresh [OF _ fresh]
    by (simp add: rel_inv_def)
next
  case (reach_advance rel)
  then show ?case using advance_effect [OF rel_reach_ok] all_rows_advance(1) [OF rel_reach_ok]
    by (simp add: rel_inv_def) (simp add: advance_rel_def)
next
  case (reach_seal rel)
  then show ?case using seal_effect [OF rel_reach_ok] all_rows_advance(2) [OF rel_reach_ok]
    by (simp add: rel_inv_def) (simp add: seal_rel_def advance_rel_def Let_def)
qed

subsection \<open>Scans of the home rows\<close>

definition which_rows :: "which \<Rightarrow> rowset \<times> rowset \<Rightarrow> rowset" where
  "which_rows w s = (case w of WStable \<Rightarrow> fst s | WRecent \<Rightarrow> snd s | WBoth \<Rightarrow> fst s + snd s)"

definition home_rows :: "nat \<Rightarrow> nat \<Rightarrow> which \<Rightarrow> (nat \<Rightarrow> rowset \<times> rowset) \<Rightarrow> rowset" where
  "home_rows lo hi w f = (\<Sum>l \<in> {0, 1, 2}. if lo \<le> l \<and> l \<le> hi then which_rows w (f l) else {#})"

lemma pick_rows: "sum_list (map (\<lambda>(b, t). batch_rows arity b) (pick p t w)) = which_rows w (part_rows arity p)"
  by (cases w) (auto simp: pick_def which_rows_def part_rows_def batch_rows_empty comp_def)

lemma scan_home_rows:
  assumes "relation_ok rel" and "index < length (rl_indexes rel)"
  shows "mset (map fst (rel_scan rel index (view_rows lo hi w))) =
    home_rows lo hi w (rows_of (rl_arity rel) (rl_indexes rel ! index))"
proof -
  let ?a = "rl_arity rel" and ?ix = "rl_indexes rel ! index"
  have "index_ok ?a ?ix" using assms by (simp add: relation_ok_def)
  then obtain p q r where parts: "ix_parts ?ix = [p, q, r]"
    by (auto simp: index_ok_def length_Suc_conv numeral_3_eq_3)
  have visits: "image_mset fst (mset (batch_visits a None None b t)) = batch_rows a b" for a b t
    unfolding mset_map [symmetric] by (simp add: batch_visits_all batch_rows_def rowlist_def comp_def)
  have "mset (map fst (concat (map (\<lambda>(b, t). batch_visits ?a None None b t) bts))) = sum_list (map (\<lambda>(b, t). batch_rows ?a b) bts)" for bts
    by (induction bts) (auto simp: visits)
  then have "mset (map fst (rel_scan rel index (view_rows lo hi w))) =
      sum_list (map (\<lambda>(b, t). batch_rows ?a b) (selected rel index (view_rows lo hi w)))"
    by (simp add: rel_scan_def batch_visits_def view_rows_def)
  also have "\<dots> = home_rows lo hi w (rows_of ?a ?ix)"
    using assms(2) pick_rows [of ?a] by (simp add: selected_def Let_def parts view_rows_def in_levels_def tier_all_def tier_level_def
        home_rows_def rows_of_def ac_simps)
  finally show ?thesis .
qed

lemma home_rows_permuted: "home_rows lo hi w (\<lambda>l. perm_rows perm (f l)) = image_mset (permute_row perm) (home_rows lo hi w f)"
  by (cases w) (simp_all add: home_rows_def which_rows_def perm_rows_def)

lemma home_rows_cong: "(\<And>l. l < 3 \<Longrightarrow> f l = g l) \<Longrightarrow> home_rows lo hi w f = home_rows lo hi w g"
  by (simp add: home_rows_def)

lemma scan_permuted:
  assumes "relation_ok rel" and "agree rel" and index: "0 < index" "index < length (rl_indexes rel)"
  shows "mset (map fst (rel_scan rel index (view_rows lo hi w))) =
    image_mset (permute_row (ix_perm (rl_indexes rel ! index))) (mset (map fst (rel_scan rel 0 (view_rows lo hi w))))"
proof -
  let ?ix = "rl_indexes rel ! index"
  have "List.tl (rl_indexes rel) ! (index - 1) = ?ix" "index - 1 < length (List.tl (rl_indexes rel))"
    using index by (auto simp: nth_tl)
  then have "?ix \<in> set (List.tl (rl_indexes rel))" by (metis nth_mem)
  then have "rows_of (rl_arity rel) ?ix l = perm_rows (ix_perm ?ix) (level_rows rel l)" if "l < 3" for l
    using assms(2) that by (simp add: agree_def)
  then have "home_rows lo hi w (rows_of (rl_arity rel) ?ix) = home_rows lo hi w (\<lambda>l. perm_rows (ix_perm ?ix) (level_rows rel l))"
    by (rule home_rows_cong)
  moreover have "0 < length (rl_indexes rel)" using index(2) by linarith
  ultimately show ?thesis
    using scan_home_rows [OF assms(1) index(2)] scan_home_rows [OF assms(1), of 0]
    by (simp add: home_rows_permuted level_rows_def [abs_def])
qed

lemma scan_identity_rows:
  assumes "relation_ok rel"
  shows "mset (map fst (rel_scan rel 0 (view_rows lo hi w))) = home_rows lo hi w (level_rows rel)"
proof -
  have "0 < length (rl_indexes rel)" using assms by (simp add: relation_ok_def)
  from scan_home_rows [OF assms this] show ?thesis by (simp add: level_rows_def [abs_def])
qed

text \<open>The rows a round is given and the relation does not hold.\<close>

definition new_rows :: "relation \<Rightarrow> handle list \<Rightarrow> nat \<Rightarrow> handle list set" where
  "new_rows rel to_add n = given_rows (rl_arity rel) to_add n - set (map fst (rel_scan rel 0 full_view))"

lemma new_rows_fresh: "relation_ok rel \<Longrightarrow> new_rows rel to_add n = fresh_of rel to_add n"
  unfolding new_rows_def fresh_of_def full_scan_rows [symmetric] set_mset_mset ..

lemma round_rows:
  assumes "relation_ok rel" and "agree rel" and round: "insert_round level to_add metas rel = (ins, rel')"
  defines "new \<equiv> mset_set (new_rows rel to_add (length metas))"
  shows "home_rows 0 2 WRecent (level_rows rel') = new" and "home_rows (part_of level) (part_of level) WRecent (level_rows rel') = new"
    and "home_rows 0 2 WStable (level_rows rel') = all_rows rel" and "all_rows rel' = all_rows rel + new"
proof -
  note eff = round_effect [OF assms(1,2), where level = level and to_add = to_add and metas = metas, unfolded round fst_conv snd_conv,
      folded new_rows_fresh [OF assms(1)] new_def]
  have recent: "snd (level_rows rel' l) = (if l = part_of level then new else {#})" if "l < 3" for l
    using eff(5) [of l] that by (simp add: new_def)
  then show "home_rows 0 2 WRecent (level_rows rel') = new"
    "home_rows (part_of level) (part_of level) WRecent (level_rows rel') = new"
    using part_of_cases [of level] by (auto simp: home_rows_def which_rows_def)
  show all: "all_rows rel' = all_rows rel + new" using eff(2) by (simp add: new_def)
  have "all_rows rel' = home_rows 0 2 WStable (level_rows rel') + home_rows 0 2 WRecent (level_rows rel')"
    by (simp add: all_rows_def home_rows_def which_rows_def ac_simps)
  then show "home_rows 0 2 WStable (level_rows rel') = all_rows rel"
    using all \<open>home_rows 0 2 WRecent (level_rows rel') = new\<close> by simp
qed

section \<open>Properties\<close>

text \<open>C2: Reads agree with the scan. In a relation reached by any sequence of loads, rounds, advances
  and seals, on any view: a cursor's seeks, in any key order (forward ones gallop from where the last
  stopped, others restart), visit exactly the rows the scan visits under the key; a lookup answers the
  first visit of the full scan with these handles; a prefix exists when the full scan has such a row.\<close>

theorem reads_agree_with_the_scan:
  assumes "rel_reach rel"
  shows "seek_all keys (cursor_of rel index v) = map (\<lambda>key. filter (prefixed key) (rel_scan rel index v)) keys \<and>
    rel_contains rel row = map_option snd (find (\<lambda>x. fst x = row) (rel_scan rel 0 full_view)) \<and>
    (exists_prefix rel index key \<longleftrightarrow> (\<exists>x \<in> set (rel_scan rel index full_view). prefixed key x))"
proof -
  have ok: "relation_ok rel" by (rule rel_reach_ok [OF assms])
  show ?thesis
    using seek_all_visits [OF cursor_new(1) [OF ok]] cursor_new(2) [OF ok] contains_first_visit [OF ok] exists_prefix_visit [OF ok]
    by simp
qed

text \<open>C3: A round adds the new rows. After a round at a level, the recent batches hold exactly the rows
  given that no batch held, each once and all at that level; the stable runs hold all that was there
  before; the count returned is the number of new rows.\<close>

theorem round_adds_the_new_rows:
  assumes "rel_reach rel" and "insert_round level to_add metas rel = (ins, rel')"
  shows "mset (map fst (rel_scan rel' 0 (view_rows 0 2 WRecent))) = mset_set (new_rows rel to_add (length metas)) \<and>
    mset (map fst (rel_scan rel' 0 (view_rows (part_of level) (part_of level) WRecent))) = mset_set (new_rows rel to_add (length metas)) \<and>
    mset (map fst (rel_scan rel' 0 (view_rows 0 2 WStable))) = mset (map fst (rel_scan rel 0 full_view)) \<and>
    in_added ins = card (new_rows rel to_add (length metas)) \<and> rel_length rel' = rel_length rel + in_added ins"
proof -
  have ok: "relation_ok rel" "agree rel" using rel_reach_ok [OF assms(1)] rel_reach_inv [OF assms(1)] by (simp_all add: rel_inv_def)
  have ok': "relation_ok rel'" using relation_ok_round [OF ok(1), of level to_add metas] assms(2) by simp
  show ?thesis
    using round_rows [OF ok assms(2)] round_effect(3,4) [OF ok, of level to_add metas] assms(2)
    by (simp only: scan_identity_rows [OF ok'] full_scan_rows [OF ok(1)] new_rows_fresh [OF ok(1)] rel_length_def fst_conv snd_conv)
qed

text \<open>C4: Rows are stored once and the indexes agree. A reachable relation holds no row twice, over all
  its levels, runs and recent batches, and its length counts them; every further index holds, for
  every home view, the rows of the first one permuted to its column order.\<close>

theorem rows_once_and_indexes_agree:
  assumes "rel_reach rel"
  shows "distinct (map fst (rel_scan rel 0 full_view)) \<and> rel_length rel = length (rel_scan rel 0 full_view) \<and>
    (\<forall>index. 0 < index \<and> index < length (rl_indexes rel) \<longrightarrow>
      mset (map fst (rel_scan rel index (view_rows lo hi w))) =
      image_mset (permute_row (ix_perm (rl_indexes rel ! index))) (mset (map fst (rel_scan rel 0 (view_rows lo hi w)))))"
proof -
  have ok: "relation_ok rel" and inv: "agree rel" "\<forall>x. count (all_rows rel) x \<le> 1" "rl_len rel = size (all_rows rel)"
    using rel_reach_ok [OF assms] rel_reach_inv [OF assms] by (simp_all add: rel_inv_def)
  note rows = full_scan_rows [OF ok]
  have "distinct (map fst (rel_scan rel 0 full_view))"
    unfolding distinct_count_atmost_1 using inv(2) unfolding rows [symmetric]
    by (metis count_mset_0_iff le_antisym less_one not_less set_mset_mset)
  moreover have "rel_length rel = length (rel_scan rel 0 full_view)"
    using inv(3) unfolding rows [symmetric] by (simp add: rel_length_def)
  ultimately show ?thesis using scan_permuted [OF ok inv(1)] by blast
qed

text \<open>C36: Runs stay geometric. In every part of every index of a reachable relation, home or lowered, no
  stable run is empty and each is more than twice the next, so \<open>n\<close> rows are kept in at most
  \<open>log2 (n + 1)\<close> runs: what bounds the batches a seek has to search.\<close>

theorem runs_stay_geometric:
  assumes "rel_reach rel" and "ix \<in> set (rl_indexes rel)" and "p \<in> set (index_parts ix)"
  shows "(\<forall>b \<in> set (pt_stable p). 0 < b_len b) \<and>
    (\<forall>i. Suc i < length (pt_stable p) \<longrightarrow> 2 * b_len (pt_stable p ! Suc i) < b_len (pt_stable p ! i)) \<and>
    2 ^ length (pt_stable p) \<le> Suc (run_rows (pt_stable p))"
proof -
  have "geometric (pt_stable p)"
    using rel_reach_ok [OF assms(1)] assms(2,3) by (auto simp: relation_ok_def index_ok_def part_ok_def)
  then show ?thesis using geometric_bound by (auto simp: geometric_def)
qed

subsection \<open>A small relation\<close>

definition sample_meta :: row_meta where
  "sample_meta = \<lparr>rm_height = 1, rm_rule = 0\<rparr>"

definition sample_first :: relation where
  "sample_first = snd (insert_round Fact [3, 1, 3, 1, 2, 5] [sample_meta, sample_meta, sample_meta] (relation_new 2 [[1, 0]]))"

definition sample_second :: "inserted \<times> relation" where
  "sample_second = insert_round Derived [2, 5, 1, 7] [sample_meta, sample_meta] sample_first"

lemma sample_reach: "rel_reach sample_first" "rel_reach (snd sample_second)"
  unfolding sample_second_def sample_first_def by (intro rel_reach.intros)+

lemma sample_scan:
  "map fst (rel_scan (snd sample_second) 0 full_view) = [[2, 5], [3, 1], [1, 7]]"
  "map fst (rel_scan (snd sample_second) 1 full_view) = [[1, 3], [5, 2], [7, 1]]"
  "map (map fst) (map (\<lambda>key. filter (prefixed key) (rel_scan (snd sample_second) 1 full_view)) [[2], [7], [1]]) = [[], [[7, 1]], [[1, 3]]]"
  by code_simp+

lemma reads_agree_with_the_scan_witness:
  "map (map fst) (seek_all [[2], [7], [1]] (cursor_of (snd sample_second) 1 full_view)) = [[], [[7, 1]], [[1, 3]]]"
  using reads_agree_with_the_scan [OF sample_reach(2), where keys = "[[2], [7], [1]]" and index = 1 and v = full_view] sample_scan(3) by simp

lemma round_adds_the_new_rows_witness:
  "mset (map fst (rel_scan (snd sample_second) 0 (view_rows 0 2 WRecent))) = mset_set (new_rows sample_first [2, 5, 1, 7] 2) \<and>
   in_added (fst sample_second) = 1"
proof -
  have "insert_round Derived [2, 5, 1, 7] [sample_meta, sample_meta] sample_first = (fst sample_second, snd sample_second)"
    by (simp add: sample_second_def)
  from round_adds_the_new_rows [OF sample_reach(1) this]
  have "mset (map fst (rel_scan (snd sample_second) 0 (view_rows 0 2 WRecent))) = mset_set (new_rows sample_first [2, 5, 1, 7] 2)"
    by (simp add: numeral_2_eq_2)
  moreover have "in_added (fst sample_second) = 1" by code_simp
  ultimately show ?thesis ..
qed

lemma rows_once_and_indexes_agree_witness:
  "distinct (map fst (rel_scan (snd sample_second) 0 full_view)) \<and> rel_length (snd sample_second) = 3"
  using rows_once_and_indexes_agree [OF sample_reach(2)] arg_cong [OF sample_scan(1), of length] by simp

lemma runs_stay_geometric_witness:
  "2 ^ length (pt_stable (ix_parts (rl_indexes (snd sample_second) ! 1) ! 0)) \<le>
   Suc (run_rows (pt_stable (ix_parts (rl_indexes (snd sample_second) ! 1) ! 0)))"
proof -
  have "1 < length (rl_indexes (snd sample_second))" "0 < length (ix_parts (rl_indexes (snd sample_second) ! 1))"
    by code_simp+
  then have "rl_indexes (snd sample_second) ! 1 \<in> set (rl_indexes (snd sample_second))"
    "ix_parts (rl_indexes (snd sample_second) ! 1) ! 0 \<in> set (index_parts (rl_indexes (snd sample_second) ! 1))"
    by (simp_all add: index_parts_def)
  from runs_stay_geometric [OF sample_reach(2) this] show ?thesis by blast
qed

end
