(* ===== verification/Cycles.thy ===== *)
theory Cycles
  imports Reach
begin

text \<open>
  Cycles, \<open>activation/src/algo/cycles.rs\<close>: Tarjan's strongly connected components with an explicit
  frame stack, and the shortest witness cycle. The code's stacks push at the end of a vector; here
  the last pushed comes first. The loop may not end in the model, \<open>strongly_connected\<close> is an option;
  on an index it returns, with the components of the kept edges that hold a cycle.
\<close>

definition UNSEEN :: nat where
  "UNSEEN = 0xFFFFFFFF"

record tarjan =
  tj_order :: "nat list"
  tj_low :: "nat list"
  tj_on :: "bool list"
  tj_stack :: "nat list"
  tj_frames :: "(nat \<times> nat) list"
  tj_next :: nat
  tj_found :: "node_id list list"

definition tj_start :: "nat \<Rightarrow> tarjan" where
  "tj_start n =
     \<lparr>tj_order = replicate n UNSEEN, tj_low = replicate n 0, tj_on = replicate n False, tj_stack = [],
      tj_frames = [], tj_next = 0, tj_found = []\<rparr>"

definition tj_open :: "nat \<Rightarrow> tarjan \<Rightarrow> tarjan" where
  "tj_open v s =
     s\<lparr>tj_order := (tj_order s)[v := tj_next s], tj_low := (tj_low s)[v := tj_next s], tj_next := tj_next s + 1,
       tj_stack := v # tj_stack s, tj_on := (tj_on s)[v := True], tj_frames := (v, 0) # tj_frames s\<rparr>"

fun pop_until :: "nat \<Rightarrow> nat list \<Rightarrow> nat list \<times> nat list" where
  "pop_until v [] = ([], [])"
| "pop_until v (w # ws) =
     (if w = v then ([w], ws) else let (popped, left) = pop_until v ws in (w # popped, left))"

definition tj_close :: "adjacency \<Rightarrow> nat \<Rightarrow> tarjan \<Rightarrow> tarjan" where
  "tj_close adj v s =
     (let (popped, left) = pop_until v (tj_stack s);
          s = s\<lparr>tj_stack := left, tj_on := fold (\<lambda>w on. on[w := False]) popped (tj_on s)\<rparr>;
          members = map (adj_id adj) popped
      in if length members \<ge> 2 \<or> (\<exists>x \<in> set (outgoing adj v). i_other x = v)
         then s\<lparr>tj_found := tj_found s @ [sort members]\<rparr> else s)"

text \<open>One pass of the loop's body past the opening: the vertex to open next, and the state.\<close>

definition tj_examine :: "adjacency \<Rightarrow> tarjan \<Rightarrow> nat option \<times> tarjan" where
  "tj_examine adj s =
     (case tj_frames s of
        [] \<Rightarrow> (None, s)
      | (v, pos) # rest \<Rightarrow>
          let outs = outgoing adj v in
          if pos < length outs then
            let w = i_other (outs ! pos); s = s\<lparr>tj_frames := (v, pos + 1) # rest\<rparr> in
            if tj_order s ! w = UNSEEN then (Some w, s)
            else if tj_on s ! w then (None, s\<lparr>tj_low := (tj_low s)[v := min (tj_low s ! v) (tj_order s ! w)]\<rparr>)
            else (None, s)
          else
            let s = s\<lparr>tj_frames := rest,
                  tj_low := (case rest of [] \<Rightarrow> tj_low s
                    | (parent, _) # _ \<Rightarrow> (tj_low s)[parent := min (tj_low s ! parent) (tj_low s ! v)])\<rparr>
            in if tj_low s ! v \<noteq> tj_order s ! v then (None, s) else (None, tj_close adj v s))"

definition tj_enter :: "nat option \<Rightarrow> tarjan \<Rightarrow> tarjan" where
  "tj_enter enter s = (case enter of None \<Rightarrow> s | Some v \<Rightarrow> tj_open v s)"

partial_function (option) tj_loop :: "adjacency \<Rightarrow> nat option \<Rightarrow> tarjan \<Rightarrow> tarjan option" where
  "tj_loop adj enter s =
     (if tj_frames (tj_enter enter s) = [] then Some (tj_enter enter s)
      else tj_loop adj (fst (tj_examine adj (tj_enter enter s))) (snd (tj_examine adj (tj_enter enter s))))"

declare tj_loop.simps [code, simp del]

definition tj_root :: "adjacency \<Rightarrow> nat \<Rightarrow> tarjan \<Rightarrow> tarjan option" where
  "tj_root adj root s = (if tj_order s ! root \<noteq> UNSEEN then Some s else tj_loop adj (Some root) s)"

definition strongly_connected :: "adjacency \<Rightarrow> node_id list list option" where
  "strongly_connected adj =
     map_option (\<lambda>s. sort_key hd (tj_found s)) (fold_opt (tj_root adj) [0..<adj_len adj] (tj_start (adj_len adj)))"

section \<open>The witness cycle\<close>

text \<open>
  The edges of one dequeued vertex, with what has been seen, the parents and the queue: the category of
  the edge back into the start ends the walk.
\<close>

type_synonym hop = "node_id \<times> category \<times> node_id"
type_synonym walked = "bool list \<times> (nat \<times> category) option list \<times> nat list"

fun wc_scan :: "bool list \<Rightarrow> nat \<Rightarrow> nat \<Rightarrow> inc list \<Rightarrow> walked \<Rightarrow> category option \<times> walked" where
  "wc_scan member s v [] st = (None, st)"
| "wc_scan member s v (x # xs) (seen, parent, queue) =
     (let w = i_other x in
      if \<not> member ! w then wc_scan member s v xs (seen, parent, queue)
      else if w = s then (Some (i_category x), (seen, parent, queue))
      else if \<not> seen ! w then
        wc_scan member s v xs (seen[w := True], parent[w := Some (v, i_category x)], queue @ [w])
      else wc_scan member s v xs (seen, parent, queue))"

partial_function (option) wc_back :: "adjacency \<Rightarrow> (nat \<times> category) option list \<Rightarrow> nat \<Rightarrow> hop list \<Rightarrow> hop list option" where
  "wc_back adj parent at path =
     (case parent ! at of
        None \<Rightarrow> Some path
      | Some (via, category) \<Rightarrow> wc_back adj parent via (path @ [(adj_id adj via, category, adj_id adj at)]))"

declare wc_back.simps [code, simp del]

partial_function (option) wc_loop :: "adjacency \<Rightarrow> bool list \<Rightarrow> nat \<Rightarrow> node_id \<Rightarrow> walked \<Rightarrow> hop list option" where
  "wc_loop adj member s start st =
     (case snd (snd st) of
        [] \<Rightarrow> Some []
      | v # queue \<Rightarrow>
          (case wc_scan member s v (outgoing adj v) (fst st, fst (snd st), queue) of
             (Some category, st) \<Rightarrow> map_option rev (wc_back adj (fst (snd st)) v [(adj_id adj v, category, start)])
           | (None, st) \<Rightarrow> wc_loop adj member s start st))"

declare wc_loop.simps [code, simp del]

definition wc_members :: "adjacency \<Rightarrow> node_id list \<Rightarrow> bool list" where
  "wc_members adj component =
     fold (\<lambda>i member. case index_of adj i of None \<Rightarrow> member | Some ix \<Rightarrow> member[ix := True])
       component (replicate (adj_len adj) False)"

definition witness_cycle :: "adjacency \<Rightarrow> node_id list \<Rightarrow> node_id \<Rightarrow> hop list option" where
  "witness_cycle adj component start =
     (let member = wc_members adj component in
      case index_of adj start of
        None \<Rightarrow> Some []
      | Some s \<Rightarrow>
          if \<not> member ! s then Some []
          else wc_loop adj member s start
            ((replicate (adj_len adj) False)[s := True], replicate (adj_len adj) None, [s]))"

end
