(* ===== verification/WitnessCycle.thy ===== *)
theory WitnessCycle
  imports Cycles Walks
begin

text \<open>
  The witness cycle of \<open>activation/src/algo/cycles.rs\<close> is a shortest one: the breadth-first walk keeps
  each vertex's depth, and every edge of a dequeued vertex goes at most one deeper.
\<close>

section \<open>The walk's state\<close>

definition inside_rel :: "('a \<times> 'c \<times> 'a) set \<Rightarrow> ('a \<times> 'a) set" where
  "inside_rel E = {(u, w). \<exists>c. (u, c, w) \<in> E}"

text \<open>
  The vertices found are those dequeued \<open>P\<close>, the one being looked at \<open>v\<close> and the queue; \<open>d\<close> is the depth
  of a vertex, \<open>X\<close> the targets of \<open>v\<close>'s edges looked at.
\<close>

definition wc_mid :: "(nat \<times> category \<times> nat) set \<Rightarrow> nat \<Rightarrow> (nat \<Rightarrow> nat) \<Rightarrow> nat set \<Rightarrow> nat \<Rightarrow> nat set \<Rightarrow> walked \<Rightarrow> bool" where
  "wc_mid E s d P v X st \<longleftrightarrow>
     (case st of (seen, parent, Q) \<Rightarrow>
       length parent = length seen \<and> vset seen = P \<union> {v} \<union> set Q \<and> s \<in> P \<union> {v} \<union> set Q \<and> v \<notin> P \<and> v \<notin> set Q \<and>
       distinct Q \<and> set Q \<inter> P = {} \<and> d s = 0 \<and> parent ! s = None \<and> sorted (map d Q) \<and>
       (\<forall>q \<in> set Q. d v \<le> d q \<and> d q \<le> Suc (d v)) \<and> (\<forall>p \<in> P. d p \<le> d v) \<and>
       (\<forall>w \<in> P \<union> {v} \<union> set Q - {s}. \<exists>u c. parent ! w = Some (u, c) \<and> u \<in> P \<union> {v} \<and> (u, c, w) \<in> E \<and> d w = Suc (d u)) \<and>
       (\<forall>u \<in> P. \<forall>w. (u, w) \<in> inside_rel E \<longrightarrow> w \<noteq> s \<and> w \<in> P \<union> {v} \<union> set Q \<and> d w \<le> Suc (d u)) \<and>
       (\<forall>w \<in> X. w \<noteq> s \<and> w \<in> P \<union> {v} \<union> set Q \<and> d w \<le> Suc (d v)))"

text \<open>Finding a vertex.\<close>

lemma wc_find:
  assumes mid: "wc_mid E s d P v X (seen, parent, Q)" and w: "w \<notin> vset seen" "w < length seen" "(v, c, w) \<in> E"
  shows "wc_mid E s (d(w := Suc (d v))) P v (insert w X) (seen[w := True], parent[w := Some (v, c)], Q @ [w])"
proof -
  have m: "length parent = length seen" "vset seen = P \<union> {v} \<union> set Q" "s \<in> P \<union> {v} \<union> set Q" "v \<notin> P" "v \<notin> set Q"
    "distinct Q" "set Q \<inter> P = {}" "d s = 0" "parent ! s = None" "sorted (map d Q)"
    "\<forall>q \<in> set Q. d v \<le> d q \<and> d q \<le> Suc (d v)"
    "\<forall>w \<in> P \<union> {v} \<union> set Q - {s}. \<exists>u c. parent ! w = Some (u, c) \<and> u \<in> P \<union> {v} \<and> (u, c, w) \<in> E \<and> d w = Suc (d u)"
    "\<forall>u \<in> P. \<forall>w. (u, w) \<in> inside_rel E \<longrightarrow> w \<noteq> s \<and> w \<in> P \<union> {v} \<union> set Q \<and> d w \<le> Suc (d u)"
    "\<forall>w \<in> X. w \<noteq> s \<and> w \<in> P \<union> {v} \<union> set Q \<and> d w \<le> Suc (d v)" "\<forall>p \<in> P. d p \<le> d v"
    using mid by (simp_all add: wc_mid_def)
  let ?d = "d(w := Suc (d v))"
  have new: "w \<notin> P" "w \<noteq> v" "w \<notin> set Q" "w \<noteq> s" using w(1) m(2,3) by auto
  have same: "?d x = d x" if "x \<in> P \<union> {v} \<union> set Q" for x using that new by auto
  have "map ?d Q = map d Q" using new by auto
  then have srt: "sorted (map ?d (Q @ [w]))" using m(10,11) new(2) by (simp only: map_append sorted_append) auto
  have bnd: "\<forall>q \<in> set (Q @ [w]). ?d v \<le> ?d q \<and> ?d q \<le> Suc (?d v)" using m(11) new by auto
  have old: "\<forall>p \<in> P. ?d p \<le> ?d v" using m(15) new by auto
  have tree: "\<exists>u c'. parent[w := Some (v, c)] ! x = Some (u, c') \<and> u \<in> P \<union> {v} \<and> (u, c', x) \<in> E \<and> ?d x = Suc (?d u)"
    if x: "x \<in> P \<union> {v} \<union> set (Q @ [w]) - {s}" for x
  proof (cases "x = w")
    case True
    then show ?thesis using w(2,3) m(1) new by auto
  next
    case False
    then have "x \<in> P \<union> {v} \<union> set Q - {s}" using x by auto
    then obtain u c' where "parent ! x = Some (u, c')" "u \<in> P \<union> {v}" "(u, c', x) \<in> E" "d x = Suc (d u)" using m(12) by blast
    then show ?thesis using False new by auto
  qed
  have edges: "x \<noteq> s \<and> x \<in> P \<union> {v} \<union> set (Q @ [w]) \<and> ?d x \<le> Suc (?d u)" if "u \<in> P" "(u, x) \<in> inside_rel E" for u x
  proof -
    have x: "x \<noteq> s" "x \<in> P \<union> {v} \<union> set Q" "d x \<le> Suc (d u)" using m(13) that by blast+
    then show ?thesis using same [of x] same [of u] that(1) by simp
  qed
  have looked: "x \<noteq> s \<and> x \<in> P \<union> {v} \<union> set (Q @ [w]) \<and> ?d x \<le> Suc (?d v)" if "x \<in> insert w X" for x
  proof (cases "x = w")
    case False
    then have x: "x \<noteq> s" "x \<in> P \<union> {v} \<union> set Q" "d x \<le> Suc (d v)" using m(14) that by blast+
    then show ?thesis using same [of x] new by simp
  qed (use new in simp)
  have found: "vset (seen[w := True]) = P \<union> {v} \<union> set (Q @ [w])" using m(2) w(2) by (auto simp: vset_def nth_list_update)
  have rest: "length (parent[w := Some (v, c)]) = length (seen[w := True])" "s \<in> P \<union> {v} \<union> set (Q @ [w])" "v \<notin> set (Q @ [w])"
    "distinct (Q @ [w])" "set (Q @ [w]) \<inter> P = {}" "?d s = 0" "parent[w := Some (v, c)] ! s = None"
    using m(1,3-9) new by auto
  show ?thesis
    unfolding wc_mid_def prod.case
    by (intro conjI rest found m(4) srt bnd old ballI tree) (use edges looked in blast)+
qed

lemma wc_scan_ok:
  assumes "wc_mid E s d P v X st" and "\<forall>x \<in> set xs. member ! i_other x \<longrightarrow> (v, i_category x, i_other x) \<in> E \<and> i_other x < length (fst st)"
  shows "\<exists>d' Y. wc_mid E s d' P v Y (snd (wc_scan member s v xs st)) \<and> length (fst (snd (wc_scan member s v xs st))) = length (fst st) \<and>
    d' v = d v \<and>
    (case fst (wc_scan member s v xs st) of
       Some c \<Rightarrow> (v, c, s) \<in> E
     | None \<Rightarrow> Y = X \<union> {i_other x | x. x \<in> set xs \<and> member ! i_other x})"
  using assms
proof (induction xs arbitrary: st d X)
  case (Cons x xs)
  obtain seen parent Q where st: "st = (seen, parent, Q)" by (cases st)
  have x: "(v, i_category x, i_other x) \<in> E \<and> i_other x < length seen" if "member ! i_other x" using Cons.prems(2) that st by simp
  let ?T = "\<lambda>xs. {i_other y | y. y \<in> set xs \<and> member ! i_other y}"
  have skip: "?T (x # xs) = ?T xs" if "\<not> member ! i_other x" using that by auto
  have take: "X \<union> ?T (x # xs) = insert (i_other x) X \<union> ?T xs" if "member ! i_other x" using that by auto
  note rest = Cons.prems(2)
  show ?case
  proof (cases "member ! i_other x")
    case False
    then show ?thesis using Cons.IH [OF Cons.prems(1)] rest st unfolding skip [OF False] by simp
  next
    case member: True
    show ?thesis
    proof (cases "i_other x = s")
      case True
      then have "wc_scan member s v (x # xs) st = (Some (i_category x), st)" using member st by simp
      then show ?thesis using Cons.prems(1) x [OF member] True by auto
    next
      case other: False
      show ?thesis
      proof (cases "seen ! i_other x")
        case True
        have "i_other x \<in> vset seen" using x [OF member] True by (simp add: vset_def)
        then have "wc_mid E s d P v (insert (i_other x) X) st"
          using Cons.prems(1) other by (fastforce simp: wc_mid_def st)
        from Cons.IH [OF this] show ?thesis using member other True rest st unfolding take [OF member] by simp
      next
        case False
        have "i_other x \<notin> vset seen" using x [OF member] False by (simp add: vset_def)
        from wc_find [OF Cons.prems(1) [unfolded st] this] x [OF member]
        have mid: "wc_mid E s (d(i_other x := Suc (d v))) P v (insert (i_other x) X)
            (seen[i_other x := True], parent[i_other x := Some (v, i_category x)], Q @ [i_other x])" by blast
        have "i_other x \<noteq> v" using Cons.prems(1) \<open>i_other x \<notin> vset seen\<close> by (auto simp: wc_mid_def st)
        then show ?thesis using Cons.IH [OF mid] member other False rest st unfolding take [OF member] by simp
      qed
    qed
  qed
qed auto

text \<open>Walking the parents back from a vertex: the hops of a path from the start, as long as its depth.\<close>

fun hops_from :: "('a \<times> 'c \<times> 'a) set \<Rightarrow> 'a \<Rightarrow> ('a \<times> 'c \<times> 'a) list \<Rightarrow> 'a \<Rightarrow> bool" where
  "hops_from E a [] b \<longleftrightarrow> a = b"
| "hops_from E a (h # hs) b \<longleftrightarrow> fst h = a \<and> h \<in> E \<and> hops_from E (snd (snd h)) hs b"

lemma hops_from_append: "hops_from E a (xs @ ys) b \<longleftrightarrow> (\<exists>c. hops_from E a xs c \<and> hops_from E c ys b)"
  by (induction xs arbitrary: a) auto

definition hop_ids :: "adjacency \<Rightarrow> nat \<times> category \<times> nat \<Rightarrow> hop" where
  "hop_ids adj h = (case h of (u, c, w) \<Rightarrow> (adj_id adj u, c, adj_id adj w))"

lemma wc_back_path:
  assumes "\<forall>w \<in> L - {s}. \<exists>u c. parent ! w = Some (u, c) \<and> u \<in> L \<and> (u, c, w) \<in> E \<and> d w = Suc (d u)"
    and "parent ! s = None" and "d s = 0" and "v \<in> L"
  shows "\<exists>hs. wc_back adj parent v acc = Some (acc @ rev (map (hop_ids adj) hs)) \<and> hops_from E s hs v \<and> length hs = d v"
  using assms(4)
proof (induction "d v" arbitrary: v acc rule: less_induct)
  case less
  show ?case
  proof (cases "v = s")
    case True
    then show ?thesis using assms(2,3) by (intro exI [of _ "[]"]) (simp add: wc_back.simps)
  next
    case False
    then obtain u c where u: "parent ! v = Some (u, c)" "u \<in> L" "(u, c, v) \<in> E" "d v = Suc (d u)" using assms(1) less.prems by blast
    obtain hs where hs: "wc_back adj parent u (acc @ [(adj_id adj u, c, adj_id adj v)]) =
        Some ((acc @ [(adj_id adj u, c, adj_id adj v)]) @ rev (map (hop_ids adj) hs))" "hops_from E s hs u" "length hs = d u"
      using less.hyps [of u "acc @ [(adj_id adj u, c, adj_id adj v)]"] u by auto
    show ?thesis
      by (intro exI [of _ "hs @ [(u, c, v)]"])
        (use hs u in \<open>simp add: wc_back.simps [of adj parent v] hops_from_append hop_ids_def\<close>)
  qed
qed

section \<open>Shortest\<close>

text \<open>What a vertex at the end of a path of \<open>k\<close> edges from the start tells of the one looked at.\<close>

lemma wc_depth:
  assumes mid: "wc_mid E s d P v X st" and "(s, w) \<in> inside_rel E ^^ k"
  shows "d v \<le> k \<or> w \<in> P \<and> d w \<le> k"
  using assms(2)
proof (induction k arbitrary: w)
  case 0
  then show ?case using mid by (auto simp: wc_mid_def split: prod.splits)
next
  case (Suc k)
  then obtain u where u: "(s, u) \<in> inside_rel E ^^ k" "(u, w) \<in> inside_rel E" by auto
  from Suc.IH [OF u(1)] show ?case
  proof
    assume up: "u \<in> P \<and> d u \<le> k"
    obtain seen parent Q where st: "st = (seen, parent, Q)" by (cases st)
    have w: "w \<in> P \<union> {v} \<union> set Q" "d w \<le> Suc (d u)" using mid up u(2) by (auto simp: wc_mid_def st)
    then consider "w \<in> P" | "d v \<le> d w" using mid by (auto simp: wc_mid_def st)
    then show ?thesis using w(2) up by cases auto
  qed simp
qed

lemma wc_shortest:
  assumes mid: "wc_mid E s d P v X st" and "(s, s) \<in> inside_rel E ^^ Suc k"
  shows "d v \<le> k"
proof -
  obtain u where u: "(s, u) \<in> inside_rel E ^^ k" "(u, s) \<in> inside_rel E" using assms(2) by auto
  obtain seen parent Q where st: "st = (seen, parent, Q)" by (cases st)
  have "u \<notin> P" using mid u(2) by (auto simp: wc_mid_def st)
  then show ?thesis using wc_depth [OF mid u(1)] by blast
qed

text \<open>Between vertices.\<close>

definition wc_inv :: "(nat \<times> category \<times> nat) set \<Rightarrow> nat \<Rightarrow> (nat \<Rightarrow> nat) \<Rightarrow> nat set \<Rightarrow> walked \<Rightarrow> bool" where
  "wc_inv E s d P st \<longleftrightarrow>
     (case st of (seen, parent, Q) \<Rightarrow>
       (case Q of
          [] \<Rightarrow> s \<in> P \<and> (\<forall>u \<in> P. \<forall>w. (u, w) \<in> inside_rel E \<longrightarrow> w \<noteq> s \<and> w \<in> P)
        | v # Q \<Rightarrow> wc_mid E s d P v {} (seen, parent, Q)))"

lemma wc_looked:
  assumes mid: "wc_mid E s d P v X (seen, parent, Q)" and all: "\<forall>w. (v, w) \<in> inside_rel E \<longrightarrow> w \<in> X"
  shows "wc_inv E s d (insert v P) (seen, parent, Q)"
proof (cases Q)
  case Nil
  have "s \<in> insert v P" using mid Nil by (simp add: wc_mid_def)
  moreover have "w \<noteq> s \<and> w \<in> insert v P" if "u \<in> insert v P" "(u, w) \<in> inside_rel E" for u w
  proof (cases "u = v")
    case True
    then have "w \<in> X" using all that(2) by blast
    then show ?thesis using mid Nil by (simp add: wc_mid_def)
  next
    case False
    then have "u \<in> P" using that(1) by blast
    then have "w \<noteq> s \<and> w \<in> P \<union> {v} \<union> set Q" using mid that(2) unfolding wc_mid_def prod.case by blast
    then show ?thesis using Nil by simp
  qed
  ultimately show ?thesis unfolding wc_inv_def prod.case Nil list.case by blast
next
  case (Cons v' Q')
  have m: "length parent = length seen" "vset seen = P \<union> {v} \<union> set Q" "s \<in> P \<union> {v} \<union> set Q" "v \<notin> P" "v \<notin> set Q"
    "distinct Q" "set Q \<inter> P = {}" "d s = 0" "parent ! s = None" "sorted (map d Q)"
    "\<forall>q \<in> set Q. d v \<le> d q \<and> d q \<le> Suc (d v)" "\<forall>p \<in> P. d p \<le> d v"
    and tree: "\<forall>w \<in> P \<union> {v} \<union> set Q - {s}. \<exists>u c. parent ! w = Some (u, c) \<and> u \<in> P \<union> {v} \<and> (u, c, w) \<in> E \<and> d w = Suc (d u)"
    and edges: "\<forall>u \<in> P. \<forall>w. (u, w) \<in> inside_rel E \<longrightarrow> w \<noteq> s \<and> w \<in> P \<union> {v} \<union> set Q \<and> d w \<le> Suc (d u)"
    and looked: "\<forall>w \<in> X. w \<noteq> s \<and> w \<in> P \<union> {v} \<union> set Q \<and> d w \<le> Suc (d v)"
    using mid by (simp_all add: wc_mid_def)
  have L: "insert v P \<union> {v'} \<union> set Q' = P \<union> {v} \<union> set Q" using Cons by auto
  have "d v \<le> d v'" using m(11) Cons by simp
  have tree': "\<exists>u c. parent ! w = Some (u, c) \<and> u \<in> insert v P \<union> {v'} \<and> (u, c, w) \<in> E \<and> d w = Suc (d u)"
    if w: "w \<in> P \<union> {v} \<union> set Q - {s}" for w
    using bspec [OF tree w] by blast
  have edges': "w \<noteq> s \<and> w \<in> P \<union> {v} \<union> set Q \<and> d w \<le> Suc (d u)" if "u \<in> insert v P" "(u, w) \<in> inside_rel E" for u w
  proof (cases "u = v")
    case True
    then have "w \<in> X" using all that(2) by blast
    then show ?thesis using looked True by blast
  qed (use edges that in blast)
  have bnd: "\<forall>q \<in> set Q'. d v' \<le> d q \<and> d q \<le> Suc (d v')" "\<forall>p \<in> insert v P. d p \<le> d v'"
    using m(10-12) \<open>d v \<le> d v'\<close> by (force simp: Cons)+
  have rest: "v' \<notin> insert v P" "v' \<notin> set Q'" "distinct Q'" "set Q' \<inter> insert v P = {}" "sorted (map d Q')"
    using m(4-7,10) by (auto simp: Cons)
  show ?thesis
    unfolding wc_inv_def prod.case Cons list.case wc_mid_def L [unfolded Cons]
    by (intro conjI m(1) rest bnd m(2,3,8,9) [unfolded Cons] ballI tree' [unfolded Cons]) (use edges' in \<open>auto simp: Cons\<close>)
qed

section \<open>The loop\<close>

definition inside_edges :: "adjacency \<Rightarrow> bool list \<Rightarrow> (nat \<times> category \<times> nat) set" where
  "inside_edges adj member =
     {(u, i_category x, i_other x) | u x. u < adj_len adj \<and> member ! u \<and> x \<in> set (outgoing adj u) \<and> member ! i_other x}"

text \<open>A shortest closed path through \<open>s\<close>, or none when there is none.\<close>

definition shortest_cycle :: "('a \<times> 'c \<times> 'a) set \<Rightarrow> 'a \<Rightarrow> ('a \<times> 'c \<times> 'a) list \<Rightarrow> bool" where
  "shortest_cycle E s path \<longleftrightarrow>
     (if (s, s) \<in> (inside_rel E)\<^sup>+
      then path \<noteq> [] \<and> hops_from E s path s \<and> (\<forall>k. (s, s) \<in> inside_rel E ^^ Suc k \<longrightarrow> length path \<le> Suc k)
      else path = [])"

context indexed_graph
begin

lemma wc_loop_returns:
  assumes "E = inside_edges adj member" and "s < adj_len adj" and "member ! s"
    and "wc_inv E s d P st" and "length (fst st) = adj_len adj"
  shows "\<exists>path. wc_loop adj member s (adj_id adj s) st = Some (map (hop_ids adj) path) \<and> shortest_cycle E s path"
  using assms(4,5)
proof (induction "card ({..<adj_len adj} - P)" arbitrary: d P st rule: less_induct)
  case less
  obtain seen parent Q where st: "st = (seen, parent, Q)" by (cases st)
  show ?case
  proof (cases Q)
    case Nil
    have s: "s \<in> P" "\<forall>u \<in> P. \<forall>w. (u, w) \<in> inside_rel E \<longrightarrow> w \<noteq> s \<and> w \<in> P" using less.prems(1) by (simp_all add: wc_inv_def st Nil)
    have "(s, s) \<notin> (inside_rel E)\<^sup>+"
    proof
      assume "(s, s) \<in> (inside_rel E)\<^sup>+"
      then obtain u where u: "(s, u) \<in> (inside_rel E)\<^sup>*" "(u, s) \<in> inside_rel E" by (meson tranclD2)
      from u(1) have "u \<in> P" by (induction rule: rtrancl_induct) (use s in blast)+
      then show False using s(2) u(2) by blast
    qed
    then show ?thesis by (intro exI [of _ "[]"]) (simp add: wc_loop.simps st Nil shortest_cycle_def)
  next
    case (Cons v Q')
    have mid: "wc_mid E s d P v {} (seen, parent, Q')" using less.prems(1) by (simp add: wc_inv_def st Cons)
    have len: "length seen = adj_len adj" using less.prems(2) st by simp
    have v: "v \<in> vset seen" "v \<notin> P" using mid by (simp_all add: wc_mid_def)
    then have vn: "v < adj_len adj" using len by (simp add: vset_def)
    have "member ! v"
    proof (cases "v = s")
      case False
      have "\<forall>w \<in> P \<union> {v} \<union> set Q' - {s}. \<exists>u c. parent ! w = Some (u, c) \<and> u \<in> P \<union> {v} \<and> (u, c, w) \<in> E \<and> d w = Suc (d u)"
        using mid by (simp add: wc_mid_def)
      then obtain u c where "(u, c, v) \<in> E" using False by blast
      then show ?thesis by (auto simp: assms(1) inside_edges_def)
    qed (use assms(3) in simp)
    then have edge: "(v, i_category x, i_other x) \<in> E \<and> i_other x < length (fst (seen, parent, Q'))"
      if "x \<in> set (outgoing adj v)" "member ! i_other x" for x
      using that vn out_range [OF vn] by (auto simp: assms(1) inside_edges_def len)
    obtain d' Y where scan: "wc_mid E s d' P v Y (snd (wc_scan member s v (outgoing adj v) (seen, parent, Q')))"
      "length (fst (snd (wc_scan member s v (outgoing adj v) (seen, parent, Q')))) = adj_len adj"
      "case fst (wc_scan member s v (outgoing adj v) (seen, parent, Q')) of Some c \<Rightarrow> (v, c, s) \<in> E
       | None \<Rightarrow> Y = {} \<union> {i_other x | x. x \<in> set (outgoing adj v) \<and> member ! i_other x}"
      using wc_scan_ok [OF mid, of "outgoing adj v" member] edge len by auto
    obtain found seen' parent' Q'' where res: "wc_scan member s v (outgoing adj v) (seen, parent, Q') = (found, seen', parent', Q'')"
      by (cases "wc_scan member s v (outgoing adj v) (seen, parent, Q')")
    show ?thesis
    proof (cases found)
      case None
      have "wc_inv E s d' (insert v P) (seen', parent', Q'')"
      proof (rule wc_looked)
        show "wc_mid E s d' P v Y (seen', parent', Q'')" using scan(1) res by simp
        show "\<forall>w. (v, w) \<in> inside_rel E \<longrightarrow> w \<in> Y" using scan(3) res None by (auto simp: inside_rel_def assms(1) inside_edges_def)
      qed
      moreover have "card ({..<adj_len adj} - insert v P) < card ({..<adj_len adj} - P)" using vn v(2) by (intro psubset_card_mono) auto
      ultimately show ?thesis
        using less.hyps [of "insert v P" d' "(seen', parent', Q'')"] scan(2) res None by (simp add: st Cons wc_loop.simps [of adj member s _ "(seen, parent, v # Q')"])
    next
      case (Some c)
      have mid': "wc_mid E s d' P v Y (seen', parent', Q'')" and edge: "(v, c, s) \<in> E" using scan(1,3) res Some by simp_all
      obtain hs where hs: "wc_back adj parent' v [(adj_id adj v, c, adj_id adj s)] =
          Some ([(adj_id adj v, c, adj_id adj s)] @ rev (map (hop_ids adj) hs))" "hops_from E s hs v" "length hs = d' v"
      proof -
        have tree: "\<exists>u c. parent' ! w = Some (u, c) \<and> u \<in> P \<union> {v} \<union> set Q'' \<and> (u, c, w) \<in> E \<and> d' w = Suc (d' u)"
          if w: "w \<in> P \<union> {v} \<union> set Q'' - {s}" for w
        proof -
          have "\<forall>w \<in> P \<union> {v} \<union> set Q'' - {s}. \<exists>u c. parent' ! w = Some (u, c) \<and> u \<in> P \<union> {v} \<and> (u, c, w) \<in> E \<and> d' w = Suc (d' u)"
            using mid' by (simp add: wc_mid_def)
          from bspec [OF this w] show ?thesis by blast
        qed
        have "parent' ! s = None" "d' s = 0" using mid' by (simp_all add: wc_mid_def)
        then show ?thesis using that wc_back_path [of "P \<union> {v} \<union> set Q''" s parent' E d' v] tree by blast
      qed
      have "shortest_cycle E s (hs @ [(v, c, s)])"
      proof -
        have path: "hops_from E s (hs @ [(v, c, s)]) s" using hs(2) edge by (auto simp: hops_from_append)
        have "(s, v) \<in> (inside_rel E)\<^sup>*" if "hops_from E a hs v" "a = s" for a
        proof -
          have "hops_from E a hs b \<Longrightarrow> (a, b) \<in> (inside_rel E)\<^sup>*" for a b and hs :: "(nat \<times> category \<times> nat) list"
          proof (induction hs arbitrary: a)
            case (Cons h hs)
            then have "(a, snd (snd h)) \<in> inside_rel E" by (cases h) (auto simp: inside_rel_def)
            then show ?case using Cons by (auto intro: converse_rtrancl_into_rtrancl)
          qed simp
          then show ?thesis using that by blast
        qed
        then have "(s, v) \<in> (inside_rel E)\<^sup>*" using hs(2) by blast
        moreover have "(v, s) \<in> inside_rel E" using edge by (auto simp: inside_rel_def)
        ultimately have "(s, s) \<in> (inside_rel E)\<^sup>+" by (rule rtrancl_into_trancl1)
        then show ?thesis using path hs(3) wc_shortest [OF mid'] by (simp add: shortest_cycle_def del: relpow.simps)
      qed
      then show ?thesis
        by (intro exI [of _ "hs @ [(v, c, s)]"] conjI)
          (simp_all add: wc_loop.simps [of adj member s _ "(seen, parent, v # Q')"] st Cons res Some hs(1) hop_ids_def)
    qed
  qed
qed

lemma wc_members_nth:
  "length (wc_members adj component) = adj_len adj \<and>
   (ix < adj_len adj \<longrightarrow> wc_members adj component ! ix = (adj_id adj ix \<in> set component))"
proof -
  let ?f = "\<lambda>i member. case index_of adj i of None \<Rightarrow> member | Some ix \<Rightarrow> member[ix := True]"
  have step: "length (?f i m) = length m \<and> (ix < length m \<longrightarrow> ?f i m ! ix = (m ! ix \<or> adj_id adj ix = i))"
    if "length m = adj_len adj" for i m
  proof (cases "index_of adj i")
    case None
    then have "adj_id adj ix \<noteq> i" if "ix < adj_len adj" using index_iff [of i ix] that by simp
    then show ?thesis using None that by simp
  next
    case (Some jx)
    then have "jx < adj_len adj" "adj_id adj jx = i" using index_iff by blast+
    moreover have "adj_id adj ix = i \<longleftrightarrow> ix = jx" if "ix < adj_len adj" using adj_id_inj calculation that by auto
    ultimately show ?thesis using Some that by (auto simp: nth_list_update)
  qed
  have "length (fold ?f is m) = adj_len adj \<and> (ix < adj_len adj \<longrightarrow> fold ?f is m ! ix = (m ! ix \<or> adj_id adj ix \<in> set is))"
    if "length m = adj_len adj" for "is" m
    using that
  proof (induction "is" arbitrary: m)
    case (Cons i "is")
    show ?case using Cons.IH [of "?f i m"] step [OF Cons.prems, of i] Cons.prems unfolding fold_simps o_apply by auto
  qed simp
  from this [of "replicate (adj_len adj) False" component] show ?thesis by (simp add: wc_members_def)
qed

lemma witness_returns:
  assumes "E = inside_edges adj (wc_members adj component)"
  shows "\<exists>path. witness_cycle adj component start = Some (map (hop_ids adj) path) \<and>
    (case index_of adj start of Some s \<Rightarrow> shortest_cycle E s path | None \<Rightarrow> path = [])"
proof (cases "index_of adj start")
  case None
  then show ?thesis by (intro exI [of _ "[]"]) (simp add: witness_cycle_def)
next
  case (Some s)
  then have s: "s < adj_len adj" "adj_id adj s = start" using index_iff by blast+
  show ?thesis
  proof (cases "wc_members adj component ! s")
    case False
    then have "(s, s) \<notin> (inside_rel E)\<^sup>+" by (auto dest!: tranclD simp: assms inside_edges_def inside_rel_def)
    then show ?thesis using Some False by (intro exI [of _ "[]"]) (simp add: witness_cycle_def shortest_cycle_def)
  next
    case True
    have "wc_inv E s (\<lambda>_. 0) {} ((replicate (adj_len adj) False)[s := True], replicate (adj_len adj) None, [s])"
      using s(1) by (auto simp: wc_inv_def wc_mid_def vset_def nth_list_update split: if_splits)
    from wc_loop_returns [OF assms s(1) True this] show ?thesis using Some True s(2) by (simp add: witness_cycle_def)
  qed
qed

end

section \<open>On node ids\<close>

text \<open>The kept edges with both ends in a component.\<close>

definition kept_inside :: "edge list \<Rightarrow> node_id set \<Rightarrow> (node_id \<times> category \<times> node_id) set" where
  "kept_inside es M = {(efrom e, ecategory e, eto e) | e. e \<in> set es \<and> efrom e \<in> M \<and> eto e \<in> M}"

lemma built_out_edges:
  assumes "build_fits g keep u32_max" and "a = build g keep" and "u < adj_len a"
  shows "(\<lambda>x. (adj_id a u, i_category x, adj_id a (i_other x))) ` set (outgoing a u) =
    {(efrom e, ecategory e, eto e) | e. e \<in> set (kept_of keep (g_edges g)) \<and> efrom e = adj_id a u}"
proof -
  let ?es = "kept_of keep (g_edges g)"
  have "map (\<lambda>x. (i_edge x, adj_id a (i_other x), i_category x)) (outgoing a u) =
      map (\<lambda>(k, e). (k, eto e, ecategory e)) (filter (\<lambda>(k, e). efrom e = adj_id a u) (enumerate 0 ?es))"
    using build_scan(3) [OF assms(1) _ refl, of a u] assms(2,3) by (simp add: build_def)
  from arg_cong [OF this, of "map (\<lambda>(k, t, c). (adj_id a u, c, t))"]
  have "map (\<lambda>x. (adj_id a u, i_category x, adj_id a (i_other x))) (outgoing a u) =
      map (\<lambda>(k, e). (adj_id a u, ecategory e, eto e)) (filter (\<lambda>(k, e). efrom e = adj_id a u) (enumerate 0 ?es))"
    by (simp add: comp_def case_prod_beta)
  from arg_cong [OF this, of set]
  have "(\<lambda>x. (adj_id a u, i_category x, adj_id a (i_other x))) ` set (outgoing a u) =
      (\<lambda>(k, e). (adj_id a u, ecategory e, eto e)) ` {(k, e) \<in> set (enumerate 0 ?es). efrom e = adj_id a u}"
    by auto
  also have "\<dots> = {(efrom e, ecategory e, eto e) | e. e \<in> set ?es \<and> efrom e = adj_id a u}"
  proof (intro set_eqI iffI)
    fix t assume "t \<in> (\<lambda>(k, e). (adj_id a u, ecategory e, eto e)) ` {(k, e) \<in> set (enumerate 0 ?es). efrom e = adj_id a u}"
    then obtain k e where "(k, e) \<in> set (enumerate 0 ?es)" "efrom e = adj_id a u" "t = (efrom e, ecategory e, eto e)" by auto
    moreover from this(1) have "e \<in> set ?es" by (auto simp: in_set_enumerate_eq)
    ultimately show "t \<in> {(efrom e, ecategory e, eto e) | e. e \<in> set ?es \<and> efrom e = adj_id a u}" by blast
  next
    fix t assume "t \<in> {(efrom e, ecategory e, eto e) | e. e \<in> set ?es \<and> efrom e = adj_id a u}"
    then obtain e where e: "e \<in> set ?es" "efrom e = adj_id a u" "t = (efrom e, ecategory e, eto e)" by blast
    then obtain k where "k < length ?es" "?es ! k = e" by (auto simp: in_set_conv_nth)
    then have "(k, e) \<in> set (enumerate 0 ?es)" by (simp add: in_set_enumerate_eq)
    then show "t \<in> (\<lambda>(k, e). (adj_id a u, ecategory e, eto e)) ` {(k, e) \<in> set (enumerate 0 ?es). efrom e = adj_id a u}"
      using e(2,3) by (intro image_eqI [of _ _ "(k, e)"]) simp_all
  qed
  finally show ?thesis .
qed

interpretation built_witness: indexed_graph "build g keep" for g keep
  by (simp add: build_def built.indexed_graph_axioms)

lemma inside_image: "inside_rel ((\<lambda>(u, c, w). (f u, c, f w)) ` E) = (\<lambda>(u, w). (f u, f w)) ` inside_rel E"
  by (force simp: inside_rel_def)

lemma hops_from_image: "hops_from E a path b \<Longrightarrow> hops_from ((\<lambda>(u, c, w). (f u, c, f w)) ` E) (f a) (map (\<lambda>(u, c, w). (f u, c, f w)) path) (f b)"
proof (induction path arbitrary: a)
  case (Cons h path)
  then show ?case by (cases h) (auto intro!: image_eqI)
qed simp

lemma shortest_cycle_image:
  assumes inj: "inj_on f A" and E: "inside_rel E \<subseteq> A \<times> A" and s: "s \<in> A" and short: "shortest_cycle E s path"
  shows "shortest_cycle ((\<lambda>(u, c, w). (f u, c, f w)) ` E) (f s) (map (\<lambda>(u, c, w). (f u, c, f w)) path)"
proof -
  let ?R = "inside_rel E" and ?R' = "inside_rel ((\<lambda>(u, c, w). (f u, c, f w)) ` E)"
  have pow: "(f s, f s) \<in> ?R' ^^ k \<longleftrightarrow> (s, s) \<in> ?R ^^ k" for k
  proof -
    have map: "hops ?R' {f s} k = f ` hops ?R {s} k \<and> hops ?R {s} k \<subseteq> A"
      using hops_map [OF inj E, of "{s}" k] s unfolding inside_image by simp
    have "(f s, f s) \<in> ?R' ^^ k \<longleftrightarrow> f s \<in> hops ?R' {f s} k" by (simp add: hops_def)
    also have "\<dots> \<longleftrightarrow> s \<in> hops ?R {s} k" using map inj_on_image_mem_iff [OF inj s] by metis
    also have "\<dots> \<longleftrightarrow> (s, s) \<in> ?R ^^ k" by (simp add: hops_def)
    finally show ?thesis .
  qed
  have "(f s, f s) \<in> ?R'\<^sup>+ \<longleftrightarrow> (s, s) \<in> ?R\<^sup>+" unfolding trancl_power pow ..
  then show ?thesis
    using short hops_from_image [of E s path s f] by (simp add: shortest_cycle_def pow del: relpow.simps split: if_splits)
qed

lemma inside_built:
  assumes "build_fits g keep u32_max" and "a = build g keep"
  shows "hop_ids a ` inside_edges a (wc_members a component) = kept_inside (kept_of keep (g_edges g)) (set component)"
proof (intro set_eqI iffI)
  let ?es = "kept_of keep (g_edges g)"
  note out = built_out_edges [OF assms]
  note member = built_witness.wc_members_nth [where g = g and keep = keep, folded assms(2)]
  note range = built_witness.out_range [where g = g and keep = keep, folded assms(2)]
  {
    fix h assume "h \<in> hop_ids a ` inside_edges a (wc_members a component)"
    then obtain u x where u: "u < adj_len a" "x \<in> set (outgoing a u)" "h = (adj_id a u, i_category x, adj_id a (i_other x))"
      "wc_members a component ! u" "wc_members a component ! i_other x" by (auto simp: inside_edges_def hop_ids_def)
    have ends: "adj_id a u \<in> set component" "adj_id a (i_other x) \<in> set component"
      using u(1,4,5) member [of component u] member [of component "i_other x"] range [OF u(1,2)] by simp_all
    have "h \<in> {(efrom e, ecategory e, eto e) | e. e \<in> set ?es \<and> efrom e = adj_id a u}"
      unfolding out [OF u(1), symmetric] using u(2,3) by blast
    then obtain e where e: "h = (efrom e, ecategory e, eto e)" "e \<in> set ?es" by blast
    then have "efrom e \<in> set component" "eto e \<in> set component" using u(3) ends by simp_all
    then show "h \<in> kept_inside ?es (set component)" unfolding kept_inside_def mem_Collect_eq using e by (intro exI [of _ e] conjI)
  next
    fix h assume "h \<in> kept_inside ?es (set component)"
    then obtain e where e: "e \<in> set ?es" "h = (efrom e, ecategory e, eto e)" "efrom e \<in> set component" "eto e \<in> set component"
      by (auto simp: kept_inside_def)
    have "efrom e \<in> set (a_ids a)"
      using build_scan(1) [OF assms(1) _ refl, of a] assms(2) e(1) by (auto simp: build_def endpoints_def)
    then obtain u where u: "u < adj_len a" "adj_id a u = efrom e" by (auto simp: in_set_conv_nth adj_len_def adj_id_def)
    have "h \<in> (\<lambda>x. (adj_id a u, i_category x, adj_id a (i_other x))) ` set (outgoing a u)"
      unfolding out [OF u(1)] using e(1,2) u(2) by auto
    then obtain x where x: "x \<in> set (outgoing a u)" "h = (adj_id a u, i_category x, adj_id a (i_other x))" by blast
    then have "(u, i_category x, i_other x) \<in> inside_edges a (wc_members a component)"
      using u e x member [of component u] member [of component "i_other x"] range [OF u(1) x(1)] by (auto simp: inside_edges_def)
    then show "h \<in> hop_ids a ` inside_edges a (wc_members a component)" using x(2) by (force simp: hop_ids_def)
  }
qed

text \<open>C9: The witness is a shortest cycle. On the index of any graph that fits, \<open>witness_cycle\<close> returns. When
  the kept edges with both ends in the given component close a cycle through \<open>start\<close>, its hops are such
  edges, each with its category, that follow one another from \<open>start\<close> back to \<open>start\<close>, and no closed walk
  through \<open>start\<close> has fewer; otherwise there are no hops. The component need not be strongly connected
  and may name ids the graph does not hold.\<close>

theorem witness_cycle_is_shortest:
  assumes fits: "build_fits g keep u32_max" and E: "E = kept_inside (kept_of keep (g_edges g)) (set component)"
  shows "\<exists>path. witness_cycle (build g keep) component start = Some path \<and>
    (if (start, start) \<in> (inside_rel E)\<^sup>+
     then path \<noteq> [] \<and> hops_from E start path start \<and> (\<forall>k. (start, start) \<in> inside_rel E ^^ Suc k \<longrightarrow> length path \<le> Suc k)
     else path = [])"
proof -
  let ?a = "build g keep"
  let ?E = "inside_edges ?a (wc_members ?a component)"
  have E': "hop_ids ?a ` ?E = E" using inside_built [OF fits refl] E by simp
  have hop: "hop_ids ?a = (\<lambda>(u, c, w). (adj_id ?a u, c, adj_id ?a w))" by (auto simp: hop_ids_def)
  obtain path where path: "witness_cycle ?a component start = Some (map (hop_ids ?a) path)"
    "case index_of ?a start of Some s \<Rightarrow> shortest_cycle ?E s path | None \<Rightarrow> path = []"
    using built_witness.witness_returns [OF refl] by blast
  have "shortest_cycle E start (map (hop_ids ?a) path)"
  proof (cases "index_of ?a start")
    case None
    have "(start, start) \<notin> (inside_rel E)\<^sup>+"
    proof
      assume "(start, start) \<in> (inside_rel E)\<^sup>+"
      then obtain c j where "(start, c, j) \<in> E" by (auto dest!: tranclD simp: inside_rel_def)
      then obtain u where "u < adj_len ?a" "adj_id ?a u = start" unfolding E' [symmetric] by (auto simp: hop_ids_def inside_edges_def)
      then show False using None built_witness.index_iff [of g keep start u] by simp
    qed
    then show ?thesis using path(2) None by (simp add: shortest_cycle_def)
  next
    case (Some s)
    then have s: "s < adj_len ?a" "adj_id ?a s = start" using built_witness.index_iff by blast+
    have inj: "inj_on (adj_id ?a) {..<adj_len ?a}" using built_witness.adj_id_inj by (auto simp: inj_on_def)
    have "inside_rel ?E \<subseteq> {..<adj_len ?a} \<times> {..<adj_len ?a}"
      using built_witness.out_range by (fastforce simp: inside_rel_def inside_edges_def)
    from shortest_cycle_image [OF inj this, of s path] s path(2) Some show ?thesis unfolding E' [symmetric] hop by simp
  qed
  then show ?thesis using path(1) by (auto simp: shortest_cycle_def split: if_splits)
qed

definition shortcut_graph :: graph_source where
  "shortcut_graph =
     \<lparr>g_nodes = [1, 2, 3], g_edges = [edge_new 1 2 5 Strong, edge_new 2 3 6 Weak, edge_new 2 1 6 Weak, edge_new 3 1 7 Strong]\<rparr>"

theorem witness_cycle_is_shortest_witness:
  "\<exists>path. witness_cycle (build shortcut_graph category_set_all) [1, 2, 3] 1 = Some path \<and> path \<noteq> [] \<and> length path \<le> 2"
proof -
  let ?es = "g_edges shortcut_graph"
  have kept: "kept_of category_set_all ?es = ?es" by (simp add: kept_of_def)
  have fits: "build_fits shortcut_graph category_set_all u32_max"
    by (simp add: build_fits_def kept_of_def shortcut_graph_def endpoints_def edge_new_def u32_max_def card_insert_if)
  let ?E = "kept_inside (kept_of category_set_all ?es) (set [1, 2, 3])"
  have "(1, 5, 2) \<in> ?E" "(2, 6, 1) \<in> ?E" unfolding kept by (force simp: kept_inside_def shortcut_graph_def edge_new_def)+
  then have step: "(1, 2) \<in> inside_rel ?E" "(2, 1) \<in> inside_rel ?E" by (auto simp: inside_rel_def)
  then have "(1, 1) \<in> inside_rel ?E ^^ Suc 1" "(1, 1) \<in> (inside_rel ?E)\<^sup>+" by (auto intro: trancl_into_trancl)
  note cycle = this
  obtain path where path: "witness_cycle (build shortcut_graph category_set_all) [1, 2, 3] 1 = Some path"
    "path \<noteq> [] \<and> hops_from ?E 1 path 1 \<and> (\<forall>k. (1, 1) \<in> inside_rel ?E ^^ Suc k \<longrightarrow> length path \<le> Suc k)"
    using witness_cycle_is_shortest [OF fits refl, of "[1, 2, 3]" 1, unfolded if_P [OF cycle(2)]] by blast
  then have "length path \<le> Suc 1" using cycle(1) by blast
  then show ?thesis using path by (intro exI [of _ path]) (simp add: numeral_2_eq_2)
qed

end
