(* ===== verification/Strata.thy ===== *)
theory Strata
  imports Cycles
begin

text \<open>
  Stratification, \<open>rules/src/strata.rs\<close>: the predicates of a program and its dependencies become a
  graph whose strongly connected components the cycles component finds; a negated or aggregated read
  inside one is a \<open>bad_cycle\<close>, otherwise Kahn's algorithm over the condensation gives the strata. A
  predicate is a natural below \<open>2 ^ 32\<close>; the min-heap of ready components is its sorted list.
\<close>

datatype dep = Pos | Neg | Agg

definition dep_category :: "dep \<Rightarrow> category" where
  "dep_category d = (case d of Pos \<Rightarrow> 0 | Neg \<Rightarrow> 1 | Agg \<Rightarrow> 2)"

record dep_edge =
  de_body :: nat
  de_head :: nat
  de_dep :: dep
  de_site :: nat

record strata =
  st_stratum_of :: "nat list"
  st_order :: "nat list list"
  st_recursive :: "bool list"
  st_component :: "nat list"

record bad_cycle =
  bc_preds :: "nat list"
  bc_dep :: dep
  bc_site :: nat

definition pred_count :: "nat \<Rightarrow> dep_edge list \<Rightarrow> nat" where
  "pred_count npreds edges = fold max (map (\<lambda>e. max (de_body e) (de_head e) + 1) edges) npreds"

definition pred_graph :: "nat \<Rightarrow> dep_edge list \<Rightarrow> graph_source" where
  "pred_graph n edges =
     \<lparr>g_nodes = map of_nat [0..<n],
      g_edges = map (\<lambda>e. edge_new (of_nat (de_body e)) (of_nat (de_head e)) (dep_category (de_dep e)) Strong) edges\<rparr>"

text \<open>\<open>0..n as u32\<close>.\<close>

definition u32_range :: "nat \<Rightarrow> nat list" where
  "u32_range n = [0..<n mod 2 ^ 32]"

text \<open>Each listed component's smallest member, and that its members are recursive.\<close>

definition mark_component :: "nat list \<Rightarrow> nat list \<times> bool list \<Rightarrow> nat list \<times> bool list" where
  "mark_component members = fold (\<lambda>p (component, recursive). (component[p := hd members], recursive[p := True])) members"

definition component_tables :: "nat \<Rightarrow> nat list list \<Rightarrow> nat list \<times> bool list" where
  "component_tables n comps = fold mark_component comps (u32_range n, replicate n False)"

definition note_offence :: "nat list \<Rightarrow> dep_edge \<Rightarrow> (dep \<times> nat) option list \<Rightarrow> (dep \<times> nat) option list" where
  "note_offence component e offence =
     (let rep = component ! de_body e
      in if de_dep e \<noteq> Pos \<and> rep = component ! de_head e \<and> offence ! rep = None
         then offence[rep := Some (de_dep e, de_site e)] else offence)"

definition bad_cycles :: "nat \<Rightarrow> dep_edge list \<Rightarrow> nat list \<Rightarrow> nat list list \<Rightarrow> bad_cycle list" where
  "bad_cycles n edges component comps =
     (let offence = fold (note_offence component) edges (replicate n None)
      in List.map_filter (\<lambda>members. case offence ! hd members of
             None \<Rightarrow> None
           | Some (dep, site) \<Rightarrow> Some \<lparr>bc_preds = members, bc_dep = dep, bc_site = site\<rparr>) comps)"

text \<open>The condensation: the members of each component, its out-entries and in-degrees.\<close>

definition component_members :: "nat \<Rightarrow> nat list \<Rightarrow> nat list list" where
  "component_members n component =
     fold (\<lambda>p members. members[component ! p := members ! (component ! p) @ [p]]) (u32_range n) (replicate n [])"

definition count_edge :: "nat list \<Rightarrow> dep_edge \<Rightarrow> nat list list \<times> nat list \<Rightarrow> nat list list \<times> nat list" where
  "count_edge component e s =
     (let from = component ! de_body e; to = component ! de_head e; (out, indegree) = s
      in if from \<noteq> to then (out[from := out ! from @ [to]], indegree[to := indegree ! to + 1]) else (out, indegree))"

record kahn =
  kh_ready :: "nat list"
  kh_indegree :: "nat list"
  kh_stratum :: "nat list"
  kh_members :: "nat list list"
  kh_order :: "nat list list"

definition release :: "nat \<Rightarrow> nat list \<times> nat list \<Rightarrow> nat list \<times> nat list" where
  "release to s =
     (let (indegree, ready) = s; indegree = indegree[to := indegree ! to - 1]
      in (indegree, if indegree ! to = 0 then insort to ready else ready))"

partial_function (option) kahn_loop :: "nat list list \<Rightarrow> kahn \<Rightarrow> kahn option" where
  "kahn_loop out s =
     (case kh_ready s of
        [] \<Rightarrow> Some s
      | c # ready \<Rightarrow>
          kahn_loop out
            \<lparr>kh_ready = snd (fold release (out ! c) (kh_indegree s, ready)),
             kh_indegree = fst (fold release (out ! c) (kh_indegree s, ready)),
             kh_stratum = (kh_stratum s)[c := length (kh_order s)],
             kh_members = (kh_members s)[c := []],
             kh_order = kh_order s @ [kh_members s ! c]\<rparr>)"

declare kahn_loop.simps [code, simp del]

definition kahn_start :: "nat \<Rightarrow> dep_edge list \<Rightarrow> nat list \<Rightarrow> nat list list \<times> kahn" where
  "kahn_start n edges component =
     (let (out, indegree) = fold (count_edge component) edges (replicate n [], replicate n 0)
      in (out,
        \<lparr>kh_ready = sort (filter (\<lambda>c. component ! c = c \<and> indegree ! c = 0) (u32_range n)), kh_indegree = indegree,
         kh_stratum = replicate n 0, kh_members = component_members n component, kh_order = []\<rparr>))"

definition stratify :: "nat \<Rightarrow> dep_edge list \<Rightarrow> (bad_cycle list + strata) option" where
  "stratify npreds edges =
     (let n = pred_count npreds edges in
      case strongly_connected (build (pred_graph n edges) category_set_all) of
        None \<Rightarrow> None
      | Some found \<Rightarrow>
          let comps = map (map (\<lambda>i. unat i mod 2 ^ 32)) found;
              (component, recursive) = component_tables n comps;
              bad = bad_cycles n edges component comps
          in if bad \<noteq> [] then Some (Inl bad)
             else
               let (out, s) = kahn_start n edges component in
               case kahn_loop out s of
                 None \<Rightarrow> None
               | Some s \<Rightarrow>
                   Some (Inr \<lparr>st_stratum_of = map (\<lambda>c. kh_stratum s ! c) component, st_order = kh_order s,
                     st_recursive = recursive, st_component = component\<rparr>))"

end
