(* ===== verification/Tarjan.thy ===== *)
theory Tarjan
  imports Cycles Walks
begin

text \<open>
  Tarjan's search is correct: the invariant of its loop, kept by opening a vertex, looking at an edge,
  leaving a vertex and closing a component, and what it finds when the stack is empty.
\<close>

definition outs :: "adjacency \<Rightarrow> nat \<Rightarrow> nat list" where
  "outs adj v = map i_other (outgoing adj v)"

text \<open>A vertex on the stack has been given an order and not been closed. The edges of it looked at:\<close>

definition done_outs :: "adjacency \<Rightarrow> tarjan \<Rightarrow> nat \<Rightarrow> nat set" where
  "done_outs adj s v = (case map_of (tj_frames s) v of None \<Rightarrow> set (outs adj v) | Some p \<Rightarrow> set (take p (outs adj v)))"

definition tj_seen :: "tarjan \<Rightarrow> nat set" where
  "tj_seen s = {v. v < length (tj_order s) \<and> tj_order s ! v \<noteq> UNSEEN}"

definition tj_live :: "tarjan \<Rightarrow> nat set" where
  "tj_live s = {v. v < length (tj_on s) \<and> tj_on s ! v}"

definition tj_closed :: "tarjan \<Rightarrow> nat set" where
  "tj_closed s = tj_seen s - tj_live s"

text \<open>The vertices mutually reachable with one, and those on a cycle.\<close>

definition scc_of :: "('a \<times> 'a) set \<Rightarrow> 'a \<Rightarrow> 'a set" where
  "scc_of R v = {u. (v, u) \<in> R\<^sup>* \<and> (u, v) \<in> R\<^sup>*}"

lemma scc_of_eq: "u \<in> scc_of R v \<Longrightarrow> scc_of R u = scc_of R v"
  by (auto simp: scc_of_def intro: rtrancl_trans)

lemma scc_of_self [simp]: "v \<in> scc_of R v"
  by (simp add: scc_of_def)

lemma cyclic_iff: "(v, v) \<in> R\<^sup>+ \<longleftrightarrow> (v, v) \<in> R \<or> (\<exists>u \<in> scc_of R v. u \<noteq> v)"
proof
  assume "(v, v) \<in> R\<^sup>+"
  then obtain u where u: "(v, u) \<in> R" "(u, v) \<in> R\<^sup>*" by (meson tranclD)
  then have "u \<in> scc_of R v" by (auto simp: scc_of_def)
  then show "(v, v) \<in> R \<or> (\<exists>u \<in> scc_of R v. u \<noteq> v)" using u by (cases "u = v") auto
next
  assume "(v, v) \<in> R \<or> (\<exists>u \<in> scc_of R v. u \<noteq> v)"
  then show "(v, v) \<in> R\<^sup>+"
  proof
    assume "\<exists>u \<in> scc_of R v. u \<noteq> v"
    then obtain u where "(v, u) \<in> R\<^sup>*" "(u, v) \<in> R\<^sup>*" "u \<noteq> v" by (auto simp: scc_of_def)
    then show ?thesis by (metis rtranclD trancl_rtrancl_trancl)
  qed auto
qed

text \<open>A set no edge leaves holds all that its members reach.\<close>

lemma closed_reach: "(v, u) \<in> R\<^sup>* \<Longrightarrow> v \<in> A \<Longrightarrow> (\<And>a b. a \<in> A \<Longrightarrow> (a, b) \<in> R \<Longrightarrow> b \<in> A) \<Longrightarrow> u \<in> A"
  by (induction rule: rtrancl_induct) auto

lemma open_fields [simp]:
  "length (tj_order (tj_open v s)) = length (tj_order s)" "length (tj_low (tj_open v s)) = length (tj_low s)"
  "length (tj_on (tj_open v s)) = length (tj_on s)" "tj_next (tj_open v s) = Suc (tj_next s)"
  "tj_stack (tj_open v s) = v # tj_stack s" "tj_frames (tj_open v s) = (v, 0) # tj_frames s" "tj_found (tj_open v s) = tj_found s"
  by (simp_all add: tj_open_def)

lemma scc_cyclic: "u \<in> scc_of R v \<Longrightarrow> (u, u) \<in> R\<^sup>+ \<longleftrightarrow> (v, v) \<in> R\<^sup>+"
proof (cases "u = v")
  case False
  assume u: "u \<in> scc_of R v"
  then have "v \<in> scc_of R u" by (simp add: scc_of_def)
  then have "(u, u) \<in> R\<^sup>+" using False unfolding cyclic_iff [of u] by (intro disjI2 bexI [of _ v]) auto
  moreover have "(v, v) \<in> R\<^sup>+" using u False unfolding cyclic_iff [of v] by (intro disjI2 bexI [of _ u]) auto
  ultimately show ?thesis by simp
qed simp

text \<open>Popping a stack that descends takes what is not below the vertex.\<close>

lemma pop_until_spec:
  assumes "sorted_wrt (\<lambda>a b. (f b :: nat) < f a) xs" and "v \<in> set xs" and "pop_until v xs = (popped, left)"
  shows "xs = popped @ left \<and> set popped = {w \<in> set xs. f v \<le> f w} \<and> set left = {w \<in> set xs. f w < f v}"
  using assms
proof (induction xs arbitrary: popped)
  case (Cons x xs)
  show ?case
  proof (cases "x = v")
    case True
    then have "popped = [v]" "left = xs" "\<forall>w \<in> set xs. f w < f v" using Cons.prems by auto
    then show ?thesis using True by auto
  next
    case False
    obtain p where p: "pop_until v xs = (p, left)" "popped = x # p"
      using Cons.prems(3) False by (auto split: prod.splits)
    have mem: "v \<in> set xs" and sorted: "sorted_wrt (\<lambda>a b. f b < f a) xs" and x: "f v < f x" using Cons.prems False by auto
    note whole = Cons.IH [OF sorted mem p(1)]
    note IH = whole [THEN conjunct1] whole [THEN conjunct2, THEN conjunct1] whole [THEN conjunct2, THEN conjunct2]
    show ?thesis
    proof (intro conjI)
      show "x # xs = popped @ left" using IH(1) p(2) by simp
      show "set popped = {w \<in> set (x # xs). f v \<le> f w}" unfolding p(2) list.set(2) IH(2) using x by (auto simp: less_imp_le)
      show "set left = {w \<in> set (x # xs). f w < f v}" unfolding list.set(2) IH(3) using x by auto
    qed
  qed
qed simp

lemma fold_clear: "u < length on \<Longrightarrow> fold (\<lambda>w on. on[w := False]) ws on ! u = (on ! u \<and> u \<notin> set ws)"
proof (induction ws arbitrary: on)
  case (Cons a ws)
  then show ?case by (cases "a = u") auto
qed simp

lemma length_fold_clear [simp]: "length (fold (\<lambda>w on. on[w := False]) ws on) = length on"
  by (induction ws arbitrary: on) simp_all

lemma sorted_wrt_less_distinct: "sorted_wrt (\<lambda>a b. (f b :: nat) < f a) xs \<Longrightarrow> distinct xs"
  by (induction xs) auto

locale tarjan_graph = indexed_graph +
  assumes fits: "adj_len adj \<le> u32_max"
begin

abbreviation "nv \<equiv> adj_len adj"
abbreviation "edges \<equiv> inc_rel adj Forward"

definition scc_ids :: "nat \<Rightarrow> node_id list" where
  "scc_ids v = sorted_list_of_set (adj_id adj ` scc_of edges v)"

text \<open>
  The invariant. \<open>P\<close> holds the vertex that is opened next. \<open>low\<close> is the order of a live vertex that is reached,
  at most that of any live vertex an edge of the frame's own part of the stack reaches; a
  frame reaches every live vertex above it; a live vertex that has been left reaches a lower one.
\<close>

definition shape :: "tarjan \<Rightarrow> bool" where
  "shape s \<longleftrightarrow>
     length (tj_order s) = nv \<and> length (tj_low s) = nv \<and> length (tj_on s) = nv \<and>
     tj_next s = card (tj_seen s) \<and> (\<forall>v \<in> tj_seen s. tj_order s ! v < tj_next s) \<and>
     tj_live s \<subseteq> tj_seen s \<and> set (tj_stack s) = tj_live s \<and>
     sorted_wrt (\<lambda>a b. tj_order s ! b < tj_order s ! a) (tj_stack s) \<and>
     sorted_wrt (\<lambda>a b. tj_order s ! b < tj_order s ! a) (map fst (tj_frames s)) \<and>
     fst ` set (tj_frames s) \<subseteq> tj_live s"

definition examined :: "nat set \<Rightarrow> tarjan \<Rightarrow> bool" where
  "examined P s \<longleftrightarrow>
     (\<forall>v \<in> tj_closed s. \<forall>w. (v, w) \<in> edges \<longrightarrow> w \<in> tj_closed s) \<and>
     (\<forall>v \<in> tj_live s. done_outs adj s v \<subseteq> tj_seen s \<union> P)"

definition lows :: "tarjan \<Rightarrow> bool" where
  "lows s \<longleftrightarrow>
     (\<forall>v \<in> tj_live s. tj_low s ! v \<le> tj_order s ! v \<and> (\<exists>u \<in> tj_live s. tj_order s ! u = tj_low s ! v \<and> (v, u) \<in> edges\<^sup>*)) \<and>
     (\<forall>v \<in> tj_live s - fst ` set (tj_frames s). tj_low s ! v < tj_order s ! v)"

definition frames_reach :: "tarjan \<Rightarrow> bool" where
  "frames_reach s \<longleftrightarrow>
     (\<forall>f \<in> fst ` set (tj_frames s). \<forall>w \<in> tj_live s. tj_order s ! f \<le> tj_order s ! w \<longrightarrow> (f, w) \<in> edges\<^sup>*)"

definition own :: "tarjan \<Rightarrow> nat \<Rightarrow> nat set" where
  "own s f = {w \<in> tj_live s. tj_order s ! f \<le> tj_order s ! w \<and>
     (\<forall>g \<in> fst ` set (tj_frames s). tj_order s ! f < tj_order s ! g \<longrightarrow> tj_order s ! w < tj_order s ! g)}"

definition bounded :: "tarjan \<Rightarrow> bool" where
  "bounded s \<longleftrightarrow>
     (\<forall>f \<in> fst ` set (tj_frames s). \<forall>w \<in> own s f. \<forall>x \<in> done_outs adj s w \<inter> tj_live s. tj_low s ! f \<le> tj_order s ! x)"

definition found_ok :: "tarjan \<Rightarrow> bool" where
  "found_ok s \<longleftrightarrow> distinct (tj_found s) \<and> set (tj_found s) = {scc_ids v | v. v \<in> tj_closed s \<and> (v, v) \<in> edges\<^sup>+}"

definition tj_inv :: "nat set \<Rightarrow> tarjan \<Rightarrow> bool" where
  "tj_inv P s \<longleftrightarrow> shape s \<and> examined P s \<and> lows s \<and> frames_reach s \<and> bounded s \<and> found_ok s"

lemma inv_low: "tj_inv P s \<Longrightarrow> v \<in> tj_live s \<Longrightarrow> tj_low s ! v \<le> tj_order s ! v"
  by (simp add: tj_inv_def lows_def)

lemma inv_witness: "tj_inv P s \<Longrightarrow> v \<in> tj_live s \<Longrightarrow> \<exists>u. u \<in> tj_live s \<and> tj_order s ! u = tj_low s ! v \<and> (v, u) \<in> edges\<^sup>*"
  by (auto simp: tj_inv_def lows_def Bex_def)

lemma inv_left: "tj_inv P s \<Longrightarrow> v \<in> tj_live s \<Longrightarrow> v \<notin> fst ` set (tj_frames s) \<Longrightarrow> tj_low s ! v < tj_order s ! v"
  by (simp add: tj_inv_def lows_def)

lemma inv_reach:
  "tj_inv P s \<Longrightarrow> f \<in> fst ` set (tj_frames s) \<Longrightarrow> w \<in> tj_live s \<Longrightarrow> tj_order s ! f \<le> tj_order s ! w \<Longrightarrow> (f, w) \<in> edges\<^sup>*"
  unfolding tj_inv_def frames_reach_def by blast

lemma inv_bound:
  "tj_inv P s \<Longrightarrow> f \<in> fst ` set (tj_frames s) \<Longrightarrow> w \<in> own s f \<Longrightarrow> x \<in> done_outs adj s w \<Longrightarrow> x \<in> tj_live s \<Longrightarrow>
   tj_low s ! f \<le> tj_order s ! x"
  unfolding tj_inv_def bounded_def by blast

lemma inv_examined: "tj_inv P s \<Longrightarrow> v \<in> tj_live s \<Longrightarrow> w \<in> done_outs adj s v \<Longrightarrow> w \<in> tj_seen s \<union> P"
  unfolding tj_inv_def examined_def by blast

lemma inv_closed: "tj_inv P s \<Longrightarrow> v \<in> tj_closed s \<Longrightarrow> (v, w) \<in> edges \<Longrightarrow> w \<in> tj_closed s"
  unfolding tj_inv_def examined_def by blast

lemma edge_iff: "(v, w) \<in> edges \<longleftrightarrow> v < nv \<and> w \<in> set (outs adj v)"
  by (auto simp: inc_rel_def outs_def)

lemma edge_range: "(v, w) \<in> edges \<Longrightarrow> v < nv \<and> w < nv"
  using out_range by (auto simp: edge_iff outs_def)

lemma unseen_next: "shape s \<Longrightarrow> v < nv \<Longrightarrow> v \<notin> tj_seen s \<Longrightarrow> tj_next s < nv \<and> tj_next s \<noteq> UNSEEN"
proof -
  assume s: "shape s" and v: "v < nv" "v \<notin> tj_seen s"
  have "tj_seen s \<subseteq> {..<nv} - {v}" using s v by (auto simp: shape_def tj_seen_def)
  then have "card (tj_seen s) \<le> card ({..<nv} - {v})" by (intro card_mono) simp_all
  then have "tj_next s < nv" using s v(1) by (simp add: shape_def)
  then show ?thesis using fits by (simp add: UNSEEN_def u32_max_def)
qed

subsection \<open>Opening a vertex\<close>

lemma opened_sets:
  assumes "shape s" and "v < nv" and "v \<notin> tj_seen s"
  shows "tj_seen (tj_open v s) = insert v (tj_seen s)" and "tj_live (tj_open v s) = insert v (tj_live s)"
    and "tj_closed (tj_open v s) = tj_closed s"
proof -
  have len: "length (tj_order s) = nv" "length (tj_on s) = nv" "tj_live s \<subseteq> tj_seen s" using assms(1) by (simp_all add: shape_def)
  have "tj_next s \<noteq> UNSEEN" using unseen_next [OF assms] by simp
  then show seen: "tj_seen (tj_open v s) = insert v (tj_seen s)"
    using len assms(2) by (auto simp: tj_seen_def tj_open_def nth_list_update split: if_splits)
  show live: "tj_live (tj_open v s) = insert v (tj_live s)"
    using len assms(2) by (auto simp: tj_live_def tj_open_def nth_list_update split: if_splits)
  show "tj_closed (tj_open v s) = tj_closed s" unfolding tj_closed_def seen live using assms(3) len(3) by auto
qed

lemma opened_order: "shape s \<Longrightarrow> v < nv \<Longrightarrow> tj_order (tj_open v s) ! w = (if w = v then tj_next s else tj_order s ! w)"
  by (simp add: tj_open_def shape_def nth_list_update)

lemma opened_low: "shape s \<Longrightarrow> v < nv \<Longrightarrow> tj_low (tj_open v s) ! w = (if w = v then tj_next s else tj_low s ! w)"
  by (simp add: tj_open_def shape_def nth_list_update)

lemma opened_done:
  assumes "shape s" and "v \<notin> tj_seen s"
  shows "done_outs adj (tj_open v s) w = (if w = v then {} else done_outs adj s w)"
  by (simp add: done_outs_def tj_open_def)

lemma shape_open:
  assumes "shape s" and "v < nv" and "v \<notin> tj_seen s"
  shows "shape (tj_open v s)"
proof -
  note sets = opened_sets [OF assms] and order = opened_order [OF assms(1,2)]
  have s: "length (tj_order s) = nv" "length (tj_low s) = nv" "length (tj_on s) = nv"
     "tj_next s = card (tj_seen s)" "\<forall>v \<in> tj_seen s. tj_order s ! v < tj_next s"
     "tj_live s \<subseteq> tj_seen s" "set (tj_stack s) = tj_live s"
     "sorted_wrt (\<lambda>a b. tj_order s ! b < tj_order s ! a) (tj_stack s)"
     "sorted_wrt (\<lambda>a b. tj_order s ! b < tj_order s ! a) (map fst (tj_frames s))"
     "fst ` set (tj_frames s) \<subseteq> tj_live s"
    using assms(1) by (auto simp: shape_def)
  have v: "v \<notin> tj_live s" using s(6) assms(3) by blast
  have "finite (tj_seen s)" by (simp add: tj_seen_def)
  then have nxt: "tj_next (tj_open v s) = card (tj_seen (tj_open v s))"
    unfolding sets(1) using s(4) assms(3) by simp
  have sort: "sorted_wrt (\<lambda>a b. tj_order (tj_open v s) ! b < tj_order (tj_open v s) ! a) (v # xs)"
    if "sorted_wrt (\<lambda>a b. tj_order s ! b < tj_order s ! a) xs" "set xs \<subseteq> tj_live s" for xs
  proof -
    have "sorted_wrt (\<lambda>a b. tj_order (tj_open v s) ! b < tj_order (tj_open v s) ! a) xs"
      by (rule sorted_wrt_mono_rel [OF _ that(1)]) (use that(2) v in \<open>auto simp: order\<close>)
    moreover have "tj_order (tj_open v s) ! b < tj_order (tj_open v s) ! v" if "b \<in> set xs" for b
      using that \<open>set xs \<subseteq> tj_live s\<close> v s(5,6) by (auto simp: order)
    ultimately show ?thesis by simp
  qed
  have "\<forall>w \<in> tj_seen (tj_open v s). tj_order (tj_open v s) ! w < tj_next (tj_open v s)"
    unfolding sets(1) order using s(5) by (auto simp: less_Suc_eq)
  moreover have "sorted_wrt (\<lambda>a b. tj_order (tj_open v s) ! b < tj_order (tj_open v s) ! a) (v # tj_stack s)"
    "sorted_wrt (\<lambda>a b. tj_order (tj_open v s) ! b < tj_order (tj_open v s) ! a) (v # map fst (tj_frames s))"
    using sort [OF s(8)] sort [OF s(9)] s(7,10) by simp_all
  ultimately show ?thesis
    unfolding shape_def open_fields list.map fst_conv using nxt s sets by auto
qed

lemma inv_open:
  assumes inv: "tj_inv {v} s" and v: "v < nv" "v \<notin> tj_seen s"
    and reach: "\<And>f. f \<in> fst ` set (tj_frames s) \<Longrightarrow> (f, v) \<in> edges\<^sup>*"
  shows "tj_inv {} (tj_open v s)"
proof -
  let ?s = "tj_open v s"
  have sh: "shape s" using inv by (simp add: tj_inv_def)
  note sets = opened_sets [OF sh v] and order = opened_order [OF sh v(1)] and low = opened_low [OF sh v(1)]
    and outs_eq = opened_done [OF sh v(2)]
  have live: "tj_live s \<subseteq> tj_seen s" "fst ` set (tj_frames s) \<subseteq> tj_live s" using sh by (auto simp: shape_def)
  then have vl: "v \<notin> tj_live s" "v \<notin> fst ` set (tj_frames s)" using v(2) by auto
  have less: "w \<in> tj_live s \<Longrightarrow> tj_order s ! w < tj_next s" for w using sh by (auto simp: shape_def)
  have "examined {} ?s"
    using inv by (auto simp: tj_inv_def examined_def sets outs_eq)
  moreover have "lows ?s"
  proof -
    have "\<exists>u \<in> tj_live ?s. tj_order ?s ! u = tj_low ?s ! w \<and> (w, u) \<in> edges\<^sup>*" if wl: "w \<in> tj_live s" for w
    proof -
      obtain u where "u \<in> tj_live s" "tj_order s ! u = tj_low s ! w" "(w, u) \<in> edges\<^sup>*"
        using inv_witness [OF inv wl] by blast
      then show ?thesis using wl vl(1) by (intro bexI [of _ u]) (auto simp: order low sets)
    qed
    moreover have "\<exists>u \<in> tj_live ?s. tj_order ?s ! u = tj_low ?s ! v \<and> (v, u) \<in> edges\<^sup>*"
      by (rule bexI [of _ v]) (auto simp: order low sets)
    ultimately show ?thesis using inv vl by (auto simp: tj_inv_def lows_def sets order low)
  qed
  moreover have "frames_reach ?s"
    using inv reach vl less by (fastforce simp: tj_inv_def frames_reach_def sets order)
  moreover have "bounded ?s"
    unfolding bounded_def
  proof (intro ballI)
    fix f w x assume f: "f \<in> fst ` set (tj_frames ?s)" and w: "w \<in> own ?s f" and x: "x \<in> done_outs adj ?s w \<inter> tj_live ?s"
    have wv: "w \<noteq> v" using x by (auto simp: outs_eq)
    then have wl: "w \<in> tj_live s" using w by (auto simp: own_def sets)
    have fv: "f \<noteq> v" using w wv less [OF wl] by (auto simp: own_def order)
    then have f': "f \<in> fst ` set (tj_frames s)" using f by auto
    have "w \<in> own s f"
      unfolding own_def
    proof (intro CollectI conjI ballI impI)
      show "w \<in> tj_live s" by (rule wl)
      show "tj_order s ! f \<le> tj_order s ! w" using w fv wv by (simp add: own_def order)
      fix g assume g: "g \<in> fst ` set (tj_frames s)" "tj_order s ! f < tj_order s ! g"
      then have "g \<noteq> v" using vl by blast
      then show "tj_order s ! w < tj_order s ! g" using w g fv wv by (auto simp: own_def order)
    qed
    then have old: "\<forall>x \<in> done_outs adj s w \<inter> tj_live s. tj_low s ! f \<le> tj_order s ! x"
      using inv_bound [OF inv f'] by blast
    have "f \<in> tj_live s" using f' live(2) by blast
    then have "tj_low s ! f \<le> tj_order s ! f" "tj_order s ! f < tj_next s" using inv less by (simp_all add: tj_inv_def lows_def)
    then show "tj_low ?s ! f \<le> tj_order ?s ! x" using x old fv wv by (auto simp: order low sets outs_eq)
  qed
  moreover have "found_ok ?s" using inv by (simp add: tj_inv_def found_ok_def sets)
  ultimately show ?thesis using shape_open [OF sh v] by (simp add: tj_inv_def)
qed

subsection \<open>Looking at an edge\<close>

text \<open>The state after the top frame moves on, with the low of its vertex set to \<open>l\<close>.\<close>

definition moved :: "nat \<Rightarrow> nat \<Rightarrow> (nat \<times> nat) list \<Rightarrow> nat \<Rightarrow> tarjan \<Rightarrow> tarjan" where
  "moved v pos rest l s = s\<lparr>tj_frames := (v, pos + 1) # rest, tj_low := (tj_low s)[v := l]\<rparr>"

lemma moved_fields [simp]:
  "tj_order (moved v pos rest l s) = tj_order s" "tj_on (moved v pos rest l s) = tj_on s" "tj_stack (moved v pos rest l s) = tj_stack s"
  "tj_next (moved v pos rest l s) = tj_next s" "tj_found (moved v pos rest l s) = tj_found s"
  "tj_frames (moved v pos rest l s) = (v, pos + 1) # rest" "length (tj_low (moved v pos rest l s)) = length (tj_low s)"
  "tj_seen (moved v pos rest l s) = tj_seen s" "tj_live (moved v pos rest l s) = tj_live s" "tj_closed (moved v pos rest l s) = tj_closed s"
  by (simp_all add: moved_def tj_seen_def tj_live_def tj_closed_def)

lemma inv_top:
  assumes "tj_inv P s" and "tj_frames s = (v, pos) # rest"
  shows "v \<in> tj_live s" and "v < nv" and "\<And>g. g \<in> fst ` set rest \<Longrightarrow> tj_order s ! g < tj_order s ! v"
    and "v \<notin> fst ` set rest" and "fst ` set rest \<subseteq> tj_live s"
  using assms by (auto simp: tj_inv_def shape_def tj_live_def image_iff)

lemma inv_moved:
  assumes inv: "tj_inv {} s" and frames: "tj_frames s = (v, pos) # rest" and pos: "pos < length (outs adj v)"
    and l: "l \<le> tj_low s ! v" "\<exists>u. u \<in> tj_live s \<and> tj_order s ! u = l \<and> (v, u) \<in> edges\<^sup>*"
    and w: "outs adj v ! pos \<in> tj_live s \<Longrightarrow> l \<le> tj_order s ! (outs adj v ! pos)"
    and P: "outs adj v ! pos \<in> tj_seen s \<union> P"
  shows "tj_inv P (moved v pos rest l s)"
proof -
  let ?s = "moved v pos rest l s" and ?w = "outs adj v ! pos"
  have sh: "shape s" using inv by (simp add: tj_inv_def)
  note top = inv_top [OF inv frames]
  have low: "tj_low ?s ! u = (if u = v then l else tj_low s ! u)" for u
    using sh top(2) by (simp add: moved_def shape_def nth_list_update)
  have looked: "done_outs adj ?s u = (if u = v then insert ?w (done_outs adj s v) else done_outs adj s u)" for u
    using pos by (auto simp: done_outs_def frames take_Suc_conv_app_nth)
  have own: "own ?s f = own s f" for f by (simp add: own_def frames)
  have "shape ?s" using sh by (auto simp: shape_def frames)
  moreover have "examined P ?s" using inv P by (auto simp: tj_inv_def examined_def looked)
  moreover have "lows ?s"
    unfolding lows_def moved_fields
  proof (intro conjI ballI)
    fix u assume u: "u \<in> tj_live s"
    show "tj_low ?s ! u \<le> tj_order s ! u" using inv_low [OF inv u] l(1) by (auto simp: low)
    show "\<exists>x \<in> tj_live s. tj_order s ! x = tj_low ?s ! u \<and> (u, x) \<in> edges\<^sup>*"
      using inv_witness [OF inv u] l(2) by (cases "u = v") (auto simp: low)
  next
    fix u assume "u \<in> tj_live s - fst ` set ((v, pos + 1) # rest)"
    then show "tj_low ?s ! u < tj_order s ! u" using inv_left [OF inv, of u] by (auto simp: low frames)
  qed
  moreover have "frames_reach ?s" using inv by (simp add: tj_inv_def frames_reach_def frames)
  moreover have "bounded ?s"
    unfolding bounded_def own moved_fields
  proof (intro ballI)
    fix f u x assume f: "f \<in> fst ` set ((v, pos + 1) # rest)" and u: "u \<in> own s f" and x: "x \<in> done_outs adj ?s u \<inter> tj_live s"
    have f': "f \<in> fst ` set (tj_frames s)" using f by (simp add: frames)
    have le: "tj_low ?s ! f \<le> tj_low s ! f" using l(1) by (simp add: low)
    show "tj_low ?s ! f \<le> tj_order s ! x"
    proof (cases "x \<in> done_outs adj s u")
      case True
      then show ?thesis using inv_bound [OF inv f' u True] x le by simp
    next
      case False
      then have uv: "u = v" "x = ?w" using x by (auto simp: looked split: if_splits)
      have "f = v"
      proof (rule ccontr)
        assume "f \<noteq> v"
        then have "tj_order s ! f < tj_order s ! v" using f top(3) by auto
        then have "tj_order s ! u < tj_order s ! v" using u by (auto simp: own_def frames)
        then show False using uv by simp
      qed
      then show ?thesis using w x uv by (simp add: low)
    qed
  qed
  moreover have "found_ok ?s" using inv by (simp add: tj_inv_def found_ok_def)
  ultimately show ?thesis by (simp add: tj_inv_def)
qed

subsection \<open>Leaving a vertex\<close>

definition left_frame :: "nat \<Rightarrow> (nat \<times> nat) list \<Rightarrow> tarjan \<Rightarrow> tarjan" where
  "left_frame v rest s =
     s\<lparr>tj_frames := rest,
       tj_low := (case rest of [] \<Rightarrow> tj_low s
         | (parent, _) # _ \<Rightarrow> (tj_low s)[parent := min (tj_low s ! parent) (tj_low s ! v)])\<rparr>"

lemma left_fields [simp]:
  "tj_order (left_frame v rest s) = tj_order s" "tj_on (left_frame v rest s) = tj_on s" "tj_stack (left_frame v rest s) = tj_stack s"
  "tj_next (left_frame v rest s) = tj_next s" "tj_found (left_frame v rest s) = tj_found s"
  "tj_frames (left_frame v rest s) = rest" "length (tj_low (left_frame v rest s)) = length (tj_low s)"
  "tj_seen (left_frame v rest s) = tj_seen s" "tj_live (left_frame v rest s) = tj_live s" "tj_closed (left_frame v rest s) = tj_closed s"
  by (simp_all add: left_frame_def tj_seen_def tj_live_def tj_closed_def split: list.split)

lemma left_low:
  assumes inv: "tj_inv P s" and frames: "tj_frames s = (v, pos) # rest"
  shows "tj_low (left_frame v rest s) ! u = (if rest \<noteq> [] \<and> u = fst (hd rest) then min (tj_low s ! u) (tj_low s ! v) else tj_low s ! u)"
proof (cases rest)
  case (Cons p rest')
  have "fst p \<in> tj_live s" using inv_top(5) [OF inv frames] Cons by simp
  then have "fst p < length (tj_low s)" using inv by (simp add: tj_inv_def shape_def tj_live_def)
  then show ?thesis using Cons by (cases p) (simp add: left_frame_def nth_list_update)
qed (simp add: left_frame_def)

lemma left_done:
  assumes "tj_inv P s" and "tj_frames s = (v, pos) # rest" and "length (outs adj v) \<le> pos"
  shows "done_outs adj (left_frame v rest s) u = done_outs adj s u"
proof -
  have "map_of rest v = None" using inv_top(4) [OF assms(1,2)] by (simp add: map_of_eq_None_iff)
  then show ?thesis using assms(2,3) by (simp add: done_outs_def)
qed

lemma own_top: "tj_inv P s \<Longrightarrow> tj_frames s = (v, pos) # rest \<Longrightarrow> own s v = {w \<in> tj_live s. tj_order s ! v \<le> tj_order s ! w}"
  using inv_top(3) [of P s v pos rest] by (fastforce simp: own_def)

text \<open>The part of the stack a frame owns once the top frame is gone: its own, or the top frame's and it is the parent.\<close>

lemma own_left:
  assumes inv: "tj_inv P s" and frames: "tj_frames s = (v, pos) # rest" and f: "f \<in> fst ` set rest"
    and w: "w \<in> own (left_frame v rest s) f"
  shows "w \<in> own s f \<or> (rest \<noteq> [] \<and> f = fst (hd rest) \<and> w \<in> own s v)"
proof (cases "tj_order s ! w < tj_order s ! v")
  case True
  then have "w \<in> own s f" using w by (auto simp: own_def frames)
  then show ?thesis ..
next
  case False
  then have "w \<in> own s v" using w own_top [OF inv frames] by (simp add: own_def)
  moreover have "f = fst (hd rest)"
  proof (rule ccontr)
    assume neq: "f \<noteq> fst (hd rest)"
    obtain p rest' where rest: "rest = p # rest'" using f by (cases rest) auto
    have "sorted_wrt (\<lambda>a b. tj_order s ! b < tj_order s ! a) (map fst rest)"
      using inv frames by (simp add: tj_inv_def shape_def)
    then have "tj_order s ! f < tj_order s ! fst p" using f neq by (auto simp: rest)
    then have "tj_order s ! w < tj_order s ! fst p" using w by (auto simp: own_def rest)
    also have "\<dots> < tj_order s ! v" using inv_top(3) [OF inv frames, of "fst p"] by (simp add: rest)
    finally show False using False by simp
  qed
  ultimately show ?thesis using f by auto
qed

lemma inv_leave:
  assumes inv: "tj_inv {} s" and frames: "tj_frames s = (v, pos) # rest" and pos: "length (outs adj v) \<le> pos"
    and less: "tj_low s ! v < tj_order s ! v"
  shows "tj_inv {} (left_frame v rest s)"
proof -
  let ?s = "left_frame v rest s"
  note top = inv_top [OF inv frames] and low = left_low [OF inv frames] and looked = left_done [OF inv frames pos]
  have le: "tj_low ?s ! u \<le> tj_low s ! u" for u by (simp add: low)
  have "shape ?s" using inv by (auto simp: tj_inv_def shape_def frames)
  moreover have "examined {} ?s" using inv by (auto simp: tj_inv_def examined_def looked)
  moreover have "lows ?s"
    unfolding lows_def left_fields
  proof (intro conjI ballI)
    fix u assume u: "u \<in> tj_live s"
    show "tj_low ?s ! u \<le> tj_order s ! u" using inv_low [OF inv u] le [of u] by simp
    show "\<exists>x \<in> tj_live s. tj_order s ! x = tj_low ?s ! u \<and> (u, x) \<in> edges\<^sup>*"
    proof (cases "tj_low ?s ! u = tj_low s ! u")
      case True
      then show ?thesis using inv_witness [OF inv u] by auto
    next
      case False
      then have p: "rest \<noteq> []" "u = fst (hd rest)" and new: "tj_low ?s ! u = tj_low s ! v"
        by (auto simp: low min_def split: if_splits)
      then have "u \<in> fst ` set rest" by (cases rest) auto
      then have "(u, v) \<in> edges\<^sup>*"
        using inv_reach [OF inv, of u v] top(1,3) frames by (simp add: less_imp_le)
      moreover obtain x where "x \<in> tj_live s" "tj_order s ! x = tj_low s ! v" "(v, x) \<in> edges\<^sup>*"
        using inv_witness [OF inv top(1)] by blast
      ultimately show ?thesis using new by (intro bexI [of _ x]) auto
    qed
  next
    fix u assume u: "u \<in> tj_live s - fst ` set rest"
    show "tj_low ?s ! u < tj_order s ! u"
    proof (cases "u = v")
      case True
      then show ?thesis using less le [of v] by simp
    next
      case False
      then have "tj_low s ! u < tj_order s ! u" using inv_left [OF inv, of u] u frames by auto
      then show ?thesis using le [of u] by simp
    qed
  qed
  moreover have "frames_reach ?s" using inv by (simp add: tj_inv_def frames_reach_def frames)
  moreover have "bounded ?s"
    unfolding bounded_def left_fields
  proof (intro ballI)
    fix f w x assume f: "f \<in> fst ` set rest" and w: "w \<in> own ?s f" and x: "x \<in> done_outs adj ?s w \<inter> tj_live s"
    then have x': "x \<in> done_outs adj s w" "x \<in> tj_live s" by (simp_all add: looked)
    from own_left [OF inv frames f w] show "tj_low ?s ! f \<le> tj_order s ! x"
    proof
      assume "w \<in> own s f"
      then show ?thesis using inv_bound [OF inv, of f w x] f frames x' le [of f] by simp
    next
      assume p: "rest \<noteq> [] \<and> f = fst (hd rest) \<and> w \<in> own s v"
      then have "tj_low ?s ! f \<le> tj_low s ! v" by (simp add: low)
      then show ?thesis using inv_bound [OF inv, of v w x] frames x' p by simp
    qed
  qed
  moreover have "found_ok ?s" using inv by (simp add: tj_inv_def found_ok_def)
  ultimately show ?thesis by (simp add: tj_inv_def)
qed

subsection \<open>Closing a component\<close>

text \<open>The top frame's vertex \<open>v\<close> has been looked at in full and its low is its own order.\<close>

definition closing :: "nat \<Rightarrow> nat \<Rightarrow> (nat \<times> nat) list \<Rightarrow> tarjan \<Rightarrow> bool" where
  "closing v pos rest s \<longleftrightarrow>
     tj_inv {} s \<and> tj_frames s = (v, pos) # rest \<and> length (outs adj v) \<le> pos \<and> tj_low s ! v = tj_order s ! v"

lemma closing_facts:
  assumes "closing v pos rest s"
  shows "tj_inv {} s" and "tj_frames s = (v, pos) # rest" and "length (outs adj v) \<le> pos" and "tj_low s ! v = tj_order s ! v"
  using assms by (simp_all add: closing_def)

lemma closing_forward:
  assumes c: "closing v pos rest s" and a: "a \<in> tj_closed s \<union> own s v" and e: "(a, b) \<in> edges"
  shows "b \<in> tj_closed s \<union> own s v"
proof (cases "a \<in> tj_closed s")
  case True
  then show ?thesis using inv_closed [OF closing_facts(1) [OF c] _ e] by blast
next
  case False
  note inv = closing_facts(1) [OF c] and frames = closing_facts(2) [OF c]
  note top = inv_top [OF inv frames] and own = own_top [OF inv frames]
  have al: "a \<in> own s v" "a \<in> tj_live s" "tj_order s ! v \<le> tj_order s ! a" using a False own by auto
  have "done_outs adj s a = set (outs adj a)"
  proof (cases "a = v")
    case True
    then show ?thesis using closing_facts(3) [OF c] by (simp add: done_outs_def frames)
  next
    case neq: False
    have "a \<notin> fst ` set rest" using top(3) al(3) by (meson leD)
    then show ?thesis using neq by (simp add: done_outs_def frames map_of_eq_None_iff [THEN iffD2])
  qed
  then have b: "b \<in> done_outs adj s a" using e by (simp add: edge_iff)
  then have "b \<in> tj_seen s" using inv_examined [OF inv al(2)] by blast
  moreover have "tj_order s ! v \<le> tj_order s ! b" if "b \<in> tj_live s"
    using inv_bound [OF inv _ al(1) b that] closing_facts(4) [OF c] frames by simp
  ultimately show ?thesis by (auto simp: own tj_closed_def)
qed

lemma closing_reaches:
  assumes c: "closing v pos rest s"
  shows "w \<in> own s v \<Longrightarrow> (w, v) \<in> edges\<^sup>*"
proof (induction "tj_order s ! w" arbitrary: w rule: less_induct)
  case less
  note inv = closing_facts(1) [OF c] and frames = closing_facts(2) [OF c]
  note top = inv_top [OF inv frames] and own = own_top [OF inv frames]
  show ?case
  proof (cases "w = v")
    case False
    have w: "w \<in> tj_live s" "tj_order s ! v \<le> tj_order s ! w" using less.prems own by auto
    then have "w \<notin> fst ` set (tj_frames s)" using False frames top(3) by fastforce
    then have low: "tj_low s ! w < tj_order s ! w" by (rule inv_left [OF inv w(1)])
    obtain u where u: "u \<in> tj_live s" "tj_order s ! u = tj_low s ! w" "(w, u) \<in> edges\<^sup>*"
      using inv_witness [OF inv w(1)] by blast
    have "u \<in> tj_closed s \<union> own s v"
      using u(3) _ closing_forward [OF c] by (rule closed_reach) (use less.prems in blast)
    then have "u \<in> own s v" using u(1) by (auto simp: tj_closed_def)
    then have "(u, v) \<in> edges\<^sup>*" using less.hyps [of u] low u(2) by simp
    then show ?thesis using u(3) by (rule rtrancl_trans [rotated])
  qed simp
qed

lemma closing_scc:
  assumes c: "closing v pos rest s"
  shows "scc_of edges v = own s v"
proof
  note inv = closing_facts(1) [OF c] and frames = closing_facts(2) [OF c]
  note top = inv_top [OF inv frames] and own = own_top [OF inv frames]
  have v: "v \<in> own s v" using top(1) own by simp
  show "own s v \<subseteq> scc_of edges v"
    using closing_reaches [OF c] inv_reach [OF inv, of v] frames own by (auto simp: scc_of_def)
  show "scc_of edges v \<subseteq> own s v"
  proof
    fix u assume "u \<in> scc_of edges v"
    then have u: "(v, u) \<in> edges\<^sup>*" "(u, v) \<in> edges\<^sup>*" by (simp_all add: scc_of_def)
    have "u \<in> tj_closed s \<union> own s v" using u(1) _ closing_forward [OF c] by (rule closed_reach) (use v in blast)
    moreover have "u \<notin> tj_closed s"
    proof
      assume "u \<in> tj_closed s"
      with u(2) have "v \<in> tj_closed s" by (rule closed_reach) (rule inv_closed [OF inv])
      then show False using top(1) by (simp add: tj_closed_def)
    qed
    ultimately show "u \<in> own s v" by blast
  qed
qed

text \<open>The state after the component is closed.\<close>

lemma left_closing:
  assumes c: "closing v pos rest s"
  shows "left_frame v rest s = s\<lparr>tj_frames := rest\<rparr>"
proof (cases rest)
  case (Cons p rest')
  note inv = closing_facts(1) [OF c] and frames = closing_facts(2) [OF c]
  have "fst p \<in> tj_live s" "tj_order s ! fst p < tj_order s ! v" using inv_top(3,5) [OF inv frames] Cons by auto
  then have "tj_low s ! fst p < tj_low s ! v" using inv_low [OF inv, of "fst p"] closing_facts(4) [OF c] by simp
  then show ?thesis using Cons by (cases p) (simp add: left_frame_def min_def)
qed (simp add: left_frame_def)

lemma closed_state:
  assumes c: "closing v pos rest s"
  defines "s' \<equiv> tj_close adj v (left_frame v rest s)"
  shows "tj_order s' = tj_order s" and "tj_low s' = tj_low s" and "tj_next s' = tj_next s" and "tj_frames s' = rest"
    and "length (tj_on s') = length (tj_on s)" and "tj_seen s' = tj_seen s" and "tj_live s' = tj_live s - own s v"
    and "tj_closed s' = tj_closed s \<union> own s v" and "set (tj_stack s') = tj_live s'"
    and "sorted_wrt (\<lambda>a b. tj_order s ! b < tj_order s ! a) (tj_stack s')"
    and "tj_found s' = tj_found s @ (if (v, v) \<in> edges\<^sup>+ then [scc_ids v] else [])"
proof -
  note inv = closing_facts(1) [OF c] and frames = closing_facts(2) [OF c]
  note top = inv_top [OF inv frames] and own = own_top [OF inv frames]
  have sh: "shape s" using inv by (simp add: tj_inv_def)
  then have stack: "set (tj_stack s) = tj_live s" "sorted_wrt (\<lambda>a b. tj_order s ! b < tj_order s ! a) (tj_stack s)"
    "tj_live s \<subseteq> tj_seen s" "length (tj_on s) = nv" by (simp_all add: shape_def)
  obtain popped left where pop: "pop_until v (tj_stack s) = (popped, left)" by fastforce
  note split = pop_until_spec [OF stack(2) _ pop]
  have parts: "tj_stack s = popped @ left" "set popped = own s v" "set left = tj_live s - own s v"
    using split top(1) own by (auto simp: stack(1))
  have range: "u < nv" if "u \<in> own s v" for u using that own stack(4) by (auto simp: tj_live_def)
  have s': "s' = (let t = s\<lparr>tj_frames := rest, tj_stack := left, tj_on := fold (\<lambda>w on. on[w := False]) popped (tj_on s)\<rparr>
      in if 2 \<le> length popped \<or> (\<exists>x \<in> set (outgoing adj v). i_other x = v)
         then t\<lparr>tj_found := tj_found s @ [sort (map (adj_id adj) popped)]\<rparr> else t)"
    by (simp add: s'_def tj_close_def left_closing [OF c] pop)
  show fields: "tj_order s' = tj_order s" "tj_low s' = tj_low s" "tj_next s' = tj_next s" "tj_frames s' = rest"
    "length (tj_on s') = length (tj_on s)"
    by (simp_all add: s' Let_def)
  show seen: "tj_seen s' = tj_seen s" by (simp add: tj_seen_def fields)
  have on: "tj_on s' = fold (\<lambda>w on. on[w := False]) popped (tj_on s)" "tj_stack s' = left" by (simp_all add: s' Let_def)
  show live: "tj_live s' = tj_live s - own s v"
    by (auto simp: tj_live_def on fold_clear parts(2))
  show "tj_closed s' = tj_closed s \<union> own s v"
    using own stack(3) by (auto simp: tj_closed_def seen live)
  show "set (tj_stack s') = tj_live s'" by (simp add: on live parts(3))
  show "sorted_wrt (\<lambda>a b. tj_order s ! b < tj_order s ! a) (tj_stack s')"
    using stack(2) by (simp add: on parts(1) sorted_wrt_append)
  have dist: "distinct popped" using sorted_wrt_less_distinct [OF stack(2)] by (simp add: parts(1))
  have "inj_on (adj_id adj) (set popped)"
    using range ids_distinct by (auto simp: inj_on_def parts(2) adj_id_def adj_len_def nth_eq_iff_index_eq)
  then have "distinct (map (adj_id adj) popped)" using dist by (simp add: distinct_map)
  then have members: "sort (map (adj_id adj) popped) = scc_ids v"
    using sorted_list_of_set_sort_remdups [of "map (adj_id adj) popped"]
    by (simp add: scc_ids_def closing_scc [OF c] parts(2) distinct_remdups_id)
  have "(v, v) \<in> edges \<longleftrightarrow> (\<exists>x \<in> set (outgoing adj v). i_other x = v)"
    using top(2) range by (auto simp: edge_iff outs_def own top(1) tj_live_def)
  moreover have "(\<exists>u \<in> scc_of edges v. u \<noteq> v) \<longleftrightarrow> 2 \<le> length popped"
  proof -
    have "v \<in> set popped" using top(1) own by (simp add: parts(2))
    then have "(\<exists>u \<in> set popped. u \<noteq> v) \<longleftrightarrow> 1 < card (set popped)"
      by (metis card_le_Suc0_iff_eq List.finite_set not_less One_nat_def)
    then show ?thesis using dist by (simp add: closing_scc [OF c] parts(2) [symmetric] distinct_card numeral_2_eq_2 Suc_le_eq)
  qed
  ultimately have "(v, v) \<in> edges\<^sup>+ \<longleftrightarrow> 2 \<le> length popped \<or> (\<exists>x \<in> set (outgoing adj v). i_other x = v)"
    unfolding cyclic_iff by blast
  then show "tj_found s' = tj_found s @ (if (v, v) \<in> edges\<^sup>+ then [scc_ids v] else [])"
    by (simp add: s' Let_def members)
qed

lemma scc_range: "x \<in> scc_of edges y \<Longrightarrow> y < nv \<Longrightarrow> x < nv"
proof -
  assume "x \<in> scc_of edges y" and "y < nv"
  then have "(y, x) \<in> edges\<^sup>*" "y \<in> {..<nv}" by (simp_all add: scc_of_def)
  then have "x \<in> {..<nv}" by (rule closed_reach) (use edge_range in blast)
  then show "x < nv" by simp
qed

lemma set_scc_ids:
  assumes "v < nv"
  shows "set (scc_ids v) = adj_id adj ` scc_of edges v"
proof -
  have "scc_of edges v \<subseteq> {..<nv}" by (intro subsetI lessThan_iff [THEN iffD2] scc_range [OF _ assms])
  then have "finite (scc_of edges v)" by (rule finite_subset) simp
  then show ?thesis by (simp add: scc_ids_def)
qed

lemma adj_id_inject: "x < nv \<Longrightarrow> y < nv \<Longrightarrow> adj_id adj x = adj_id adj y \<longleftrightarrow> x = y"
  using ids_distinct by (simp add: adj_id_def adj_len_def nth_eq_iff_index_eq)

lemma scc_ids_member:
  assumes "scc_ids u = scc_ids v" and "u < nv" and "v < nv"
  shows "v \<in> scc_of edges u"
proof -
  have "adj_id adj v \<in> set (scc_ids v)" by (simp add: set_scc_ids [OF assms(3)])
  then have "adj_id adj v \<in> adj_id adj ` scc_of edges u" by (simp add: assms(1) [symmetric] set_scc_ids [OF assms(2)])
  then obtain x where x: "x \<in> scc_of edges u" "adj_id adj v = adj_id adj x" by blast
  then have "v = x" using adj_id_inject [OF assms(3) scc_range [OF x(1) assms(2)]] by simp
  then show ?thesis using x(1) by simp
qed

lemma inv_close:
  assumes c: "closing v pos rest s"
  shows "tj_inv {} (tj_close adj v (left_frame v rest s))"
proof -
  let ?s = "tj_close adj v (left_frame v rest s)"
  note inv = closing_facts(1) [OF c] and frames = closing_facts(2) [OF c] and st = closed_state [OF c]
  note top = inv_top [OF inv frames] and own = own_top [OF inv frames]
  have sh: "shape s" using inv by (simp add: tj_inv_def)
  have done_eq: "done_outs adj ?s u = done_outs adj s u" if "u \<in> tj_live ?s" for u
  proof -
    have "u \<noteq> v" using that top(1) own by (auto simp: st(7))
    then show ?thesis by (simp add: done_outs_def st(4) frames)
  qed
  have below: "u \<in> tj_live s \<and> tj_order s ! u < tj_order s ! v" if "u \<in> tj_live ?s" for u
  proof -
    have "u \<in> tj_live s" "u \<notin> own s v" using that unfolding st(7) by blast+
    then show ?thesis unfolding own by (simp add: not_le)
  qed
  have keeps: "u \<in> tj_live ?s" if "u \<in> tj_live s" "tj_order s ! u < tj_order s ! v" for u
    unfolding st(7) own using that by simp
  have "fst ` set rest \<subseteq> tj_live ?s" using keeps top(3,5) by blast
  moreover have "tj_live ?s \<subseteq> tj_seen ?s" using sh by (auto simp: st(6,7) shape_def)
  moreover have "sorted_wrt (\<lambda>a b. tj_order s ! b < tj_order s ! a) (map fst rest)" using sh frames by (simp add: shape_def)
  ultimately have "shape ?s"
    using sh unfolding shape_def st(1-6,9) by (auto simp: st(10))
  moreover have "examined {} ?s"
    unfolding examined_def
  proof (intro conjI ballI allI impI)
    show "w \<in> tj_closed ?s" if "u \<in> tj_closed ?s" "(u, w) \<in> edges" for u w
      using closing_forward [OF c _ that(2)] that(1) by (simp add: st(8))
    show "done_outs adj ?s u \<subseteq> tj_seen ?s \<union> {}" if "u \<in> tj_live ?s" for u
      using inv_examined [OF inv, of u] below [OF that] by (auto simp: done_eq [OF that] st(6))
  qed
  moreover have "lows ?s"
    unfolding lows_def st(1,2,4)
  proof (intro conjI ballI)
    fix u assume u: "u \<in> tj_live ?s"
    note low = inv_low [OF inv below [OF u, THEN conjunct1]]
    then show "tj_low s ! u \<le> tj_order s ! u" .
    obtain x where "x \<in> tj_live s" "tj_order s ! x = tj_low s ! u" "(u, x) \<in> edges\<^sup>*"
      using inv_witness [OF inv below [OF u, THEN conjunct1]] by blast
    then show "\<exists>x \<in> tj_live ?s. tj_order s ! x = tj_low s ! u \<and> (u, x) \<in> edges\<^sup>*"
      using keeps [of x] low below [OF u] by auto
  next
    fix u assume u: "u \<in> tj_live ?s - fst ` set rest"
    then have "u \<noteq> v" using below [of u] by auto
    then show "tj_low s ! u < tj_order s ! u" using inv_left [OF inv, of u] u below [of u] frames by auto
  qed
  moreover have "frames_reach ?s"
    unfolding frames_reach_def st(1,4) using inv_reach [OF inv] below frames by auto
  moreover have "bounded ?s"
    unfolding bounded_def st(1,2,4)
  proof (intro ballI)
    fix f w x assume f: "f \<in> fst ` set rest" and w: "w \<in> own ?s f" and x: "x \<in> done_outs adj ?s w \<inter> tj_live ?s"
    have wl: "w \<in> tj_live ?s" using w by (simp add: own_def)
    have "w \<in> own s f" using w below [OF wl] by (auto simp: own_def st(1,4) frames)
    then show "tj_low s ! f \<le> tj_order s ! x"
      using inv_bound [OF inv, of f w x] f frames x below by (auto simp: done_eq [OF wl])
  qed
  moreover have "found_ok ?s"
  proof -
    have old: "distinct (tj_found s)" "set (tj_found s) = {scc_ids u | u. u \<in> tj_closed s \<and> (u, u) \<in> edges\<^sup>+}"
      using inv by (simp_all add: tj_inv_def found_ok_def)
    have mem: "scc_ids u = scc_ids v \<and> ((u, u) \<in> edges\<^sup>+ \<longleftrightarrow> (v, v) \<in> edges\<^sup>+)" if "u \<in> own s v" for u
      using that scc_cyclic [of u edges v] scc_of_eq [of u edges v] by (simp add: closing_scc [OF c] scc_ids_def)
    have v: "v \<in> own s v" using top(1) own by simp
    have "{scc_ids u | u. u \<in> tj_closed ?s \<and> (u, u) \<in> edges\<^sup>+} =
        set (tj_found s) \<union> (if (v, v) \<in> edges\<^sup>+ then {scc_ids v} else {})"
    proof (intro set_eqI iffI)
      fix c assume "c \<in> {scc_ids u | u. u \<in> tj_closed ?s \<and> (u, u) \<in> edges\<^sup>+}"
      then obtain u where u: "c = scc_ids u" "u \<in> tj_closed s \<union> own s v" "(u, u) \<in> edges\<^sup>+" unfolding st(8) by blast
      show "c \<in> set (tj_found s) \<union> (if (v, v) \<in> edges\<^sup>+ then {scc_ids v} else {})"
      proof (cases "u \<in> own s v")
        case True
        then show ?thesis using mem [OF True] u(1,3) by simp
      next
        case False
        then show ?thesis using u unfolding old(2) by blast
      qed
    next
      fix c assume "c \<in> set (tj_found s) \<union> (if (v, v) \<in> edges\<^sup>+ then {scc_ids v} else {})"
      then have "(\<exists>u. c = scc_ids u \<and> u \<in> tj_closed s \<and> (u, u) \<in> edges\<^sup>+) \<or> (c = scc_ids v \<and> (v, v) \<in> edges\<^sup>+)"
        unfolding old(2) by (simp split: if_splits)
      then show "c \<in> {scc_ids u | u. u \<in> tj_closed ?s \<and> (u, u) \<in> edges\<^sup>+}" using v unfolding st(8) by blast
    qed
    moreover have "scc_ids v \<notin> set (tj_found s)"
    proof
      assume "scc_ids v \<in> set (tj_found s)"
      then obtain u where u: "u \<in> tj_closed s" "scc_ids u = scc_ids v" unfolding old(2) by auto
      then have "u < nv" using sh by (auto simp: tj_closed_def tj_seen_def shape_def)
      then have "(u, v) \<in> edges\<^sup>*" using scc_ids_member [OF u(2) _ top(2)] by (simp add: scc_of_def)
      then have "v \<in> tj_closed s" using u(1) by (rule closed_reach) (rule inv_closed [OF inv])
      then show False using top(1) by (simp add: tj_closed_def)
    qed
    ultimately show ?thesis using old(1) by (simp add: found_ok_def st(11))
  qed
  ultimately show ?thesis by (simp add: tj_inv_def)
qed

subsection \<open>The loop\<close>

definition unseen :: "tarjan \<Rightarrow> nat" where
  "unseen s = card ({..<nv} - tj_seen s)"

definition frame_work :: "tarjan \<Rightarrow> nat" where
  "frame_work s = (\<Sum>(v, p) \<leftarrow> tj_frames s. Suc (length (outs adj v)) - p)"

text \<open>What one pass of the body gives: the invariant again, and less to do.\<close>

definition advances :: "tarjan \<Rightarrow> tarjan \<Rightarrow> bool" where
  "advances s s' \<longleftrightarrow>
     tj_inv {} s' \<and> tj_seen s \<subseteq> tj_seen s' \<and> (unseen s' < unseen s \<or> (unseen s' = unseen s \<and> frame_work s' < frame_work s))"

lemma moved_same: "s\<lparr>tj_frames := (v, Suc pos) # rest\<rparr> = moved v pos rest (tj_low s ! v) s"
  by (simp add: moved_def)

lemma advances_moved:
  assumes "tj_inv {} (moved v pos rest l s)" and "tj_frames s = (v, pos) # rest" and "pos < length (outs adj v)"
  shows "advances s (moved v pos rest l s)"
  using assms by (simp add: advances_def unseen_def frame_work_def)

lemma open_advances:
  assumes inv: "tj_inv {} s" and frames: "tj_frames s = (v, pos) # rest" and pos: "pos < length (outs adj v)"
    and w: "w = outs adj v ! pos" "w \<notin> tj_seen s"
  shows "advances s (tj_open w (moved v pos rest (tj_low s ! v) s))"
proof -
  let ?m = "moved v pos rest (tj_low s ! v) s"
  note top = inv_top [OF inv frames]
  have edge: "(v, w) \<in> edges" using top(2) pos w(1) by (simp add: edge_iff)
  have live: "w \<notin> tj_live s" using inv w(2) by (auto simp: tj_inv_def shape_def)
  have moved: "tj_inv {w} ?m"
  proof (rule inv_moved [OF inv frames pos order_refl inv_witness [OF inv top(1)]])
    show "tj_low s ! v \<le> tj_order s ! (outs adj v ! pos)" if "outs adj v ! pos \<in> tj_live s" using that live w(1) by simp
  qed (simp add: w(1))
  have wn: "w < nv" using edge_range [OF edge] by simp
  have "(f, w) \<in> edges\<^sup>*" if "f \<in> fst ` set (tj_frames ?m)" for f
  proof -
    have "f = v \<or> f \<in> fst ` set rest" using that by simp
    then have f: "f \<in> fst ` set (tj_frames s)" "tj_order s ! f \<le> tj_order s ! v"
      using frames top(3) [of f] by (auto intro: less_imp_le)
    show ?thesis using inv_reach [OF inv f(1) top(1) f(2)] edge by (rule rtrancl_into_rtrancl)
  qed
  then have opened: "tj_inv {} (tj_open w ?m)" using inv_open [OF moved wn] w(2) by simp
  have "shape ?m" using moved by (simp add: tj_inv_def)
  then have seen: "tj_seen (tj_open w ?m) = insert w (tj_seen s)" using opened_sets(1) [of ?m w] wn w(2) by simp
  have "{..<nv} - insert w (tj_seen s) \<subset> {..<nv} - tj_seen s" using wn w(2) by auto
  then have "unseen (tj_open w ?m) < unseen s" unfolding unseen_def seen by (intro psubset_card_mono) simp_all
  then show ?thesis using opened by (auto simp: advances_def seen)
qed

lemma frame_work_pop: "tj_frames s = (v, pos) # rest \<Longrightarrow> pos \<le> length (outs adj v) \<Longrightarrow> tj_frames s' = rest \<Longrightarrow> frame_work s' < frame_work s"
  by (simp add: frame_work_def)

text \<open>A frame's position does not run past its edges.\<close>

definition frames_fit :: "tarjan \<Rightarrow> bool" where
  "frames_fit s \<longleftrightarrow> (\<forall>(v, p) \<in> set (tj_frames s). p \<le> length (outs adj v))"

lemma step_advances:
  assumes inv: "tj_inv {} s" and fit: "frames_fit s" and ne: "tj_frames s \<noteq> []"
  defines "t \<equiv> tj_enter (fst (tj_examine adj s)) (snd (tj_examine adj s))"
  shows "advances s t" and "frames_fit t"
proof -
  obtain v pos rest where frames: "tj_frames s = (v, pos) # rest" using ne by (cases "tj_frames s") auto
  note top = inv_top [OF inv frames]
  have fits: "pos \<le> length (outs adj v)" "\<forall>(v, p) \<in> set rest. p \<le> length (outs adj v)" using fit frames by (auto simp: frames_fit_def)
  have len: "length (outs adj v) = length (outgoing adj v)" by (simp add: outs_def)
  show "advances s t" "frames_fit t"
  proof -
    consider (edge) "pos < length (outs adj v)" | (leave) "pos = length (outs adj v)" using fits(1) by linarith
    then have "advances s t \<and> frames_fit t"
    proof cases
      case edge
      define w where "w = outs adj v ! pos"
      have wx: "i_other (outgoing adj v ! pos) = w" using edge by (simp add: w_def outs_def)
      have wn: "w < nv" using edge_range [of v w] edge top(2) by (simp add: edge_iff w_def)
      have sizes: "length (tj_order s) = nv" "length (tj_on s) = nv" using inv by (simp_all add: tj_inv_def shape_def)
      have seen: "w \<in> tj_seen s \<longleftrightarrow> tj_order s ! w \<noteq> UNSEEN" using wn sizes by (simp add: tj_seen_def)
      have live: "w \<in> tj_live s \<longleftrightarrow> tj_on s ! w" using wn sizes by (simp add: tj_live_def)
      have ex: "tj_examine adj s =
          (if tj_order s ! w = UNSEEN then (Some w, moved v pos rest (tj_low s ! v) s)
           else if tj_on s ! w then (None, moved v pos rest (min (tj_low s ! v) (tj_order s ! w)) s)
           else (None, moved v pos rest (tj_low s ! v) s))"
        using edge len by (simp add: tj_examine_def frames Let_def wx moved_def)
      consider (new) "w \<notin> tj_seen s" | (stacked) "w \<in> tj_seen s" "w \<in> tj_live s" | (gone) "w \<in> tj_seen s" "w \<notin> tj_live s" by blast
      then show ?thesis
      proof cases
        case new
        then have t: "t = tj_open w (moved v pos rest (tj_low s ! v) s)"
          using ex seen by (simp add: t_def tj_enter_def)
        show ?thesis using open_advances [OF inv frames edge w_def new] fits edge unfolding t by (simp add: frames_fit_def)
      next
        case stacked
        then have t: "t = moved v pos rest (min (tj_low s ! v) (tj_order s ! w)) s"
          using ex seen live by (simp add: t_def tj_enter_def)
        have "\<exists>u. u \<in> tj_live s \<and> tj_order s ! u = min (tj_low s ! v) (tj_order s ! w) \<and> (v, u) \<in> edges\<^sup>*"
        proof (cases "tj_low s ! v \<le> tj_order s ! w")
          case True
          then show ?thesis using inv_witness [OF inv top(1)] by (simp add: min_def)
        next
          case False
          have "(v, w) \<in> edges" using edge top(2) by (simp add: edge_iff w_def)
          then show ?thesis using False stacked(2) by (intro exI [of _ w]) (auto simp: min_def)
        qed
        then have "tj_inv {} t" unfolding t
          by (intro inv_moved [OF inv frames edge]) (use stacked in \<open>simp_all add: w_def\<close>)
        then show ?thesis using advances_moved [OF _ frames edge] fits edge unfolding t by (simp add: frames_fit_def)
      next
        case gone
        then have t: "t = moved v pos rest (tj_low s ! v) s"
          using ex seen live by (simp add: t_def tj_enter_def)
        have "tj_inv {} t" unfolding t
          by (intro inv_moved [OF inv frames edge order_refl inv_witness [OF inv top(1)]]) (use gone in \<open>simp_all add: w_def\<close>)
        then show ?thesis using advances_moved [OF _ frames edge] fits edge unfolding t by (simp add: frames_fit_def)
      qed
    next
      case leave
      let ?l = "left_frame v rest s"
      have lowv: "tj_low ?l ! v = tj_low s ! v" using left_low [OF inv frames] top(4) by (cases rest) auto
      have ex: "tj_examine adj s = (if tj_low s ! v \<noteq> tj_order s ! v then (None, ?l) else (None, tj_close adj v ?l))"
        using leave len lowv by (simp add: tj_examine_def frames Let_def left_frame_def)
      show ?thesis
      proof (cases "tj_low s ! v = tj_order s ! v")
        case False
        then have t: "t = ?l" using ex by (simp add: t_def tj_enter_def)
        have "tj_inv {} t" unfolding t using inv_low [OF inv top(1)] False leave by (intro inv_leave [OF inv frames]) simp_all
        then show ?thesis using frame_work_pop [OF frames fits(1), of t] fits(2)
          by (simp add: advances_def unseen_def frames_fit_def t)
      next
        case True
        then have t: "t = tj_close adj v ?l" using ex by (simp add: t_def tj_enter_def)
        have c: "closing v pos rest s" using inv frames leave True by (simp add: closing_def)
        note st = closed_state [OF c]
        show ?thesis using inv_close [OF c] frame_work_pop [OF frames fits(1) st(4)] fits(2)
          by (simp add: advances_def unseen_def frames_fit_def t st(4,6))
      qed
    qed
    then show "advances s t" "frames_fit t" by simp_all
  qed
qed

lemma loop_returns:
  "tj_inv {} (tj_enter e s) \<Longrightarrow> frames_fit (tj_enter e s) \<Longrightarrow>
   \<exists>s'. tj_loop adj e s = Some s' \<and> tj_inv {} s' \<and> tj_frames s' = [] \<and> tj_seen (tj_enter e s) \<subseteq> tj_seen s'"
proof (induction "(unseen (tj_enter e s), frame_work (tj_enter e s))" arbitrary: e s rule: less_induct)
  case less
  let ?t = "tj_enter e s"
  show ?case
  proof (cases "tj_frames ?t = []")
    case True
    then show ?thesis using less.prems by (simp add: tj_loop.simps)
  next
    case False
    let ?e = "fst (tj_examine adj ?t)" and ?s = "snd (tj_examine adj ?t)"
    note step = step_advances [OF less.prems False]
    then have "(unseen (tj_enter ?e ?s), frame_work (tj_enter ?e ?s)) < (unseen ?t, frame_work ?t)"
      by (auto simp: advances_def)
    then obtain s' where "tj_loop adj ?e ?s = Some s'" "tj_inv {} s'" "tj_frames s' = []" "tj_seen (tj_enter ?e ?s) \<subseteq> tj_seen s'"
      using less.hyps [of ?e ?s] step by (auto simp: advances_def)
    moreover have "tj_seen ?t \<subseteq> tj_seen (tj_enter ?e ?s)" using step(1) by (simp add: advances_def)
    moreover have "tj_loop adj e s = tj_loop adj ?e ?s" using False by (subst tj_loop.simps) simp
    ultimately show ?thesis by auto
  qed
qed

lemma live_frames: "tj_inv {} s \<Longrightarrow> tj_frames s = [] \<Longrightarrow> tj_live s = {}"
proof -
  assume inv: "tj_inv {} s" and frames: "tj_frames s = []"
  have "w \<notin> tj_live s" for w
  proof (induction "tj_order s ! w" arbitrary: w rule: less_induct)
    case less
    show ?case
    proof
      assume w: "w \<in> tj_live s"
      have "tj_low s ! w < tj_order s ! w" using inv_left [OF inv w] frames by simp
      moreover obtain u where "u \<in> tj_live s" "tj_order s ! u = tj_low s ! w" using inv_witness [OF inv w] by blast
      ultimately show False using less [of u] by simp
    qed
  qed
  then show "tj_live s = {}" by blast
qed

lemma roots_return:
  "tj_inv {} s \<Longrightarrow> tj_frames s = [] \<Longrightarrow> \<forall>r \<in> set rs. r < nv \<Longrightarrow>
   \<exists>s'. fold_opt (tj_root adj) rs s = Some s' \<and> tj_inv {} s' \<and> tj_frames s' = [] \<and> tj_seen s \<union> set rs \<subseteq> tj_seen s'"
proof (induction rs arbitrary: s)
  case (Cons r rs)
  have sh: "shape s" and r: "r < nv" using Cons.prems by (simp_all add: tj_inv_def)
  have seen: "r \<in> tj_seen s \<longleftrightarrow> tj_order s ! r \<noteq> UNSEEN" using sh r by (simp add: tj_seen_def shape_def)
  obtain t where t: "tj_root adj r s = Some t" "tj_inv {} t" "tj_frames t = []" "insert r (tj_seen s) \<subseteq> tj_seen t"
  proof (cases "r \<in> tj_seen s")
    case True
    then show ?thesis using that [of s] Cons.prems seen by (simp add: tj_root_def insert_absorb)
  next
    case False
    have "tj_inv {r} s" using Cons.prems(1) by (auto simp: tj_inv_def examined_def)
    then have opened: "tj_inv {} (tj_enter (Some r) s)" using inv_open [of r s] r False Cons.prems(2) by (simp add: tj_enter_def)
    have fit: "frames_fit (tj_enter (Some r) s)" using Cons.prems(2) by (simp add: frames_fit_def tj_enter_def)
    obtain t where "tj_loop adj (Some r) s = Some t" "tj_inv {} t" "tj_frames t = []" "tj_seen (tj_enter (Some r) s) \<subseteq> tj_seen t"
      using loop_returns [OF opened fit] by blast
    moreover have "tj_seen (tj_enter (Some r) s) = insert r (tj_seen s)"
      using opened_sets(1) [OF sh r False] by (simp add: tj_enter_def)
    ultimately show ?thesis using that [of t] False seen by (simp add: tj_root_def)
  qed
  then show ?case using Cons.IH [OF t(2,3)] Cons.prems(3) by auto
qed simp

lemma inv_start: "tj_inv {} (tj_start nv)"
proof -
  have sets: "tj_seen (tj_start nv) = {}" "tj_live (tj_start nv) = {}" "tj_closed (tj_start nv) = {}"
    by (auto simp: tj_seen_def tj_live_def tj_closed_def tj_start_def)
  show ?thesis
    by (simp add: tj_inv_def shape_def examined_def lows_def frames_reach_def bounded_def found_ok_def sets) (simp add: tj_start_def)
qed

lemma components_found:
  "\<exists>found. strongly_connected adj = Some found \<and> sorted_wrt (\<lambda>a b. hd a < hd b) found \<and>
     set found = {scc_ids v | v. v < nv \<and> (v, v) \<in> edges\<^sup>+}"
proof -
  have "tj_frames (tj_start nv) = []" by (simp add: tj_start_def)
  from roots_return [OF inv_start this, of "[0..<nv]"]
  obtain s where s: "fold_opt (tj_root adj) [0..<nv] (tj_start nv) = Some s" "tj_inv {} s" "tj_frames s = []" "{..<nv} \<subseteq> tj_seen s"
    by (auto simp: atLeast_upt)
  have "tj_seen s \<subseteq> {..<nv}" using s(2) by (auto simp: tj_inv_def shape_def tj_seen_def)
  then have "tj_closed s = {..<nv}" using s(4) live_frames [OF s(2,3)] by (auto simp: tj_closed_def)
  then have found: "distinct (tj_found s)" "set (tj_found s) = {scc_ids v | v. v < nv \<and> (v, v) \<in> edges\<^sup>+}"
    using s(2) by (simp_all add: tj_inv_def found_ok_def)
  have "inj_on hd (set (tj_found s))"
  proof (rule inj_onI)
    fix a b assume ab: "a \<in> set (tj_found s)" "b \<in> set (tj_found s)" "hd a = hd b"
    obtain u v where u: "u < nv" "a = scc_ids u" and v: "v < nv" "b = scc_ids v" using ab(1,2) unfolding found(2) by auto
    have ne: "scc_ids x \<noteq> []" if "x < nv" for x
    proof -
      have "set (scc_ids x) \<noteq> {}" unfolding set_scc_ids [OF that] using scc_of_self [of x edges] by blast
      then show ?thesis by auto
    qed
    have "hd a \<in> adj_id adj ` scc_of edges u" using hd_in_set [OF ne [OF u(1)]] unfolding set_scc_ids [OF u(1)] u(2) .
    moreover have "hd a \<in> adj_id adj ` scc_of edges v" using hd_in_set [OF ne [OF v(1)]] unfolding set_scc_ids [OF v(1)] ab(3) v(2) .
    ultimately obtain x y where xy: "x \<in> scc_of edges u" "y \<in> scc_of edges v" "adj_id adj x = adj_id adj y" by auto
    then have "x = y" using adj_id_inject [OF scc_range [OF xy(1) u(1)] scc_range [OF xy(2) v(1)]] by simp
    then have "scc_of edges u = scc_of edges v" using scc_of_eq [OF xy(1)] scc_of_eq [OF xy(2)] by simp
    then show "a = b" by (simp add: u(2) v(2) scc_ids_def)
  qed
  then have "distinct (map hd (tj_found s))" using found(1) by (simp add: distinct_map)
  then have "distinct (map hd (sort_key hd (tj_found s)))"
    by (metis distinct_map distinct_sort set_sort)
  then have "sorted_wrt (<) (map hd (sort_key hd (tj_found s)))" by (simp add: strict_sorted_iff)
  then show ?thesis using s(1) found(2) by (simp add: strongly_connected_def sorted_wrt_map)
qed

end

subsection \<open>Graphs\<close>

lemma tarjan_build: "tarjan_graph (build g keep)"
  unfolding build_def
  by (intro tarjan_graph.intro indexed_graph_build tarjan_graph_axioms.intro adj_len_built_le)

interpretation built_cycles: tarjan_graph "build g keep" for g keep
  by (rule tarjan_build)

text \<open>Reachability through an injective renaming.\<close>

lemma trancl_image:
  assumes inj: "inj_on f A" and E: "E \<subseteq> A \<times> A" and a: "a \<in> A"
  shows "(f a, y) \<in> ((\<lambda>(u, v). (f u, f v)) ` E)\<^sup>+ \<longleftrightarrow> (\<exists>b \<in> A. y = f b \<and> (a, b) \<in> E\<^sup>+)"
proof
  assume "(f a, y) \<in> ((\<lambda>(u, v). (f u, f v)) ` E)\<^sup>+"
  then show "\<exists>b \<in> A. y = f b \<and> (a, b) \<in> E\<^sup>+"
  proof (induction rule: trancl_induct)
    case (base y)
    then obtain u v where "(u, v) \<in> E" "f a = f u" "y = f v" by auto
    moreover from this have "a = u" using inj a E by (auto dest: inj_onD)
    ultimately show ?case using E by auto
  next
    case (step y z)
    then obtain b u v where b: "b \<in> A" "y = f b" "(a, b) \<in> E\<^sup>+" and u: "(u, v) \<in> E" "y = f u" "z = f v" by auto
    then have "b = u" using inj E by (auto dest: inj_onD)
    then show ?case using b u E by (auto intro: trancl_into_trancl)
  qed
next
  assume "\<exists>b \<in> A. y = f b \<and> (a, b) \<in> E\<^sup>+"
  then obtain b where b: "y = f b" "(a, b) \<in> E\<^sup>+" by blast
  show "(f a, y) \<in> ((\<lambda>(u, v). (f u, f v)) ` E)\<^sup>+"
    unfolding b(1) using b(2)
  proof (induction rule: trancl_induct)
    case (step b c)
    then have "(f b, f c) \<in> (\<lambda>(u, v). (f u, f v)) ` E" by auto
    with step.IH show ?case by (rule trancl_into_trancl)
  qed auto
qed

lemma scc_image:
  assumes inj: "inj_on f A" and E: "E \<subseteq> A \<times> A" and a: "a \<in> A"
  shows "scc_of ((\<lambda>(u, v). (f u, f v)) ` E) (f a) = f ` scc_of E a"
proof (intro set_eqI iffI)
  let ?R = "(\<lambda>(u, v). (f u, f v)) ` E"
  fix y assume "y \<in> scc_of ?R (f a)"
  then have y: "(f a, y) \<in> ?R\<^sup>*" "(y, f a) \<in> ?R\<^sup>*" by (simp_all add: scc_of_def)
  show "y \<in> f ` scc_of E a"
  proof (cases "y = f a")
    case False
    then have "(f a, y) \<in> ?R\<^sup>+" using y(1) by (auto dest: rtranclD)
    then obtain b where b: "b \<in> A" "y = f b" "(a, b) \<in> E\<^sup>+" using trancl_image [OF inj E a] by blast
    have "(f b, f a) \<in> ?R\<^sup>+" using y(2) False b(2) by (auto dest: rtranclD)
    then obtain c where "c \<in> A" "f a = f c" "(b, c) \<in> E\<^sup>+" using trancl_image [OF inj E b(1)] by blast
    then have "(b, a) \<in> E\<^sup>+" using inj a by (auto dest: inj_onD)
    then show ?thesis using b by (auto simp: scc_of_def)
  qed simp
next
  let ?R = "(\<lambda>(u, v). (f u, f v)) ` E"
  have into: "(f u, f v) \<in> ?R\<^sup>*" if "(u, v) \<in> E\<^sup>*" for u v
    using that by (induction rule: rtrancl_induct) (auto intro: rtrancl_into_rtrancl)
  fix y assume "y \<in> f ` scc_of E a"
  then show "y \<in> scc_of ?R (f a)" by (auto simp: scc_of_def intro: into)
qed

lemma components_of_build:
  assumes "build_fits g keep u32_max" and "R = {(efrom e, eto e) | e. e \<in> set (kept_of keep (g_edges g))}"
  shows "\<exists>found. strongly_connected (build g keep) = Some found \<and>
    set ` set found = {scc_of R i | i. (i, i) \<in> R\<^sup>+} \<and>
    (\<forall>c \<in> set found. sorted_wrt (<) c) \<and> sorted_wrt (\<lambda>a b. hd a < hd b) found"
proof -
  let ?a = "build g keep"
  let ?E = "inc_rel ?a Forward"
  let ?n = "adj_len ?a"
  note fits = assms(1)
  have R: "(\<lambda>(u, v). (adj_id ?a u, adj_id ?a v)) ` ?E = R"
    using built_rel [OF fits refl refl, of Forward] by (simp add: build_def assms(2))
  have inj: "inj_on (adj_id ?a) {..<?n}"
    using built_cycles.adj_id_inject by (auto simp: inj_on_def)
  have E: "?E \<subseteq> {..<?n} \<times> {..<?n}" using built_cycles.edge_range by auto
  have cyc: "(adj_id ?a v, adj_id ?a v) \<in> R\<^sup>+ \<longleftrightarrow> (v, v) \<in> ?E\<^sup>+" if "v < ?n" for v
    unfolding R [symmetric] using trancl_image [OF inj E, of v "adj_id ?a v"] that inj by (auto dest: inj_onD)
  have scc: "set (built_cycles.scc_ids g keep v) = scc_of R (adj_id ?a v)" if "v < ?n" for v
    using scc_image [OF inj E, of v] that built_cycles.set_scc_ids [OF that] by (simp add: R)
  obtain found where found: "strongly_connected ?a = Some found" "sorted_wrt (\<lambda>a b. hd a < hd b) found"
    "set found = {built_cycles.scc_ids g keep v | v. v < ?n \<and> (v, v) \<in> ?E\<^sup>+}"
    using built_cycles.components_found by blast
  have "set ` set found = {scc_of R (adj_id ?a v) | v. v < ?n \<and> (adj_id ?a v, adj_id ?a v) \<in> R\<^sup>+}"
    unfolding found(3) using cyc scc by (fastforce simp: image_iff)
  also have "\<dots> = {scc_of R i | i. (i, i) \<in> R\<^sup>+}"
  proof -
    have "\<exists>v < ?n. i = adj_id ?a v" if cyclic: "(i, i) \<in> R\<^sup>+" for i
    proof -
      obtain j where "(i, j) \<in> R" using tranclD [OF cyclic] by blast
      then show ?thesis unfolding R [symmetric] using E by auto
    qed
    then show ?thesis by blast
  qed
  finally have "set ` set found = {scc_of R i | i. (i, i) \<in> R\<^sup>+}" .
  moreover have "\<forall>c \<in> set found. sorted_wrt (<) c"
    unfolding found(3) by (auto simp: built_cycles.scc_ids_def strict_sorted_iff)
  ultimately show ?thesis using found(1,2) by blast
qed

text \<open>C8: Tarjan's search finds the cycles. On the index of any graph that fits, \<open>strongly_connected\<close> returns; its
  components are, as sets, exactly the classes of mutual reachability (over the kept edges) of the
  nodes that lie on a cycle; each lists its ids ascending, and the list ascends by first id.\<close>

theorem strongly_connected_components:
  assumes "build_fits g keep u32_max" and "R = {(efrom e, eto e) | e. e \<in> set (kept_of keep (g_edges g))}"
  shows "\<exists>found. strongly_connected (build g keep) = Some found \<and>
    set ` set found = {scc_of R i | i. (i, i) \<in> R\<^sup>+} \<and>
    (\<forall>c \<in> set found. sorted_wrt (<) c) \<and> sorted_wrt (\<lambda>a b. hd a < hd b) found"
  by (rule components_of_build [OF assms])

definition loop_graph :: graph_source where
  "loop_graph = \<lparr>g_nodes = [1, 2, 3], g_edges = [edge_new 1 2 5 Strong, edge_new 2 1 6 Weak, edge_new 2 3 6 Weak]\<rparr>"

lemma strongly_connected_components_witness:
  "\<exists>found. strongly_connected (build loop_graph category_set_all) = Some found \<and>
     set ` set found = {scc_of {(1, 2), (2, 1), (2, 3)} i | i. (i, i) \<in> {(1 :: node_id, 2 :: node_id), (2, 1), (2, 3)}\<^sup>+}"
proof -
  have fits: "build_fits loop_graph category_set_all u32_max"
    by (simp add: build_fits_def loop_graph_def edge_new_def u32_max_def card_insert_if)
  have img: "{(efrom e, eto e) | e. e \<in> set es} = (\<lambda>e. (efrom e, eto e)) ` set es" for es by auto
  have R: "{(1 :: node_id, 2 :: node_id), (2, 1), (2, 3)} = {(efrom e, eto e) | e. e \<in> set (kept_of category_set_all (g_edges loop_graph))}"
    unfolding img by (simp add: loop_graph_def kept_of_def edge_new_def)
  show ?thesis using strongly_connected_components [OF fits R] by blast
qed

end
