(* ===== verification/StrataRuns.thy ===== *)
theory StrataRuns
  imports Strata Tarjan
begin

text \<open>
  Stratification is right: the tables over the components, the offences, and Kahn's loop over the
  condensation, which is acyclic, so every component is emitted after those it depends on.
\<close>

section \<open>Components of predicates\<close>

definition deps :: "dep_edge list \<Rightarrow> (nat \<times> nat) set" where
  "deps edges = {(de_body e, de_head e) | e. e \<in> set edges}"

text \<open>The components with a cycle, each ascending, ascending by first member.\<close>

definition comps_ok :: "(nat \<times> nat) set \<Rightarrow> nat list list \<Rightarrow> bool" where
  "comps_ok D comps \<longleftrightarrow>
     set ` set comps = {scc_of D p | p. (p, p) \<in> D\<^sup>+} \<and> (\<forall>c \<in> set comps. sorted_wrt (<) c) \<and>
     sorted_wrt (\<lambda>a b. hd a < hd b) comps"

lemma pred_count_ge: "npreds \<le> pred_count npreds edges \<and> (\<forall>e \<in> set edges. de_body e < pred_count npreds edges \<and> de_head e < pred_count npreds edges)"
proof -
  have "a \<le> fold max xs a \<and> (\<forall>x \<in> set xs. x \<le> fold max xs a)" for a :: nat and xs
  proof (induction xs arbitrary: a)
    case (Cons x xs)
    then show ?case using Cons.IH [of "max x a"] by fastforce
  qed simp
  from this [of npreds "map (\<lambda>e. max (de_body e) (de_head e) + 1) edges"] show ?thesis
    by (fastforce simp: pred_count_def)
qed

lemma deps_range: "deps edges \<subseteq> {..<pred_count npreds edges} \<times> {..<pred_count npreds edges}"
  using pred_count_ge [of npreds edges] by (auto simp: deps_def)

lemma word_of_nat_inj: "n \<le> 2 ^ 64 \<Longrightarrow> inj_on (of_nat :: nat \<Rightarrow> 64 word) {..<n}"
  by (rule inj_onI) (simp add: word_of_nat_eq_iff take_bit_nat_eq_self_iff [THEN iffD2])

lemma pred_components:
  assumes n: "n = pred_count npreds edges" "n \<le> u32_max" and len: "length edges \<le> u32_max"
  shows "\<exists>found. strongly_connected (build (pred_graph n edges) category_set_all) = Some found \<and>
    comps_ok (deps edges) (map (map (\<lambda>i. unat i mod 2 ^ 32)) found)"
proof -
  let ?g = "pred_graph n edges" and ?D = "deps edges" and ?f = "of_nat :: nat \<Rightarrow> node_id"
  define R where "R = (\<lambda>(u, v). (?f u, ?f v)) ` ?D"
  have kept: "kept_of category_set_all (g_edges ?g) = g_edges ?g" by (simp add: kept_of_def)
  have range: "de_body e < n \<and> de_head e < n" if "e \<in> set edges" for e using pred_count_ge that n(1) by blast
  have "set (g_nodes ?g @ endpoints (g_edges ?g)) \<subseteq> ?f ` {..<n}"
    using range by (auto simp: pred_graph_def endpoints_def edge_new_def)
  then have "card (set (g_nodes ?g @ endpoints (g_edges ?g))) \<le> card (?f ` {..<n})" by (intro card_mono) simp_all
  also have "\<dots> \<le> n" using card_image_le [of "{..<n}" ?f] by simp
  finally have fits: "build_fits ?g category_set_all u32_max"
    using n(2) len by (simp add: build_fits_def kept) (simp add: pred_graph_def)
  have "R = {(efrom e, eto e) | e. e \<in> set (kept_of category_set_all (g_edges ?g))}"
  proof -
    have img: "{(efrom e, eto e) | e. e \<in> set es} = (\<lambda>e. (efrom e, eto e)) ` set es" for es by auto
    have "?D = (\<lambda>e. (de_body e, de_head e)) ` set edges" by (auto simp: deps_def)
    then show ?thesis unfolding kept img R_def by (simp add: pred_graph_def edge_new_def image_image)
  qed
  from components_of_build [OF fits this] obtain found where found:
    "strongly_connected (build ?g category_set_all) = Some found" "set ` set found = {scc_of R i | i. (i, i) \<in> R\<^sup>+}"
    "\<forall>c \<in> set found. sorted_wrt (<) c" "sorted_wrt (\<lambda>a b. hd a < hd b) found" by blast
  have small: "n \<le> 2 ^ 32" "n \<le> 2 ^ 64" using n(2) by (simp_all add: u32_max_def)
  note inj = word_of_nat_inj [OF small(2)]
  have D: "?D \<subseteq> {..<n} \<times> {..<n}" using deps_range n(1) by simp
  have scc: "scc_of R (?f p) = ?f ` scc_of ?D p" if "p < n" for p
    using scc_image [OF inj D, of p] that by (simp add: R_def)
  have cyc: "(?f p, ?f p) \<in> R\<^sup>+ \<longleftrightarrow> (p, p) \<in> ?D\<^sup>+" if "p < n" for p
    unfolding R_def using trancl_image [OF inj D, of p "?f p"] that inj by (auto dest: inj_onD)
  have node: "\<exists>p < n. i = ?f p" if cyclic: "(i, i) \<in> R\<^sup>+" for i
  proof -
    obtain j where "(i, j) \<in> R" using tranclD [OF cyclic] by blast
    then show ?thesis using D by (auto simp: R_def)
  qed
  have sub: "scc_of ?D p \<subseteq> {..<n}" if "p < n" for p
  proof
    fix q assume "q \<in> scc_of ?D p"
    then have "(p, q) \<in> ?D\<^sup>*" by (simp add: scc_of_def)
    then show "q \<in> {..<n}" by (rule closed_reach) (use that D in auto)
  qed
  let ?u = "\<lambda>i :: node_id. unat i mod 2 ^ 32"
  have readback: "?u (?f p) = p" if "p < n" for p
    using that small by (simp add: unat_of_nat)
  have elem: "\<exists>p < n. set c = ?f ` scc_of ?D p \<and> (p, p) \<in> ?D\<^sup>+" if "c \<in> set found" for c
  proof -
    have "set c \<in> {scc_of R i | i. (i, i) \<in> R\<^sup>+}" using found(2) that by blast
    then obtain i where i: "set c = scc_of R i" "(i, i) \<in> R\<^sup>+" by blast
    obtain p where "p < n" "i = ?f p" using node [OF i(2)] by blast
    then show ?thesis using i scc cyc by blast
  qed
  have mono: "?u i < ?u j" if "i < j" "i \<in> ?f ` {..<n}" "j \<in> ?f ` {..<n}" for i j
    using that small by (auto simp: readback unat_of_nat word_less_nat_alt)
  have nodes: "set c \<subseteq> ?f ` {..<n}" "c \<noteq> []" if c: "c \<in> set found" for c
  proof -
    obtain p where p: "p < n" "set c = ?f ` scc_of ?D p" using elem [OF c] by blast
    show "set c \<subseteq> ?f ` {..<n}" using sub [OF p(1)] p(2) by blast
    have "?f p \<in> set c" unfolding p(2) using scc_of_self [of p ?D] by blast
    then show "c \<noteq> []" by auto
  qed
  have "set ` set (map (map ?u) found) = (\<lambda>C. ?u ` C) ` set ` set found" by (simp add: image_image)
  also have "\<dots> = {?u ` scc_of R i | i. (i, i) \<in> R\<^sup>+}" unfolding found(2) by blast
  also have "\<dots> = {scc_of ?D p | p. (p, p) \<in> ?D\<^sup>+}"
  proof -
    have image: "?u ` scc_of R (?f p) = scc_of ?D p" if "p < n" for p
    proof -
      have "(\<lambda>q. ?u (?f q)) ` scc_of ?D p = (\<lambda>q. q) ` scc_of ?D p"
        by (rule image_cong [OF refl readback]) (use sub [OF that] in blast)
      then show ?thesis unfolding scc [OF that] image_image by simp
    qed
    have small_cyc: "p < n" if cyclic: "(p, p) \<in> ?D\<^sup>+" for p using tranclD [OF cyclic] D by auto
    show ?thesis
    proof (intro set_eqI iffI)
      fix X assume "X \<in> {?u ` scc_of R i | i. (i, i) \<in> R\<^sup>+}"
      then obtain i where i: "X = ?u ` scc_of R i" "(i, i) \<in> R\<^sup>+" by blast
      then obtain p where "p < n" "i = ?f p" using node by blast
      then show "X \<in> {scc_of ?D p | p. (p, p) \<in> ?D\<^sup>+}" using i image cyc by blast
    next
      fix X assume "X \<in> {scc_of ?D p | p. (p, p) \<in> ?D\<^sup>+}"
      then obtain p where "X = scc_of ?D p" "(p, p) \<in> ?D\<^sup>+" by blast
      then show "X \<in> {?u ` scc_of R i | i. (i, i) \<in> R\<^sup>+}" using image cyc small_cyc by blast
    qed
  qed
  finally have "set ` set (map (map ?u) found) = {scc_of ?D p | p. (p, p) \<in> ?D\<^sup>+}" .
  moreover have "sorted_wrt (<) (map ?u c)" if "c \<in> set found" for c
  proof -
    have "sorted_wrt (<) c" using found(3) that by blast
    then show ?thesis unfolding sorted_wrt_map
      by (rule sorted_wrt_mono_rel [rotated]) (rule mono; use nodes(1) [OF that] in blast)
  qed
  moreover have "sorted_wrt (\<lambda>a b. hd a < hd b) (map (map ?u) found)"
    unfolding sorted_wrt_map
  proof (rule sorted_wrt_mono_rel [OF _ found(4)])
    fix a b assume ab: "a \<in> set found" "b \<in> set found" "hd a < hd b"
    have "hd a \<in> ?f ` {..<n}" "hd b \<in> ?f ` {..<n}" using nodes ab(1,2) hd_in_set by blast+
    then show "hd (map ?u a) < hd (map ?u b)" using mono [OF ab(3)] nodes(2) ab(1,2) by (simp add: hd_map)
  qed
  ultimately show ?thesis using found(1) by (auto simp: comps_ok_def)
qed

section \<open>The tables\<close>

text \<open>The representative of a predicate: its component's smallest member.\<close>

definition rep :: "(nat \<times> nat) set \<Rightarrow> nat \<Rightarrow> nat" where
  "rep D p = Min (scc_of D p)"

lemma scc_below: "D \<subseteq> {..<n} \<times> {..<n} \<Longrightarrow> p < n \<Longrightarrow> scc_of D p \<subseteq> {..<n}"
proof
  fix q assume D: "D \<subseteq> {..<n} \<times> {..<n}" and p: "p < n" and "q \<in> scc_of D p"
  then have "(p, q) \<in> D\<^sup>*" by (simp add: scc_of_def)
  then show "q \<in> {..<n}" by (rule closed_reach) (use p D in auto)
qed

lemma rep_facts:
  assumes D: "D \<subseteq> {..<n} \<times> {..<n}" and p: "p < n"
  shows "rep D p \<in> scc_of D p" and "rep D p < n" and "rep D (rep D p) = rep D p"
    and "q < n \<Longrightarrow> rep D p = rep D q \<longleftrightarrow> q \<in> scc_of D p"
proof -
  have mem: "rep D q \<in> scc_of D q" if "q < n" for q
  proof -
    have "scc_of D q \<noteq> {}" using scc_of_self [of q D] by blast
    then show ?thesis unfolding rep_def using finite_subset [OF scc_below [OF D that]] by (intro Min_in) auto
  qed
  show 1: "rep D p \<in> scc_of D p" by (rule mem [OF p])
  show "rep D p < n" using 1 scc_below [OF D p] by auto
  show "rep D (rep D p) = rep D p" using scc_of_eq [OF 1] by (simp add: rep_def)
  show "rep D p = rep D q \<longleftrightarrow> q \<in> scc_of D p" if q: "q < n"
  proof
    assume "rep D p = rep D q"
    then have "scc_of D p = scc_of D q" using scc_of_eq [OF 1] scc_of_eq [OF mem [OF q]] by simp
    then show "q \<in> scc_of D p" by simp
  next
    assume "q \<in> scc_of D p"
    from scc_of_eq [OF this] show "rep D p = rep D q" by (simp add: rep_def)
  qed
qed

lemma comps_member:
  assumes "comps_ok D comps" and "c \<in> set comps" and "p \<in> set c"
  shows "set c = scc_of D p" and "(p, p) \<in> D\<^sup>+" and "hd c = rep D p" and "c = sorted_list_of_set (scc_of D p)"
proof -
  have "set c \<in> {scc_of D p | p. (p, p) \<in> D\<^sup>+}" using assms(1,2) by (auto simp: comps_ok_def)
  then obtain q where q: "set c = scc_of D q" "(q, q) \<in> D\<^sup>+" by blast
  then have pq: "p \<in> scc_of D q" using assms(3) by simp
  show set: "set c = scc_of D p" using q(1) scc_of_eq [OF pq] by simp
  show "(p, p) \<in> D\<^sup>+" using q(2) scc_cyclic [OF pq] by simp
  have sort: "sorted_wrt (<) c" using assms(1,2) by (simp add: comps_ok_def)
  then show "c = sorted_list_of_set (scc_of D p)"
    unfolding set [symmetric] by (simp add: strict_sorted_iff sorted_list_of_set.idem_if_sorted_distinct)
  have ne: "c \<noteq> []" using assms(3) by auto
  have "Min (set c) = hd c" using sort ne by (cases c) (auto intro!: Min_eqI simp: less_imp_le)
  then show "hd c = rep D p" by (simp add: rep_def set)
qed

lemma comps_exist: "comps_ok D comps \<Longrightarrow> (p, p) \<in> D\<^sup>+ \<Longrightarrow> \<exists>c \<in> set comps. p \<in> set c"
proof -
  assume "comps_ok D comps" and cyc: "(p, p) \<in> D\<^sup>+"
  then have "scc_of D p \<in> set ` set comps" by (auto simp: comps_ok_def)
  then show ?thesis by (metis imageE scc_of_self)
qed

lemma mark_component_nth:
  "length (fst (mark_component c (cp, rc))) = length cp \<and> length (snd (mark_component c (cp, rc))) = length rc \<and>
   (p < length cp \<longrightarrow> fst (mark_component c (cp, rc)) ! p = (if p \<in> set c then hd c else cp ! p)) \<and>
   (p < length rc \<longrightarrow> snd (mark_component c (cp, rc)) ! p = (if p \<in> set c then True else rc ! p))"
proof -
  have "length (fst (fold f ms (cp, rc))) = length cp \<and> length (snd (fold f ms (cp, rc))) = length rc \<and>
     (p < length cp \<longrightarrow> fst (fold f ms (cp, rc)) ! p = (if p \<in> set ms then h else cp ! p)) \<and>
     (p < length rc \<longrightarrow> snd (fold f ms (cp, rc)) ! p = (if p \<in> set ms then True else rc ! p))"
    if "f = (\<lambda>p (cp, rc). (cp[p := h], rc[p := True]))" for f ms and h :: nat
    using that by (induction ms arbitrary: cp rc) (auto simp: nth_list_update)
  from this [OF refl, of "hd c" c] show ?thesis by (simp add: mark_component_def)
qed

lemma tables:
  assumes ok: "comps_ok D comps" and D: "D \<subseteq> {..<n} \<times> {..<n}" and n: "n < 2 ^ 32"
  shows "component_tables n comps = (map (rep D) [0..<n], map (\<lambda>p. (p, p) \<in> D\<^sup>+) [0..<n])"
proof -
  have folds: "length (fst (fold mark_component cs (cp, rc))) = length cp \<and> length (snd (fold mark_component cs (cp, rc))) = length rc \<and>
      (p < length cp \<longrightarrow> fst (fold mark_component cs (cp, rc)) ! p = (if \<exists>c \<in> set cs. p \<in> set c then rep D p else cp ! p)) \<and>
      (p < length rc \<longrightarrow> snd (fold mark_component cs (cp, rc)) ! p = (if \<exists>c \<in> set cs. p \<in> set c then True else rc ! p))"
    if "set cs \<subseteq> set comps" for cs cp rc p
    using that
  proof (induction cs arbitrary: cp rc)
    case (Cons c cs)
    obtain cp' rc' where m: "mark_component c (cp, rc) = (cp', rc')" by fastforce
    note mark = mark_component_nth [of c cp rc p, unfolded m]
    have "hd c = rep D p" if "p \<in> set c" using comps_member(3) [OF ok _ that] Cons.prems by auto
    then show ?case using Cons.IH [of cp' rc'] Cons.prems mark m by auto
  qed simp
  have cyc: "(\<exists>c \<in> set comps. p \<in> set c) \<longleftrightarrow> (p, p) \<in> D\<^sup>+" for p
    using comps_exist [OF ok] comps_member(2) [OF ok] by blast
  have alone: "rep D p = p" if "(p, p) \<notin> D\<^sup>+" for p
  proof -
    have "scc_of D p = {p}" using that unfolding cyclic_iff by auto
    then show ?thesis by (simp add: rep_def)
  qed
  have start: "u32_range n = [0..<n]" using n by (simp add: u32_range_def)
  show ?thesis
    unfolding component_tables_def
  proof (rule prod_eqI)
    show "fst (fold mark_component comps (u32_range n, replicate n False)) = fst (map (rep D) [0..<n], map (\<lambda>p. (p, p) \<in> D\<^sup>+) [0..<n])"
      using folds [OF order_refl, of "u32_range n" "replicate n False"] alone by (intro nth_equalityI) (auto simp: start cyc)
    show "snd (fold mark_component comps (u32_range n, replicate n False)) = snd (map (rep D) [0..<n], map (\<lambda>p. (p, p) \<in> D\<^sup>+) [0..<n])"
      using folds [OF order_refl, of "u32_range n" "replicate n False"] by (intro nth_equalityI) (auto simp: start cyc)
  qed
qed

section \<open>Offences\<close>

definition strict :: "dep_edge \<Rightarrow> bool" where
  "strict e \<longleftrightarrow> de_dep e \<noteq> Pos"

lemma offences:
  "\<forall>e \<in> set es. cp ! de_body e < length off \<Longrightarrow> r < length off \<Longrightarrow>
   length (fold (note_offence cp) es off) = length off \<and>
   fold (note_offence cp) es off ! r =
     (case off ! r of Some x \<Rightarrow> Some x
      | None \<Rightarrow> map_option (\<lambda>e. (de_dep e, de_site e)) (find (\<lambda>e. strict e \<and> cp ! de_body e = r \<and> cp ! de_head e = r) es))"
proof (induction es arbitrary: off)
  case (Cons e es)
  let ?off = "note_offence cp e off"
  have len: "length ?off = length off" by (simp add: note_offence_def)
  have nth: "?off ! r = (if strict e \<and> cp ! de_body e = r \<and> cp ! de_head e = r \<and> off ! r = None then Some (de_dep e, de_site e) else off ! r)"
    using Cons.prems by (auto simp: note_offence_def strict_def nth_list_update)
  show ?case using Cons.IH [of ?off] Cons.prems len nth by (auto split: option.split)
qed (simp split: option.split)

text \<open>An offence of a component: its first strict edge with both ends inside.\<close>

definition offence_of :: "dep_edge list \<Rightarrow> nat set \<Rightarrow> dep_edge option" where
  "offence_of edges S = find (\<lambda>e. strict e \<and> de_body e \<in> S \<and> de_head e \<in> S) edges"

lemma find_cong: "(\<And>x. x \<in> set xs \<Longrightarrow> P x = Q x) \<Longrightarrow> find P xs = find Q xs"
  by (induction xs) auto

lemma bad_cycles_eq:
  assumes ok: "comps_ok D comps" and D: "D \<subseteq> {..<n} \<times> {..<n}" and edges: "\<forall>e \<in> set edges. de_body e < n \<and> de_head e < n"
  shows "bad_cycles n edges (map (rep D) [0..<n]) comps =
    List.map_filter (\<lambda>c. map_option (\<lambda>e. \<lparr>bc_preds = c, bc_dep = de_dep e, bc_site = de_site e\<rparr>) (offence_of edges (set c))) comps"
proof -
  let ?cp = "map (rep D) [0..<n]"
  have ends: "?cp ! de_body e = rep D (de_body e) \<and> ?cp ! de_head e = rep D (de_head e) \<and> ?cp ! de_body e < n" if "e \<in> set edges" for e
    using edges that rep_facts(2) [OF D] by simp
  have off: "fold (note_offence ?cp) edges (replicate n None) ! hd c =
      map_option (\<lambda>e. (de_dep e, de_site e)) (offence_of edges (set c))" if c: "c \<in> set comps" for c
  proof -
    have "set c \<in> {scc_of D p | p. (p, p) \<in> D\<^sup>+}" using ok c by (auto simp: comps_ok_def)
    then obtain p where p: "set c = scc_of D p" "(p, p) \<in> D\<^sup>+" by blast
    then have pn: "p < n" using tranclD [OF p(2)] D by auto
    have "p \<in> set c" by (simp add: p(1))
    then have hd: "hd c = rep D p" by (rule comps_member(3) [OF ok c])
    have "find (\<lambda>e. strict e \<and> ?cp ! de_body e = hd c \<and> ?cp ! de_head e = hd c) edges = offence_of edges (set c)"
      unfolding offence_of_def
    proof (rule find_cong)
      fix e assume e: "e \<in> set edges"
      have "rep D (de_body e) = hd c \<longleftrightarrow> de_body e \<in> set c" "rep D (de_head e) = hd c \<longleftrightarrow> de_head e \<in> set c"
        using rep_facts(4) [OF D pn, of "de_body e"] rep_facts(4) [OF D pn, of "de_head e"] edges e
        by (simp_all add: hd p(1) eq_commute [of "rep D (de_body e)"] eq_commute [of "rep D (de_head e)"])
      then show "(strict e \<and> ?cp ! de_body e = hd c \<and> ?cp ! de_head e = hd c) = (strict e \<and> de_body e \<in> set c \<and> de_head e \<in> set c)"
        using ends [OF e] by simp
    qed
    moreover have "hd c < n" using hd rep_facts(2) [OF D pn] by simp
    moreover have "\<forall>e \<in> set edges. ?cp ! de_body e < length (replicate n (None :: (dep \<times> nat) option))" unfolding length_replicate using ends by blast
    ultimately show ?thesis using offences [of edges ?cp "replicate n None" "hd c"] by simp
  qed
  have "List.map_filter f comps = List.map_filter g comps" if "\<And>c. c \<in> set comps \<Longrightarrow> f c = g c" for f g :: "nat list \<Rightarrow> bad_cycle option"
    using that by (induction comps) (simp_all add: map_filter_simps split: option.split)
  note congr = this
  show ?thesis unfolding bad_cycles_def Let_def
    by (rule congr) (simp add: off split: option.split)
qed

end
