(* ===== verification/Kahn.thy ===== *)
theory Kahn
  imports StrataRuns
begin

text \<open>
  Kahn's loop over a condensation: entries \<open>X\<close> from a component to another, acyclic. Every component is
  emitted, after all it has an entry from.
\<close>

definition entries_into :: "(nat \<times> nat) list \<Rightarrow> nat set \<Rightarrow> nat \<Rightarrow> nat" where
  "entries_into X E c = length (filter (\<lambda>x. snd x = c \<and> fst x \<notin> E) X)"

definition targets :: "(nat \<times> nat) list \<Rightarrow> nat \<Rightarrow> nat list" where
  "targets X c = map snd (filter (\<lambda>x. fst x = c) X)"

text \<open>The entries of a component that is emitted are taken off, and what has none left is ready.\<close>

lemma count_targets: "c \<notin> E \<Longrightarrow> entries_into X E t = entries_into X (insert c E) t + count_list (targets X c) t"
  by (induction X) (auto simp: entries_into_def targets_def)

lemma release_fold:
  "\<forall>t \<in> set ts. t < length indeg \<Longrightarrow> \<forall>t. t < length indeg \<longrightarrow> count_list ts t \<le> indeg ! t \<Longrightarrow>
   sorted_wrt (<) ready \<Longrightarrow> \<forall>r \<in> set ready. r < length indeg \<and> indeg ! r = 0 \<Longrightarrow>
   length (fst (fold release ts (indeg, ready))) = length indeg \<and>
   (\<forall>t < length indeg. fst (fold release ts (indeg, ready)) ! t = indeg ! t - count_list ts t) \<and>
   sorted_wrt (<) (snd (fold release ts (indeg, ready))) \<and>
   set (snd (fold release ts (indeg, ready))) = set ready \<union> {t \<in> set ts. indeg ! t = count_list ts t}"
proof (induction ts arbitrary: indeg ready)
  case (Cons t ts)
  let ?indeg = "indeg[t := indeg ! t - 1]"
  let ?ready = "if ?indeg ! t = 0 then insort t ready else ready"
  have t: "t < length indeg" "1 \<le> indeg ! t" "count_list ts t + 1 \<le> indeg ! t"
  proof -
    show "t < length indeg" using Cons.prems(1) by simp
    then have "count_list (t # ts) t \<le> indeg ! t" using Cons.prems(2) by blast
    then show "1 \<le> indeg ! t" "count_list ts t + 1 \<le> indeg ! t" by simp_all
  qed
  have fresh: "t \<notin> set ready" using Cons.prems(4) t(2) by auto
  have counts: "\<forall>u. u < length ?indeg \<longrightarrow> count_list ts u \<le> ?indeg ! u"
  proof (intro allI impI)
    fix u assume "u < length ?indeg"
    moreover have "count_list (t # ts) u \<le> indeg ! u" using Cons.prems(2) calculation by simp
    ultimately show "count_list ts u \<le> ?indeg ! u" using t by (auto simp: nth_list_update)
  qed
  have ready: "sorted_wrt (<) ?ready" "set ?ready = set ready \<union> (if indeg ! t = 1 then {t} else {})"
  proof -
    show "set ?ready = set ready \<union> (if indeg ! t = 1 then {t} else {})" using t by (auto simp: set_insort_key)
    have "sorted (insort t ready)" "distinct (insort t ready)" if "t \<notin> set ready"
      using Cons.prems(3) that by (simp_all add: strict_sorted_iff sorted_insort distinct_insort)
    then show "sorted_wrt (<) ?ready" using Cons.prems(3) fresh by (simp add: strict_sorted_iff)
  qed
  have zero: "\<forall>r \<in> set ?ready. r < length ?indeg \<and> ?indeg ! r = 0"
    unfolding ready(2) using Cons.prems(4) t by (auto simp: nth_list_update)
  have step: "fold release (t # ts) (indeg, ready) = fold release ts (?indeg, ?ready)" by (simp add: release_def)
  note IH = Cons.IH [OF _ counts ready(1) zero]
  have range: "\<forall>t \<in> set ts. t < length ?indeg" using Cons.prems(1) by simp
  show ?case
    unfolding step
  proof (intro conjI allI impI)
    show "length (fst (fold release ts (?indeg, ?ready))) = length indeg" using IH [OF range] by simp
    show "sorted_wrt (<) (snd (fold release ts (?indeg, ?ready)))" using IH [OF range] by simp
    show "fst (fold release ts (?indeg, ?ready)) ! u = indeg ! u - count_list (t # ts) u" if "u < length indeg" for u
      using IH [OF range] that t by (simp add: nth_list_update)
    have eq: "?indeg ! u = count_list ts u \<longleftrightarrow> indeg ! u = count_list (t # ts) u" if "u < length indeg" for u
      using that t by (auto simp: nth_list_update)
    have "set (snd (fold release ts (?indeg, ?ready))) = set ?ready \<union> {u \<in> set ts. ?indeg ! u = count_list ts u}"
      using IH [OF range] by blast
    also have "\<dots> = set ready \<union> {u \<in> set (t # ts). indeg ! u = count_list (t # ts) u}"
    proof -
      have "{u \<in> set ts. ?indeg ! u = count_list ts u} = {u \<in> set ts. indeg ! u = count_list (t # ts) u}"
        using eq Cons.prems(1) t by auto
      moreover have "(if indeg ! t = 1 then {t} else {}) \<subseteq> {u \<in> set (t # ts). indeg ! u = count_list (t # ts) u}"
        using t by auto
      moreover have "t \<in> set ts \<or> indeg ! t = 1" if "indeg ! t = count_list (t # ts) t"
        using that by (cases "t \<in> set ts") (simp_all add: count_notin)
      ultimately show ?thesis unfolding ready(2) by auto
    qed
    finally show "set (snd (fold release ts (?indeg, ?ready))) = set ready \<union> {u \<in> set (t # ts). indeg ! u = count_list (t # ts) u}" .
  qed
qed auto

section \<open>The loop\<close>

text \<open>
  What the loop is started on: entries between the components \<open>C\<close>, acyclic, listed by source. \<open>mem\<close>
  gives the members of a component.
\<close>

definition condensed :: "nat \<Rightarrow> (nat \<times> nat) list \<Rightarrow> nat set \<Rightarrow> nat list list \<Rightarrow> bool" where
  "condensed n X C out \<longleftrightarrow>
     set X \<subseteq> C \<times> C \<and> C \<subseteq> {..<n} \<and> acyclic (set X) \<and> (\<forall>c < n. out ! c = targets X c)"

text \<open>The state after the components \<open>E\<close> have been emitted, in that order.\<close>

definition kahn_inv :: "nat \<Rightarrow> (nat \<times> nat) list \<Rightarrow> nat set \<Rightarrow> (nat \<Rightarrow> nat list) \<Rightarrow> nat list \<Rightarrow> kahn \<Rightarrow> bool" where
  "kahn_inv n X C mem E s \<longleftrightarrow>
     length (kh_indegree s) = n \<and> length (kh_stratum s) = n \<and> length (kh_members s) = n \<and>
     distinct E \<and> set E \<subseteq> C \<and> kh_order s = map mem E \<and> (\<forall>i < length E. kh_stratum s ! (E ! i) = i) \<and>
     (\<forall>c \<in> C - set E. kh_members s ! c = mem c) \<and>
     (\<forall>c < n. kh_indegree s ! c = entries_into X (set E) c) \<and>
     sorted_wrt (<) (kh_ready s) \<and> set (kh_ready s) = {c \<in> C - set E. entries_into X (set E) c = 0} \<and>
     (\<forall>(a, b) \<in> set X. \<forall>i < length E. E ! i = b \<longrightarrow> a \<in> set (take i E))"

lemma entries_into_0: "entries_into X E c = 0 \<longleftrightarrow> (\<forall>a. (a, c) \<in> set X \<longrightarrow> a \<in> E)"
  by (auto simp: entries_into_def filter_empty_conv)

lemma kahn_step:
  assumes g: "condensed n X C out" and inv: "kahn_inv n X C mem E s" and ready: "kh_ready s = c # rest"
  defines "released \<equiv> fold release (out ! c) (kh_indegree s, rest)"
  shows "kahn_inv n X C mem (E @ [c])
    \<lparr>kh_ready = snd released, kh_indegree = fst released, kh_stratum = (kh_stratum s)[c := length (kh_order s)],
     kh_members = (kh_members s)[c := []], kh_order = kh_order s @ [kh_members s ! c]\<rparr>"
proof -
  have X: "set X \<subseteq> C \<times> C" "C \<subseteq> {..<n}" "acyclic (set X)" "\<forall>c < n. out ! c = targets X c" using g by (simp_all add: condensed_def)
  have s: "length (kh_indegree s) = n" "length (kh_stratum s) = n" "length (kh_members s) = n" "distinct E" "set E \<subseteq> C"
    "kh_order s = map mem E" "\<forall>i < length E. kh_stratum s ! (E ! i) = i" "\<forall>c \<in> C - set E. kh_members s ! c = mem c"
    "\<forall>c < n. kh_indegree s ! c = entries_into X (set E) c" "sorted_wrt (<) (c # rest)"
    "set (c # rest) = {c \<in> C - set E. entries_into X (set E) c = 0}"
    "\<forall>(a, b) \<in> set X. \<forall>i < length E. E ! i = b \<longrightarrow> a \<in> set (take i E)"
    using inv by (simp_all add: kahn_inv_def ready)
  have c: "c \<in> C" "c \<notin> set E" "entries_into X (set E) c = 0" "c < n" using s(11) X(2) by auto
  note count = count_targets [OF c(2), of X]
  have counts: "count_list (targets X c) t = entries_into X (set E) t - entries_into X (insert c (set E)) t"
    "count_list (targets X c) t \<le> entries_into X (set E) t" for t
    using count [of t] by simp_all
  have tgt: "t \<in> C \<and> t \<noteq> c \<and> t \<notin> set E" if "t \<in> set (targets X c)" for t
  proof -
    have e: "(c, t) \<in> set X" using that by (auto simp: targets_def)
    have "t \<notin> set E"
    proof
      assume "t \<in> set E"
      then obtain i where "i < length E" "E ! i = t" by (auto simp: in_set_conv_nth)
      then have "c \<in> set (take i E)" using s(12) e by blast
      then show False using c(2) by (auto dest: in_set_takeD)
    qed
    moreover have "t \<noteq> c" using X(3) e by (auto simp: acyclic_def)
    ultimately show ?thesis using X(1) e by blast
  qed
  have rel: "length (fst released) = n \<and> (\<forall>t < n. fst released ! t = kh_indegree s ! t - count_list (targets X c) t) \<and>
      sorted_wrt (<) (snd released) \<and>
      set (snd released) = set rest \<union> {t \<in> set (targets X c). kh_indegree s ! t = count_list (targets X c) t}"
  proof -
    have out: "out ! c = targets X c" using X(4) c(4) by simp
    have "\<forall>t \<in> set (targets X c). t < length (kh_indegree s)" using tgt X(2) s(1) by auto
    moreover have "\<forall>t. t < length (kh_indegree s) \<longrightarrow> count_list (targets X c) t \<le> kh_indegree s ! t" using s(1,9) counts(2) by simp
    moreover have "\<forall>r \<in> set rest. r < length (kh_indegree s) \<and> kh_indegree s ! r = 0"
    proof
      fix r assume "r \<in> set rest"
      then have "r \<in> {c \<in> C - set E. entries_into X (set E) c = 0}" unfolding s(11) [symmetric] by simp
      then show "r < length (kh_indegree s) \<and> kh_indegree s ! r = 0" using X(2) s(1,9) by auto
    qed
    ultimately show ?thesis
      using release_fold [of "targets X c" "kh_indegree s" rest] s(1,10) by (simp add: released_def out)
  qed
  have E': "set (E @ [c]) = insert c (set E)" by simp
  have "set (snd released) = {d \<in> C - set (E @ [c]). entries_into X (set (E @ [c])) d = 0}"
  proof -
    have rest: "set rest = {d \<in> C - set E. entries_into X (set E) d = 0} - {c}"
    proof -
      have "c \<notin> set rest" using s(10) by auto
      then show ?thesis unfolding s(11) [symmetric] by auto
    qed
    have member: "t \<in> set (targets X c) \<longleftrightarrow> 0 < count_list (targets X c) t" for t
      using count_list_0_iff [of "targets X c" t] by auto
    show ?thesis
    proof (intro set_eqI iffI)
      fix d assume "d \<in> set (snd released)"
      then consider "d \<in> set rest" | "d \<in> set (targets X c)" "kh_indegree s ! d = count_list (targets X c) d" using rel by blast
      then show "d \<in> {d \<in> C - set (E @ [c]). entries_into X (set (E @ [c])) d = 0}"
      proof cases
        case 1
        then show ?thesis using count [of d] unfolding rest E' by auto
      next
        case 2
        then have d: "d \<in> C" "d \<noteq> c" "d \<notin> set E" "d < n" using tgt X(2) by auto
        then have "entries_into X (set E) d = count_list (targets X c) d" using 2(2) s(9) by simp
        then show ?thesis using d count [of d] unfolding E' by simp
      qed
    next
      fix d assume "d \<in> {d \<in> C - set (E @ [c]). entries_into X (set (E @ [c])) d = 0}"
      then have d: "d \<in> C" "d \<noteq> c" "d \<notin> set E" "entries_into X (insert c (set E)) d = 0" "d < n" using X(2) by auto
      show "d \<in> set (snd released)"
      proof (cases "count_list (targets X c) d = 0")
        case True
        then have "entries_into X (set E) d = 0" using count [of d] d(4) by simp
        then have "d \<in> set rest" unfolding rest using d by simp
        then show ?thesis using rel by blast
      next
        case False
        then have "d \<in> set (targets X c)" using member by simp
        moreover have "kh_indegree s ! d = count_list (targets X c) d" using count [of d] d(4,5) s(9) by simp
        ultimately show ?thesis using rel by blast
      qed
    qed
  qed
  moreover have "\<forall>d < n. fst released ! d = entries_into X (set (E @ [c])) d"
    unfolding E' using rel s(9) count by auto
  moreover have "\<forall>i < length (E @ [c]). (kh_stratum s)[c := length (kh_order s)] ! ((E @ [c]) ! i) = i"
  proof (intro allI impI)
    fix i assume "i < length (E @ [c])"
    then consider "i < length E" | "i = length E" by fastforce
    then show "(kh_stratum s)[c := length (kh_order s)] ! ((E @ [c]) ! i) = i"
    proof cases
      case 1
      then have "E ! i \<noteq> c" using c(2) by (auto simp: in_set_conv_nth)
      then show ?thesis using 1 s(7) by (simp add: nth_append)
    qed (use c(4) s(2,6) in simp)
  qed
  moreover have "\<forall>(a, b) \<in> set X. \<forall>i < length (E @ [c]). (E @ [c]) ! i = b \<longrightarrow> a \<in> set (take i (E @ [c]))"
  proof (intro ballI allI impI, clarify)
    fix a b i assume ab: "(a, (E @ [c]) ! i) \<in> set X" and i: "i < length (E @ [c])"
    show "a \<in> set (take i (E @ [c]))"
    proof (cases "i < length E")
      case True
      then have "a \<in> set (take i E)" using s(12) ab by (auto simp: nth_append)
      then show ?thesis using True by simp
    next
      case False
      then have "i = length E" using i by simp
      moreover have "a \<in> set E" using c(3) ab calculation by (simp add: entries_into_0)
      ultimately show ?thesis by simp
    qed
  qed
  moreover have "\<forall>d \<in> C - set (E @ [c]). (kh_members s)[c := []] ! d = mem d" using s(8) by auto
  ultimately show ?thesis
    unfolding kahn_inv_def using rel s(1-6,8) c(1,2) by simp
qed

lemma kahn_returns:
  assumes g: "condensed n X C out"
  shows "kahn_inv n X C mem E s \<Longrightarrow> \<exists>s' E'. kahn_loop out s = Some s' \<and> kahn_inv n X C mem E' s' \<and> set E' = C"
proof (induction "card (C - set E)" arbitrary: E s rule: less_induct)
  case less
  have X: "set X \<subseteq> C \<times> C" "finite C" "acyclic (set X)" using g finite_subset [of C "{..<n}"] by (auto simp: condensed_def)
  show ?case
  proof (cases "kh_ready s")
    case Nil
    have "set E = C"
    proof (rule ccontr)
      assume "set E \<noteq> C"
      then obtain c where "c \<in> C - set E" using less.prems by (auto simp: kahn_inv_def)
      moreover have "wf (set X)" using X(3) by (simp add: finite_acyclic_wf)
      ultimately obtain d where d: "d \<in> C - set E" "\<And>a. (a, d) \<in> set X \<Longrightarrow> a \<notin> C - set E"
        by (meson wfE_min)
      then have "entries_into X (set E) d = 0" unfolding entries_into_0 using X(1) by blast
      then have "d \<in> set (kh_ready s)" using less.prems d(1) by (simp add: kahn_inv_def)
      then show False using Nil by simp
    qed
    then show ?thesis using less.prems Nil by (auto simp: kahn_loop.simps)
  next
    case (Cons c rest)
    let ?s = "\<lparr>kh_ready = snd (fold release (out ! c) (kh_indegree s, rest)), kh_indegree = fst (fold release (out ! c) (kh_indegree s, rest)),
        kh_stratum = (kh_stratum s)[c := length (kh_order s)], kh_members = (kh_members s)[c := []],
        kh_order = kh_order s @ [kh_members s ! c]\<rparr>"
    have "c \<in> set (kh_ready s)" by (simp add: Cons)
    then have "c \<in> C - set E" using less.prems by (simp add: kahn_inv_def)
    then have "card (C - set (E @ [c])) < card (C - set E)" using X(2) by (intro psubset_card_mono) auto
    from less.hyps [OF this kahn_step [OF g less.prems Cons]] show ?thesis
      using Cons by (simp add: kahn_loop.simps [of out s])
  qed
qed

section \<open>The condensation of a program\<close>

definition crossing :: "(nat \<times> nat) set \<Rightarrow> dep_edge list \<Rightarrow> (nat \<times> nat) list" where
  "crossing D edges = filter (\<lambda>(a, b). a \<noteq> b) (map (\<lambda>e. (rep D (de_body e), rep D (de_head e))) edges)"

lemma members_fold:
  "length ms = n \<Longrightarrow> \<forall>p \<in> set ps. cp ! p < n \<Longrightarrow> c < n \<Longrightarrow>
   length (fold (\<lambda>p members. members[cp ! p := members ! (cp ! p) @ [p]]) ps ms) = n \<and>
   fold (\<lambda>p members. members[cp ! p := members ! (cp ! p) @ [p]]) ps ms ! c = ms ! c @ filter (\<lambda>p. cp ! p = c) ps"
proof (induction ps arbitrary: ms)
  case (Cons p ps)
  then show ?case using Cons.IH [of "ms[cp ! p := ms ! (cp ! p) @ [p]]"] by (auto simp: nth_list_update)
qed simp

lemma count_edges_fold:
  assumes "\<forall>e \<in> set es. cp ! de_body e < n \<and> cp ! de_head e < n" and "length out = n" and "length ind = n" and "c < n"
  defines "X \<equiv> filter (\<lambda>(a, b). a \<noteq> b) (map (\<lambda>e. (cp ! de_body e, cp ! de_head e)) es)"
  shows "length (fst (fold (count_edge cp) es (out, ind))) = n \<and> length (snd (fold (count_edge cp) es (out, ind))) = n \<and>
    fst (fold (count_edge cp) es (out, ind)) ! c = out ! c @ targets X c \<and>
    snd (fold (count_edge cp) es (out, ind)) ! c = ind ! c + entries_into X {} c"
  using assms(1-4) unfolding X_def
proof (induction es arbitrary: out ind)
  case (Cons e es)
  obtain out' ind' where e: "count_edge cp e (out, ind) = (out', ind')" by fastforce
  have "length out' = n" "length ind' = n" using e Cons.prems(2,3) by (auto simp: count_edge_def split: if_splits)
  note IH = Cons.IH [OF _ this Cons.prems(4)]
  have "out' ! c = out ! c @ (if cp ! de_body e = c \<and> cp ! de_body e \<noteq> cp ! de_head e then [cp ! de_head e] else [])"
    "ind' ! c = ind ! c + (if cp ! de_head e = c \<and> cp ! de_body e \<noteq> cp ! de_head e then 1 else 0)"
    using e Cons.prems by (auto simp: count_edge_def nth_list_update split: if_splits)
  then show ?case using IH Cons.prems(1) e by (simp add: targets_def entries_into_def)
qed (simp add: targets_def entries_into_def)

text \<open>The representatives, and what is known of the edges between them.\<close>

definition reps :: "(nat \<times> nat) set \<Rightarrow> nat \<Rightarrow> nat set" where
  "reps D n = {c. c < n \<and> rep D c = c}"

lemma crossing_acyclic:
  assumes D: "deps edges = D" and range: "D \<subseteq> {..<n} \<times> {..<n}"
  shows "set (crossing D edges) \<subseteq> reps D n \<times> reps D n" and "acyclic (set (crossing D edges))"
proof -
  let ?X = "set (crossing D edges)"
  have edge: "\<exists>p q. a = rep D p \<and> b = rep D q \<and> (p, q) \<in> D \<and> a \<noteq> b" if "(a, b) \<in> ?X" for a b
    using that D by (auto simp: crossing_def deps_def)
  show "?X \<subseteq> reps D n \<times> reps D n"
  proof clarify
    fix a b assume "(a, b) \<in> ?X"
    then obtain p q where p: "a = rep D p" "b = rep D q" "(p, q) \<in> D" using edge by blast
    then have "p < n" "q < n" using range by auto
    then show "a \<in> reps D n \<and> b \<in> reps D n" using p rep_facts(2,3) [OF range] by (simp add: reps_def)
  qed
  have path: "(a, b) \<in> D\<^sup>*" if ab: "(a, b) \<in> ?X" for a b
  proof -
    obtain p q where p: "a = rep D p" "b = rep D q" "(p, q) \<in> D" using edge [OF ab] by blast
    then have n: "p < n" "q < n" using range by auto
    have "(a, p) \<in> D\<^sup>*" "(q, b) \<in> D\<^sup>*" using rep_facts(1) [OF range n(1)] rep_facts(1) [OF range n(2)] p by (simp_all add: scc_of_def)
    then show ?thesis using p(3) by (meson r_into_rtrancl rtrancl_trans)
  qed
  have paths: "(a, b) \<in> ?X\<^sup>* \<Longrightarrow> (a, b) \<in> D\<^sup>*" for a b
    by (induction rule: rtrancl_induct) (auto intro: rtrancl_trans dest: path)
  show "acyclic ?X"
  proof (rule acyclicI, rule allI, rule notI)
    fix a assume "(a, a) \<in> ?X\<^sup>+"
    then obtain b where b: "(a, b) \<in> ?X" "(b, a) \<in> ?X\<^sup>*" by (meson tranclD)
    then have "b \<in> scc_of D a" using path [OF b(1)] paths [OF b(2)] by (simp add: scc_of_def)
    moreover have "a < n" "b < n" "rep D a = a" "rep D b = b" "a \<noteq> b"
      using edge [OF b(1)] \<open>?X \<subseteq> reps D n \<times> reps D n\<close> b(1) by (auto simp: reps_def)
    ultimately show False using rep_facts(4) [OF range, of a b] by simp
  qed
qed

lemma start_ok:
  assumes D: "deps edges = D" and range: "D \<subseteq> {..<n} \<times> {..<n}" and n: "n < 2 ^ 32"
    and st: "kahn_start n edges (map (rep D) [0..<n]) = (out, s)"
  shows "condensed n (crossing D edges) (reps D n) out \<and>
    kahn_inv n (crossing D edges) (reps D n) (\<lambda>c. filter (\<lambda>p. rep D p = c) [0..<n]) [] s"
proof -
  let ?cp = "map (rep D) [0..<n]" and ?X = "crossing D edges" and ?C = "reps D n"
  have start: "u32_range n = [0..<n]" using n by (simp add: u32_range_def)
  have ends: "de_body e < n \<and> de_head e < n" if "e \<in> set edges" for e
    using that range D by (auto simp: deps_def)
  have cp: "?cp ! p = rep D p" "?cp ! p < n" if "p < n" for p using that rep_facts(2) [OF range that] by simp_all
  have X: "filter (\<lambda>(a, b). a \<noteq> b) (map (\<lambda>e. (?cp ! de_body e, ?cp ! de_head e)) edges) = ?X"
  proof -
    have "map (\<lambda>e. (?cp ! de_body e, ?cp ! de_head e)) edges = map (\<lambda>e. (rep D (de_body e), rep D (de_head e))) edges"
      using ends cp(1) by (intro map_cong) simp_all
    then show ?thesis unfolding crossing_def by (rule arg_cong)
  qed
  obtain ind where counts: "fold (count_edge ?cp) edges (replicate n [], replicate n 0) = (out, ind)"
    using st by (auto simp: kahn_start_def split: prod.splits)
  have out: "length ind = n \<and> out ! c = targets ?X c \<and> ind ! c = entries_into ?X {} c" if "c < n" for c
    using count_edges_fold [of edges ?cp n "replicate n []" "replicate n 0" c] ends cp(2) that by (simp add: counts X)
  have len: "length ind = n"
  proof (cases "n = 0")
    case True
    then have "edges = []" using ends by (cases edges) auto
    then show ?thesis using counts True by simp
  qed (use out [of 0] in simp)
  have s: "s = \<lparr>kh_ready = sort (filter (\<lambda>c. ?cp ! c = c \<and> ind ! c = 0) [0..<n]), kh_indegree = ind, kh_stratum = replicate n 0,
      kh_members = component_members n ?cp, kh_order = []\<rparr>"
    using st counts start by (simp add: kahn_start_def)
  have mem: "length (component_members n ?cp) = n \<or> n = 0" "c < n \<Longrightarrow> component_members n ?cp ! c = filter (\<lambda>p. rep D p = c) [0..<n]" for c
  proof -
    have members: "length (component_members n ?cp) = n \<and> component_members n ?cp ! c = filter (\<lambda>p. ?cp ! p = c) [0..<n]" if "c < n" for c
      using members_fold [of "replicate n []" n "[0..<n]" ?cp c] cp(2) that by (simp add: component_members_def start)
    then show "length (component_members n ?cp) = n \<or> n = 0" by blast
    show "component_members n ?cp ! c = filter (\<lambda>p. rep D p = c) [0..<n]" if "c < n"
    proof -
      have "filter (\<lambda>p. ?cp ! p = c) [0..<n] = filter (\<lambda>p. rep D p = c) [0..<n]" by (rule filter_cong) simp_all
      then show ?thesis using members [OF that] by simp
    qed
  qed
  have memlen: "length (component_members n ?cp) = n" using mem(1) by (auto simp: component_members_def start)
  have "condensed n ?X ?C out"
    using crossing_acyclic [OF D range] out by (auto simp: condensed_def reps_def)
  moreover have "set (kh_ready s) = {c \<in> ?C - set []. entries_into ?X (set []) c = 0}"
    using out cp(1) by (auto simp: s reps_def)
  moreover have "sorted_wrt (<) (kh_ready s)" by (simp add: s strict_sorted_iff)
  ultimately show ?thesis using out mem(2) memlen len by (simp add: kahn_inv_def s) (auto simp: reps_def)
qed

end
