(* ===== verification/Stratified.thy ===== *)
theory Stratified
  imports Kahn "HOL-Library.Code_Target_Numeral"
begin

text \<open>
  What \<open>stratify\<close> returns, \<open>rules/src/strata.rs\<close>: the offending cycles when a negated or aggregated read
  closes one, and the strata of the program otherwise.
\<close>

section \<open>What the code computes over the components\<close>

lemma stratify_over:
  assumes n: "pred_count npreds edges \<le> u32_max" and len: "length edges \<le> u32_max"
  defines "D \<equiv> deps edges" and "m \<equiv> pred_count npreds edges"
  shows "\<exists>comps. comps_ok D comps \<and> stratify npreds edges =
    (let bad = List.map_filter (\<lambda>c. map_option (\<lambda>e. \<lparr>bc_preds = c, bc_dep = de_dep e, bc_site = de_site e\<rparr>) (offence_of edges (set c))) comps
     in if bad \<noteq> [] then Some (Inl bad)
        else let (out, s) = kahn_start m edges (map (rep D) [0..<m]) in
          map_option (\<lambda>s. Inr \<lparr>st_stratum_of = map (\<lambda>p. kh_stratum s ! rep D p) [0..<m], st_order = kh_order s,
            st_recursive = map (\<lambda>p. (p, p) \<in> D\<^sup>+) [0..<m], st_component = map (rep D) [0..<m]\<rparr>) (kahn_loop out s))"
proof -
  obtain found where f: "strongly_connected (build (pred_graph m edges) category_set_all) = Some found"
    "comps_ok D (map (map (\<lambda>i. unat i mod 2 ^ 32)) found)"
    using pred_components [OF refl n len] unfolding D_def m_def by blast
  have range: "D \<subseteq> {..<m} \<times> {..<m}" unfolding D_def m_def by (rule deps_range)
  have small: "m < 2 ^ 32" using n by (simp add: m_def u32_max_def)
  have ends: "\<forall>e \<in> set edges. de_body e < m \<and> de_head e < m" using pred_count_ge unfolding m_def by blast
  define comps where "comps = map (map (\<lambda>i :: node_id. unat i mod 2 ^ 32)) found"
  have ok: "comps_ok D comps" using f(2) by (simp only: comps_def)
  note facts = tables [OF ok range small] bad_cycles_eq [OF ok range ends]
  obtain out s where st: "kahn_start m edges (map (rep D) [0..<m]) = (out, s)" by fastforce
  have "stratify npreds edges =
     (let (component, recursive) = component_tables m comps; bad = bad_cycles m edges component comps
      in if bad \<noteq> [] then Some (Inl bad)
         else let (out, s) = kahn_start m edges component in
           case kahn_loop out s of None \<Rightarrow> None
           | Some s \<Rightarrow> Some (Inr \<lparr>st_stratum_of = map (\<lambda>c. kh_stratum s ! c) component, st_order = kh_order s,
               st_recursive = recursive, st_component = component\<rparr>))"
    by (simp only: stratify_def Let_def m_def [symmetric] f(1) option.case comps_def)
  then show ?thesis
    unfolding facts Let_def prod.case st
    by (intro exI [of _ comps] conjI ok) (simp add: comp_def split: option.split)
qed

text \<open>The components with an offence.\<close>

lemma map_filter_set: "set (List.map_filter f xs) = {y. \<exists>x \<in> set xs. f x = Some y}"
  by (induction xs) (auto simp: map_filter_simps split: option.split)

lemma map_filter_sorted:
  "sorted_wrt P xs \<Longrightarrow> (\<And>x y a b. P x y \<Longrightarrow> f x = Some a \<Longrightarrow> f y = Some b \<Longrightarrow> Q a b) \<Longrightarrow> sorted_wrt Q (List.map_filter f xs)"
  by (induction xs) (fastforce simp: map_filter_simps map_filter_set split: option.split)+

lemma offence_cyclic:
  "offence_of edges (scc_of (deps edges) p) = Some e \<Longrightarrow>
   e \<in> set edges \<and> strict e \<and> de_body e \<in> scc_of (deps edges) p \<and> de_head e \<in> scc_of (deps edges) p \<and> (p, p) \<in> (deps edges)\<^sup>+"
proof -
  assume o: "offence_of edges (scc_of (deps edges) p) = Some e"
  let ?D = "deps edges"
  from o have e: "e \<in> set edges" "strict e" "de_body e \<in> scc_of ?D p" "de_head e \<in> scc_of ?D p"
    by (auto simp: offence_of_def find_Some_iff)
  have "(de_body e, de_head e) \<in> ?D" using e(1) by (auto simp: deps_def)
  moreover have "(p, de_body e) \<in> ?D\<^sup>*" "(de_head e, p) \<in> ?D\<^sup>*" using e(3,4) by (simp_all add: scc_of_def)
  ultimately have "(p, p) \<in> ?D\<^sup>+" by (meson rtrancl_into_trancl1 trancl_rtrancl_trancl)
  then show ?thesis using e by blast
qed

lemma offences_found:
  assumes ok: "comps_ok (deps edges) comps"
  defines "f \<equiv> \<lambda>c. map_option (\<lambda>e. \<lparr>bc_preds = c, bc_dep = de_dep e, bc_site = de_site e\<rparr>) (offence_of edges (set c))"
  shows "b \<in> set (List.map_filter f comps) \<longleftrightarrow>
    (\<exists>p e. offence_of edges (scc_of (deps edges) p) = Some e \<and>
      b = \<lparr>bc_preds = sorted_list_of_set (scc_of (deps edges) p), bc_dep = de_dep e, bc_site = de_site e\<rparr>)"
    (is "_ \<longleftrightarrow> ?R")
proof
  assume "b \<in> set (List.map_filter f comps)"
  then obtain c e where c: "c \<in> set comps" "offence_of edges (set c) = Some e"
    "b = \<lparr>bc_preds = c, bc_dep = de_dep e, bc_site = de_site e\<rparr>"
    by (auto simp: map_filter_set f_def)
  then have "de_body e \<in> set c" by (auto simp: offence_of_def find_Some_iff)
  then show ?R using comps_member(1,4) [OF ok c(1)] c(2,3) by metis
next
  assume ?R
  then obtain p e where p: "offence_of edges (scc_of (deps edges) p) = Some e"
    "b = \<lparr>bc_preds = sorted_list_of_set (scc_of (deps edges) p), bc_dep = de_dep e, bc_site = de_site e\<rparr>" by blast
  then have "(p, p) \<in> (deps edges)\<^sup>+" using offence_cyclic by blast
  then obtain c where "c \<in> set comps" "p \<in> set c" using comps_exist [OF ok] by blast
  then show "b \<in> set (List.map_filter f comps)"
    unfolding map_filter_set f_def using comps_member(1,4) [OF ok, of c p] p by (auto intro!: bexI [of _ c])
qed

lemma offence_exists:
  "(\<exists>p e. offence_of edges (scc_of (deps edges) p) = Some e) \<longleftrightarrow>
   (\<exists>e \<in> set edges. strict e \<and> de_head e \<in> scc_of (deps edges) (de_body e))"
proof
  assume "\<exists>p e. offence_of edges (scc_of (deps edges) p) = Some e"
  then obtain p e where "offence_of edges (scc_of (deps edges) p) = Some e" by blast
  from offence_cyclic [OF this] show "\<exists>e \<in> set edges. strict e \<and> de_head e \<in> scc_of (deps edges) (de_body e)"
    using scc_of_eq [of "de_body e" "deps edges" p] by blast
next
  assume "\<exists>e \<in> set edges. strict e \<and> de_head e \<in> scc_of (deps edges) (de_body e)"
  then obtain e where e: "e \<in> set edges" "strict e" "de_head e \<in> scc_of (deps edges) (de_body e)" by blast
  then have "\<exists>x \<in> set edges. strict x \<and> de_body x \<in> scc_of (deps edges) (de_body e) \<and> de_head x \<in> scc_of (deps edges) (de_body e)"
    using scc_of_self [of "de_body e" "deps edges"] by (intro bexI [of _ e] conjI) assumption+
  then have "offence_of edges (scc_of (deps edges) (de_body e)) \<noteq> None"
    unfolding offence_of_def find_None_iff by blast
  then show "\<exists>p e. offence_of edges (scc_of (deps edges) p) = Some e" by blast
qed

text \<open>A component's members, listed: those with its representative.\<close>

lemma members_listed:
  assumes D: "D \<subseteq> {..<n} \<times> {..<n}" and p: "p < n"
  shows "filter (\<lambda>q. rep D q = rep D p) [0..<n] = sorted_list_of_set (scc_of D p)"
proof -
  have "set (filter (\<lambda>q. rep D q = rep D p) [0..<n]) = scc_of D p"
    using rep_facts(4) [OF D p] scc_below [OF D p] by (auto simp: eq_commute [of "rep D p"])
  moreover have "sorted (filter (\<lambda>q. rep D q = rep D p) [0..<n])" "distinct (filter (\<lambda>q. rep D q = rep D p) [0..<n])"
    by (simp_all add: sorted_wrt_filter)
  ultimately show ?thesis by (metis sorted_list_of_set.idem_if_sorted_distinct)
qed

lemma deps_image: "deps edges = (\<lambda>e. (de_body e, de_head e)) ` set edges"
  by (auto simp: deps_def)

section \<open>The two outcomes\<close>

text \<open>C7: \<open>stratify\<close> refuses exactly where it must: when a negated or aggregated read has both ends in one
  strongly connected component of the dependencies, it returns one offence for each component that holds
  such a read, in ascending order of the component's smallest predicate, with the component's members in
  ascending order and the kind and the site of the first offending read in input order.\<close>

theorem stratify_refuses:
  assumes "pred_count npreds edges \<le> u32_max" and "length edges \<le> u32_max"
    and "\<exists>e \<in> set edges. strict e \<and> de_head e \<in> scc_of (deps edges) (de_body e)"
  shows "\<exists>bad. stratify npreds edges = Some (Inl bad) \<and> bad \<noteq> [] \<and>
    sorted_wrt (\<lambda>a b. hd (bc_preds a) < hd (bc_preds b)) bad \<and>
    (\<forall>b. b \<in> set bad \<longleftrightarrow> (\<exists>p e. offence_of edges (scc_of (deps edges) p) = Some e \<and>
      b = \<lparr>bc_preds = sorted_list_of_set (scc_of (deps edges) p), bc_dep = de_dep e, bc_site = de_site e\<rparr>))"
proof -
  let ?f = "\<lambda>c. map_option (\<lambda>e. \<lparr>bc_preds = c, bc_dep = de_dep e, bc_site = de_site e\<rparr>) (offence_of edges (set c))"
  obtain comps where comps: "comps_ok (deps edges) comps"
    "List.map_filter ?f comps \<noteq> [] \<Longrightarrow> stratify npreds edges = Some (Inl (List.map_filter ?f comps))"
    using stratify_over [OF assms(1,2)] unfolding Let_def by (metis (lifting))
  note found = offences_found [OF comps(1)]
  have "\<exists>b. b \<in> set (List.map_filter ?f comps)" using assms(3) unfolding offence_exists [symmetric] found by blast
  then have ne: "List.map_filter ?f comps \<noteq> []" by auto
  have "sorted_wrt (\<lambda>a b. hd a < hd b) comps" using comps(1) by (simp add: comps_ok_def)
  then have "sorted_wrt (\<lambda>a b. hd (bc_preds a) < hd (bc_preds b)) (List.map_filter ?f comps)"
    by (rule map_filter_sorted) auto
  then show ?thesis using comps(2) [OF ne] ne found by blast
qed

definition refused_reads :: "dep_edge list" where
  "refused_reads =
     [\<lparr>de_body = 0, de_head = 1, de_dep = Pos, de_site = 3\<rparr>, \<lparr>de_body = 1, de_head = 0, de_dep = Agg, de_site = 7\<rparr>,
      \<lparr>de_body = 1, de_head = 2, de_dep = Neg, de_site = 8\<rparr>]"

theorem stratify_refuses_witness:
  "\<exists>bad. stratify 2 refused_reads = Some (Inl bad) \<and> bad \<noteq> []"
proof -
  have "pred_count 2 refused_reads \<le> u32_max" "length refused_reads \<le> u32_max" by code_simp+
  moreover have "\<exists>e \<in> set refused_reads. strict e \<and> de_head e \<in> scc_of (deps refused_reads) (de_body e)"
  proof (rule bexI)
    have "deps refused_reads = {(0, 1), (1, 0), (1, 2)}" by (simp add: deps_image refused_reads_def)
    then show "strict \<lparr>de_body = 1, de_head = 0, de_dep = Agg, de_site = 7\<rparr> \<and>
        de_head \<lparr>de_body = 1, de_head = 0, de_dep = Agg, de_site = 7\<rparr> \<in>
          scc_of (deps refused_reads) (de_body \<lparr>de_body = 1, de_head = 0, de_dep = Agg, de_site = 7\<rparr>)"
      by (auto simp: strict_def scc_of_def)
    show "\<lparr>de_body = 1, de_head = 0, de_dep = Agg, de_site = 7\<rparr> \<in> set refused_reads" by (simp add: refused_reads_def)
  qed
  ultimately show ?thesis using stratify_refuses [of 2 refused_reads] by blast
qed

text \<open>What the loop's order tells of a predicate's stratum, of the strata and of an edge.\<close>

lemma order_at:
  assumes inv: "kahn_inv n X (reps D n) (\<lambda>c. filter (\<lambda>p. rep D p = c) [0..<n]) E s" "set E = reps D n"
    and range: "D \<subseteq> {..<n} \<times> {..<n}" and p: "p < n"
  shows "\<exists>i < length E. E ! i = rep D p \<and> kh_stratum s ! rep D p = i \<and> kh_order s ! i = sorted_list_of_set (scc_of D p)"
proof -
  have "rep D p \<in> set E" using p rep_facts(2,3) [OF range] inv(2) by (simp add: reps_def)
  then obtain i where i: "i < length E" "E ! i = rep D p" by (auto simp: in_set_conv_nth)
  moreover have "kh_order s = map (\<lambda>c. filter (\<lambda>p. rep D p = c) [0..<n]) E" "kh_stratum s ! (E ! i) = i"
    using inv(1) i(1) by (simp_all add: kahn_inv_def)
  ultimately show ?thesis using members_listed [OF range p] by auto
qed

lemma order_lists:
  assumes inv: "kahn_inv n X (reps D n) (\<lambda>c. filter (\<lambda>p. rep D p = c) [0..<n]) E s" "set E = reps D n"
    and range: "D \<subseteq> {..<n} \<times> {..<n}"
  shows "set (kh_order s) = {sorted_list_of_set (scc_of D p) | p. p < n} \<and> distinct (kh_order s)"
proof
  let ?mem = "\<lambda>c. filter (\<lambda>p. rep D p = c) [0..<n]"
  have order: "kh_order s = map ?mem E" "distinct E" using inv(1) by (simp_all add: kahn_inv_def)
  have listed: "?mem (rep D p) = sorted_list_of_set (scc_of D p)" if "p < n" for p by (rule members_listed [OF range that])
  show "set (kh_order s) = {sorted_list_of_set (scc_of D p) | p. p < n}"
  proof (intro set_eqI iffI)
    fix c assume "c \<in> set (kh_order s)"
    then obtain a where a: "a \<in> reps D n" "c = ?mem a" using order(1) inv(2) by auto
    then have "a < n" "rep D a = a" by (simp_all add: reps_def)
    then show "c \<in> {sorted_list_of_set (scc_of D p) | p. p < n}" using a(2) listed [of a] by auto
  next
    fix c assume "c \<in> {sorted_list_of_set (scc_of D p) | p. p < n}"
    then obtain p where p: "p < n" "c = sorted_list_of_set (scc_of D p)" by blast
    then obtain i where "i < length E" "kh_order s ! i = c" using order_at [OF inv range] by blast
    moreover have "length (kh_order s) = length E" using order(1) by simp
    ultimately show "c \<in> set (kh_order s)" using nth_mem by metis
  qed
  have self: "a \<in> set (?mem a)" if "a \<in> set E" for a using that inv(2) by (simp add: reps_def)
  have "inj_on ?mem (set E)"
  proof (rule inj_onI)
    fix a b assume ab: "a \<in> set E" "b \<in> set E" "?mem a = ?mem b"
    then have "a \<in> set (?mem b)" using self by metis
    then show "a = b" using ab(1) inv(2) by (simp add: reps_def)
  qed
  then show "distinct (kh_order s)" using order by (simp add: distinct_map)
qed

lemma edges_rise:
  assumes inv: "kahn_inv n (crossing D edges) (reps D n) (\<lambda>c. filter (\<lambda>p. rep D p = c) [0..<n]) E s" "set E = reps D n"
    and range: "D \<subseteq> {..<n} \<times> {..<n}" and e: "e \<in> set edges" "de_body e < n" "de_head e < n"
    and cross: "rep D (de_body e) \<noteq> rep D (de_head e)"
  shows "kh_stratum s ! rep D (de_body e) < kh_stratum s ! rep D (de_head e)"
proof -
  have "(rep D (de_body e), rep D (de_head e)) \<in> set (crossing D edges)" using cross e(1) by (auto simp: crossing_def)
  moreover obtain i where i: "i < length E" "E ! i = rep D (de_head e)" "kh_stratum s ! rep D (de_head e) = i"
    using order_at [OF inv range e(3)] by blast
  ultimately have "rep D (de_body e) \<in> set (take i E)" using inv(1) by (auto simp: kahn_inv_def)
  then obtain j where j: "j < i" "E ! j = rep D (de_body e)" using i(1) by (auto simp: in_set_conv_nth)
  moreover have "kh_stratum s ! (E ! j) = j" using inv(1) i(1) j(1) by (simp add: kahn_inv_def)
  ultimately show ?thesis using i(3) by simp
qed

text \<open>C6: Otherwise \<open>stratify\<close> gives the strata of the program. Each stratum is one strongly connected
  component of the dependencies, its predicates ascending, no component is listed twice, and every
  predicate is in the stratum recorded for it. Every edge goes from a stratum to the same one or a later
  one, and a negated or aggregated read to a strictly later one, so it reads a completed stratum. A
  predicate is recorded recursive exactly when it is on a cycle, and its component is its smallest
  member.\<close>

theorem stratify_orders:
  assumes "pred_count npreds edges \<le> u32_max" and "length edges \<le> u32_max"
    and "\<forall>e \<in> set edges. strict e \<longrightarrow> de_head e \<notin> scc_of (deps edges) (de_body e)"
  defines "D \<equiv> deps edges" and "n \<equiv> pred_count npreds edges"
  shows "\<exists>st. stratify npreds edges = Some (Inr st) \<and> length (st_stratum_of st) = n \<and>
    distinct (st_order st) \<and> set (st_order st) = {sorted_list_of_set (scc_of D p) | p. p < n} \<and>
    (\<forall>p < n. st_stratum_of st ! p < length (st_order st) \<and>
       st_order st ! (st_stratum_of st ! p) = sorted_list_of_set (scc_of D p)) \<and>
    (\<forall>e \<in> set edges. st_stratum_of st ! de_body e \<le> st_stratum_of st ! de_head e \<and>
       (strict e \<longrightarrow> st_stratum_of st ! de_body e < st_stratum_of st ! de_head e)) \<and>
    st_recursive st = map (\<lambda>p. (p, p) \<in> D\<^sup>+) [0..<n] \<and> st_component st = map (\<lambda>p. Min (scc_of D p)) [0..<n]"
proof -
  let ?f = "\<lambda>c. map_option (\<lambda>e. \<lparr>bc_preds = c, bc_dep = de_dep e, bc_site = de_site e\<rparr>) (offence_of edges (set c))"
  let ?mem = "\<lambda>c. filter (\<lambda>p. rep D p = c) [0..<n]"
  obtain out s where st: "kahn_start n edges (map (rep D) [0..<n]) = (out, s)" by fastforce
  have range: "D \<subseteq> {..<n} \<times> {..<n}" unfolding D_def n_def by (rule deps_range)
  have small: "n < 2 ^ 32" using assms(1) by (simp add: n_def u32_max_def)
  obtain comps where comps: "comps_ok (deps edges) comps" "List.map_filter ?f comps = [] \<Longrightarrow> stratify npreds edges =
      map_option (\<lambda>s. Inr \<lparr>st_stratum_of = map (\<lambda>p. kh_stratum s ! rep D p) [0..<n], st_order = kh_order s,
            st_recursive = map (\<lambda>p. (p, p) \<in> D\<^sup>+) [0..<n], st_component = map (rep D) [0..<n]\<rparr>) (kahn_loop out s)"
  proof -
    obtain comps where ok: "comps_ok (deps edges) comps" and eq: "stratify npreds edges =
        (let bad = List.map_filter ?f comps
         in if bad \<noteq> [] then Some (Inl bad)
            else let (out, s) = kahn_start n edges (map (rep D) [0..<n]) in
              map_option (\<lambda>s. Inr \<lparr>st_stratum_of = map (\<lambda>p. kh_stratum s ! rep D p) [0..<n], st_order = kh_order s,
                st_recursive = map (\<lambda>p. (p, p) \<in> D\<^sup>+) [0..<n], st_component = map (rep D) [0..<n]\<rparr>) (kahn_loop out s))"
      using stratify_over [OF assms(1,2)] unfolding D_def n_def by blast
    show thesis
    proof (rule that [OF ok])
      assume none: "List.map_filter ?f comps = []"
      show "stratify npreds edges =
          map_option (\<lambda>s. Inr \<lparr>st_stratum_of = map (\<lambda>p. kh_stratum s ! rep D p) [0..<n], st_order = kh_order s,
            st_recursive = map (\<lambda>p. (p, p) \<in> D\<^sup>+) [0..<n], st_component = map (rep D) [0..<n]\<rparr>) (kahn_loop out s)"
        unfolding eq unfolding none st unfolding Let_def prod.case unfolding not_not simp_thms if_True if_False by (rule TrueI)
    qed
  qed
  have "\<not> (\<exists>p e. offence_of edges (scc_of (deps edges) p) = Some e)" using assms(3) unfolding offence_exists by blast
  then have "\<forall>b. b \<notin> set (List.map_filter ?f comps)" unfolding offences_found [OF comps(1)] by blast
  then have none: "List.map_filter ?f comps = []" by (cases "List.map_filter ?f comps") (simp, metis list.set_intros(1))
  obtain s' E where s': "kahn_loop out s = Some s'" "kahn_inv n (crossing D edges) (reps D n) ?mem E s'" "set E = reps D n"
    using start_ok [OF meta_eq_to_obj_eq [OF D_def, symmetric] range small st] kahn_returns by blast
  have "kh_stratum s' ! rep D p < length (kh_order s') \<and> kh_order s' ! (kh_stratum s' ! rep D p) = sorted_list_of_set (scc_of D p)" if "p < n" for p
  proof -
    have "length (kh_order s') = length E" using s'(2) by (simp add: kahn_inv_def)
    then show ?thesis using order_at [OF s'(2,3) range that] by auto
  qed
  moreover note order_lists [OF s'(2,3) range]
  moreover have "kh_stratum s' ! rep D (de_body e) \<le> kh_stratum s' ! rep D (de_head e) \<and>
      (strict e \<longrightarrow> kh_stratum s' ! rep D (de_body e) < kh_stratum s' ! rep D (de_head e))" if e: "e \<in> set edges" for e
  proof -
    have ends: "de_body e < n" "de_head e < n" using pred_count_ge e unfolding n_def by blast+
    have "\<not> strict e" if "rep D (de_body e) = rep D (de_head e)"
      using assms(3) e rep_facts(4) [OF range ends] that by (auto simp: D_def)
    then show ?thesis using edges_rise [OF s'(2,3) range e ends] by (cases "rep D (de_body e) = rep D (de_head e)") auto
  qed
  moreover have "de_body e < n \<and> de_head e < n" if "e \<in> set edges" for e using pred_count_ge that unfolding n_def by blast
  ultimately show ?thesis
    unfolding comps(2) [OF none] s'(1) by (simp add: rep_def)
qed

definition layered_reads :: "dep_edge list" where
  "layered_reads =
     [\<lparr>de_body = 0, de_head = 1, de_dep = Pos, de_site = 0\<rparr>, \<lparr>de_body = 1, de_head = 0, de_dep = Pos, de_site = 1\<rparr>,
      \<lparr>de_body = 1, de_head = 2, de_dep = Neg, de_site = 2\<rparr>]"

theorem stratify_orders_witness:
  "(\<exists>st. stratify 4 layered_reads = Some (Inr st) \<and> st_stratum_of st ! 1 < st_stratum_of st ! 2) \<and>
   map_option (\<lambda>r. case r of Inl _ \<Rightarrow> [] | Inr st \<Rightarrow> st_stratum_of st) (stratify 4 layered_reads) = Some [0, 0, 1, 2]"
proof
  have "pred_count 4 layered_reads \<le> u32_max" "length layered_reads \<le> u32_max" by code_simp+
  moreover have "\<forall>e \<in> set layered_reads. strict e \<longrightarrow> de_head e \<notin> scc_of (deps layered_reads) (de_body e)"
  proof -
    have D: "deps layered_reads = {(0, 1), (1, 0), (1, 2)}" by (simp add: deps_image layered_reads_def)
    have "(2 :: nat, 1 :: nat) \<notin> {(0, 1), (1, 0), (1, 2)}\<^sup>*" by (auto elim: converse_rtranclE)
    then show ?thesis unfolding D by (simp add: layered_reads_def strict_def scc_of_def)
  qed
  ultimately show "\<exists>st. stratify 4 layered_reads = Some (Inr st) \<and> st_stratum_of st ! 1 < st_stratum_of st ! 2"
    using stratify_orders [of 4 layered_reads] by (auto simp: layered_reads_def strict_def)
  show "map_option (\<lambda>r. case r of Inl _ \<Rightarrow> [] | Inr st \<Rightarrow> st_stratum_of st) (stratify 4 layered_reads) = Some [0, 0, 1, 2]"
    by code_simp
qed

end
