(* ===== verification/Aggregate.thy ===== *)
theory Aggregate
  imports Values RelStore Ir Chunks
begin

text \<open>
  Grouped aggregates, \<open>rules/src/aggregate.rs\<close>: the bindings of an aggregate rule's body, projected to
  group and aggregated columns, become one row per group. The table is passed through every operation that
  interns or compares, errors included; \<open>None\<close> is an interning that does not return. The comparison of
  \<open>min\<close> and \<open>max\<close> is the caller's, an argument.
\<close>

datatype out_col = OutGroup nat | OutAgg nat

record agg_spec =
  asp_group :: nat
  asp_ops :: "(aggop \<times> nat list) list"
  asp_out_order :: "out_col list"

record agg_output =
  ao_rows :: "handle list"
  ao_levels :: "tier list"
  ao_heights :: "nat list"

definition agg_output_default :: agg_output where
  "agg_output_default = \<lparr>ao_rows = [], ao_levels = [], ao_heights = []\<rparr>"

definition rows_get :: "handle list \<Rightarrow> nat \<Rightarrow> nat \<Rightarrow> handle list" where
  "rows_get data width i = take width (drop (i * width) data)"

definition quoted :: "utext \<Rightarrow> utext" where
  "quoted s = lit ''`'' @ s @ lit ''`''"

section \<open>The spec fits the input\<close>

fun first_error :: "('a \<Rightarrow> 'e option) \<Rightarrow> 'a list \<Rightarrow> 'e option" where
  "first_error f [] = None"
| "first_error f (x # xs) = (case f x of Some e \<Rightarrow> Some e | None \<Rightarrow> first_error f xs)"

definition agg_check_op :: "nat \<Rightarrow> utext \<Rightarrow> aggop \<times> nat list \<Rightarrow> rules_error option" where
  "agg_check_op width pred op_cols =
     (let (op, cols) = op_cols in
      if op = AggCount \<and> cols = [] then Some (EType pred (lit ''`count` takes at least one variable in '' @ quoted pred))
      else if op \<noteq> AggCount \<and> length cols \<noteq> 1 then
        Some (EType pred (quoted (aggop_name op) @ lit '' takes one variable, found '' @ nat_text (length cols) @ lit '' in '' @ quoted pred))
      else case find (\<lambda>c. c \<ge> width) cols of
          Some c \<Rightarrow> Some (EType pred (lit ''aggregate of '' @ quoted pred @ lit '' reads column '' @ nat_text c @ lit '' of '' @ nat_text width))
        | None \<Rightarrow> None)"

definition out_col_debug :: "out_col \<Rightarrow> utext" where
  "out_col_debug c = (case c of OutGroup i \<Rightarrow> lit ''Group('' @ nat_text i @ lit '')'' | OutAgg j \<Rightarrow> lit ''Agg('' @ nat_text j @ lit '')'')"

definition agg_check_col :: "agg_spec \<Rightarrow> utext \<Rightarrow> out_col \<Rightarrow> rules_error option" where
  "agg_check_col spec pred c =
     (let fits = (case c of OutGroup i \<Rightarrow> i < asp_group spec | OutAgg j \<Rightarrow> j < length (asp_ops spec)) in
      if \<not> fits then Some (EType pred (lit ''aggregate of '' @ quoted pred @ lit '' names a head column it lacks: '' @ out_col_debug c))
      else None)"

definition agg_check :: "agg_spec \<Rightarrow> nat \<Rightarrow> nat \<Rightarrow> nat \<Rightarrow> nat \<Rightarrow> utext \<Rightarrow> rules_error option" where
  "agg_check spec width cells n n_heights pred =
     (if n_heights \<noteq> n \<or> \<not> (n * width < 2 ^ 64 \<and> cells = n * width) then
        Some (EType pred (lit ''aggregate input for '' @ quoted pred @ lit '' is malformed: '' @ nat_text cells @ lit '' values, '' @
          nat_text n @ lit '' levels and '' @ nat_text n_heights @ lit '' heights for rows of width '' @ nat_text width))
      else if asp_group spec > width then
        Some (EType pred (lit ''aggregate of '' @ quoted pred @ lit '' groups by '' @ nat_text (asp_group spec) @ lit '' of '' @
          nat_text width @ lit '' columns''))
      else if asp_ops spec = [] then Some (EType pred (lit ''aggregate of '' @ quoted pred @ lit '' has no aggregate in its head''))
      else case first_error (agg_check_op width pred) (asp_ops spec) of
          Some e \<Rightarrow> Some e
        | None \<Rightarrow> first_error (agg_check_col spec pred) (asp_out_order spec))"

section \<open>One op over one group\<close>

definition agg_tuple :: "(nat \<Rightarrow> handle list) \<Rightarrow> nat list \<Rightarrow> nat \<Rightarrow> handle list" where
  "agg_tuple row cols i = map (\<lambda>c. row i ! c) cols"

definition agg_distinct :: "nat list \<Rightarrow> nat list \<Rightarrow> (nat \<Rightarrow> handle list) \<Rightarrow> nat list" where
  "agg_distinct members cols row = dedup_rows (agg_tuple row cols) (sort_key (agg_tuple row cols) members)"

definition i64_checked_add :: "64 word \<Rightarrow> 64 word \<Rightarrow> 64 word option" where
  "i64_checked_add a b = (if - (2 ^ 63) \<le> sint a + sint b \<and> sint a + sint b < 2 ^ 63 then Some (a + b) else None)"

fun agg_sum :: "nat \<Rightarrow> (nat \<Rightarrow> handle list) \<Rightarrow> utext \<Rightarrow> value_table \<Rightarrow> nat list \<Rightarrow> 64 word \<Rightarrow> rules_error + 64 word" where
  "agg_sum col row pred t [] s = Inr s"
| "agg_sum col row pred t (i # is) s =
     (case vt_get t (row i ! col) of
        VInt x \<Rightarrow>
          (case i64_checked_add s x of
             None \<Rightarrow> Inl (EType pred (lit ''sum overflows i64 in '' @ quoted pred))
           | Some s \<Rightarrow> agg_sum col row pred t is s)
      | _ \<Rightarrow> Inl (EType pred (lit ''sum over a non-integer value in '' @ quoted pred)))"

type_synonym handle_cmp = "value_table \<Rightarrow> handle \<Rightarrow> handle \<Rightarrow> ordering \<times> value_table"

fun agg_best :: "nat \<Rightarrow> (nat \<Rightarrow> handle list) \<Rightarrow> ordering \<Rightarrow> handle_cmp \<Rightarrow> nat list \<Rightarrow> handle \<Rightarrow> value_table \<Rightarrow> handle \<times> value_table" where
  "agg_best col row wins cmp [] best t = (best, t)"
| "agg_best col row wins cmp (i # is) best t =
     (let h = row i ! col in
      if h = best then agg_best col row wins cmp is best t
      else let (o', t) = cmp t h best in agg_best col row wins cmp is (if o' = wins then h else best) t)"

definition agg_intern :: "value_table \<Rightarrow> 64 word \<Rightarrow> ((rules_error + handle) \<times> value_table) option" where
  "agg_intern t n = map_option (\<lambda>(h, t). (Inr h, t)) (vt_intern t (VInt n))"

definition agg_apply ::
  "aggop \<Rightarrow> nat list \<Rightarrow> nat list \<Rightarrow> (nat \<Rightarrow> handle list) \<Rightarrow> value_table \<Rightarrow> handle_cmp \<Rightarrow> utext \<Rightarrow>
   ((rules_error + handle) \<times> value_table) option" where
  "agg_apply op cols members row t cmp pred =
     (case (op, cols) of
        (AggCount, _) \<Rightarrow>
          let n = length (agg_distinct members cols row) in
          if n < 2 ^ 63 then agg_intern t (of_nat n)
          else Some (Inl (EType pred (lit ''count overflows i64 in '' @ quoted pred)), t)
      | (AggSum, [col]) \<Rightarrow>
          (case agg_sum col row pred t (agg_distinct members cols row) 0 of
             Inl e \<Rightarrow> Some (Inl e, t)
           | Inr s \<Rightarrow> agg_intern t s)
      | (AggMin, [col]) \<Rightarrow>
          let (h, t) = agg_best col row Less cmp (tl members) (row (hd members) ! col) t in Some (Inr h, t)
      | (AggMax, [col]) \<Rightarrow>
          let (h, t) = agg_best col row Greater cmp (tl members) (row (hd members) ! col) t in Some (Inr h, t)
      | _ \<Rightarrow> Some (Inl (EType pred (quoted (aggop_name op) @ lit '' takes one variable in '' @ quoted pred)), t))"

section \<open>The groups\<close>

fun agg_results ::
  "(aggop \<times> nat list) list \<Rightarrow> nat list \<Rightarrow> (nat \<Rightarrow> handle list) \<Rightarrow> value_table \<Rightarrow> handle_cmp \<Rightarrow> utext \<Rightarrow> handle list \<Rightarrow>
   ((rules_error + handle list) \<times> value_table) option" where
  "agg_results [] members row t cmp pred results = Some (Inr results, t)"
| "agg_results ((op, cols) # ops) members row t cmp pred results =
     (case agg_apply op cols members row t cmp pred of
        None \<Rightarrow> None
      | Some (Inl e, t) \<Rightarrow> Some (Inl e, t)
      | Some (Inr h, t) \<Rightarrow> agg_results ops members row t cmp pred (results @ [h]))"

definition agg_head_row :: "out_col list \<Rightarrow> handle list \<Rightarrow> handle list \<Rightarrow> handle list" where
  "agg_head_row out_order key results = map (\<lambda>c. case c of OutGroup i \<Rightarrow> key ! i | OutAgg j \<Rightarrow> results ! j) out_order"

text \<open>The rows of one group after another; \<open>saturating_add\<close> on a height.\<close>

fun agg_groups ::
  "agg_spec \<Rightarrow> (nat \<Rightarrow> handle list) \<Rightarrow> tier list \<Rightarrow> nat list \<Rightarrow> handle_cmp \<Rightarrow> utext \<Rightarrow> nat list list \<Rightarrow> agg_output \<Rightarrow> value_table \<Rightarrow>
   ((rules_error + agg_output) \<times> value_table) option" where
  "agg_groups spec row levels heights cmp pred [] out t = Some (Inr out, t)"
| "agg_groups spec row levels heights cmp pred (members # groups) out t =
     (let key = take (asp_group spec) (row (hd members)) in
      case agg_results (asp_ops spec) members row t cmp pred [] of
        None \<Rightarrow> None
      | Some (Inl e, t) \<Rightarrow> Some (Inl e, t)
      | Some (Inr results, t) \<Rightarrow>
          agg_groups spec row levels heights cmp pred groups
            \<lparr>ao_rows = ao_rows out @ agg_head_row (asp_out_order spec) key results,
             ao_levels = ao_levels out @ [fold (\<lambda>i tier. tier_weakest tier (levels ! i)) members Fact],
             ao_heights = ao_heights out @ [min (2 ^ 32 - 1) (fold max (map (\<lambda>i. heights ! i) members) 0 + 1)]\<rparr> t)"

definition aggregate_rows ::
  "handle list \<Rightarrow> nat \<Rightarrow> tier list \<Rightarrow> nat list \<Rightarrow> agg_spec \<Rightarrow> value_table \<Rightarrow> handle_cmp \<Rightarrow> utext \<Rightarrow>
   ((rules_error + agg_output) \<times> value_table) option" where
  "aggregate_rows bindings width levels heights spec t cmp pred =
     (case agg_check spec width (length bindings) (length levels) (length heights) pred of
        Some e \<Rightarrow> Some (Inl e, t)
      | None \<Rightarrow>
          let row = rows_get bindings width;
              order = dedup_rows row (sort_key (\<lambda>i. (row i, levels ! i, heights ! i)) [0..<length levels]);
              same_group = (\<lambda>a b. take (asp_group spec) (row a) = take (asp_group spec) (row b))
          in agg_groups spec row levels heights cmp pred (chunk_by same_group order) agg_output_default t)"

end
