(* ===== verification/AggregateFacts.thy ===== *)
theory AggregateFacts
  imports Aggregate RelationRounds
begin

text \<open>
  Aggregates compute what their sets of values say: the count of the distinct tuples, the sum of the
  distinct integers, the least and the greatest value in the output order, whatever handles the values
  were given.
\<close>

section \<open>Meaning, on values\<close>

definition int_of :: "rvalue \<Rightarrow> int" where
  "int_of v = (case v of VInt x \<Rightarrow> sint x | _ \<Rightarrow> 0)"

definition is_int :: "rvalue \<Rightarrow> bool" where
  "is_int v = (case v of VInt x \<Rightarrow> True | _ \<Rightarrow> False)"

definition columns :: "nat list \<Rightarrow> 'a list \<Rightarrow> 'a list" where
  "columns cols r = map (\<lambda>c. r ! c) cols"

text \<open>The value of an op over the rows \<open>R\<close> of a group.\<close>

definition agg_means :: "(node_id \<Rightarrow> string) \<Rightarrow> aggop \<Rightarrow> nat list \<Rightarrow> rvalue list set \<Rightarrow> rvalue \<Rightarrow> bool" where
  "agg_means render op cols R v =
     (case op of
        AggCount \<Rightarrow> is_int v \<and> int_of v = int (card (columns cols ` R))
      | AggSum \<Rightarrow> (\<forall>r \<in> R. is_int (r ! hd cols)) \<and> is_int v \<and> int_of v = sum int_of ((\<lambda>r. r ! hd cols) ` R)
      | AggMin \<Rightarrow> v \<in> (\<lambda>r. r ! hd cols) ` R \<and> (\<forall>r \<in> R. value_cmp render v (r ! hd cols) \<noteq> Greater)
      | AggMax \<Rightarrow> v \<in> (\<lambda>r. r ! hd cols) ` R \<and> (\<forall>r \<in> R. value_cmp render (r ! hd cols) v \<noteq> Greater))"

section \<open>The table\<close>

definition table_ready :: "(node_id \<Rightarrow> string) \<Rightarrow> value_table \<Rightarrow> bool" where
  "table_ready render t \<longleftrightarrow> table_ok t \<and> cache_ok render t"

text \<open>A later table of the same evaluation: it holds more values, under the same handles.\<close>

definition grown :: "value_table \<Rightarrow> value_table \<Rightarrow> bool" where
  "grown t t' \<longleftrightarrow> (\<exists>new. vt_data t' = vt_data t @ new)"

lemma grown_refl [simp]: "grown t t"
  by (simp add: grown_def)

lemma grown_trans: "grown t u \<Longrightarrow> grown u w \<Longrightarrow> grown t w"
  by (auto simp: grown_def)

lemma grown_get: "grown t t' \<Longrightarrow> h < vt_len t \<Longrightarrow> vt_get t' h = vt_get t h \<and> h < vt_len t'"
  by (auto simp: grown_def vt_get_def vt_len_def nth_append)

lemma get_inj: "table_ready render t \<Longrightarrow> a < vt_len t \<Longrightarrow> b < vt_len t \<Longrightarrow> vt_get t a = vt_get t b \<longleftrightarrow> a = b"
  by (auto simp: table_ready_def table_ok_def vt_get_def vt_len_def nth_eq_iff_index_eq)

lemma intern_ready:
  assumes "table_ready render t"
  shows "\<exists>h t'. agg_intern t n = Some (Inr h, t') \<and> table_ready render t' \<and> grown t t' \<and> h < vt_len t' \<and> vt_get t' h = VInt n"
proof -
  obtain h t' where t': "vt_intern t (VInt n) = Some (h, t')" "table_ok t'" "h < length (vt_data t')" "vt_data t' ! h = VInt n"
    "vt_rendered t' = vt_rendered t" "vt_data t' = (if VInt n \<in> set (vt_data t) then vt_data t else vt_data t @ [VInt n])"
    using vt_intern_spec [of t "VInt n"] assms by (auto simp: table_ready_def)
  have g: "grown t t'" unfolding grown_def using t'(6) by (cases "VInt n \<in> set (vt_data t)") simp_all
  have "cache_ok render t'"
    using assms t'(5) g by (auto simp: table_ready_def cache_ok_def grown_def nth_append)
  then show ?thesis using t' g by (auto simp: agg_intern_def table_ready_def vt_len_def vt_get_def)
qed

text \<open>The comparison the evaluator passes.\<close>

definition by_rendered :: "(node_id \<Rightarrow> string) \<Rightarrow> handle_cmp" where
  "by_rendered render t a b = vt_cmp_rendered t a b render"

lemma by_rendered_ready:
  assumes "table_ready render t" and "a < vt_len t" and "b < vt_len t"
  shows "fst (by_rendered render t a b) = value_cmp render (vt_get t a) (vt_get t b)"
    and "table_ready render (snd (by_rendered render t a b))" and "vt_data (snd (by_rendered render t a b)) = vt_data t"
proof -
  note spec = cmp_rendered_spec [of t render a b]
  have t: "table_ok t" "cache_ok render t" "a < length (vt_data t)" "b < length (vt_data t)"
    using assms by (simp_all add: table_ready_def vt_len_def)
  show "fst (by_rendered render t a b) = value_cmp render (vt_get t a) (vt_get t b)" "vt_data (snd (by_rendered render t a b)) = vt_data t"
    using spec(1,3) [OF t] by (simp_all add: by_rendered_def)
  have "entry_digest (snd (vt_cmp_rendered t a b render)) = entry_digest t"
    by (rule ext) (simp add: entry_digest_def spec(3,5) [OF t])
  then have "table_ok (snd (vt_cmp_rendered t a b render))" using t(1) by (simp add: table_ok_def spec(3,4) [OF t])
  then show "table_ready render (snd (by_rendered render t a b))" using spec(2) [OF t] by (simp add: by_rendered_def table_ready_def)
qed

section \<open>The distinct members\<close>

lemma distinct_members:
  "set (agg_distinct ms cols row) \<subseteq> set ms \<and> distinct (map (agg_tuple row cols) (agg_distinct ms cols row)) \<and>
   agg_tuple row cols ` set (agg_distinct ms cols row) = agg_tuple row cols ` set ms"
proof -
  let ?f = "agg_tuple row cols"
  have "sorted (map ?f (sort_key ?f ms))" by simp
  from sorted_dedup_rows [OF this] have "sorted_wrt (<) (map ?f (agg_distinct ms cols row))" by (simp add: agg_distinct_def)
  then have "distinct (map ?f (agg_distinct ms cols row))" by (simp only: strict_sorted_iff)
  moreover have "?f ` set (agg_distinct ms cols row) = ?f ` set ms" by (simp add: agg_distinct_def image_dedup)
  moreover have "set (agg_distinct ms cols row) \<subseteq> set ms"
    unfolding agg_distinct_def using set_dedup_rows [of ?f "sort_key ?f ms"] by simp
  ultimately show ?thesis by blast
qed

text \<open>The rows a list of members stands for, as values.\<close>

definition value_row :: "value_table \<Rightarrow> handle list \<Rightarrow> rvalue list" where
  "value_row t r = map (vt_get t) r"

definition rows_in :: "value_table \<Rightarrow> nat \<Rightarrow> (nat \<Rightarrow> handle list) \<Rightarrow> nat list \<Rightarrow> bool" where
  "rows_in t width row ms \<longleftrightarrow> (\<forall>i \<in> set ms. length (row i) = width \<and> (\<forall>h \<in> set (row i). h < vt_len t))"

lemma rows_in_nth: "rows_in t width row ms \<Longrightarrow> i \<in> set ms \<Longrightarrow> c < width \<Longrightarrow> row i ! c < vt_len t"
  by (auto simp: rows_in_def)

lemma columns_value: "length r = width \<Longrightarrow> \<forall>c \<in> set cols. c < width \<Longrightarrow> columns cols (value_row t r) = map (vt_get t) (map (\<lambda>c. r ! c) cols)"
  by (simp add: columns_def value_row_def)

lemma count_means:
  assumes t: "table_ready render t" and rows: "rows_in t width row ms" and cols: "\<forall>c \<in> set cols. c < width"
  shows "length (agg_distinct ms cols row) = card (columns cols ` value_row t ` row ` set ms)"
proof -
  have tuple: "columns cols (value_row t (row i)) = map (vt_get t) (agg_tuple row cols i)" if "i \<in> set ms" for i
    using rows that cols by (simp add: columns_value rows_in_def agg_tuple_def)
  have "columns cols ` value_row t ` row ` set ms = map (vt_get t) ` agg_tuple row cols ` set ms"
    unfolding image_image by (rule image_cong [OF refl tuple])
  moreover have "inj_on (map (vt_get t)) (agg_tuple row cols ` set ms)"
  proof (rule inj_onI)
    fix a b assume "a \<in> agg_tuple row cols ` set ms" "b \<in> agg_tuple row cols ` set ms" and eq: "map (vt_get t) a = map (vt_get t) b"
    then have ab: "\<forall>h \<in> set a. h < vt_len t" "\<forall>h \<in> set b. h < vt_len t"
      using rows_in_nth [OF rows] cols by (auto simp: agg_tuple_def)
    have "inj_on (vt_get t) (set a \<union> set b)" using ab get_inj [OF t] by (auto intro!: inj_onI)
    then show "a = b" using eq inj_on_map_eq_map by blast
  qed
  ultimately have "card (columns cols ` value_row t ` row ` set ms) = card (agg_tuple row cols ` set ms)" by (simp add: card_image)
  also have "\<dots> = card (set (map (agg_tuple row cols) (agg_distinct ms cols row)))" using distinct_members [of ms cols row] by simp
  also have "\<dots> = length (agg_distinct ms cols row)" using distinct_card [of "map (agg_tuple row cols) (agg_distinct ms cols row)"] distinct_members [of ms cols row] by simp
  finally show ?thesis by simp
qed

section \<open>Sums\<close>

text \<open>Why an op fails: a sum over something else than integers, or over integers too large to add in any order.\<close>

definition agg_fails :: "aggop \<Rightarrow> nat list \<Rightarrow> rvalue list set \<Rightarrow> bool" where
  "agg_fails op cols R \<longleftrightarrow>
     op = AggSum \<and> ((\<exists>r \<in> R. \<not> is_int (r ! hd cols)) \<or> 2 ^ 63 \<le> (\<Sum>v \<in> (\<lambda>r. r ! hd cols) ` R. \<bar>int_of v\<bar>))"

lemma checked_add_sint: "i64_checked_add a b = Some s \<Longrightarrow> sint s = sint a + sint b"
proof -
  assume "i64_checked_add a b = Some s"
  then have r: "- (2 ^ 63) \<le> sint a + sint b" "sint a + sint b < 2 ^ 63" "s = a + b" by (auto simp: i64_checked_add_def split: if_splits)
  have "signed_take_bit 63 (sint a + sint b) = sint a + sint b" using r(1,2) by (intro signed_take_bit_int_eq_self) auto
  then show ?thesis unfolding r(3) by (simp add: sint_word_ariths)
qed

lemma agg_sum_spec:
  defines "val \<equiv> \<lambda>t col row i. vt_get t (row i ! col)"
  shows "case agg_sum col row pred t ms s of
      Inr r \<Rightarrow> (\<forall>i \<in> set ms. is_int (val t col row i)) \<and> sint r = sint s + (\<Sum>i \<leftarrow> ms. int_of (val t col row i))
    | Inl e \<Rightarrow> (\<exists>m. e = EType pred m) \<and>
        ((\<exists>i \<in> set ms. \<not> is_int (val t col row i)) \<or> 2 ^ 63 \<le> \<bar>sint s\<bar> + (\<Sum>i \<leftarrow> ms. \<bar>int_of (val t col row i)\<bar>))"
proof (induction ms arbitrary: s)
  case (Cons i ms)
  show ?case
  proof (cases "val t col row i")
    case (VInt x)
    have head: "is_int (val t col row i)" "int_of (val t col row i) = sint x" by (simp_all add: VInt is_int_def int_of_def)
    have step: "agg_sum col row pred t (i # ms) s = (case i64_checked_add s x of
        None \<Rightarrow> Inl (EType pred (lit ''sum overflows i64 in '' @ quoted pred)) | Some s \<Rightarrow> agg_sum col row pred t ms s)"
      using VInt by (simp add: val_def)
    have pos: "0 \<le> (\<Sum>i \<leftarrow> ms. \<bar>int_of (val t col row i)\<bar>)" by (rule sum_list_nonneg) auto
    show ?thesis
    proof (cases "i64_checked_add s x")
      case None
      then have "2 ^ 63 \<le> \<bar>sint s\<bar> + \<bar>sint x\<bar>" by (auto simp: i64_checked_add_def split: if_splits)
      then show ?thesis using pos by (simp add: step None head del: agg_sum.simps)
    next
      case (Some s')
      note add = checked_add_sint [OF Some]
      show ?thesis
      proof (cases "agg_sum col row pred t ms s'")
        case (Inl e)
        then have "(\<exists>m. e = EType pred m)"
          "(\<exists>i \<in> set ms. \<not> is_int (val t col row i)) \<or> 2 ^ 63 \<le> \<bar>sint s'\<bar> + (\<Sum>i \<leftarrow> ms. \<bar>int_of (val t col row i)\<bar>)"
          using Cons.IH [of s'] by simp_all
        then show ?thesis using add by (auto simp: step Some Inl head simp del: agg_sum.simps)
      next
        case (Inr r)
        then show ?thesis using Cons.IH [of s'] add by (simp add: step Some Inr head del: agg_sum.simps)
      qed
    qed
  qed (simp_all add: val_def is_int_def)
qed simp

text \<open>The distinct members give each value of a column once.\<close>

lemma column_values:
  assumes t: "table_ready render t" and rows: "rows_in t width row ms" and col: "col < width"
  shows "(\<Sum>i \<leftarrow> agg_distinct ms [col] row. f (vt_get t (row i ! col))) = sum f ((\<lambda>r. r ! col) ` value_row t ` row ` set ms)"
    and "(\<lambda>i. vt_get t (row i ! col)) ` set (agg_distinct ms [col] row) = (\<lambda>r. r ! col) ` value_row t ` row ` set ms"
proof -
  let ?is = "agg_distinct ms [col] row" and ?h = "\<lambda>i. row i ! col"
  have sub: "set ?is \<subseteq> set ms" and d: "distinct (map (agg_tuple row [col]) ?is)"
    and img: "agg_tuple row [col] ` set ?is = agg_tuple row [col] ` set ms" using distinct_members [of ms "[col]" row] by auto
  have tuple: "agg_tuple row [col] = (\<lambda>i. [?h i])" by (rule ext) (simp add: agg_tuple_def)
  have d': "distinct ?is" "inj_on ?h (set ?is)" using d unfolding tuple distinct_map by (auto simp: inj_on_def)
  have img': "?h ` set ?is = ?h ` set ms"
  proof -
    have "(\<lambda>i. [?h i]) ` set ?is = (\<lambda>i. [?h i]) ` set ms" using img unfolding tuple .
    then have "hd ` (\<lambda>i. [?h i]) ` set ?is = hd ` (\<lambda>i. [?h i]) ` set ms" by simp
    then show ?thesis by (simp add: image_image)
  qed
  have valid: "?h i < vt_len t" if "i \<in> set ms" for i using rows_in_nth [OF rows that col] .
  have vals: "(\<lambda>r. r ! col) ` value_row t ` row ` set ms = vt_get t ` ?h ` set ms"
    unfolding image_image using rows col by (intro image_cong) (auto simp: rows_in_def value_row_def)
  have inj: "inj_on (vt_get t) (?h ` set ms)" using valid get_inj [OF t] by (auto intro!: inj_onI)
  have "(\<Sum>i \<leftarrow> ?is. f (vt_get t (?h i))) = sum (\<lambda>i. f (vt_get t (?h i))) (set ?is)" using d'(1) by (simp add: sum_list_distinct_conv_sum_set)
  also have "\<dots> = sum (\<lambda>h. f (vt_get t h)) (?h ` set ms)" unfolding img' [symmetric] using d'(2) by (simp add: sum.reindex)
  also have "\<dots> = sum f (vt_get t ` ?h ` set ms)" using inj by (simp add: sum.reindex)
  finally show "(\<Sum>i \<leftarrow> ?is. f (vt_get t (row i ! col))) = sum f ((\<lambda>r. r ! col) ` value_row t ` row ` set ms)" unfolding vals .
  show "(\<lambda>i. vt_get t (row i ! col)) ` set ?is = (\<lambda>r. r ! col) ` value_row t ` row ` set ms"
  proof -
    have "(\<lambda>i. vt_get t (row i ! col)) ` set ?is = vt_get t ` ?h ` set ?is" by (simp only: image_image)
    then show ?thesis unfolding img' vals .
  qed
qed

section \<open>Least and greatest\<close>

lemma best_spec:
  assumes "table_ready render t" and "best < vt_len t" and "\<forall>i \<in> set is. row i ! col < vt_len t"
  shows "\<exists>h t'. agg_best col row wins (by_rendered render) is best t = (h, t') \<and> table_ready render t' \<and> vt_data t' = vt_data t \<and>
    h \<in> insert best ((\<lambda>i. row i ! col) ` set is) \<and>
    (\<forall>g \<in> insert best ((\<lambda>i. row i ! col) ` set is).
       (wins = Less \<longrightarrow> value_key render (vt_get t h) \<le> value_key render (vt_get t g)) \<and>
       (wins = Greater \<longrightarrow> value_key render (vt_get t g) \<le> value_key render (vt_get t h)))"
  using assms
proof (induction "is" arbitrary: best t)
  case (Cons i "is")
  let ?h = "row i ! col"
  have i: "?h < vt_len t" and rest: "\<forall>i \<in> set is. row i ! col < vt_len t" using Cons.prems(3) by simp_all
  show ?case
  proof (cases "?h = best")
    case True
    then show ?thesis using Cons.IH [OF Cons.prems(1,2) rest] by (auto simp: insert_commute)
  next
    case False
    let ?cmp = "by_rendered render t ?h best"
    note cmp = by_rendered_ready [OF Cons.prems(1) i Cons.prems(2)]
    let ?best = "if fst ?cmp = wins then ?h else best"
    have len: "vt_len (snd ?cmp) = vt_len t" "vt_get (snd ?cmp) = vt_get t" by (simp_all add: vt_len_def vt_get_def cmp(3) fun_eq_iff)
    have "?best < vt_len (snd ?cmp)" "\<forall>i \<in> set is. row i ! col < vt_len (snd ?cmp)" using i rest Cons.prems(2) len by simp_all
    from Cons.IH [OF cmp(2) this] obtain h t' where r: "agg_best col row wins (by_rendered render) is ?best (snd ?cmp) = (h, t')"
      "table_ready render t'" "vt_data t' = vt_data t" "h \<in> insert ?best ((\<lambda>i. row i ! col) ` set is)"
      "\<forall>g \<in> insert ?best ((\<lambda>i. row i ! col) ` set is).
         (wins = Less \<longrightarrow> value_key render (vt_get t h) \<le> value_key render (vt_get t g)) \<and>
         (wins = Greater \<longrightarrow> value_key render (vt_get t g) \<le> value_key render (vt_get t h))"
      unfolding len cmp(3) by (elim exE conjE) (rule that)
    have run: "agg_best col row wins (by_rendered render) (i # is) best t = (h, t')"
      using False r(1) by (simp add: case_prod_beta)
    have loser: "(wins = Less \<longrightarrow> value_key render (vt_get t ?best) \<le> value_key render (vt_get t g)) \<and>
        (wins = Greater \<longrightarrow> value_key render (vt_get t g) \<le> value_key render (vt_get t ?best))" if "g \<in> {best, ?h}" for g
      using that cmp(1) by (auto simp: value_cmp_key cmp_of_def split: if_splits)
    have "(wins = Less \<longrightarrow> value_key render (vt_get t h) \<le> value_key render (vt_get t g)) \<and>
         (wins = Greater \<longrightarrow> value_key render (vt_get t g) \<le> value_key render (vt_get t h))"
      if g: "g \<in> insert best ((\<lambda>i. row i ! col) ` set (i # is))" for g
    proof (cases "g \<in> {best, ?h}")
      case True
      then show ?thesis using loser [OF True] r(5) by (meson insertI1 order_trans)
    qed (use g r(5) in auto)
    moreover have "h \<in> insert best ((\<lambda>i. row i ! col) ` set (i # is))" using r(4) by (auto split: if_splits)
    ultimately show ?thesis using run r(2,3) by blast
  qed
qed auto

section \<open>One op\<close>

lemma apply_spec:
  assumes t: "table_ready render t" and rows: "rows_in t width row ms" and ms: "ms \<noteq> []" "length ms < 2 ^ 63"
    and cols: "\<forall>c \<in> set cols. c < width" "op = AggCount \<or> length cols = 1"
  defines "R \<equiv> value_row t ` row ` set ms"
  shows "\<exists>r t'. agg_apply op cols ms row t (by_rendered render) pred = Some (r, t') \<and> table_ready render t' \<and> grown t t' \<and>
    (case r of Inr h \<Rightarrow> h < vt_len t' \<and> agg_means render op cols R (vt_get t' h)
     | Inl e \<Rightarrow> (\<exists>m. e = EType pred m) \<and> agg_fails op cols R)"
proof -
  have best: "\<exists>h t'. agg_best col row wins (by_rendered render) (tl ms) (row (hd ms) ! col) t = (h, t') \<and> table_ready render t' \<and> grown t t' \<and>
      h < vt_len t' \<and> vt_get t' h \<in> (\<lambda>r. r ! col) ` R \<and>
      (\<forall>r \<in> R. (wins = Less \<longrightarrow> value_cmp render (vt_get t' h) (r ! col) \<noteq> Greater) \<and>
        (wins = Greater \<longrightarrow> value_cmp render (r ! col) (vt_get t' h) \<noteq> Greater))" if col: "col < width" for col wins
  proof -
    have valid: "row i ! col < vt_len t" if "i \<in> set ms" for i using rows_in_nth [OF rows that col] .
    have all: "insert (row (hd ms) ! col) ((\<lambda>i. row i ! col) ` set (tl ms)) = (\<lambda>i. row i ! col) ` set ms" using ms(1) by (cases ms) auto
    have "row (hd ms) ! col < vt_len t" "\<forall>i \<in> set (tl ms). row i ! col < vt_len t" using valid ms(1) by (auto simp: list.set_sel)
    from best_spec [OF t this, of wins] obtain h t' where r:
      "agg_best col row wins (by_rendered render) (tl ms) (row (hd ms) ! col) t = (h, t')" "table_ready render t'" "vt_data t' = vt_data t"
      "h \<in> (\<lambda>i. row i ! col) ` set ms"
      "\<forall>g \<in> (\<lambda>i. row i ! col) ` set ms. (wins = Less \<longrightarrow> value_key render (vt_get t h) \<le> value_key render (vt_get t g)) \<and>
        (wins = Greater \<longrightarrow> value_key render (vt_get t g) \<le> value_key render (vt_get t h))"
      unfolding all by (elim exE conjE) (rule that)
    have same: "vt_get t' = vt_get t" "vt_len t' = vt_len t" by (simp_all add: vt_get_def vt_len_def r(3) fun_eq_iff)
    have val: "value_row t (row i) ! col = vt_get t (row i ! col)" if "i \<in> set ms" for i
      using rows that col by (simp add: rows_in_def value_row_def)
    have "vt_get t' h \<in> (\<lambda>r. r ! col) ` R" using r(4) val unfolding R_def same by (auto simp: image_image intro!: image_eqI)
    moreover have "\<forall>r \<in> R. (wins = Less \<longrightarrow> value_cmp render (vt_get t' h) (r ! col) \<noteq> Greater) \<and>
        (wins = Greater \<longrightarrow> value_cmp render (r ! col) (vt_get t' h) \<noteq> Greater)"
      using r(5) val unfolding R_def same value_cmp_key by (auto simp: not_less)
    moreover have "h < vt_len t'" using r(4) valid same by auto
    moreover have "grown t t'" by (simp add: grown_def r(3))
    ultimately show ?thesis using r(1,2) by blast
  qed
  have one: "\<exists>col. cols = [col] \<and> col < width" if "op \<noteq> AggCount"
    using cols that by (cases cols; cases "tl cols") auto
  show ?thesis
  proof (cases op)
    case AggCount
    have n: "length (agg_distinct ms cols row) = card (columns cols ` R)" unfolding R_def by (rule count_means [OF t rows cols(1)])
    have "card (columns cols ` R) \<le> length ms"
      unfolding R_def image_image by (rule order_trans [OF card_image_le card_length]) simp
    then have small: "card (columns cols ` R) < 2 ^ 63" using ms(2) by simp
    then have "sint (of_nat (card (columns cols ` R)) :: 64 word) = int (card (columns cols ` R))"
      by (simp add: signed_take_bit_int_eq_self signed_of_nat)
    then show ?thesis
      using intern_ready [OF t, of "of_nat (card (columns cols ` R))"] small
      by (auto simp: agg_apply_def AggCount n agg_means_def is_int_def int_of_def)
  next
    case AggSum
    then obtain col where col: "cols = [col]" "col < width" using one by auto
    let ?is = "agg_distinct ms [col] row"
    note vals = column_values(1) [OF t rows col(2), of int_of, folded R_def]
      column_values(1) [OF t rows col(2), of "\<lambda>v. \<bar>int_of v\<bar>", folded R_def] column_values(2) [OF t rows col(2), folded R_def]
    have ints: "(\<forall>i \<in> set ?is. is_int (vt_get t (row i ! col))) \<longleftrightarrow> (\<forall>r \<in> R. is_int (r ! col))"
      using vals(3) by (metis (no_types, lifting) imageE imageI)
    note sums = agg_sum_spec [where col = col and row = row and pred = pred and t = t and ms = "agg_distinct ms [col] row" and s = 0, unfolded vals(1,2) ints]
    show ?thesis
    proof (cases "agg_sum col row pred t ?is 0")
      case (Inl e)
      then have "(\<exists>m. e = EType pred m) \<and> agg_fails op cols R" using sums ints by (auto simp: agg_fails_def AggSum col(1))
      then show ?thesis using t Inl by (auto simp: agg_apply_def AggSum col(1))
    next
      case (Inr s)
      then have "agg_means render op cols R (VInt s)" using sums by (simp add: agg_means_def AggSum col(1) is_int_def int_of_def)
      then show ?thesis using intern_ready [OF t, of s] Inr by (auto simp: agg_apply_def AggSum col(1))
    qed
  next
    case AggMin
    then obtain col where col: "cols = [col]" "col < width" using one by auto
    from best [OF col(2), of Less] show ?thesis by (elim exE conjE) (simp add: agg_apply_def AggMin col(1) agg_means_def)
  next
    case AggMax
    then obtain col where col: "cols = [col]" "col < width" using one by auto
    from best [OF col(2), of Greater] show ?thesis by (elim exE conjE) (simp add: agg_apply_def AggMax col(1) agg_means_def)
  qed
qed

section \<open>The ops of a group\<close>

lemma rows_in_grown: "grown t t' \<Longrightarrow> rows_in t width row ms \<Longrightarrow> rows_in t' width row ms"
  using grown_get by (auto simp: rows_in_def)

lemma value_row_grown: "grown t t' \<Longrightarrow> \<forall>h \<in> set r. h < vt_len t \<Longrightarrow> value_row t' r = value_row t r"
  using grown_get by (auto simp: value_row_def)

lemma value_rows_grown: "grown t t' \<Longrightarrow> rows_in t width row ms \<Longrightarrow> value_row t' ` row ` set ms = value_row t ` row ` set ms"
  unfolding image_image by (rule image_cong [OF refl]) (auto simp: rows_in_def intro!: value_row_grown)

definition ops_fit :: "nat \<Rightarrow> (aggop \<times> nat list) list \<Rightarrow> bool" where
  "ops_fit width ops \<longleftrightarrow> (\<forall>(op, cols) \<in> set ops. (\<forall>c \<in> set cols. c < width) \<and> (op = AggCount \<or> length cols = 1))"

lemma results_spec:
  assumes "table_ready render t" and "rows_in t width row ms" and "ms \<noteq> []" "length ms < 2 ^ 63" and "ops_fit width ops"
    and "R = value_row t ` row ` set ms"
  shows "\<exists>r t'. agg_results ops ms row t (by_rendered render) pred results = Some (r, t') \<and> table_ready render t' \<and> grown t t' \<and>
    (case r of
       Inr hs \<Rightarrow> \<exists>hs'. hs = results @ hs' \<and> (\<forall>h \<in> set hs'. h < vt_len t') \<and>
         list_all2 (\<lambda>(op, cols) v. agg_means render op cols R v) ops (map (vt_get t') hs')
     | Inl e \<Rightarrow> (\<exists>m. e = EType pred m) \<and> (\<exists>(op, cols) \<in> set ops. agg_fails op cols R))"
  using assms(1,2,5,6)
proof (induction ops arbitrary: t results)
  case (Cons x ops)
  obtain op cols where x: "x = (op, cols)" by (cases x)
  have fit: "\<forall>c \<in> set cols. c < width" "op = AggCount \<or> length cols = 1" "ops_fit width ops" using Cons.prems(3) by (auto simp: ops_fit_def x)
  obtain r t1 where r: "agg_apply op cols ms row t (by_rendered render) pred = Some (r, t1)" "table_ready render t1" "grown t t1"
    "case r of Inr h \<Rightarrow> h < vt_len t1 \<and> agg_means render op cols R (vt_get t1 h) | Inl e \<Rightarrow> (\<exists>m. e = EType pred m) \<and> agg_fails op cols R"
    using apply_spec [OF Cons.prems(1,2) assms(3,4) fit(1,2)] unfolding Cons.prems(4) by blast
  show ?case
  proof (cases r)
    case (Inl e)
    then show ?thesis using r by (auto simp: x)
  next
    case (Inr h)
    have R: "R = value_row t1 ` row ` set ms" using value_rows_grown [OF r(3) Cons.prems(2)] Cons.prems(4) by simp
    obtain r' t' where r': "agg_results ops ms row t1 (by_rendered render) pred (results @ [h]) = Some (r', t')" "table_ready render t'" "grown t1 t'"
      "case r' of
         Inr hs \<Rightarrow> \<exists>hs'. hs = (results @ [h]) @ hs' \<and> (\<forall>h \<in> set hs'. h < vt_len t') \<and>
           list_all2 (\<lambda>(op, cols) v. agg_means render op cols R v) ops (map (vt_get t') hs')
       | Inl e \<Rightarrow> (\<exists>m. e = EType pred m) \<and> (\<exists>(op, cols) \<in> set ops. agg_fails op cols R)"
      using Cons.IH [OF r(2) rows_in_grown [OF r(3) Cons.prems(2)] fit(3) R, of "results @ [h]"] by blast
    have run: "agg_results (x # ops) ms row t (by_rendered render) pred results = Some (r', t')" using r(1) Inr r'(1) by (simp add: x)
    have g: "grown t t'" using r(3) r'(3) by (rule grown_trans)
    show ?thesis
    proof (cases r')
      case (Inl e)
      then show ?thesis using run r'(2,4) g by (auto simp: x)
    next
      case hs: (Inr hs)
      then obtain hs' where hs': "hs = (results @ [h]) @ hs'" "\<forall>h \<in> set hs'. h < vt_len t'"
        "list_all2 (\<lambda>(op, cols) v. agg_means render op cols R v) ops (map (vt_get t') hs')" using r'(4) by auto
      have "h < vt_len t'" "vt_get t' h = vt_get t1 h" using grown_get [OF r'(3)] r(4) Inr by simp_all
      then have "list_all2 (\<lambda>(op, cols) v. agg_means render op cols R v) (x # ops) (map (vt_get t') (h # hs'))" "\<forall>h \<in> set (h # hs'). h < vt_len t'"
        using hs'(2,3) r(4) Inr by (simp_all add: x)
      then show ?thesis using run r'(2) g hs hs'(1) by (auto intro!: exI [of _ "h # hs'"])
    qed
  qed
qed simp

section \<open>The groups\<close>

text \<open>What the members of a group give: the head row, the weakest level, and a height above all.\<close>

definition group_means ::
  "(node_id \<Rightarrow> string) \<Rightarrow> agg_spec \<Rightarrow> rvalue list \<Rightarrow> rvalue list set \<Rightarrow> tier set \<Rightarrow> nat set \<Rightarrow> rvalue list \<times> tier \<times> nat \<Rightarrow> bool" where
  "group_means render spec k R levels heights out \<longleftrightarrow>
     (\<exists>results. list_all2 (\<lambda>(op, cols) v. agg_means render op cols R v) (asp_ops spec) results \<and>
        fst out = map (\<lambda>c. case c of OutGroup i \<Rightarrow> k ! i | OutAgg j \<Rightarrow> results ! j) (asp_out_order spec)) \<and>
     fst (snd out) = Max levels \<and> snd (snd out) = min (2 ^ 32 - 1) (Suc (Max heights))"

definition cols_fit :: "agg_spec \<Rightarrow> bool" where
  "cols_fit spec \<longleftrightarrow> (\<forall>c \<in> set (asp_out_order spec). case c of OutGroup i \<Rightarrow> i < asp_group spec | OutAgg j \<Rightarrow> j < length (asp_ops spec))"

lemma head_row_valid:
  assumes "\<forall>h \<in> set key. h < m" and "\<forall>h \<in> set hs. h < m" and "length key = asp_group spec" and "length hs = length (asp_ops spec)"
    and fit: "cols_fit spec"
  shows "\<forall>h \<in> set (agg_head_row (asp_out_order spec) key hs). h < m"
proof
  fix h assume "h \<in> set (agg_head_row (asp_out_order spec) key hs)"
  then obtain c where c: "c \<in> set (asp_out_order spec)" "h = (case c of OutGroup i \<Rightarrow> key ! i | OutAgg j \<Rightarrow> hs ! j)"
    by (auto simp: agg_head_row_def)
  then have "case c of OutGroup i \<Rightarrow> i < length key | OutAgg j \<Rightarrow> j < length hs" using bspec [OF fit [unfolded cols_fit_def] c(1)] assms(3,4) by (simp split: out_col.splits)
  then show "h < m" using c(2) assms(1,2) by (cases c) simp_all
qed

lemma weakest_fold: "ms \<noteq> [] \<Longrightarrow> fold (\<lambda>i tier. tier_weakest tier (f i)) ms Fact = Max (f ` set ms)"
proof -
  have "fold (\<lambda>i tier. tier_weakest tier (f i)) ms x = Max (insert x (f ` set ms))" for x
  proof (induction ms arbitrary: x)
    case (Cons i ms)
    have "Max (insert (max x (f i)) (f ` set ms)) = Max (insert x (f ` set (i # ms)))"
      by (cases "ms = []") (simp_all add: max.assoc)
    then show ?case using Cons.IH by (simp add: tier_weakest_def)
  qed simp
  moreover assume "ms \<noteq> []"
  then have "Max (insert Fact (f ` set ms)) = Max (f ` set ms)"
    by (simp add: max_def less_eq_tier_def tier_level_def)
  ultimately show ?thesis by simp
qed

lemma height_fold: "ms \<noteq> [] \<Longrightarrow> fold max (map f ms) 0 = Max (f ` set ms)" for f :: "nat \<Rightarrow> nat"
proof -
  assume "ms \<noteq> []"
  then have "fold max (map f ms) 0 = max 0 (Max (f ` set ms))"
    using Max.set_eq_fold [of 0 "map f ms"] by simp
  then show ?thesis by simp
qed

lemma group_row:
  assumes t: "table_ready render t" and rows: "rows_in t width row ms" and ms: "ms \<noteq> []" and g: "asp_group spec \<le> width" and "cols_fit spec"
    and key: "\<forall>i \<in> set ms. take (asp_group spec) (row i) = k"
    and results: "list_all2 (\<lambda>(op, cols) v. agg_means render op cols R v) (asp_ops spec) (map (vt_get t) hs)"
  shows "group_means render spec (value_row t k) R ((!) levels ` set ms) ((!) heights ` set ms)
      (value_row t (agg_head_row (asp_out_order spec) (take (asp_group spec) (row (hd ms))) hs),
       fold (\<lambda>i tier. tier_weakest tier (levels ! i)) ms Fact, min (2 ^ 32 - 1) (fold max (map (\<lambda>i. heights ! i) ms) 0 + 1))"
proof -
  have k: "take (asp_group spec) (row (hd ms)) = k" "length k = asp_group spec"
  proof -
    show first: "take (asp_group spec) (row (hd ms)) = k" using key ms by simp
    have "length (row (hd ms)) = width" using rows ms by (simp add: rows_in_def)
    then show "length k = asp_group spec" unfolding first [symmetric] using g by simp
  qed
  have len: "length hs = length (asp_ops spec)" using list_all2_lengthD [OF results] by simp
  have "value_row t (agg_head_row (asp_out_order spec) k hs) =
      map (\<lambda>c. case c of OutGroup i \<Rightarrow> value_row t k ! i | OutAgg j \<Rightarrow> map (vt_get t) hs ! j) (asp_out_order spec)"
    unfolding agg_head_row_def value_row_def map_map
    using assms(5) k(2) len by (intro map_cong [OF refl]) (auto simp: cols_fit_def split: out_col.splits)
  moreover have "fold max (map (\<lambda>i. heights ! i) ms) 0 + 1 = Suc (Max ((!) heights ` set ms))" using height_fold [OF ms] by simp
  ultimately show ?thesis
    using results weakest_fold [OF ms, of "(!) levels"] unfolding group_means_def k by auto
qed

definition group_ok :: "value_table \<Rightarrow> nat \<Rightarrow> (nat \<Rightarrow> handle list) \<Rightarrow> nat \<Rightarrow> nat list \<Rightarrow> bool" where
  "group_ok t width row g ms \<longleftrightarrow>
     ms \<noteq> [] \<and> length ms < 2 ^ 63 \<and> rows_in t width row ms \<and> (\<forall>i \<in> set ms. take g (row i) = take g (row (hd ms)))"

definition out_ok ::
  "(node_id \<Rightarrow> string) \<Rightarrow> agg_spec \<Rightarrow> value_table \<Rightarrow> value_table \<Rightarrow> (nat \<Rightarrow> handle list) \<Rightarrow> tier list \<Rightarrow> nat list \<Rightarrow>
   nat list \<Rightarrow> handle list \<times> tier \<times> nat \<Rightarrow> bool" where
  "out_ok render spec t t' row levels heights ms out \<longleftrightarrow>
     length (fst out) = length (asp_out_order spec) \<and> (\<forall>h \<in> set (fst out). h < vt_len t') \<and>
     group_means render spec (value_row t (take (asp_group spec) (row (hd ms)))) (value_row t ` row ` set ms)
       ((!) levels ` set ms) ((!) heights ` set ms) (value_row t' (fst out), snd out)"

lemma group_key_grown:
  assumes g: "grown t t'" and ok: "group_ok t width row k ms"
  shows "value_row t' (take k (row (hd ms))) = value_row t (take k (row (hd ms)))"
proof (rule value_row_grown [OF g])
  have "hd ms \<in> set ms" using ok by (simp add: group_ok_def)
  then have "\<forall>h \<in> set (row (hd ms)). h < vt_len t" using ok by (auto simp: group_ok_def rows_in_def)
  then show "\<forall>h \<in> set (take k (row (hd ms))). h < vt_len t" by (auto dest: in_set_takeD)
qed

lemma groups_spec:
  assumes "table_ready render t" and "\<forall>ms \<in> set groups. group_ok t width row (asp_group spec) ms"
    and fit: "ops_fit width (asp_ops spec)" "cols_fit spec" "asp_group spec \<le> width"
  shows "\<exists>r t'. agg_groups spec row levels heights (by_rendered render) pred groups out t = Some (r, t') \<and> table_ready render t' \<and> grown t t' \<and>
    (case r of
       Inr out' \<Rightarrow> \<exists>outs. ao_rows out' = ao_rows out @ concat (map fst outs) \<and> ao_levels out' = ao_levels out @ map (fst \<circ> snd) outs \<and>
         ao_heights out' = ao_heights out @ map (snd \<circ> snd) outs \<and> list_all2 (out_ok render spec t t' row levels heights) groups outs
     | Inl e \<Rightarrow> (\<exists>m. e = EType pred m) \<and>
         (\<exists>ms \<in> set groups. \<exists>(op, cols) \<in> set (asp_ops spec). agg_fails op cols (value_row t ` row ` set ms)))"
  using assms(1,2)
proof (induction groups arbitrary: t out)
  case Nil
  then show ?case by (auto intro!: exI [of _ "[]"])
next
  case (Cons ms groups)
  have ok: "group_ok t width row (asp_group spec) ms" using Cons.prems(2) by simp
  then have ms: "rows_in t width row ms" "ms \<noteq> []" "length ms < 2 ^ 63"
    "\<forall>i \<in> set ms. take (asp_group spec) (row i) = take (asp_group spec) (row (hd ms))" unfolding group_ok_def by blast+
  let ?R = "value_row t ` row ` set ms" and ?key = "take (asp_group spec) (row (hd ms))"
  obtain r t1 where r: "agg_results (asp_ops spec) ms row t (by_rendered render) pred [] = Some (r, t1)" "table_ready render t1" "grown t t1"
    "case r of
       Inr hs \<Rightarrow> \<exists>hs'. hs = [] @ hs' \<and> (\<forall>h \<in> set hs'. h < vt_len t1) \<and>
         list_all2 (\<lambda>(op, cols) v. agg_means render op cols ?R v) (asp_ops spec) (map (vt_get t1) hs')
     | Inl e \<Rightarrow> (\<exists>m. e = EType pred m) \<and> (\<exists>(op, cols) \<in> set (asp_ops spec). agg_fails op cols ?R)"
    using results_spec [OF Cons.prems(1) ms(1-3) fit(1) refl, of pred "[]"] by (elim exE conjE) (rule that)
  show ?case
  proof (cases r)
    case (Inl e)
    then show ?thesis using r by auto
  next
    case (Inr hs)
    then have hs: "\<forall>h \<in> set hs. h < vt_len t1" "list_all2 (\<lambda>(op, cols) v. agg_means render op cols ?R v) (asp_ops spec) (map (vt_get t1) hs)"
      using r(4) by auto
    let ?row = "agg_head_row (asp_out_order spec) ?key hs" and ?level = "fold (\<lambda>i tier. tier_weakest tier (levels ! i)) ms Fact"
      and ?height = "min (2 ^ 32 - 1) (fold max (map (\<lambda>i. heights ! i) ms) 0 + 1)"
    let ?out = "\<lparr>ao_rows = ao_rows out @ ?row, ao_levels = ao_levels out @ [?level], ao_heights = ao_heights out @ [?height]\<rparr>"
    have rest: "\<forall>ms \<in> set groups. group_ok t1 width row (asp_group spec) ms"
      using Cons.prems(2) rows_in_grown [OF r(3)] unfolding group_ok_def by (metis list.set_intros(2))
    obtain r' t' where r': "agg_groups spec row levels heights (by_rendered render) pred groups ?out t1 = Some (r', t')" "table_ready render t'" "grown t1 t'"
      "case r' of
         Inr out' \<Rightarrow> \<exists>outs. ao_rows out' = ao_rows ?out @ concat (map fst outs) \<and> ao_levels out' = ao_levels ?out @ map (fst \<circ> snd) outs \<and>
           ao_heights out' = ao_heights ?out @ map (snd \<circ> snd) outs \<and> list_all2 (out_ok render spec t1 t' row levels heights) groups outs
       | Inl e \<Rightarrow> (\<exists>m. e = EType pred m) \<and>
           (\<exists>ms \<in> set groups. \<exists>(op, cols) \<in> set (asp_ops spec). agg_fails op cols (value_row t1 ` row ` set ms))"
      using Cons.IH [OF r(2) rest, of ?out] by (elim exE conjE) (rule that)
    have run: "agg_groups spec row levels heights (by_rendered render) pred (ms # groups) out t = Some (r', t')"
      using r(1) Inr r'(1) by simp
    have g: "grown t t'" using r(3) r'(3) by (rule grown_trans)
    have same: "value_row t1 ` row ` set ms' = value_row t ` row ` set ms'" "value_row t1 (take (asp_group spec) (row (hd ms'))) = value_row t (take (asp_group spec) (row (hd ms')))"
      if "ms' \<in> set groups" for ms'
    proof -
      have ok': "group_ok t width row (asp_group spec) ms'" using Cons.prems(2) that by simp
      show "value_row t1 ` row ` set ms' = value_row t ` row ` set ms'"
        using value_rows_grown [OF r(3)] ok' unfolding group_ok_def by blast
      show "value_row t1 (take (asp_group spec) (row (hd ms'))) = value_row t (take (asp_group spec) (row (hd ms')))"
        by (rule group_key_grown [OF r(3) ok'])
    qed
    show ?thesis
    proof (cases r')
      case (Inl e)
      then have "\<exists>ms \<in> set (ms # groups). \<exists>(op, cols) \<in> set (asp_ops spec). agg_fails op cols (value_row t ` row ` set ms)"
        using r'(4) same(1) by fastforce
      then show ?thesis using run r'(2,4) g Inl by auto
    next
      case out': (Inr out')
      then obtain outs where outs: "ao_rows out' = ao_rows ?out @ concat (map fst outs)" "ao_levels out' = ao_levels ?out @ map (fst \<circ> snd) outs"
        "ao_heights out' = ao_heights ?out @ map (snd \<circ> snd) outs" "list_all2 (out_ok render spec t1 t' row levels heights) groups outs"
        using r'(4) by auto
      have keyv: "\<forall>h \<in> set ?key. h < vt_len t1"
      proof -
        have "rows_in t1 width row ms" by (rule rows_in_grown [OF r(3) ms(1)])
        then show ?thesis using ms(2) by (auto simp: rows_in_def dest!: in_set_takeD)
      qed
      have "length ?key = asp_group spec" using ms(1,2) fit(3) by (simp add: rows_in_def)
      moreover have "length hs = length (asp_ops spec)" using list_all2_lengthD [OF hs(2)] by simp
      ultimately have row1: "\<forall>h \<in> set ?row. h < vt_len t1" by (rule head_row_valid [OF keyv hs(1) _ _ fit(2)])
      then have row': "value_row t' ?row = value_row t1 ?row" "\<forall>h \<in> set ?row. h < vt_len t'"
        using value_row_grown [OF r'(3)] grown_get [OF r'(3)] by auto
      have "group_means render spec (value_row t1 ?key) ?R ((!) levels ` set ms) ((!) heights ` set ms) (value_row t1 ?row, ?level, ?height)"
        by (rule group_row [OF r(2) rows_in_grown [OF r(3) ms(1)] ms(2) fit(3,2) ms(4) hs(2)])
      then have head: "out_ok render spec t t' row levels heights ms (?row, ?level, ?height)"
        using row' group_key_grown [OF r(3) ok] by (simp add: out_ok_def agg_head_row_def)
      have "list_all2 (out_ok render spec t t' row levels heights) groups outs"
        using outs(4) by (rule list.rel_mono_strong) (simp add: out_ok_def same)
      then have "list_all2 (out_ok render spec t t' row levels heights) (ms # groups) ((?row, ?level, ?height) # outs)" using head by simp
      moreover have "ao_rows out' = ao_rows out @ concat (map fst ((?row, ?level, ?height) # outs))"
        "ao_levels out' = ao_levels out @ map (fst \<circ> snd) ((?row, ?level, ?height) # outs)"
        "ao_heights out' = ao_heights out @ map (snd \<circ> snd) ((?row, ?level, ?height) # outs)" using outs(1-3) by simp_all
      ultimately show ?thesis
        by (intro exI [of _ r'] exI [of _ t'] conjI run r'(2) g, unfold out' sum.case) (intro exI conjI)
    qed
  qed
qed

end
