(* ===== verification/Aggregated.thy ===== *)
theory Aggregated
  imports AggregateFacts
begin

text \<open>
  What \<open>aggregate\<close> returns, \<open>rules/src/aggregate.rs\<close>: duplicate bindings collapse to their best level and
  height, each group of the distinct ones gives one row, and only sums fail.
\<close>

section \<open>The kept bindings\<close>

lemma dedup_least:
  "sorted (map (\<lambda>i. (row i, key i)) ms) \<Longrightarrow> i \<in> set (dedup_rows row ms) \<Longrightarrow> j \<in> set ms \<Longrightarrow> row j = row i \<Longrightarrow> key i \<le> key j"
  for key :: "nat \<Rightarrow> 'k :: linorder"
proof (induction row ms arbitrary: j rule: dedup_rows.induct)
  case (1 row a b ms)
  have head: "(row a, key a) \<le> (row x, key x)" if "x \<in> set (b # ms)" for x using 1(3) that by auto
  show ?case
  proof (cases "row a = row b")
    case True
    have srt: "sorted (map (\<lambda>i. (row i, key i)) (a # ms))" and i: "i \<in> set (dedup_rows row (a # ms))" using 1(3,4) True by simp_all
    note IH = 1(1) [OF True srt i]
    show ?thesis
    proof (cases "j = b")
      case j: True
      then have "key i \<le> key a" using IH [of a] 1(6) True by simp
      moreover have "key a \<le> key b" using head [of b] True by simp
      ultimately show ?thesis using j by simp
    qed (use IH [of j] 1(5,6) in auto)
  next
    case False
    have srt: "sorted (map (\<lambda>i. (row i, key i)) (b # ms))" using 1(3) by simp
    consider "i = a" | "i \<in> set (dedup_rows row (b # ms))" using 1(4) False by auto
    then show ?thesis
    proof cases
      case 1
      then show ?thesis using head [of j] \<open>j \<in> set (a # b # ms)\<close> \<open>row j = row i\<close> by auto
    next
      case 2
      have "j \<noteq> a"
      proof
        assume "j = a"
        have "i \<in> set (b # ms)" using 2 set_dedup_rows by blast
        then have "(row b, key b) \<le> (row i, key i)" using srt by auto
        moreover have "row a < row b" using head [of b] False by auto
        ultimately show False using \<open>row j = row i\<close> \<open>j = a\<close> by auto
      qed
      then show ?thesis using 1(2) [OF False srt 2] \<open>j \<in> set (a # b # ms)\<close> \<open>row j = row i\<close> by auto
    qed
  qed
qed auto

text \<open>The bindings as values, and those that no binding of the same row betters.\<close>

definition bindings_of :: "value_table \<Rightarrow> handle list \<Rightarrow> nat \<Rightarrow> tier list \<Rightarrow> nat list \<Rightarrow> (rvalue list \<times> tier \<times> nat) set" where
  "bindings_of t bindings width levels heights =
     (\<lambda>i. (value_row t (rows_get bindings width i), levels ! i, heights ! i)) ` {..<length levels}"

definition best_bindings :: "(rvalue list \<times> tier \<times> nat) set \<Rightarrow> (rvalue list \<times> tier \<times> nat) set" where
  "best_bindings B = {b \<in> B. \<forall>b' \<in> B. fst b' = fst b \<longrightarrow> snd b \<le> snd b'}"

lemma value_row_inj:
  "table_ready render t \<Longrightarrow> \<forall>h \<in> set a. h < vt_len t \<Longrightarrow> \<forall>h \<in> set b. h < vt_len t \<Longrightarrow> value_row t a = value_row t b \<longleftrightarrow> a = b"
proof
  assume t: "table_ready render t" and ab: "\<forall>h \<in> set a. h < vt_len t" "\<forall>h \<in> set b. h < vt_len t"
  assume eq: "value_row t a = value_row t b"
  have "inj_on (vt_get t) (set a \<union> set b)" using ab get_inj [OF t] by (auto intro!: inj_onI)
  then show "a = b" using eq inj_on_map_eq_map unfolding value_row_def by blast
qed simp

definition agg_order :: "handle list \<Rightarrow> nat \<Rightarrow> tier list \<Rightarrow> nat list \<Rightarrow> nat list" where
  "agg_order bindings width levels heights =
     dedup_rows (rows_get bindings width) (sort_key (\<lambda>i. (rows_get bindings width i, levels ! i, heights ! i)) [0..<length levels])"

lemma order_facts:
  fixes bindings width levels heights
  defines "row \<equiv> rows_get bindings width" and "order \<equiv> agg_order bindings width levels heights"
  shows "set order \<subseteq> {..<length levels}" and "distinct order" and "sorted (map row order)" and "row ` set order = row ` {..<length levels}"
    and "i \<in> set order \<Longrightarrow> j < length levels \<Longrightarrow> row j = row i \<Longrightarrow> (levels ! i, heights ! i) \<le> (levels ! j, heights ! j)"
proof -
  let ?key = "\<lambda>i. (row i, levels ! i, heights ! i)"
  have srt: "sorted (map ?key (sort_key ?key [0..<length levels]))" by simp
  have fst: "map row xs = map fst (map ?key xs)" for xs by simp
  have "sorted (map row (sort_key ?key [0..<length levels]))"
  proof -
    have "sorted xs \<Longrightarrow> sorted (map fst xs)" for xs :: "(handle list \<times> tier \<times> nat) list"
      by (induction xs) (auto simp: less_eq_prod_def)
    then show ?thesis unfolding fst using srt by blast
  qed
  from sorted_dedup_rows [OF this] have s: "sorted_wrt (<) (map row order)" unfolding order_def agg_order_def row_def .
  then have "distinct (map row order)" "sorted (map row order)" by (simp_all add: strict_sorted_iff)
  then show "distinct order" "sorted (map row order)" by (simp_all add: distinct_map)
  show "set order \<subseteq> {..<length levels}"
    using set_dedup_rows [of row "sort_key ?key [0..<length levels]"] by (auto simp: order_def agg_order_def row_def)
  show "row ` set order = row ` {..<length levels}"
    by (simp add: order_def agg_order_def row_def image_dedup atLeast_upt)
  show "(levels ! i, heights ! i) \<le> (levels ! j, heights ! j)" if "i \<in> set order" "j < length levels" "row j = row i"
    using dedup_least [OF srt, of i j] that by (simp add: order_def agg_order_def row_def)
qed

lemma kept_order:
  assumes t: "table_ready render t" and valid: "\<forall>i < length levels. \<forall>h \<in> set (rows_get bindings width i). h < vt_len t"
  shows "(\<lambda>i. (value_row t (rows_get bindings width i), levels ! i, heights ! i)) ` set (agg_order bindings width levels heights) =
    best_bindings (bindings_of t bindings width levels heights)"
proof (intro set_eqI iffI)
  let ?row = "rows_get bindings width" and ?order = "agg_order bindings width levels heights"
  let ?b = "\<lambda>i. (value_row t (?row i), levels ! i, heights ! i)"
  note facts = order_facts [where bindings = bindings and width = width and levels = levels and heights = heights]
  have same: "value_row t (?row i) = value_row t (?row j) \<longleftrightarrow> ?row i = ?row j" if "i < length levels" "j < length levels" for i j
    using value_row_inj [OF t] valid that by blast
  {
    fix b assume "b \<in> ?b ` set ?order"
    then obtain i where i: "i \<in> set ?order" "b = ?b i" by blast
    then have n: "i < length levels" using facts(1) by auto
    then show "b \<in> best_bindings (bindings_of t bindings width levels heights)"
      using facts(5) [of i] i same by (auto simp: best_bindings_def bindings_of_def)
  next
    fix b assume b: "b \<in> best_bindings (bindings_of t bindings width levels heights)"
    then obtain j where j: "j < length levels" "b = ?b j" by (auto simp: best_bindings_def bindings_of_def)
    then have "?row j \<in> ?row ` set ?order" using facts(4) by auto
    then obtain i where i: "i \<in> set ?order" "?row j = ?row i" by blast
    then have n: "i < length levels" using facts(1) by auto
    have "?b i \<in> bindings_of t bindings width levels heights" using n by (auto simp: bindings_of_def)
    then have "snd b \<le> snd (?b i)" using b i(2) j(2) by (auto simp: best_bindings_def)
    moreover have "snd (?b i) \<le> snd b" using facts(5) [of i j] i j by simp
    ultimately have "snd b = snd (?b i)" by (rule antisym)
    then have "b = ?b i" using i(2) j(2) by (simp add: prod_eq_iff)
    then show "b \<in> ?b ` set ?order" using i(1) by blast
  }
qed

section \<open>The groups\<close>

lemma first_error_None: "first_error f xs = None \<longleftrightarrow> (\<forall>x \<in> set xs. f x = None)"
  by (induction xs) (auto split: option.splits)

lemma check_passes:
  assumes "agg_check spec width cells n n_heights pred = None"
  shows "n_heights = n" and "cells = n * width" and "asp_group spec \<le> width" and "ops_fit width (asp_ops spec)" and "cols_fit spec"
proof -
  have c: "n_heights = n" "cells = n * width" "asp_group spec \<le> width"
    "\<forall>x \<in> set (asp_ops spec). agg_check_op width pred x = None" "\<forall>c \<in> set (asp_out_order spec). agg_check_col spec pred c = None"
    using assms by (auto simp: agg_check_def first_error_None split: if_splits option.splits)
  show "n_heights = n" "cells = n * width" "asp_group spec \<le> width" by (fact c)+
  show "ops_fit width (asp_ops spec)"
    unfolding ops_fit_def
  proof clarify
    fix op cols assume "(op, cols) \<in> set (asp_ops spec)"
    then have "agg_check_op width pred (op, cols) = None" using c(4) by blast
    then show "(\<forall>c \<in> set cols. c < width) \<and> (op = AggCount \<or> length cols = 1)"
      by (auto simp: agg_check_op_def find_None_iff not_le split: if_splits option.splits)
  qed
  show "cols_fit spec" unfolding cols_fit_def
  proof
    fix x assume "x \<in> set (asp_out_order spec)"
    then have "agg_check_col spec pred x = None" using c(5) by blast
    then show "case x of OutGroup i \<Rightarrow> i < asp_group spec | OutAgg j \<Rightarrow> j < length (asp_ops spec)"
      by (simp add: agg_check_col_def split: if_splits)
  qed
qed

lemma rows_get_facts:
  assumes "length data = n * width" and "i < n"
  shows "length (rows_get data width i) = width" and "set (rows_get data width i) \<subseteq> set data"
proof -
  have "i * width + width \<le> n * width" using assms(2) by (metis Suc_leI add.commute mult_Suc mult_le_mono1)
  then have "width \<le> n * width - i * width" by linarith
  then show "length (rows_get data width i) = width" using assms(1) by (simp add: rows_get_def)
  show "set (rows_get data width i) \<subseteq> set data" by (auto simp: rows_get_def dest!: in_set_takeD in_set_dropD)
qed

lemma group_slices:
  assumes t: "table_ready render t" and check: "agg_check spec width (length bindings) (length levels) (length heights) pred = None"
    and valid: "\<forall>h \<in> set bindings. h < vt_len t" and small: "length levels < 2 ^ 63"
  defines "row \<equiv> rows_get bindings width" and "order \<equiv> agg_order bindings width levels heights" and "g \<equiv> asp_group spec"
    and "B \<equiv> bindings_of t bindings width levels heights"
  shows "\<exists>ks. distinct (map (value_row t) ks) \<and> set (map (value_row t) ks) = take g ` fst ` B \<and>
    chunk_by (\<lambda>a b. take g (row a) = take g (row b)) order = map (\<lambda>k. filter (\<lambda>i. take g (row i) = k) order) ks \<and>
    (\<forall>k \<in> set ks. let ms = filter (\<lambda>i. take g (row i) = k) order; G = {b \<in> best_bindings B. take g (fst b) = value_row t k} in
       group_ok t width row g ms \<and> take g (row (hd ms)) = k \<and>
       value_row t ` row ` set ms = {r \<in> fst ` B. take g r = value_row t k} \<and>
       (!) levels ` set ms = (\<lambda>b. fst (snd b)) ` G \<and> (!) heights ` set ms = (\<lambda>b. snd (snd b)) ` G)"
proof -
  let ?f = "\<lambda>i. take g (row i)" and ?b = "\<lambda>i. (value_row t (row i), levels ! i, heights ! i)"
  define ks where "ks = remdups_adj (map ?f order)"
  note facts = order_facts [where bindings = bindings and width = width and levels = levels and heights = heights, folded row_def order_def]
  have n: "length bindings = length levels * width" using check_passes(2) [OF check] .
  have rows: "length (row i) = width" "\<forall>h \<in> set (row i). h < vt_len t" if "i < length levels" for i
    using rows_get_facts [OF n that] valid unfolding row_def by blast+
  have kept: "?b ` set order = best_bindings B"
    unfolding row_def order_def B_def by (rule kept_order [OF t]) (use rows(2) row_def in blast)
  have tv: "take g (value_row t r) = value_row t (take g r)" for r by (simp add: value_row_def take_map)
  have valid': "\<forall>h \<in> set (?f i). h < vt_len t" if "i < length levels" for i using rows(2) [OF that] by (auto dest: in_set_takeD)
  have fstB: "fst ` B = value_row t ` row ` set order" unfolding facts(4) by (simp add: B_def bindings_of_def row_def image_image)
  have sorted: "sorted (map ?f order)"
  proof -
    have "sorted_wrt (\<lambda>a b. take g (row a) \<le> take g (row b)) order"
      using facts(3) unfolding sorted_map by (rule sorted_wrt_mono_rel [rotated]) (rule take_mono_lex)
    then show ?thesis by (simp add: sorted_map)
  qed
  have ks: "distinct ks" "set ks = ?f ` set order" using distinct_dedup [OF sorted] by (simp_all add: ks_def)
  have "distinct (map (value_row t) ks)"
  proof -
    have "inj_on (value_row t) (set ks)"
      unfolding ks(2) using value_row_inj [OF t] valid' facts(1) by (auto intro!: inj_onI)
    then show ?thesis using ks(1) by (simp add: distinct_map)
  qed
  moreover have "set (map (value_row t) ks) = take g ` fst ` B" by (simp add: fstB ks(2) image_image tv)
  moreover have "chunk_by (\<lambda>a b. ?f a = ?f b) order = map (\<lambda>k. filter (\<lambda>i. ?f i = k) order) ks"
    unfolding ks_def by (rule chunk_by_key [OF sorted])
  moreover have "let ms = filter (\<lambda>i. ?f i = k) order; G = {b \<in> best_bindings B. take g (fst b) = value_row t k} in
      group_ok t width row g ms \<and> take g (row (hd ms)) = k \<and> value_row t ` row ` set ms = {r \<in> fst ` B. take g r = value_row t k} \<and>
      (!) levels ` set ms = (\<lambda>b. fst (snd b)) ` G \<and> (!) heights ` set ms = (\<lambda>b. snd (snd b)) ` G" if k: "k \<in> set ks" for k
  proof -
    let ?ms = "filter (\<lambda>i. ?f i = k) order" and ?G = "{b \<in> best_bindings B. take g (fst b) = value_row t k}"
    have ne: "?ms \<noteq> []" using k unfolding ks(2) by (auto simp: filter_empty_conv)
    then have hd: "hd ?ms \<in> set ?ms" by (rule hd_in_set)
    then have key: "take g (row (hd ?ms)) = k" by simp
    obtain i0 where i0: "i0 \<in> set order" "?f i0 = k" using k unfolding ks(2) by blast
    have iff: "value_row t (?f i) = value_row t k \<longleftrightarrow> ?f i = k" if "i \<in> set order" for i
      using value_row_inj [OF t] valid' facts(1) that i0 by blast
    have "length order \<le> length levels" using card_mono [OF _ facts(1)] facts(2) by (simp add: distinct_card)
    then have "length ?ms < 2 ^ 63" using small length_filter_le [of "\<lambda>i. ?f i = k" order] by linarith
    moreover have "rows_in t width row ?ms" using rows facts(1) by (auto simp: rows_in_def)
    ultimately have "group_ok t width row g ?ms" unfolding group_ok_def key using ne by simp
    moreover have "value_row t ` row ` set ?ms = {r \<in> fst ` B. take g r = value_row t k}"
      unfolding fstB using iff by (auto simp: tv)
    moreover have "?G = ?b ` set ?ms" unfolding kept [symmetric] using iff by (auto simp: tv)
    ultimately show ?thesis using key by (simp add: image_image)
  qed
  ultimately show ?thesis by blast
qed

section \<open>The outcome\<close>

lemma aggregate_outcome:
  assumes t: "table_ready render t" and check: "agg_check spec width (length bindings) (length levels) (length heights) pred = None"
    and valid: "\<forall>h \<in> set bindings. h < vt_len t" and small: "length levels < 2 ^ 63"
  defines "B \<equiv> bindings_of t bindings width levels heights" and "g \<equiv> asp_group spec"
  shows "\<exists>r t'. aggregate_rows bindings width levels heights spec t (by_rendered render) pred = Some (r, t') \<and> table_ready render t' \<and> grown t t' \<and>
    (case r of
       Inr out \<Rightarrow> \<exists>ks rows. distinct ks \<and> set ks = take g ` fst ` B \<and> ao_rows out = concat rows \<and>
         length rows = length ks \<and> length (ao_levels out) = length ks \<and> length (ao_heights out) = length ks \<and>
         (\<forall>j < length ks. length (rows ! j) = length (asp_out_order spec) \<and>
            group_means render spec (ks ! j) {r \<in> fst ` B. take g r = ks ! j}
              ((\<lambda>b. fst (snd b)) ` {b \<in> best_bindings B. take g (fst b) = ks ! j})
              ((\<lambda>b. snd (snd b)) ` {b \<in> best_bindings B. take g (fst b) = ks ! j})
              (value_row t' (rows ! j), ao_levels out ! j, ao_heights out ! j))
     | Inl e \<Rightarrow> (\<exists>m. e = EType pred m) \<and>
         (\<exists>k \<in> take g ` fst ` B. \<exists>(op, cols) \<in> set (asp_ops spec). agg_fails op cols {r \<in> fst ` B. take g r = k}))"
proof -
  let ?row = "rows_get bindings width" and ?order = "agg_order bindings width levels heights"
  note fit = check_passes(3-5) [OF check]
  obtain ks where ks: "distinct (map (value_row t) ks)" "set (map (value_row t) ks) = take g ` fst ` B"
    "chunk_by (\<lambda>a b. take g (?row a) = take g (?row b)) ?order = map (\<lambda>k. filter (\<lambda>i. take g (?row i) = k) ?order) ks"
    and each: "\<forall>k \<in> set ks. let ms = filter (\<lambda>i. take g (?row i) = k) ?order; G = {b \<in> best_bindings B. take g (fst b) = value_row t k} in
       group_ok t width ?row g ms \<and> take g (?row (hd ms)) = k \<and>
       value_row t ` ?row ` set ms = {r \<in> fst ` B. take g r = value_row t k} \<and>
       (!) levels ` set ms = (\<lambda>b. fst (snd b)) ` G \<and> (!) heights ` set ms = (\<lambda>b. snd (snd b)) ` G"
    using group_slices [OF t check valid small, folded B_def g_def] by (elim exE conjE) (rule that)
  let ?ms = "\<lambda>k. filter (\<lambda>i. take g (?row i) = k) ?order"
  let ?G = "\<lambda>k. {b \<in> best_bindings B. take g (fst b) = value_row t k}"
  have group: "group_ok t width ?row g (?ms k)" "take g (?row (hd (?ms k))) = k"
    "value_row t ` ?row ` set (?ms k) = {r \<in> fst ` B. take g r = value_row t k}"
    "(!) levels ` set (?ms k) = (\<lambda>b. fst (snd b)) ` ?G k" "(!) heights ` set (?ms k) = (\<lambda>b. snd (snd b)) ` ?G k" if "k \<in> set ks" for k
    using bspec [OF each that] unfolding Let_def by - (elim conjE, assumption)+
  have run: "aggregate_rows bindings width levels heights spec t (by_rendered render) pred =
      agg_groups spec ?row levels heights (by_rendered render) pred (map ?ms ks) agg_output_default t"
    unfolding aggregate_rows_def check option.case Let_def agg_order_def [symmetric] g_def [symmetric] ks(3) ..
  have oks: "\<forall>ms \<in> set (map ?ms ks). group_ok t width ?row (asp_group spec) ms" using group(1) unfolding g_def by simp
  obtain r t' where r: "agg_groups spec ?row levels heights (by_rendered render) pred (map ?ms ks) agg_output_default t = Some (r, t')"
    "table_ready render t'" "grown t t'"
    "case r of
       Inr out' \<Rightarrow> \<exists>outs. ao_rows out' = ao_rows agg_output_default @ concat (map fst outs) \<and>
         ao_levels out' = ao_levels agg_output_default @ map (fst \<circ> snd) outs \<and>
         ao_heights out' = ao_heights agg_output_default @ map (snd \<circ> snd) outs \<and>
         list_all2 (out_ok render spec t t' ?row levels heights) (map ?ms ks) outs
     | Inl e \<Rightarrow> (\<exists>m. e = EType pred m) \<and>
         (\<exists>ms \<in> set (map ?ms ks). \<exists>(op, cols) \<in> set (asp_ops spec). agg_fails op cols (value_row t ` ?row ` set ms))"
    using groups_spec [OF t oks fit(2,3,1), of levels heights pred agg_output_default] by (elim exE conjE) (rule that)
  show ?thesis
  proof (cases r)
    case (Inl e)
    then obtain k op cols where k: "k \<in> set ks" "(op, cols) \<in> set (asp_ops spec)" "agg_fails op cols (value_row t ` ?row ` set (?ms k))"
      and e: "\<exists>m. e = EType pred m" using r(4) by auto
    have "agg_fails op cols {r \<in> fst ` B. take g r = value_row t k}" using k(3) unfolding group(3) [OF k(1)] .
    moreover have "value_row t k \<in> take g ` fst ` B" using k(1) unfolding ks(2) [symmetric] by simp
    ultimately have "\<exists>k \<in> take g ` fst ` B. \<exists>(op, cols) \<in> set (asp_ops spec). agg_fails op cols {r \<in> fst ` B. take g r = k}"
      using k(2) by blast
    then show ?thesis using run r(1-3) Inl e by simp
  next
    case (Inr out)
    then obtain outs where outs: "ao_rows out = concat (map fst outs)" "ao_levels out = map (fst \<circ> snd) outs" "ao_heights out = map (snd \<circ> snd) outs"
      "list_all2 (out_ok render spec t t' ?row levels heights) (map ?ms ks) outs"
      using r(4) by (auto simp: agg_output_default_def)
    have len: "length outs = length ks" using list_all2_lengthD [OF outs(4)] by simp
    have "length (map fst outs ! j) = length (asp_out_order spec) \<and>
        group_means render spec (map (value_row t) ks ! j) {r \<in> fst ` B. take g r = map (value_row t) ks ! j}
          ((\<lambda>b. fst (snd b)) ` {b \<in> best_bindings B. take g (fst b) = map (value_row t) ks ! j})
          ((\<lambda>b. snd (snd b)) ` {b \<in> best_bindings B. take g (fst b) = map (value_row t) ks ! j})
          (value_row t' (map fst outs ! j), ao_levels out ! j, ao_heights out ! j)" if j: "j < length ks" for j
    proof -
      have k: "ks ! j \<in> set ks" using j by simp
      have "out_ok render spec t t' ?row levels heights (?ms (ks ! j)) (outs ! j)"
        using list_all2_nthD [OF outs(4), of j] j by simp
      then have ok: "length (fst (outs ! j)) = length (asp_out_order spec)"
        "group_means render spec (value_row t (ks ! j)) {r \<in> fst ` B. take g r = value_row t (ks ! j)}
          ((\<lambda>b. fst (snd b)) ` ?G (ks ! j)) ((\<lambda>b. snd (snd b)) ` ?G (ks ! j)) (value_row t' (fst (outs ! j)), snd (outs ! j))"
        unfolding out_ok_def g_def [symmetric] group(2-5) [OF k] by blast+
      moreover have "map (value_row t) ks ! j = value_row t (ks ! j)" "map fst outs ! j = fst (outs ! j)"
        "ao_levels out ! j = fst (snd (outs ! j))" "ao_heights out ! j = snd (snd (outs ! j))" using j len outs(2,3) by simp_all
      ultimately show ?thesis by simp
    qed
    then have "\<exists>ks rows. distinct ks \<and> set ks = take g ` fst ` B \<and> ao_rows out = concat rows \<and>
         length rows = length ks \<and> length (ao_levels out) = length ks \<and> length (ao_heights out) = length ks \<and>
         (\<forall>j < length ks. length (rows ! j) = length (asp_out_order spec) \<and>
            group_means render spec (ks ! j) {r \<in> fst ` B. take g r = ks ! j}
              ((\<lambda>b. fst (snd b)) ` {b \<in> best_bindings B. take g (fst b) = ks ! j})
              ((\<lambda>b. snd (snd b)) ` {b \<in> best_bindings B. take g (fst b) = ks ! j})
              (value_row t' (rows ! j), ao_levels out ! j, ao_heights out ! j))"
      using ks(1,2) outs(1) len outs(2,3) by (intro exI [of _ "map (value_row t) ks"] exI [of _ "map fst outs"]) simp
    then show ?thesis using run r(1-3) Inr by simp
  qed
qed

text \<open>C5: an aggregate means its sets of values. Over any bindings whose handles the table holds, under a spec that
  fits them and the output order of the evaluator, \<open>aggregate\<close> returns, and the table keeps its values.
  When it succeeds there is one row per distinct group key; its ops are the number of distinct tuples, the
  exact sum of the distinct integers, the least and the greatest value over the group's rows, none of them
  depending on the handles; its level is the weakest among the group's bindings and its height one more
  than the highest (saturating), where duplicate bindings count once, at their best level and height. It
  fails only for a sum over something else than integers, or over integers of a group whose magnitudes
  together reach \<open>2 ^ 63\<close>.\<close>

theorem aggregate_means:
  assumes "table_ready render t" and "agg_check spec width (length bindings) (length levels) (length heights) pred = None"
    and "\<forall>h \<in> set bindings. h < vt_len t" and "length levels < 2 ^ 63"
  defines "B \<equiv> bindings_of t bindings width levels heights" and "g \<equiv> asp_group spec"
  shows "\<exists>r t'. aggregate_rows bindings width levels heights spec t (by_rendered render) pred = Some (r, t') \<and> table_ready render t' \<and> grown t t' \<and>
    (case r of
       Inr out \<Rightarrow> \<exists>ks rows. distinct ks \<and> set ks = take g ` fst ` B \<and> ao_rows out = concat rows \<and>
         length rows = length ks \<and> length (ao_levels out) = length ks \<and> length (ao_heights out) = length ks \<and>
         (\<forall>j < length ks. length (rows ! j) = length (asp_out_order spec) \<and>
            group_means render spec (ks ! j) {r \<in> fst ` B. take g r = ks ! j}
              ((\<lambda>b. fst (snd b)) ` {b \<in> best_bindings B. take g (fst b) = ks ! j})
              ((\<lambda>b. snd (snd b)) ` {b \<in> best_bindings B. take g (fst b) = ks ! j})
              (value_row t' (rows ! j), ao_levels out ! j, ao_heights out ! j))
     | Inl e \<Rightarrow> (\<exists>m. e = EType pred m) \<and>
         (\<exists>k \<in> take g ` fst ` B. \<exists>(op, cols) \<in> set (asp_ops spec). agg_fails op cols {r \<in> fst ` B. take g r = k}))"
  unfolding B_def g_def by (rule aggregate_outcome [OF assms(1-4)])

definition sum_spec :: agg_spec where
  "sum_spec = \<lparr>asp_group = 0, asp_ops = [(AggSum, [0]), (AggCount, [0])], asp_out_order = [OutAgg 0, OutAgg 1]\<rparr>"

theorem aggregate_means_witness:
  "\<exists>hs t r t'. intern_values [VInt 2, VInt 3, VInt 2] = Some (hs, t) \<and>
     aggregate_rows hs 1 [Fact, Derived, Derived] [0, 1, 4] sum_spec t (by_rendered (\<lambda>_. [])) [] = Some (r, t') \<and> table_ready (\<lambda>_. []) t'"
proof -
  obtain hs t where t: "intern_values [VInt 2, VInt 3, VInt 2] = Some (hs, t)" "table_ok t" "\<forall>h \<in> set hs. h < length (vt_data t)" "vt_rendered t = []"
    "map (\<lambda>h. vt_data t ! h) hs = [VInt 2, VInt 3, VInt 2]"
    using intern_values_spec [of "[VInt 2, VInt 3, VInt 2]"] by (elim exE conjE) (rule that)
  have "length hs = 3" using arg_cong [OF t(5), of length] by simp
  then have "agg_check sum_spec 1 (length hs) (length [Fact, Derived, Derived]) (length [0, 1, 4 :: nat]) [] = None"
    by (simp add: agg_check_def agg_check_op_def agg_check_col_def sum_spec_def)
  moreover have "table_ready (\<lambda>_. []) t" using t(2,4) by (simp add: table_ready_def cache_ok_def)
  ultimately show ?thesis using aggregate_means [of "\<lambda>_. []" t sum_spec 1 hs "[Fact, Derived, Derived]" "[0, 1, 4]" "[]"] t(1,3)
    by (fastforce simp: vt_len_def)
qed

text \<open>
  The values of a sum are added in handle order, so a sum that fits can fail: whether it does depends on the
  order its values were interned in.
\<close>

definition summed :: "64 word list \<Rightarrow> 64 word option" where
  "summed xs =
     (let t = value_table_new\<lparr>vt_data := map VInt xs\<rparr>; row = rows_get [0..<length xs] 1
      in case agg_sum 0 row [] t (agg_distinct [0..<length xs] [0] row) 0 of Inl e \<Rightarrow> None | Inr s \<Rightarrow> Some s)"

lemma sums_depend_on_handle_order:
  "summed [0x7FFFFFFFFFFFFFFF, 1, -1] = None \<and> summed [0x7FFFFFFFFFFFFFFF, -1, 1] = Some 0x7FFFFFFFFFFFFFFF"
  by code_simp

end
