(* ===== verification/Spec2Isabelle.thy ===== *)
theory Spec2Isabelle
  imports Walks Classes Timeline MinHash Propagation Tiers Values RoundTrip RelationRounds WitnessCycle Stratified Aggregated
begin

text \<open>
  glia builds one graph of code (functions, routes, types, services, and the edges between them) from
  one repository or many, stores it, and answers questions over it. This development models the
  domain-free core of the Rust workspace: the graph types (\<open>core\<close>), the graph algorithms every
  structural answer is computed with (\<open>activation/src/algo\<close>), and the front end and the storage of the
  Datalog rules engine (\<open>rules\<close>). Every definition is a translation of the code it names; pure
  functions are HOL functions, state is passed and returned, errors are values of a sum or an option.

  \<^bold>\<open>Conventions.\<close> A fixed-width integer whose overflow can be reached is a word (\<open>64 word\<close> weights and
  hashes, \<open>128 word\<close> products); an index, a length or an id that is only compared is a natural. A
  \<open>Vec\<close> updated by index is a list with \<open>xs[i := v]\<close>, a \<open>BTreeMap\<close> the strictly ascending association
  list of \<open>OrdMap\<close> (its contract is the locale \<open>ordered_map\<close>), a hash map that is only looked up a HOL
  map. Rust's stable sort by a comparator is insertion sort (\<open>Prelude.sort_cmp\<close>), by a key \<open>sort_key\<close>;
  a stable and an unstable sort agree where the keys are distinct, and where they are not the lists
  sorted are of equal elements. Texts of the rules crate are lists of scalar values, positions count
  the bytes of their UTF-8 encoding (\<open>Utext\<close>). A loop bounded by the data is a total function with its
  measure; a loop that need not end is a \<open>partial_function\<close> into \<open>option\<close>, and that it ends is proved
  (the rejection loop of the generator, the probes of the slot index, the clauses and the recovery of
  the parser, the rounds of label propagation, the searches for cycles, Kahn's loop).
\<close>

section \<open>The theories\<close>

text \<open>
  \<^item> \<open>Prelude\<close>: id types, \<open>Ordering\<close> and comparators, \<open>binary_search_by\<close>, \<open>partition_point\<close>, dedup.
  \<^item> \<open>CoreGraph\<close>: \<open>core/src/lib.rs\<close>: cells, nodes, edges and \<open>canonical_edge_cmp\<close>, the one order every
    edge list is written in; sorting by it forgets the input order.
  \<^item> \<open>Adjacency\<close>: \<open>activation/src/algo/mod.rs\<close>: the counting sort \<open>csr\<close> and the index \<open>build_capped\<close> of a
    graph source; its rows are a scan of the kept edges.
  \<^item> \<open>Reach\<close>, \<open>Walks\<close>: \<open>reach.rs\<close>: the queue walk, the levelled walk, reachability forward and the
    early-exit walk backward. \<open>Reach\<close> holds the loops and their invariants, \<open>Walks\<close> what they mean: hop
    distances, closures and first levels over the kept edges.
  \<^item> \<open>Cycles\<close>, \<open>Tarjan\<close>, \<open>WitnessCycle\<close>: \<open>cycles.rs\<close>: Tarjan's search with its explicit frame stack and the
    breadth-first witness cycle. \<open>Tarjan\<close> holds the invariant of the search (the locale \<open>tarjan_graph\<close>) and
    the components it finds, \<open>WitnessCycle\<close> that the witness is a shortest one.
  \<^item> \<open>Classes\<close>: \<open>classes.rs\<close>: union-find with path compression, identity classes and the quotient graph.
  \<^item> \<open>OrdMap\<close>, \<open>Delta\<close>, \<open>Timeline\<close>: \<open>delta.rs\<close> and \<open>timeline.rs\<close>: the difference of two snapshots under
    the moves it accepts, and the validity spans a run of snapshots leaves. A timeline pushes deltas,
    so its span count is proved from the patch lemmas of \<open>Delta\<close>.
  \<^item> \<open>Rng\<close>, \<open>Exact\<close>, \<open>WGraph\<close>, \<open>WQuotient\<close>, \<open>Labels\<close>, \<open>Propagation\<close>, \<open>Chunks\<close>: \<open>community.rs\<close>: the seeded generator and its
    shuffle, 256-bit gains, the weighted undirected view and its contraction, the relabellings, label
    propagation and the integer part of modularity. The views a caller can hold are \<open>WGraph.constructed\<close>.
  \<^item> \<open>MinHash\<close>: \<open>minhash.rs\<close>: signatures, LSH candidates and the exact Jaccard counts.
  \<^item> \<open>Tiers\<close>: the evidence tiers of \<open>activation/src/profile.rs\<close> and the id blocks of \<open>core/src/ids.rs\<close>.
  \<^item> \<open>Values\<close>: \<open>rules/src/value.rs\<close>: the interner (open addressing, growth) and the order of handles. The
    contract it offers the engine is the locale \<open>interner\<close>, interpreted on the code's table.
  \<^item> \<open>Utext\<close>, \<open>Diag\<close>, \<open>Ir\<close>, \<open>Lexer\<close>, \<open>Parser\<close>: \<open>rules/src/diag.rs\<close>, \<open>ir.rs\<close>, \<open>lexer.rs\<close>, \<open>parser.rs\<close>: spans and
    diagnostics with their printed text, the rule IR with its display and catalog, the shared lexer and
    the Datalog parser with its error recovery. \<open>ParseRuns\<close> shows that parsing returns; \<open>LexText\<close> and
    \<open>RoundTrip\<close> that the canonical text of a program lexes and parses back to it, given identifier names
    (\<open>names_ok\<close>) and rules the grammar has (\<open>grammatical\<close>); rules it has not are evaluated there too.
  \<^item> \<open>Batch\<close>, \<open>BatchFacts\<close>, \<open>RelStore\<close>, \<open>RelationRuns\<close>, \<open>RelationReads\<close>, \<open>RelationRounds\<close>: \<open>rules/src/relation.rs\<close>, the
    relation store of semi-naive evaluation: sorted batches with uniform or per-row provenance and
    lowered heights; per index three levels of stable runs and a recent batch; loads, rounds, advances,
    seals; scans, lookups and galloping cursors. \<open>RelationRuns\<close> holds the invariant of the states
    reached (\<open>rel_reach\<close>), the other two what reads answer and what rounds add.
  \<^item> \<open>Strata\<close>, \<open>StrataRuns\<close>, \<open>Kahn\<close>, \<open>Stratified\<close>: \<open>rules/src/strata.rs\<close>: the predicates of a program become a
    graph source, the index and Tarjan's search of \<open>activation\<close> give its components, and Kahn's loop
    orders them. \<open>StrataRuns\<close> reads the components back as predicates, \<open>Kahn\<close> runs the loop over the
    acyclic condensation, \<open>Stratified\<close> states the two outcomes.
  \<^item> \<open>Aggregate\<close>, \<open>AggregateFacts\<close>, \<open>Aggregated\<close>: \<open>rules/src/aggregate.rs\<close>: count, min, max and sum over the groups
    of an aggregate rule's bindings. The table of \<open>Values\<close> is passed through; \<open>AggregateFacts\<close> gives the
    meaning of an op on values (\<open>agg_means\<close>) and follows the groups, \<open>Aggregated\<close> states the outcome. The
    comparison is the evaluator's, the output order \<open>by_rendered\<close>.
\<close>

section \<open>What is proved\<close>

text \<open>
  Each property is stated over the definitions above, in the theory of the component it is about, and
  carries its number there (C1 to C40).

  \<^item> Reference meanings. Walks are compared with relation powers and the reflexive transitive closure of
    the kept edges; identity classes with the equivalence closure of the pairs; the split of
    communities with paths inside a community; cycles with mutual reachability and closed walks; aggregates with counts, sums and extrema of sets of values; LSH with shared buckets; a cursor with a filtered scan;
    gains with integers.
  \<^item> Refinements. The CSR index against a scan of the edges; the quotient against its class map; the
    interner against the set of its values; a round of the relation store against set union; the strata against
    the components and the reads of the program.
  \<^item> Invariants over every history. Union-find parents and sets; spans against snapshots; batches
    sorted, rows stored once, indexes alike and runs geometric in every reachable relation.
  \<^item> Termination and liveness. Draws, shuffles, label propagation, interning and parsing return on
    every input; so do Tarjan's search, the witness walk and Kahn's loop on every index that fits.
  \<^item> Round trips, errors and bounds. The canonical text of a program; ids and tiers; the registry
    check; the reads that cannot be stratified; the sums that fail; the saturating counts; at most \<open>log2 (n + 1)\<close> runs for \<open>n\<close> rows.

  A property with a hypothesis is followed by a witness: the theorem applied at a small concrete input.
\<close>

section \<open>Bounds, fuel and parameters\<close>

text \<open>
  \<^item> \<open>Adjacency.build_capped\<close> and the weighted view refuse more than a cap of nodes; the cap is an
    argument, and the code's is \<open>2^32 - 1\<close>.
  \<^item> The loops of union-find's \<open>find\<close> take the number of entries as fuel: an entry points to a smaller
    one or to itself, so no climb is longer (\<open>Classes.climb_fuel\<close>).
  \<^item> Label propagation runs at most the rounds its options allow, as the code does.
  \<^item> A handle of the interner is a natural number; it is below the number of distinct values, so the
    code's \<open>u32\<close> holds it, and it is not \<open>EMPTY_SLOT\<close>, while there are at most \<open>u32::MAX\<close> of them.
  \<^item> Saturating counters of the code saturate in the model; a theorem that reads them says at which bound.
  \<^item> \<open>DomainTables\<close> lookups (which category carries which) and the domain's registries are parameters
    (\<open>'reg catalog\<close>, the weight table of \<open>wg_from_source\<close>); the two hash functions of \<open>MinHasher\<close> and
    of the value interner are translated, not assumed.
\<close>

section \<open>Not modelled\<close>

text \<open>
  \<^item> Parsers and extractors of 18 languages (\<open>parsers\<close>), the graph builder and its resolvers (\<open>graph\<close>),
    the code and build domains: rules over tree-sitter trees, a third-party library whose trees this
    development cannot define.
  \<^item> \<open>engine\<close>, \<open>cli\<close>, \<open>py\<close>: the answers and their wording, file watching, caches, threads and input and output.
  \<^item> \<open>store\<close>, \<open>snapshots\<close>, \<open>doc-sources\<close>, \<open>embed\<close>, \<open>stamp\<close>, \<open>engram-export\<close>, \<open>projection-text\<close>: file
    formats over rkyv and serde, processes, models and prose.
  \<^item> Floating point: personalised PageRank, hub scores, link prediction, rank fusion and the last step of modularity.
  \<^item> In \<open>activation\<close>: minimum cuts, Leiden's moves, plans and passes. In \<open>rules\<close>: the analysis, magic
    sets, plans, the evaluator with its closures, explanation, and the GQL front end.
  \<^item> Memory accounting (\<open>heap_bytes\<close>), debug output, capacity hints and warnings on stderr.
\<close>

end
